(* ===== verification/TV_Prelude.thy ===== *)
theory TV_Prelude
  imports Main "HOL-Library.Word"
begin

text \<open>
  Shared vocabulary of the development: the machine integers of the Rust sources as words,
  byte buffers as lists of bytes, the crate's error type, and the generic facts about
  little-endian encodings, list windows and partial maps that the component theories use.
\<close>

unbundle bit_operations_syntax

section \<open>Collections of facts\<close>

named_theorems tv_bits \<open>bit-level characterisations of encodings\<close>
named_theorems tv_len \<open>lengths of encodings, buffers and tables\<close>
named_theorems tv_defs \<open>definitions of straight-line operations that proofs unfold\<close>

section \<open>Types\<close>

type_synonym u8 = "8 word"
type_synonym u16 = "16 word"
type_synonym u32 = "32 word"
type_synonym u64 = "64 word"
type_synonym bytes = "u8 list"

text \<open>
  The crate's \<open>Error\<close> enum (src/lib.rs). Messages are dropped; the variant is what callers
  match on.
\<close>

datatype error =
    Io | Json | DimMismatch | InvalidArg | Corruption | NotFound | Unsupported
  | Other | Tier | Protocol | Parse | Timeout

type_synonym 'a result = "error + 'a"

text \<open>The \<open>?\<close> operator: continue with the value or return the error.\<close>

definition bind_result :: "'a result \<Rightarrow> ('a \<Rightarrow> 'b result) \<Rightarrow> 'b result" where
  "bind_result r k = (case r of Inl e \<Rightarrow> Inl e | Inr x \<Rightarrow> k x)"

lemma bind_result_simps [simp]: "bind_result (Inl e) k = Inl e" "bind_result (Inr x) k = k x"
  by (simp_all add: bind_result_def)

lemma bind_result_Inr: "bind_result r k = Inr y \<longleftrightarrow> (\<exists>x. r = Inr x \<and> k x = Inr y)"
  by (cases r) simp_all

section \<open>Machine integers\<close>

lemma unat_of_nat_u64: "k < 2 ^ 64 \<Longrightarrow> unat (of_nat k :: u64) = k"
  by (simp add: unat_of_nat)

text \<open>\<open>i64 n\<close> is the wrapping conversion of a mathematical integer to \<open>i64\<close>.\<close>

definition i64 :: "int \<Rightarrow> int" where
  "i64 n = sint (word_of_int n :: u64)"

lemma i64_id: "- (2 ^ 63) \<le> n \<Longrightarrow> n < 2 ^ 63 \<Longrightarrow> i64 n = n"
  by (simp add: i64_def signed_of_int signed_take_bit_int_eq_self)

section \<open>Little-endian encodings\<close>

text \<open>\<open>to_le n w\<close> is the first \<open>n\<close> bytes of \<open>w.to_le_bytes()\<close>.\<close>

definition to_le :: "nat \<Rightarrow> 'a::len word \<Rightarrow> bytes" where
  "to_le n w = map (\<lambda>i. ucast (drop_bit (8 * i) w)) [0..<n]"

text \<open>\<open>from_le bs\<close> is \<open>uN::from_le_bytes(bs)\<close>, the width being that of the result type.\<close>

primrec from_le :: "bytes \<Rightarrow> 'a::len word" where
  "from_le [] = 0"
| "from_le (b # bs) = ucast b OR push_bit 8 (from_le bs)"

lemma length_to_le [simp, tv_len]: "length (to_le n w) = n"
  by (simp add: to_le_def)

lemma nth_to_le: "i < n \<Longrightarrow> to_le n w ! i = ucast (drop_bit (8 * i) w)"
  by (simp add: to_le_def)

lemma bit_from_le [tv_bits]:
  "bit (from_le bs :: 'a::len word) i \<longleftrightarrow>
     i < LENGTH('a) \<and> i div 8 < length bs \<and> bit (bs ! (i div 8)) (i mod 8)"
proof (induction bs arbitrary: i)
  case Nil
  then show ?case by simp
next
  case (Cons b bs)
  show ?case
  proof (cases "i < 8")
    case True
    then show ?thesis
      by (auto simp: bit_or_iff bit_push_bit_iff bit_ucast_iff dest: bit_imp_le_length)
  next
    case False
    then obtain j where j: "i = j + 8" by (metis add.commute le_Suc_ex not_less)
    have "\<not> bit (ucast b :: 'a word) i"
      using j by (auto simp: bit_ucast_iff dest: bit_imp_le_length)
    moreover have "(j + 8) div 8 = Suc (j div 8)" and "(j + 8) mod 8 = j mod 8" by simp_all
    ultimately show ?thesis
      using Cons.IH [of j] j by (auto simp: bit_or_iff bit_push_bit_iff dest: bit_imp_le_length)
  qed
qed

lemma bit_to_le [tv_bits]:
  "i < n \<Longrightarrow> bit (to_le n w ! i) k \<longleftrightarrow> k < 8 \<and> bit w (8 * i + k)"
  by (auto simp: nth_to_le bit_ucast_iff bit_drop_bit_eq)

lemma from_le_to_le:
  assumes "LENGTH('a) \<le> 8 * n"
  shows "from_le (to_le n (w :: 'a::len word)) = w"
proof (rule bit_word_eqI)
  fix i assume "i < LENGTH('a)"
  moreover from this assms have "i div 8 < n" by linarith
  ultimately show "bit (from_le (to_le n w) :: 'a word) i = bit w i"
    by (simp add: bit_from_le bit_to_le)
qed

lemma from_le_to_le_u64 [simp]: "from_le (to_le 8 (w :: u64)) = w"
  by (rule from_le_to_le) simp

lemma from_le_to_le_u32 [simp]: "from_le (to_le 4 (w :: u32)) = w"
  by (rule from_le_to_le) simp

lemma to_le_from_le:
  assumes "length bs = n" and "8 * n \<le> LENGTH('a)"
  shows "to_le n (from_le bs :: 'a::len word) = bs"
proof (rule nth_equalityI)
  show "length (to_le n (from_le bs :: 'a word)) = length bs" using assms by simp
  fix i assume "i < length (to_le n (from_le bs :: 'a word))"
  then have i: "i < n" by simp
  show "to_le n (from_le bs :: 'a word) ! i = bs ! i"
  proof (rule bit_word_eqI)
    fix k assume "k < LENGTH(8)"
    then have k: "k < 8" by simp
    have "8 * i + k < LENGTH('a)" using i k assms by linarith
    with i k show "bit (to_le n (from_le bs :: 'a word) ! i) k = bit (bs ! i) k"
      using assms by (simp add: bit_to_le bit_from_le)
  qed
qed

section \<open>Population count and trailing zeros\<close>

text \<open>Rust's \<open>count_ones\<close> and \<open>trailing_zeros\<close> on unsigned integers.\<close>

definition count_ones :: "'a::len word \<Rightarrow> nat" where
  "count_ones w = length (filter (bit w) [0..<LENGTH('a)])"

definition trailing_zeros :: "'a::len word \<Rightarrow> nat" where
  "trailing_zeros w = length (takeWhile (\<lambda>i. \<not> bit w i) [0..<LENGTH('a)])"

lemma filter_upt_eq: "filter (\<lambda>i. i = k) [0..<n] = (if k < n then [k] else [])"
  by (induction n) auto

lemma bit_two_pow [tv_bits]:
  "bit (2 ^ k :: 'a::len word) i \<longleftrightarrow> i = k \<and> k < LENGTH('a)"
  by (auto simp: bit_exp_iff)

lemma count_ones_two_pow: "k < LENGTH('a) \<Longrightarrow> count_ones (2 ^ k :: 'a::len word) = 1"
  using filter_cong [of "[0..<LENGTH('a)]" _ "bit (2 ^ k :: 'a word)" "\<lambda>i. i = k"]
  by (simp add: count_ones_def bit_two_pow filter_upt_eq)

lemma trailing_zeros_two_pow:
  assumes "k < LENGTH('a)"
  shows "trailing_zeros (2 ^ k :: 'a::len word) = k"
proof -
  have "[0..<LENGTH('a)] = [0..<k] @ [k..<LENGTH('a)]"
    using assms upt_add_eq_append [of 0 k "LENGTH('a) - k"] by simp
  also have "[k..<LENGTH('a)] = k # [Suc k..<LENGTH('a)]"
    using assms by (rule upt_conv_Cons)
  finally show ?thesis
    using assms takeWhile_append2 [of "[0..<k]" "\<lambda>i. i \<noteq> k"]
    by (simp add: trailing_zeros_def bit_two_pow)
qed

lemma count_ones_eq_1:
  assumes "count_ones (w :: 'a::len word) = 1"
  obtains k where "k < LENGTH('a)" and "w = 2 ^ k"
proof -
  from assms obtain k where k: "filter (bit w) [0..<LENGTH('a)] = [k]"
    by (auto simp: count_ones_def length_Suc_conv)
  then have "set (filter (bit w) [0..<LENGTH('a)]) = {k}" by simp
  then have s: "{i. i < LENGTH('a) \<and> bit w i} = {k}" by auto
  then have "k < LENGTH('a)" by auto
  moreover from s have "w = 2 ^ k"
    by (intro bit_word_eqI) (auto simp: bit_two_pow)
  ultimately show thesis by (rule that)
qed

section \<open>Exclusive or\<close>

lemma word_xor_eq_0: "a XOR b = 0 \<longleftrightarrow> a = (b :: 'a :: len word)"
proof
  assume "a XOR b = 0"
  then have "(a XOR b) XOR b = b" by simp
  then show "a = b" by (simp add: xor.assoc)
qed simp

lemma word_eq_xor_iff: "a = a XOR b \<longleftrightarrow> b = (0 :: 'a :: len word)"
proof
  assume "a = a XOR b"
  then have "a XOR a = a XOR (a XOR b)" by (rule arg_cong)
  then show "b = 0" by (simp add: xor.assoc [symmetric])
qed simp

lemma word_xor_cancel [simp]: "a XOR (a XOR b) = (b :: 'a :: len word)"
  by (simp add: xor.assoc [symmetric])

section \<open>Windows of lists\<close>

text \<open>\<open>window xs off n\<close> is \<open>&xs[off..off + n]\<close> for an in-range window.\<close>

definition window :: "'a list \<Rightarrow> nat \<Rightarrow> nat \<Rightarrow> 'a list" where
  "window xs off n = take n (drop off xs)"

lemma length_window [simp, tv_len]: "off + n \<le> length xs \<Longrightarrow> length (window xs off n) = n"
  by (simp add: window_def)

lemma nth_window: "off + n \<le> length xs \<Longrightarrow> i < n \<Longrightarrow> window xs off n ! i = xs ! (off + i)"
  by (simp add: window_def)

lemma window_append_left: "off + n \<le> length xs \<Longrightarrow> window (xs @ ys) off n = window xs off n"
  by (simp add: window_def)

lemma window_append_right:
  "length xs \<le> off \<Longrightarrow> window (xs @ ys) off n = window ys (off - length xs) n"
  by (simp add: window_def)

lemma window_exact [simp]: "length ys = n \<Longrightarrow> window (xs @ ys @ zs) (length xs) n = ys"
  by (simp add: window_def)

lemma window_prefix [simp]: "length ys = n \<Longrightarrow> window (ys @ zs) 0 n = ys"
  by (simp add: window_def)

text \<open>\<open>patch xs off ys\<close> overwrites the window of length \<open>|ys|\<close> at \<open>off\<close>:
  \<open>xs[off..off + ys.len()].copy_from_slice(ys)\<close>.\<close>

definition patch :: "'a list \<Rightarrow> nat \<Rightarrow> 'a list \<Rightarrow> 'a list" where
  "patch xs off ys = take off xs @ ys @ drop (off + length ys) xs"

lemma length_patch [simp, tv_len]:
  "off + length ys \<le> length xs \<Longrightarrow> length (patch xs off ys) = length xs"
  by (simp add: patch_def)

lemma window_patch_same [simp]:
  "off + length ys \<le> length xs \<Longrightarrow> n = length ys \<Longrightarrow> window (patch xs off ys) off n = ys"
  by (simp add: patch_def window_def)

lemma nth_patch:
  assumes "off + length ys \<le> length xs" and "i < length xs"
  shows "patch xs off ys ! i =
    (if off \<le> i \<and> i < off + length ys then ys ! (i - off) else xs ! i)"
  using assms by (auto simp: patch_def nth_append min_def)

lemma window_patch_other:
  assumes "off + length ys \<le> length xs" and "o' + n \<le> length xs"
    and "o' + n \<le> off \<or> off + length ys \<le> o'"
  shows "window (patch xs off ys) o' n = window xs o' n"
  using assms by (intro nth_equalityI) (auto simp: nth_window nth_patch)

section \<open>Equal-width chunks\<close>

text \<open>The index range cut into ranges of \<open>k\<close> indices, the last one shorter.\<close>

lemma upt_chunks:
  assumes "0 < k"
  shows "concat (map (\<lambda>i. [i * k..<min (i * k + k) n]) [0..<(n + k - 1) div k]) = [0..<n]"
proof -
  have "concat (map (\<lambda>i. [i * k..<min (i * k + k) n]) [0..<m]) = [0..<min (m * k) n]" for m
  proof (induction m)
    case (Suc m)
    show ?case
    proof (cases "m * k \<le> n")
      case True
      then have "[0..<min (Suc m * k) n] = [0..<m * k] @ [m * k..<min (Suc m * k) n]"
        using upt_add_eq_append [of 0 "m * k" "min (Suc m * k) n - m * k"] by simp
      with Suc True show ?thesis by (simp add: add.commute)
    qed (use Suc in simp)
  qed simp
  moreover have "n \<le> (n + k - 1) div k * k"
    using assms div_mult_mod_eq [of "n + k - 1" k] mod_less_divisor [OF assms, of "n + k - 1"] by linarith
  ultimately show ?thesis by (simp add: min_def)
qed

text \<open>\<open>chunks_exact n xs\<close> and \<open>chunks_remainder n xs\<close> are the two halves of Rust's
  \<open>xs.chunks_exact(n)\<close>.\<close>

function chunks_exact :: "nat \<Rightarrow> 'a list \<Rightarrow> 'a list list" where
  "chunks_exact n xs =
     (if n = 0 \<or> length xs < n then [] else take n xs # chunks_exact n (drop n xs))"
  by pat_completeness auto
termination
  by (relation "measure (\<lambda>(n, xs). length xs)") auto

declare chunks_exact.simps [simp del]

definition chunks_remainder :: "nat \<Rightarrow> 'a list \<Rightarrow> 'a list" where
  "chunks_remainder n xs = drop (n * (length xs div n)) xs"

lemma multiple_step:
  assumes "k \<le> length xs" and "0 < k"
  shows "take (k * (length xs div k)) xs =
      take k xs @ take (k * (length (drop k xs) div k)) (drop k xs)"
    and "drop (k * (length xs div k)) xs = drop (k * (length (drop k xs) div k)) (drop k xs)"
proof -
  have "k * (length xs div k) = k + k * (length (drop k xs) div k)"
    using assms by (simp add: le_div_geq)
  then show "take (k * (length xs div k)) xs =
      take k xs @ take (k * (length (drop k xs) div k)) (drop k xs)"
    and "drop (k * (length xs div k)) xs = drop (k * (length (drop k xs) div k)) (drop k xs)"
    by (simp_all only: take_add drop_drop add.commute)
qed

lemma chunks_exact_Nil [simp]: "chunks_exact n [] = []"
  by (cases n) (simp_all add: chunks_exact.simps [of _ "[]"])

lemma chunks_exact_append:
  assumes "length xs = n" and "0 < n"
  shows "chunks_exact n (xs @ ys) = xs # chunks_exact n ys"
  using assms by (simp add: chunks_exact.simps [of n "xs @ ys"])

lemma concat_chunks_exact:
  "0 < n \<Longrightarrow> concat (chunks_exact n xs) @ chunks_remainder n xs = xs"
proof (induction n xs rule: chunks_exact.induct)
  case (1 n xs)
  show ?case
  proof (cases "length xs < n")
    case True
    then show ?thesis by (simp add: chunks_exact.simps [of n xs] chunks_remainder_def)
  next
    case False
    then have "length xs div n = Suc ((length xs - n) div n)"
      using "1.prems" by (simp add: le_div_geq)
    then have "chunks_remainder n xs = chunks_remainder n (drop n xs)"
      by (simp add: chunks_remainder_def add.commute)
    with False 1 show ?thesis by (simp add: chunks_exact.simps [of n xs])
  qed
qed

lemma length_chunks_exact [tv_len]: "length (chunks_exact n xs) = length xs div n"
proof (induction n xs rule: chunks_exact.induct)
  case (1 n xs)
  then show ?case
    by (cases "n = 0 \<or> length xs < n") (auto simp: chunks_exact.simps [of n xs] le_div_geq)
qed

lemma chunks_exact_width: "c \<in> set (chunks_exact n xs) \<Longrightarrow> length c = n"
proof (induction n xs rule: chunks_exact.induct)
  case (1 n xs)
  then show ?case
    by (cases "n = 0 \<or> length xs < n") (auto simp: chunks_exact.simps [of n xs])
qed

lemma nth_chunks_exact:
  "i < length xs div n \<Longrightarrow> chunks_exact n xs ! i = window xs (n * i) n"
proof (induction n xs arbitrary: i rule: chunks_exact.induct)
  case (1 n xs)
  show ?case
  proof (cases "n = 0 \<or> length xs < n")
    case True
    with "1.prems" show ?thesis by auto
  next
    case False
    then have s: "length xs div n = Suc (length (drop n xs) div n)" by (simp add: le_div_geq)
    show ?thesis
    proof (cases i)
      case 0
      with False show ?thesis by (simp add: chunks_exact.simps [of n xs] window_def)
    next
      case (Suc j)
      with False s "1.prems" "1.IH" [of j]
      show ?thesis by (simp add: chunks_exact.simps [of n xs] window_def add.commute)
    qed
  qed
qed

section \<open>Concatenations of equal-width blocks\<close>

lemma length_concat_blocks [tv_len]:
  "\<forall>b\<in>set bs. length b = n \<Longrightarrow> length (concat bs) = n * length bs"
  by (induction bs) simp_all

lemma window_concat_blocks:
  "\<forall>b\<in>set bs. length b = n \<Longrightarrow> i < length bs \<Longrightarrow> window (concat bs @ ys) (n * i) n = bs ! i"
proof (induction bs arbitrary: i)
  case (Cons b bs)
  then show ?case by (cases i) (simp_all add: window_append_right)
qed simp

text \<open>A Rust slice \<open>&xs[lo..hi]\<close>: \<open>None\<close> is the out-of-range panic.\<close>

definition slice_range :: "'a list \<Rightarrow> nat \<Rightarrow> nat \<Rightarrow> 'a list option" where
  "slice_range xs lo hi = (if lo \<le> hi \<and> hi \<le> length xs then Some (window xs lo (hi - lo)) else None)"

lemma those_map_Some [simp]: "those (map Some xs) = Some xs"
  by (induction xs) simp_all

lemma patch_all: "length ys = length xs \<Longrightarrow> patch xs 0 ys = ys"
  by (simp add: patch_def)

end
