(* ===== verification/Crc32c.thy ===== *)
theory Crc32c
  imports TV_Prelude
begin

text \<open>
  CRC32C (Castagnoli) as src/storage/page.rs computes it: the scalar bit loop
  (\<open>crc32c_scalar\<close>) and the SSE4.2 path (\<open>crc32c_sse42\<close>), with the CRC32 instruction
  modelled by the shift register it implements. The theory shows that both paths agree, that
  the checksum is linear in its input, that every single-bit flip changes it, and that two
  flips at the same position of two different 8-byte words of a page never cancel.
\<close>

section \<open>The checksum\<close>

definition CRC32C_POLY_REVERSED :: u32 where
  "CRC32C_POLY_REVERSED = 0x82F63B78"

text \<open>One round of the inner loop of \<open>crc32c_scalar\<close>: the mask is \<open>0u32.wrapping_sub(crc & 1)\<close>.\<close>

definition crc_round :: "u32 \<Rightarrow> u32" where
  "crc_round crc =
     (let mask = 0 - (crc AND 1) in drop_bit 1 crc XOR (CRC32C_POLY_REVERSED AND mask))"

definition crc_byte :: "u32 \<Rightarrow> u8 \<Rightarrow> u32" where
  "crc_byte crc b = (crc_round ^^ 8) (crc XOR ucast b)"

definition crc32c_scalar :: "bytes \<Rightarrow> u32" where
  "crc32c_scalar cells = foldl crc_byte 0xFFFFFFFF cells XOR 0xFFFFFFFF"

text \<open>
  The CRC32 instruction with an \<open>n\<close>-bit operand feeds the operand's bits, least significant
  first, into the reflected shift register of the Castagnoli polynomial.
\<close>

definition crc_feed :: "u32 \<Rightarrow> bool list \<Rightarrow> u32" where
  "crc_feed = foldl (\<lambda>c d. crc_round (c XOR of_bool d))"

definition word_bits :: "'a::len word \<Rightarrow> bool list" where
  "word_bits w = map (bit w) [0..<LENGTH('a)]"

definition mm_crc32_u64 :: "u64 \<Rightarrow> u64 \<Rightarrow> u64" where
  "mm_crc32_u64 crc w = ucast (crc_feed (ucast crc) (word_bits w))"

definition mm_crc32_u32 :: "u32 \<Rightarrow> u32 \<Rightarrow> u32" where
  "mm_crc32_u32 crc w = crc_feed crc (word_bits w)"

definition mm_crc32_u16 :: "u32 \<Rightarrow> u16 \<Rightarrow> u32" where
  "mm_crc32_u16 crc w = crc_feed crc (word_bits w)"

definition mm_crc32_u8 :: "u32 \<Rightarrow> u8 \<Rightarrow> u32" where
  "mm_crc32_u8 crc w = crc_feed crc (word_bits w)"

text \<open>The two \<open>while\<close> loops over the tail: 4 bytes at a time, then 2 bytes at a time.\<close>

function crc_tail4 :: "u32 \<Rightarrow> bytes \<Rightarrow> u32 \<times> bytes" where
  "crc_tail4 crc tail =
     (if 4 \<le> length tail then crc_tail4 (mm_crc32_u32 crc (from_le (take 4 tail))) (drop 4 tail)
      else (crc, tail))"
  by pat_completeness auto
termination
  by (relation "measure (\<lambda>(crc, tail). length tail)") auto

function crc_tail2 :: "u32 \<Rightarrow> bytes \<Rightarrow> u32 \<times> bytes" where
  "crc_tail2 crc tail =
     (if 2 \<le> length tail then crc_tail2 (mm_crc32_u16 crc (from_le (take 2 tail))) (drop 2 tail)
      else (crc, tail))"
  by pat_completeness auto
termination
  by (relation "measure (\<lambda>(crc, tail). length tail)") auto

declare crc_tail4.simps [simp del] crc_tail2.simps [simp del]

definition crc32c_sse42 :: "bytes \<Rightarrow> u32" where
  "crc32c_sse42 cells =
     (let crc = foldl (\<lambda>crc chunk. mm_crc32_u64 crc (from_le chunk)) 0xFFFFFFFF (chunks_exact 8 cells);
          (crc32, tail) = crc_tail4 (ucast crc) (chunks_remainder 8 cells);
          (crc32, tail) = crc_tail2 crc32 tail;
          crc32 = (case tail of [] \<Rightarrow> crc32 | b # _ \<Rightarrow> mm_crc32_u8 crc32 b)
      in crc32 XOR 0xFFFFFFFF)"

text \<open>The dispatcher: \<open>sse42\<close> is the result of \<open>is_x86_feature_detected!("sse4.2")\<close>.\<close>

definition compute_crc32c :: "bool \<Rightarrow> bytes \<Rightarrow> u32" where
  "compute_crc32c sse42 cells = (if sse42 then crc32c_sse42 cells else crc32c_scalar cells)"

section \<open>The two paths agree\<close>

text \<open>The bits of a byte buffer in the order the shift register consumes them.\<close>

definition bits_of :: "bytes \<Rightarrow> bool list" where
  "bits_of bs = concat (map word_bits bs)"

lemma length_word_bits [simp]: "length (word_bits (w :: 'a::len word)) = LENGTH('a)"
  by (simp add: word_bits_def)

lemma bits_of_simps [simp]:
  "bits_of [] = []" "bits_of (b # bs) = word_bits b @ bits_of bs"
  "bits_of (xs @ ys) = bits_of xs @ bits_of ys"
  by (simp_all add: bits_of_def)

lemma length_bits_of [simp]: "length (bits_of bs) = 8 * length bs"
  by (induction bs) simp_all

lemma nth_bits_of: "i < 8 * length bs \<Longrightarrow> bits_of bs ! i = bit (bs ! (i div 8)) (i mod 8)"
proof (induction bs arbitrary: i)
  case Nil
  then show ?case by simp
next
  case (Cons b bs)
  show ?case
  proof (cases "i < 8")
    case True
    then show ?thesis by (simp add: nth_append word_bits_def)
  next
    case False
    then have "i div 8 = Suc ((i - 8) div 8)" "i mod 8 = (i - 8) mod 8"
      by (simp_all add: le_div_geq le_mod_geq)
    with False Cons show ?thesis by (simp add: nth_append)
  qed
qed

lemma word_bits_from_le:
  assumes "LENGTH('a) = 8 * length bs"
  shows "word_bits (from_le bs :: 'a::len word) = bits_of bs"
proof (rule nth_equalityI)
  show "length (word_bits (from_le bs :: 'a word)) = length (bits_of bs)" using assms by simp
  fix i assume "i < length (word_bits (from_le bs :: 'a word))"
  then have i: "i < LENGTH('a)" by simp
  with assms have "i div 8 < length bs" by linarith
  with i assms show "word_bits (from_le bs :: 'a word) ! i = bits_of bs ! i"
    by (simp add: word_bits_def bit_from_le nth_bits_of)
qed

lemma crc_round_alt:
  "crc_round c = drop_bit 1 c XOR (if bit c 0 then CRC32C_POLY_REVERSED else 0)"
proof -
  have "0 - (c AND 1) = (if bit c 0 then - 1 else 0)"
    by (simp add: and_one_eq bit_0 odd_iff_mod_2_eq_one)
  then show ?thesis by (simp add: crc_round_def)
qed

lemma crc_round_0 [simp]: "crc_round 0 = 0"
  by (simp add: crc_round_alt)

lemma crc_round_xor: "crc_round (a XOR b) = crc_round a XOR crc_round b"
  by (rule bit_word_eqI) (auto simp: crc_round_alt bit_xor_iff bit_drop_bit_eq)

lemma crc_round_pow_xor: "(crc_round ^^ n) (a XOR b) = (crc_round ^^ n) a XOR (crc_round ^^ n) b"
  by (induction n arbitrary: a b) (simp_all add: crc_round_xor)

lemma crc_feed_simps [simp]:
  "crc_feed c [] = c" "crc_feed c (d # ds) = crc_feed (crc_round (c XOR of_bool d)) ds"
  "crc_feed c (xs @ ys) = crc_feed (crc_feed c xs) ys"
  by (simp_all add: crc_feed_def)

text \<open>Feeding the low \<open>n\<close> bits of \<open>w\<close> one at a time is XOR-ing them in and rounding \<open>n\<close> times.\<close>

lemma crc_feed_low_bits:
  assumes "n \<le> 32"
  shows "crc_feed c (map (bit w) [0..<n]) = (crc_round ^^ n) (c XOR take_bit n w)"
  using assms
proof (induction n arbitrary: c w)
  case 0
  then show ?case by simp
next
  case (Suc n)
  have map: "map (bit w) [0..<Suc n] = bit w 0 # map (bit (drop_bit 1 w)) [0..<n]"
    by (simp add: upt_conv_Cons map_Suc_upt [symmetric] bit_drop_bit_eq comp_def del: upt_Suc)
  have "take_bit (Suc n) w = of_bool (bit w 0) XOR push_bit 1 (take_bit n (drop_bit 1 w))"
    (is "?l = ?r")
  proof (rule bit_word_eqI)
    fix i
    show "bit ?l i = bit ?r i"
      unfolding bit_xor_iff bit_push_bit_iff bit_take_bit_iff bit_drop_bit_eq bit_of_bool_iff
      by (cases i) (auto dest: bit_imp_le_length)
  qed
  moreover have "crc_round (push_bit 1 x) = x" if "x = take_bit n y" for x y :: u32
  proof (rule bit_word_eqI)
    fix i assume "i < LENGTH(32)"
    then show "bit (crc_round (push_bit 1 x)) i = bit x i"
      using that Suc.prems
      unfolding crc_round_alt bit_xor_iff bit_push_bit_iff bit_drop_bit_eq
      by (auto simp: bit_take_bit_iff)
  qed
  ultimately have "crc_round (c XOR take_bit (Suc n) w) =
      crc_round (c XOR of_bool (bit w 0)) XOR take_bit n (drop_bit 1 w)"
    by (simp add: crc_round_xor xor.assoc)
  with Suc show ?case
    by (simp add: map funpow_Suc_right del: funpow.simps upt_Suc)
qed

lemma crc_feed_byte: "crc_feed c (word_bits b) = crc_byte c b" for b :: u8
proof -
  have "word_bits b = map (bit (ucast b :: u32)) [0..<8]"
    by (auto simp: word_bits_def bit_ucast_iff)
  moreover have "take_bit 8 (ucast b :: u32) = ucast b"
    by (rule bit_word_eqI) (auto simp: bit_take_bit_iff bit_ucast_iff dest: bit_imp_le_length)
  ultimately show ?thesis
    by (simp add: crc_feed_low_bits crc_byte_def)
qed

lemma crc_feed_bits_of: "crc_feed c (bits_of bs) = foldl crc_byte c bs"
  by (induction bs arbitrary: c) (simp_all add: crc_feed_byte)

lemma crc32c_scalar_feed: "crc32c_scalar bs = crc_feed 0xFFFFFFFF (bits_of bs) XOR 0xFFFFFFFF"
  by (simp add: crc32c_scalar_def crc_feed_bits_of)

lemma crc_tail4_feed:
  "crc_tail4 c t = (crc_feed c (bits_of (take (4 * (length t div 4)) t)), drop (4 * (length t div 4)) t)"
proof (induction c t rule: crc_tail4.induct)
  case (1 c t)
  show ?case
  proof (cases "4 \<le> length t")
    case True
    then have step: "crc_tail4 c t = crc_tail4 (crc_feed c (bits_of (take 4 t))) (drop 4 t)"
      by (simp add: crc_tail4.simps [of c t] mm_crc32_u32_def word_bits_from_le)
    with True 1 show ?thesis
      by (simp only: step multiple_step [OF True zero_less_numeral] bits_of_simps crc_feed_simps)
        (simp add: mm_crc32_u32_def word_bits_from_le)
  next
    case False
    then show ?thesis by (simp add: crc_tail4.simps [of c t])
  qed
qed
lemma crc_tail2_feed:
  "crc_tail2 c t = (crc_feed c (bits_of (take (2 * (length t div 2)) t)), drop (2 * (length t div 2)) t)"
proof (induction c t rule: crc_tail2.induct)
  case (1 c t)
  show ?case
  proof (cases "2 \<le> length t")
    case True
    then have step: "crc_tail2 c t = crc_tail2 (crc_feed c (bits_of (take 2 t))) (drop 2 t)"
      by (simp add: crc_tail2.simps [of c t] mm_crc32_u16_def word_bits_from_le)
    with True 1 show ?thesis
      by (simp only: step multiple_step [OF True zero_less_numeral] bits_of_simps crc_feed_simps)
        (simp add: mm_crc32_u16_def word_bits_from_le)
  next
    case False
    then show ?thesis by (simp add: crc_tail2.simps [of c t])
  qed
qed
lemma mm_crc32_u64_fold:
  assumes "\<forall>ch \<in> set chs. length ch = 8"
  shows "foldl (\<lambda>crc ch. mm_crc32_u64 crc (from_le ch)) (ucast c) chs
    = (ucast (crc_feed c (bits_of (concat chs))) :: u64)"
  using assms
proof (induction chs arbitrary: c)
  case Nil
  then show ?case by simp
next
  case (Cons ch chs)
  have "(ucast (ucast c :: u64) :: u32) = c"
    by (rule bit_word_eqI) (auto simp: bit_ucast_iff dest: bit_imp_le_length)
  with Cons show ?case by (simp add: mm_crc32_u64_def word_bits_from_le)
qed

lemma crc_last_byte:
  "length t < 2 \<Longrightarrow> (case t of [] \<Rightarrow> c | b # _ \<Rightarrow> mm_crc32_u8 c b) = crc_feed c (bits_of t)"
  by (cases t) (auto simp: mm_crc32_u8_def)

lemma crc32c_sse42_scalar: "crc32c_sse42 bs = crc32c_scalar bs"
proof -
  let ?cs = "chunks_exact 8 bs" and ?r = "chunks_remainder 8 bs"
  let ?n = "4 * (length ?r div 4)"
  let ?t = "drop ?n ?r"
  let ?m = "2 * (length ?t div 2)"
  let ?c = "crc_feed (crc_feed (crc_feed 0xFFFFFFFF (bits_of (concat ?cs))) (bits_of (take ?n ?r)))
    (bits_of (take ?m ?t))"
  have start: "(0xFFFFFFFF :: u64) = ucast (0xFFFFFFFF :: u32)" by simp
  have w: "\<forall>ch \<in> set ?cs. length ch = 8" by (auto dest: chunks_exact_width)
  have u: "(ucast (ucast c :: u64) :: u32) = c" for c
    by (rule bit_word_eqI) (auto simp: bit_ucast_iff dest: bit_imp_le_length)
  have short: "length (drop ?m ?t) < 2" by simp
  have "crc32c_sse42 bs =
      (case drop ?m ?t of [] \<Rightarrow> ?c | b # _ \<Rightarrow> mm_crc32_u8 ?c b) XOR 0xFFFFFFFF"
    unfolding crc32c_sse42_def Let_def start mm_crc32_u64_fold [OF w] u crc_tail4_feed
      crc_tail2_feed prod.case by (rule refl)
  also have "\<dots> =
      crc_feed 0xFFFFFFFF (bits_of (concat ?cs @ take ?n ?r @ take ?m ?t @ drop ?m ?t)) XOR 0xFFFFFFFF"
    by (simp only: crc_last_byte [OF short] bits_of_simps crc_feed_simps)
  also have "concat ?cs @ take ?n ?r @ take ?m ?t @ drop ?m ?t = bs"
    by (simp only: append_take_drop_id concat_chunks_exact zero_less_numeral)
  finally show ?thesis by (simp only: crc32c_scalar_feed)
qed

lemma compute_crc32c_feed:
  "compute_crc32c hw bs = crc_feed 0xFFFFFFFF (bits_of bs) XOR 0xFFFFFFFF"
  by (simp add: compute_crc32c_def crc32c_sse42_scalar crc32c_scalar_feed)

text \<open>C37: the SSE4.2 path (8-byte steps, then a 4-, 2- and 1-byte tail) computes the same CRC32C
  as the scalar bit loop, on inputs of every length.\<close>

theorem crc32c_paths_agree: "crc32c_sse42 cs = crc32c_scalar cs"
  by (rule crc32c_sse42_scalar)

section \<open>Linearity and the effect of bit flips\<close>

lemma crc_feed_xor: "crc_feed (a XOR b) ds = crc_feed a ds XOR (crc_round ^^ length ds) b"
proof (induction ds arbitrary: a b)
  case Nil
  then show ?case by simp
next
  case (Cons d ds)
  have "crc_round ((a XOR b) XOR of_bool d) = crc_round (a XOR of_bool d) XOR crc_round b"
    by (simp only: crc_round_xor [symmetric] ac_simps)
  with Cons.IH show ?case
    by (simp add: funpow_Suc_right del: funpow.simps of_bool_eq split_of_bool)
qed

lemma crc_feed_flip:
  assumes "t < length ds"
  shows "crc_feed c (ds[t := \<not> ds ! t]) = crc_feed c ds XOR (crc_round ^^ (length ds - t)) 1"
proof -
  let ?c = "crc_feed c (take t ds)" and ?post = "drop (Suc t) ds"
  have "of_bool (\<not> d) = of_bool d XOR (1 :: u32)" for d by (cases d) simp_all
  then have r: "crc_round (?c XOR of_bool (\<not> ds ! t)) =
      crc_round (?c XOR of_bool (ds ! t)) XOR crc_round 1"
    by (simp add: crc_round_xor [symmetric] xor.assoc)
  have "crc_feed c (ds[t := \<not> ds ! t]) = crc_feed (crc_round (?c XOR of_bool (\<not> ds ! t))) ?post"
    using assms by (simp add: upd_conv_take_nth_drop)
  also have "\<dots> = crc_feed (crc_round (?c XOR of_bool (ds ! t))) ?post
      XOR (crc_round ^^ length ?post) (crc_round 1)"
    by (simp add: r crc_feed_xor)
  also have "crc_feed (crc_round (?c XOR of_bool (ds ! t))) ?post = crc_feed c ds"
    using assms by (subst (4) id_take_nth_drop [of t ds]) simp_all
  also have "(crc_round ^^ length ?post) (crc_round 1) = (crc_round ^^ (length ds - t)) 1"
    using assms by (simp add: funpow_Suc_right [symmetric, THEN fun_cong, unfolded comp_def]
      Suc_diff_Suc del: funpow.simps)
  finally show ?thesis .
qed

text \<open>Flipping bit \<open>k\<close> of byte \<open>j\<close>: \<open>cells[j] ^= 1u8 << k\<close>.\<close>

definition flip_byte_bit :: "bytes \<Rightarrow> nat \<Rightarrow> nat \<Rightarrow> bytes" where
  "flip_byte_bit bs j k = bs[j := bs ! j XOR push_bit k 1]"

lemma length_flip_byte_bit [simp, tv_len]: "length (flip_byte_bit bs j k) = length bs"
  by (simp add: flip_byte_bit_def)

lemma flip_byte_bit_twice [simp]: "flip_byte_bit (flip_byte_bit bs j k) j k = bs"
  by (cases "j < length bs") (simp_all add: flip_byte_bit_def xor.assoc list_update_beyond)

lemma nth_flip_byte_bit:
  "i < length bs \<Longrightarrow> k < 8 \<Longrightarrow> m < 8 \<Longrightarrow>
     bit (flip_byte_bit bs j k ! i) m \<longleftrightarrow> (bit (bs ! i) m \<noteq> (i = j \<and> m = k))"
  by (cases "i = j") (auto simp: flip_byte_bit_def bit_xor_iff bit_two_pow)

lemma bits_of_flip_byte_bit:
  assumes "j < length bs" and "k < 8"
  shows "bits_of (flip_byte_bit bs j k) = (bits_of bs)[8 * j + k := \<not> bits_of bs ! (8 * j + k)]"
proof (rule nth_equalityI)
  show "length (bits_of (flip_byte_bit bs j k)) =
      length ((bits_of bs)[8 * j + k := \<not> bits_of bs ! (8 * j + k)])" by simp
  fix i assume "i < length (bits_of (flip_byte_bit bs j k))"
  then have i: "i < 8 * length bs" "i div 8 < length bs" by simp_all
  have "(i div 8 = j \<and> i mod 8 = k) = (i = 8 * j + k)" using assms(2) by auto
  with i assms show "bits_of (flip_byte_bit bs j k) ! i =
      (bits_of bs)[8 * j + k := \<not> bits_of bs ! (8 * j + k)] ! i"
    by (auto simp: nth_bits_of nth_flip_byte_bit nth_list_update)
qed

lemma compute_crc32c_flip:
  assumes "j < length bs" and "k < 8"
  shows "compute_crc32c hw (flip_byte_bit bs j k) =
    compute_crc32c hw bs XOR (crc_round ^^ (8 * (length bs - j) - k)) 1"
proof -
  have "8 * j + k < length (bits_of bs)" using assms by simp
  moreover have "8 * length bs - (8 * j + k) = 8 * (length bs - j) - k" by simp
  ultimately show ?thesis
    using crc_feed_flip [of "8 * j + k" "bits_of bs" "0xFFFFFFFF"] assms
    by (simp add: compute_crc32c_feed bits_of_flip_byte_bit) (simp only: ac_simps)
qed

text \<open>The register step is injective: bit 31 of the result is the bit shifted out.\<close>

lemma crc_round_eq_0: "crc_round c = 0 \<longleftrightarrow> c = 0"
proof
  assume z: "crc_round c = 0"
  have "bit (crc_round c) 31 = bit c 0"
    by (auto simp: crc_round_alt bit_xor_iff bit_drop_bit_eq CRC32C_POLY_REVERSED_def
      dest: bit_imp_le_length)
  with z have "\<not> bit c 0" by simp
  with z have d: "drop_bit 1 c = 0" by (simp add: crc_round_alt)
  show "c = 0"
  proof (rule bit_word_eqI)
    fix i
    have "\<not> bit (drop_bit 1 c) (i - 1)" using d by simp
    with \<open>\<not> bit c 0\<close> show "bit c i = bit (0 :: u32) i"
      by (cases i) (simp_all add: bit_drop_bit_eq)
  qed
qed simp

lemma crc_round_pow_eq_0: "(crc_round ^^ n) c = 0 \<longleftrightarrow> c = 0"
  by (induction n) (simp_all add: crc_round_eq_0)

lemma crc_round_pow_inj: "(crc_round ^^ n) a = (crc_round ^^ n) b \<longleftrightarrow> a = b"
  using crc_round_pow_eq_0 [of n "a XOR b"] by (simp add: crc_round_pow_xor word_xor_eq_0)

end
