(* ===== verification/Crc32c_Order.thy ===== *)
theory Crc32c_Order
  imports Crc32c
begin

text \<open>
  The period of the CRC32C shift register. Starting from the register value 1, the register
  returns to 1 after \<open>2^31 - 1\<close> rounds (computed in the kernel by repeated squaring) and,
  because no number below 32256 shares a factor with that period, never after fewer than
  32256 rounds, the number of bits of a page payload. So any two different bits of a payload
  contribute differently to its checksum: two flips are always detected, and the candidate
  search of \<open>verify_and_correct\<close> (src/storage/page.rs) is unambiguous.
\<close>

section \<open>Running the register backwards\<close>

definition crc_back :: "u32 \<Rightarrow> u32" where
  "crc_back y = (if bit y 31 then push_bit 1 (y XOR CRC32C_POLY_REVERSED) OR 1 else push_bit 1 y)"

lemma bit_crc_back:
  "bit (crc_back y) i \<longleftrightarrow>
     (if i = 0 then bit y 31
      else i < 32 \<and> (bit y (i - 1) \<noteq> (bit y 31 \<and> bit CRC32C_POLY_REVERSED (i - 1))))"
  unfolding crc_back_def if_distrib [where f = bit] if_distribR bit_or_iff bit_push_bit_iff
    bit_xor_iff bit_1_iff
  by (auto dest: bit_imp_le_length)

lemma crc_round_crc_back [simp]: "crc_round (crc_back y) = y"
proof (rule bit_word_eqI)
  fix i assume "i < LENGTH(32)"
  then have "i < 31 \<or> i = 31" by auto
  then show "bit (crc_round (crc_back y)) i = bit y i"
  proof
    assume "i < 31"
    then show ?thesis
      by (auto simp: crc_round_alt bit_xor_iff bit_drop_bit_eq bit_crc_back)
  next
    assume i: "i = 31"
    have "bit CRC32C_POLY_REVERSED 31" by (simp add: CRC32C_POLY_REVERSED_def)
    with i show ?thesis
      by (auto simp: crc_round_alt bit_xor_iff bit_drop_bit_eq bit_crc_back)
  qed
qed

lemma crc_round_inj: "crc_round a = crc_round b \<longleftrightarrow> a = b"
  using crc_round_pow_inj [of 1 a b] by simp

lemma crc_back_crc_round: "crc_back (crc_round y) = y"
  by (simp add: crc_round_inj [symmetric])

lemma crc_back_xor: "crc_back (a XOR b) = crc_back a XOR crc_back b"
  by (simp add: crc_round_inj [symmetric] crc_round_xor)

lemma crc_back_0 [simp]: "crc_back 0 = 0"
  by (simp add: crc_back_def)

lemma crc_round_pow_back: "(crc_round ^^ n) (crc_back v) = crc_back ((crc_round ^^ n) v)"
  by (induction n) (simp_all add: crc_back_crc_round)

lemma crc_round_pow_0 [simp]: "(crc_round ^^ n) 0 = 0"
  by (induction n) simp_all

section \<open>Every register value as a combination of backward steps of 1\<close>

primrec horner :: "bool list \<Rightarrow> u32 \<Rightarrow> u32" where
  "horner [] v = 0"
| "horner (b # bs) v = (if b then v XOR crc_back (horner bs v) else crc_back (horner bs v))"

lemma crc_round_pow_horner: "(crc_round ^^ n) (horner bs v) = horner bs ((crc_round ^^ n) v)"
  by (induction bs) (simp_all add: crc_round_pow_xor crc_round_pow_back)

lemma horner_tail: "i \<le> 32 \<Longrightarrow> horner (map (bit w) [i..<32]) 1 = drop_bit i w"
proof (induction i rule: inc_induct)
  case base
  show ?case by (rule bit_word_eqI) (simp add: bit_drop_bit_eq bit_imp_le_length)
next
  case (step i)
  have "horner (map (bit w) [i..<32]) 1 =
      (if bit w i then 1 XOR crc_back (drop_bit (Suc i) w) else crc_back (drop_bit (Suc i) w))"
    using step by (simp add: upt_conv_Cons)
  also have "\<dots> = drop_bit i w"
  proof (rule bit_word_eqI)
    fix j assume "j < LENGTH(32)"
    then show "bit (if bit w i then 1 XOR crc_back (drop_bit (Suc i) w)
        else crc_back (drop_bit (Suc i) w)) j = bit (drop_bit i w) j"
      by (cases j) (auto simp: bit_crc_back bit_drop_bit_eq bit_xor_iff bit_1_iff
        dest: bit_imp_le_length)
  qed
  finally show ?case .
qed

lemma horner_word_bits: "horner (word_bits w) 1 = w"
  using horner_tail [of 0 w] by (simp add: word_bits_def)

definition crc_sq :: "u32 \<Rightarrow> u32" where
  "crc_sq v = horner (word_bits v) v"

lemma crc_round_pow_double: "(crc_round ^^ (n + n)) 1 = crc_sq ((crc_round ^^ n) 1)"
  using crc_round_pow_horner [of n "word_bits ((crc_round ^^ n) 1)" 1]
  by (simp add: funpow_add horner_word_bits crc_sq_def)

lemma crc_round_pow_two: "(crc_round ^^ (2 ^ k)) 1 = (crc_sq ^^ k) (crc_round 1)"
proof (induction k)
  case (Suc k)
  then show ?case using crc_round_pow_double [of "2 ^ k"] by (simp add: mult_2)
qed simp

section \<open>Squaring on bit lists\<close>

fun bshift :: "bool \<Rightarrow> bool list \<Rightarrow> bool list" where
  "bshift c [] = []"
| "bshift c (x # xs) = c # bshift x xs"

fun bxor :: "bool list \<Rightarrow> bool list \<Rightarrow> bool list" where
  "bxor (x # xs) (y # ys) = (x \<noteq> y) # bxor xs ys"
| "bxor _ _ = []"

definition poly_bl :: "bool list" where
  "poly_bl =
    [False, False, False, True, True, True, True, False, True, True, False, True, True, True,
     False, False, False, True, True, False, True, True, True, True, False, True, False, False,
     False, False, False, True]"

definition back_bl :: "bool list \<Rightarrow> bool list" where
  "back_bl bs = (if last bs then bshift True (bxor bs poly_bl) else bshift False bs)"

primrec horner_bl :: "bool list \<Rightarrow> bool list \<Rightarrow> bool list" where
  "horner_bl [] v = replicate 32 False"
| "horner_bl (b # bs) v = (if b then bxor v (back_bl (horner_bl bs v)) else back_bl (horner_bl bs v))"

primrec sq_iter :: "nat \<Rightarrow> bool list \<Rightarrow> bool list" where
  "sq_iter 0 v = v"
| "sq_iter (Suc n) v = sq_iter n (horner_bl v v)"

lemma bshift_nth [simp]:
  "length (bshift c xs) = length xs"
  "i < length xs \<Longrightarrow> bshift c xs ! i = (if i = 0 then c else xs ! (i - 1))"
  by (induction c xs arbitrary: i rule: bshift.induct) (auto simp: nth_Cons split: nat.splits)

lemma bxor_nth [simp]:
  "length (bxor xs ys) = min (length xs) (length ys)"
  "i < length xs \<Longrightarrow> i < length ys \<Longrightarrow> bxor xs ys ! i = (xs ! i \<noteq> ys ! i)"
  by (induction xs ys arbitrary: i rule: bxor.induct) (auto simp: nth_Cons split: nat.splits)

lemma word_bits_nth [simp]: "i < LENGTH('a) \<Longrightarrow> word_bits (w :: 'a::len word) ! i = bit w i"
  by (simp add: word_bits_def)

lemma word_bits_inj: "word_bits a = word_bits b \<longleftrightarrow> a = (b :: 'a::len word)"
proof
  assume eq: "word_bits a = word_bits b"
  show "a = b"
  proof (rule bit_word_eqI)
    fix i assume "i < LENGTH('a)"
    with eq show "bit a i = bit b i" by (metis word_bits_nth)
  qed
qed simp

lemma word_bits_xor: "word_bits (a XOR b) = bxor (word_bits a) (word_bits (b :: 'a::len word))"
  by (rule nth_equalityI) (simp_all add: bit_xor_iff)

lemma word_bits_poly: "word_bits CRC32C_POLY_REVERSED = poly_bl"
  by (simp add: word_bits_def CRC32C_POLY_REVERSED_def poly_bl_def upt_rec)

lemma word_bits_back: "word_bits (crc_back y) = back_bl (word_bits y)"
proof (rule nth_equalityI)
  show "length (word_bits (crc_back y)) = length (back_bl (word_bits y))"
    by (simp add: back_bl_def flip: word_bits_poly)
  fix i assume "i < length (word_bits (crc_back y))"
  then have i: "i < 32" by simp
  have "last (word_bits y) = bit y 31"
    by (simp add: last_conv_nth flip: length_greater_0_conv)
  with i show "word_bits (crc_back y) ! i = back_bl (word_bits y) ! i"
    by (auto simp: back_bl_def bit_crc_back simp flip: word_bits_poly)
qed

lemma word_bits_0: "word_bits (0 :: 'a::len word) = replicate LENGTH('a) False"
  by (rule nth_equalityI) simp_all

lemma word_bits_horner: "word_bits (horner bs v) = horner_bl bs (word_bits v)"
  by (induction bs) (simp_all add: word_bits_xor word_bits_back word_bits_0)

lemma word_bits_sq_iter: "word_bits ((crc_sq ^^ n) v) = sq_iter n (word_bits v)"
proof (induction n arbitrary: v)
  case (Suc n)
  have "(crc_sq ^^ Suc n) v = (crc_sq ^^ n) (crc_sq v)"
    by (simp only: funpow_Suc_right comp_apply)
  moreover have "word_bits (crc_sq v) = horner_bl (word_bits v) (word_bits v)"
    by (simp only: crc_sq_def word_bits_horner)
  ultimately show ?case by (simp only: Suc sq_iter.simps)
qed simp

section \<open>The period\<close>

lemma sq_iter_poly: "sq_iter 31 poly_bl = poly_bl"
  by code_simp

lemma crc_round_1: "crc_round 1 = CRC32C_POLY_REVERSED"
  by (simp add: crc_round_alt)

lemma crc_period: "(crc_round ^^ (2 ^ 31 - 1)) 1 = 1"
proof -
  have "word_bits ((crc_round ^^ (2 ^ 31)) 1) = word_bits (crc_round 1)"
    by (simp only: crc_round_pow_two word_bits_sq_iter crc_round_1 word_bits_poly sq_iter_poly)
  then have "(crc_round ^^ (2 ^ 31)) 1 = crc_round 1" by (simp only: word_bits_inj)
  moreover have "(2 ^ 31 :: nat) = Suc (2 ^ 31 - 1)" by simp
  ultimately have "crc_round ((crc_round ^^ (2 ^ 31 - 1)) 1) = crc_round 1"
    by (metis funpow.simps(2) comp_apply)
  then show ?thesis by (simp only: crc_round_inj)
qed

lemma crc_pow_mod:
  assumes "(crc_round ^^ m) 1 = 1"
  shows "(crc_round ^^ (n mod m)) 1 = (crc_round ^^ n) 1"
proof -
  have "(crc_round ^^ (k * m)) 1 = 1" for k
    by (induction k) (simp_all add: funpow_add assms)
  then have "(crc_round ^^ (n mod m + n div m * m)) 1 = (crc_round ^^ (n mod m)) 1"
    by (simp only: funpow_add comp_apply)
  then show ?thesis by (simp only: mod_div_mult_eq)
qed

lemma crc_pow_gcd:
  "(crc_round ^^ m) 1 = 1 \<Longrightarrow> (crc_round ^^ n) 1 = 1 \<Longrightarrow> (crc_round ^^ gcd m n) 1 = 1"
proof (induction m n rule: gcd_nat_induct)
  case (base m)
  then show ?case by simp
next
  case (step m n)
  then show ?case using crc_pow_mod [of n m] by (simp add: gcd.commute [of n] gcd_red_nat [of m n])
qed

section \<open>The period has no small divisor\<close>

text \<open>
  A divisor \<open>p > 1\<close> of \<open>2^31 - 1\<close> is 1 modulo 31: multiplication by 2 splits the residues
  \<open>1..p-1\<close> into orbits of 31 elements. That leaves one candidate in 62, and none below
  32256 divides.
\<close>

lemma mersenne31_coprime:
  assumes "0 < i" and "i < 31"
  shows "coprime (2 ^ i - 1 :: nat) 2147483647"
proof -
  have "list_all (\<lambda>i. gcd (2 ^ nat i - 1 :: int) 2147483647 = 1) [1..30]" by code_simp
  then have "\<forall>i \<in> {1..30::int}. gcd (2 ^ nat i - 1 :: int) 2147483647 = 1"
    by (simp only: list_all_iff set_upto)
  moreover have "int i \<in> {1..30}" using assms by simp
  ultimately have "gcd (2 ^ i - 1 :: int) 2147483647 = 1" by fastforce
  moreover have "int (2 ^ i - 1) = 2 ^ i - 1" by (simp add: of_nat_diff)
  ultimately have "gcd (int (2 ^ i - 1)) (int 2147483647) = 1" by simp
  then show ?thesis by (simp only: gcd_int_int_eq of_nat_eq_1_iff coprime_iff_gcd_eq_1)
qed

definition orb :: "nat \<Rightarrow> nat \<Rightarrow> nat set" where
  "orb p x = (\<lambda>i. 2 ^ i * x mod p) ` {..<31}"

lemma two_coprime:
  assumes "p dvd (2147483647 :: nat)"
  shows "coprime (2 ^ i) p"
proof -
  have "odd p" using assms by (metis dvd_trans even_numeral odd_numeral)
  then show ?thesis by simp
qed

lemma pow31:
  assumes "p dvd (2147483647 :: nat)"
  shows "2 ^ 31 * x mod p = x mod p"
proof -
  have "2 ^ 31 * x = x + 2147483647 * x" by simp
  moreover have "p dvd 2147483647 * x" using assms by simp
  ultimately show ?thesis by (metis dvd_imp_mod_0 mod_add_right_eq add.right_neutral)
qed

lemma pow_mod31:
  assumes "p dvd (2147483647 :: nat)"
  shows "2 ^ (i mod 31) * x mod p = 2 ^ i * x mod p"
proof (induction i rule: less_induct)
  case (less i)
  show ?case
  proof (cases "i < 31")
    case False
    then have "2 ^ 31 * (2 ^ (i - 31) * x) = 2 ^ i * x"
      by (simp only: power_add [symmetric] mult.assoc [symmetric]) simp
    then have "2 ^ i * x mod p = 2 ^ (i - 31) * x mod p"
      using pow31 [OF assms, of "2 ^ (i - 31) * x"] by (simp only:)
    also have "\<dots> = 2 ^ ((i - 31) mod 31) * x mod p" using less False by simp
    finally show ?thesis using False by (simp add: le_mod_geq)
  qed simp
qed

lemma orb_inj:
  assumes p: "p dvd (2147483647 :: nat)" and x: "0 < x" "x < p"
  shows "inj_on (\<lambda>i. 2 ^ i * x mod p) {..<31}"
proof (rule linorder_inj_onI)
  fix i j :: nat
  assume ij: "i < j" "i \<in> {..<31}" "j \<in> {..<31}"
  show "2 ^ i * x mod p \<noteq> 2 ^ j * x mod p"
  proof
    assume "2 ^ i * x mod p = 2 ^ j * x mod p"
    moreover have "2 ^ i * x \<le> 2 ^ j * x" using ij by simp
    ultimately have "p dvd 2 ^ j * x - 2 ^ i * x" by (metis mod_eq_dvd_iff_nat)
    also have "2 ^ j * x - 2 ^ i * x = 2 ^ i * ((2 ^ (j - i) - 1) * x)"
      using ij by (simp add: algebra_simps flip: power_add)
    finally have "p dvd (2 ^ (j - i) - 1) * x"
      using two_coprime [OF p, of i] coprime_commute coprime_dvd_mult_right_iff by blast
    moreover have "coprime (2 ^ (j - i) - 1) p"
      using mersenne31_coprime [of "j - i"] ij p coprime_divisors [of "2 ^ (j - i) - 1" _ p]
      by auto
    ultimately have "p dvd x" using coprime_commute coprime_dvd_mult_right_iff by blast
    with x show False by (auto dest: dvd_imp_le)
  qed
qed auto

lemma orb_absorb: "p dvd 2147483647 \<Longrightarrow> y \<in> orb p x \<Longrightarrow> orb p y \<subseteq> orb p x"
proof
  fix z assume p: "p dvd 2147483647" and "y \<in> orb p x" and "z \<in> orb p y"
  then obtain i j where y: "y = 2 ^ i * x mod p" and z: "z = 2 ^ j * y mod p"
    by (auto simp: orb_def)
  have "z = 2 ^ (i + j) * x mod p" using y z by (simp add: mod_mult_right_eq power_add ac_simps)
  then have "z = 2 ^ ((i + j) mod 31) * x mod p" by (simp only: pow_mod31 [OF p])
  then show "z \<in> orb p x" by (auto simp: orb_def)
qed

lemma orb_sym:
  assumes p: "p dvd (2147483647 :: nat)" and "x < p" "y \<in> orb p x"
  shows "x \<in> orb p y"
proof -
  from assms obtain i where y: "y = 2 ^ i * x mod p" and i: "i < 31" by (auto simp: orb_def)
  have "2 ^ (31 - i) * y mod p = 2 ^ 31 * x mod p"
    using i y by (simp add: mod_mult_right_eq flip: power_add mult.assoc)
  then have "x = 2 ^ (31 - i) * y mod p" using assms pow31 [OF p, of x] by simp
  then have "x = 2 ^ ((31 - i) mod 31) * y mod p" by (simp only: pow_mod31 [OF p])
  then show ?thesis by (auto simp: orb_def)
qed

lemma orb_range:
  assumes p: "p dvd (2147483647 :: nat)" and "0 < x" "x < p"
  shows "orb p x \<subseteq> {0<..<p}"
proof
  fix y assume "y \<in> orb p x"
  then obtain i where y: "y = 2 ^ i * x mod p" by (auto simp: orb_def)
  have "\<not> p dvd x" using assms by (auto dest: dvd_imp_le)
  then have "\<not> p dvd 2 ^ i * x"
    using two_coprime [OF p, of i] coprime_commute coprime_dvd_mult_right_iff by blast
  then show "y \<in> {0<..<p}" using y assms by (auto simp: mod_greater_zero_iff_not_dvd)
qed

lemma divisor_mod_31:
  assumes p: "p dvd (2147483647 :: nat)" and "1 < p"
  shows "31 dvd p - 1"
proof -
  let ?C = "orb p ` {0<..<p}"
  have x: "x \<in> orb p x" if "x < p" for x
    using that unfolding orb_def by (intro image_eqI [of _ _ 0]) auto
  have U: "\<Union> ?C = {0<..<p}"
  proof
    show "\<Union> ?C \<subseteq> {0<..<p}" using orb_range [OF p] by (intro UN_least) simp
    show "{0<..<p} \<subseteq> \<Union> ?C"
    proof
      fix y assume "y \<in> {0<..<p}"
      then show "y \<in> \<Union> ?C" using x [of y] by (intro UN_I [of y]) simp_all
    qed
  qed
  have "31 dvd card (\<Union> ?C)"
  proof (rule dvd_partition)
    show "finite (\<Union> ?C)" using U by simp
    show "\<forall>c\<in>?C. 31 dvd card c"
      using orb_inj [OF p] by (auto simp: orb_def card_image)
    show "\<forall>c1\<in>?C. \<forall>c2\<in>?C. c1 \<noteq> c2 \<longrightarrow> c1 \<inter> c2 = {}"
    proof (intro ballI impI, rule ccontr)
      fix c1 c2 assume c: "c1 \<in> ?C" "c2 \<in> ?C" "c1 \<noteq> c2" "c1 \<inter> c2 \<noteq> {}"
      from c(1) obtain a where a: "c1 = orb p a" "a < p" by auto
      from c(2) obtain b where b: "c2 = orb p b" "b < p" by auto
      from c(4) obtain y where "y \<in> c1" "y \<in> c2" by blast
      with a b have "c1 = orb p y" "c2 = orb p y"
        using orb_absorb [OF p] orb_sym [OF p] by (simp_all add: subset_antisym)
      with c(3) show False by simp
    qed
  qed
  then show ?thesis using U by simp
qed

primrec no_divisor :: "int \<Rightarrow> int \<Rightarrow> nat \<Rightarrow> bool" where
  "no_divisor m d 0 \<longleftrightarrow> True"
| "no_divisor m d (Suc n) \<longleftrightarrow> m mod d \<noteq> 0 \<and> no_divisor m (d + 62) n"

lemma no_divisor_iff: "no_divisor m d n \<longleftrightarrow> (\<forall>k<n. m mod (d + 62 * int k) \<noteq> 0)"
  by (induction n arbitrary: d) (auto simp: less_Suc_eq_0_disj algebra_simps)

lemma no_divisor_period: "no_divisor 2147483647 63 520"
  by code_simp

lemma divisor_large:
  assumes "p dvd 2147483647" and "1 < (p::nat)"
  shows "32255 < p"
proof (rule ccontr)
  assume "\<not> 32255 < p"
  have "odd p" using assms by (metis dvd_trans even_numeral odd_numeral)
  moreover have "31 dvd p - 1" using assms by (rule divisor_mod_31)
  ultimately have "62 dvd p - 1" by presburger
  then obtain k where "p - 1 = 62 * k" by (rule dvdE)
  with assms \<open>\<not> 32255 < p\<close> have k: "p = 62 * k + 1" "0 < k" "k \<le> 520" by (auto intro: Suc_lessI)
  then have "k - 1 < 520" by simp
  then have "2147483647 mod (63 + 62 * int (k - 1)) \<noteq> 0"
    by (rule no_divisor_period [unfolded no_divisor_iff, rule_format])
  moreover have "63 + 62 * int (k - 1) = int p" using k by (simp add: of_nat_diff)
  moreover have "int p dvd 2147483647"
    using assms(1) by (metis int_dvd_int_iff of_nat_numeral)
  ultimately show False by (simp only: dvd_eq_mod_eq_0 not_False_eq_True)
qed
section \<open>Distances between bits of a payload\<close>

lemma crc_distance:
  assumes "0 < d" and "d < 32256"
  shows "(crc_round ^^ d) 1 \<noteq> 1"
proof
  let ?g = "gcd d (2 ^ 31 - 1)"
  assume "(crc_round ^^ d) 1 = 1"
  with crc_period have g: "(crc_round ^^ ?g) 1 = 1" by (intro crc_pow_gcd)
  have "?g \<le> d" "?g \<noteq> 0" using assms by (simp_all add: gcd_le1_nat)
  moreover have "?g dvd 2147483647" using gcd_dvd2 [of d "2 ^ 31 - 1"] by simp
  ultimately have "?g = 1"
    using divisor_large [of ?g] assms(2) by (cases "1 < ?g") linarith+
  with g have "(crc_round ^^ 1) 1 = 1" by (simp only:)
  then show False by (simp add: crc_round_1 CRC32C_POLY_REVERSED_def)
qed

lemma crc_pow_distinct:
  assumes "a \<noteq> b" and "a \<le> 32256" and "b \<le> 32256" and "0 < a" and "0 < b"
  shows "(crc_round ^^ a) 1 \<noteq> (crc_round ^^ b) 1"
  using assms
proof (induction a b rule: linorder_wlog)
  case (le a b)
  then have "(crc_round ^^ b) 1 = (crc_round ^^ a) ((crc_round ^^ (b - a)) 1)"
    by (simp flip: funpow_add [THEN fun_cong, unfolded comp_apply])
  moreover have "(crc_round ^^ (b - a)) 1 \<noteq> 1" using le by (intro crc_distance) simp_all
  ultimately show ?case using crc_round_pow_inj [of a "(crc_round ^^ (b - a)) 1" 1] by metis
next
  case (sym a b)
  then show ?case by metis
qed

end
