(* ===== verification/Page.thy ===== *)
theory Page
  imports Crc32c_Order
begin

text \<open>
  The 4 KiB page of src/storage/page.rs: the 64-byte header, the 4032-byte cell payload, cell
  access, the CRC32C checksum and XOR parity, single-bit correction (\<open>verify_and_correct\<close>)
  and the byte encoding. \<open>sse42\<close> is the answer of \<open>is_x86_feature_detected!\<close>; a failed
  \<open>assert!\<close> or a panicking cast is \<open>None\<close>. The header cast is the crate bytemuck, a
  parameter whose contract is the locale \<open>pod_codec\<close>.
\<close>

section \<open>Constants and data\<close>

definition PAGE_SIZE :: nat where "PAGE_SIZE = 4096"
definition HEADER_SIZE :: nat where "HEADER_SIZE = 64"
definition PAGE_CELLS :: nat where "PAGE_CELLS = (PAGE_SIZE - HEADER_SIZE) div 8"

lemmas page_consts = PAGE_SIZE_def HEADER_SIZE_def PAGE_CELLS_def

record page_header =
  page_type :: u64
  tier_hint :: u64
  homogeneity :: u64
  row_count :: u64
  checksum :: u64
  predecessor :: u64
  successor :: u64
  parity :: u64

record page =
  header :: page_header
  cells :: bytes

text \<open>The array type \<open>[u8; PAGE_SIZE - HEADER_SIZE]\<close> as an invariant.\<close>

definition wf_page :: "page \<Rightarrow> bool" where
  "wf_page p \<longleftrightarrow> length (cells p) = PAGE_SIZE - HEADER_SIZE"

definition default_header :: page_header where
  "default_header = \<lparr>page_type = 0, tier_hint = 0, homogeneity = 0, row_count = 0, checksum = 0,
     predecessor = 0, successor = 0, parity = 0\<rparr>"

definition page_new :: page where
  "page_new = \<lparr>header = default_header, cells = replicate (PAGE_SIZE - HEADER_SIZE) 0\<rparr>"

section \<open>Operations\<close>

definition compute_parity :: "bytes \<Rightarrow> u64" where
  "compute_parity cs =
     (let parity = foldl (\<lambda>parity chunk. parity XOR from_le chunk) 0 (chunks_exact 8 cs);
          tail = chunks_remainder 8 cs
      in if tail \<noteq> [] then parity XOR from_le (patch (replicate 8 0) 0 tail) else parity)"

definition compute_checksum :: "bool \<Rightarrow> bytes \<Rightarrow> u64" where
  "compute_checksum sse42 cs = ucast (compute_crc32c sse42 cs)"

definition get_cell :: "page \<Rightarrow> nat \<Rightarrow> u64 option" where
  "get_cell p index =
     (if index < PAGE_CELLS then Some (from_le (window (cells p) (index * 8) 8)) else None)"

definition set_cell :: "page \<Rightarrow> nat \<Rightarrow> u64 \<Rightarrow> page option" where
  "set_cell p index v =
     (if index < PAGE_CELLS then Some (p\<lparr>cells := patch (cells p) (index * 8) (to_le 8 v)\<rparr>) else None)"

text \<open>The payload reinterpreted as \<open>u64\<close>s on a little-endian target.\<close>

definition as_u64_slice :: "page \<Rightarrow> u64 list" where
  "as_u64_slice p = map (\<lambda>i. from_le (window (cells p) (8 * i) 8)) [0..<PAGE_CELLS]"

definition verify_checksum :: "bool \<Rightarrow> page \<Rightarrow> bool" where
  "verify_checksum sse42 p \<longleftrightarrow> ucast (compute_crc32c sse42 (cells p)) = checksum (header p)"

definition update_checksum :: "bool \<Rightarrow> page \<Rightarrow> page" where
  "update_checksum sse42 p =
     p\<lparr>header := (header p)\<lparr>checksum := ucast (compute_crc32c sse42 (cells p)),
        parity := compute_parity (cells p)\<rparr>\<rparr>"

text \<open>The two error messages of \<open>verify_and_correct\<close>, with the values they print.\<close>

datatype uncorrectable = MultiBit u64 nat | NoWordRepairs u64

text \<open>\<open>self.cells[byte_idx] ^= flip_mask\<close>\<close>

definition xor_cell :: "page \<Rightarrow> nat \<Rightarrow> u8 \<Rightarrow> page" where
  "xor_cell p i m = p\<lparr>cells := (cells p)[i := cells p ! i XOR m]\<rparr>"

text \<open>The candidate loop over the word indices, undoing every flip that does not help.\<close>

primrec try_words :: "bool \<Rightarrow> nat \<Rightarrow> u8 \<Rightarrow> nat list \<Rightarrow> page \<Rightarrow> bool \<times> page" where
  "try_words sse42 byte_in_word flip_mask [] p = (False, p)"
| "try_words sse42 byte_in_word flip_mask (word_idx # ws) p =
     (let byte_idx = word_idx * 8 + byte_in_word;
          p1 = xor_cell p byte_idx flip_mask
      in if verify_checksum sse42 p1 then (True, p1)
         else try_words sse42 byte_in_word flip_mask ws (xor_cell p1 byte_idx flip_mask))"

definition verify_and_correct :: "bool \<Rightarrow> page \<Rightarrow> (uncorrectable + bool) \<times> page" where
  "verify_and_correct sse42 p =
     (if verify_checksum sse42 p then (Inr False, p)
      else
        let stored_parity = parity (header p);
            computed_parity = compute_parity (cells p);
            syndrome = stored_parity XOR computed_parity
        in if count_ones syndrome \<noteq> 1 then (Inl (MultiBit syndrome (count_ones syndrome)), p)
           else
             let bit_pos = trailing_zeros syndrome;
                 byte_in_word = bit_pos div 8;
                 bit_in_byte = bit_pos mod 8;
                 flip_mask = push_bit bit_in_byte 1;
                 num_words = length (cells p) div 8
             in case try_words sse42 byte_in_word flip_mask [0..<num_words] p of
                  (True, p') \<Rightarrow> (Inr True, p')
                | (False, p') \<Rightarrow> (Inl (NoWordRepairs syndrome), p'))"

section \<open>Byte encoding\<close>

text \<open>
  \<open>bytes_of\<close> and \<open>from_bytes\<close> of bytemuck are the parameters \<open>bo\<close> and \<open>fb\<close>; \<open>fb\<close> is
  partial because the cast panics on a slice of the wrong size or alignment.
\<close>

definition to_bytes :: "(page_header \<Rightarrow> bytes) \<Rightarrow> page \<Rightarrow> bytes" where
  "to_bytes bo p = bo (header p) @ cells p"

definition from_bytes :: "(bytes \<Rightarrow> page_header option) \<Rightarrow> bytes \<Rightarrow> page result option" where
  "from_bytes fb bs =
     (if length bs < PAGE_SIZE then Some (Inl Corruption)
      else case fb (take HEADER_SIZE bs) of
             None \<Rightarrow> None
           | Some h \<Rightarrow> Some (Inr \<lparr>header = h, cells = window bs HEADER_SIZE (PAGE_SIZE - HEADER_SIZE)\<rparr>))"

locale pod_codec =
  fixes bo :: "page_header \<Rightarrow> bytes" and fb :: "bytes \<Rightarrow> page_header option"
  assumes length_bo [simp]: "length (bo h) = HEADER_SIZE"
    and fb_bo [simp]: "fb (bo h) = Some h"
begin

lemma length_to_bytes: "wf_page p \<Longrightarrow> length (to_bytes bo p) = PAGE_SIZE"
  by (simp add: to_bytes_def wf_page_def page_consts)

lemma from_bytes_to_bytes: "wf_page p \<Longrightarrow> from_bytes fb (to_bytes bo p @ rest) = Some (Inr p)"
  using length_bo by (simp add: to_bytes_def from_bytes_def wf_page_def page_consts window_def)

lemma to_bytes_inj: "wf_page p \<Longrightarrow> wf_page q \<Longrightarrow> to_bytes bo p = to_bytes bo q \<longleftrightarrow> p = q"
  by (metis from_bytes_to_bytes option.inject sum.inject(2))

end

text \<open>The \<open>repr(C)\<close> layout of \<open>PageHeader\<close> on a little-endian target.\<close>

definition le_bytes_of :: "page_header \<Rightarrow> bytes" where
  "le_bytes_of h = to_le 8 (page_type h) @ to_le 8 (tier_hint h) @ to_le 8 (homogeneity h) @
     to_le 8 (row_count h) @ to_le 8 (checksum h) @ to_le 8 (predecessor h) @
     to_le 8 (successor h) @ to_le 8 (parity h)"

definition le_from_bytes :: "bytes \<Rightarrow> page_header option" where
  "le_from_bytes bs =
     (if length bs = HEADER_SIZE then
        Some \<lparr>page_type = from_le (window bs 0 8), tier_hint = from_le (window bs 8 8),
          homogeneity = from_le (window bs 16 8), row_count = from_le (window bs 24 8),
          checksum = from_le (window bs 32 8), predecessor = from_le (window bs 40 8),
          successor = from_le (window bs 48 8), parity = from_le (window bs 56 8)\<rparr>
      else None)"

interpretation le_pod: pod_codec le_bytes_of le_from_bytes
  by unfold_locales (simp_all add: le_bytes_of_def le_from_bytes_def HEADER_SIZE_def window_def)

section \<open>Cell access\<close>

lemma wf_page_new [simp]: "wf_page page_new"
  by (simp add: wf_page_def page_new_def)

lemma wf_page_length: "wf_page p \<Longrightarrow> length (cells p) = 4032"
  by (simp add: wf_page_def page_consts)

lemma wf_update_checksum [simp]: "wf_page (update_checksum hw p) = wf_page p"
  by (simp add: wf_page_def update_checksum_def)

lemma set_cell_wf: "wf_page p \<Longrightarrow> set_cell p i v = Some p' \<Longrightarrow> wf_page p'"
  by (auto simp: set_cell_def wf_page_def page_consts split: if_splits)

lemma get_set_cell:
  assumes "wf_page p" and "set_cell p i v = Some p'"
  shows "get_cell p' j = (if j = i then Some v else get_cell p j)"
proof -
  from assms have p': "p' = p\<lparr>cells := patch (cells p) (i * 8) (to_le 8 v)\<rparr>" and i: "i < 504"
    by (auto simp: set_cell_def page_consts split: if_splits)
  have "window (patch (cells p) (i * 8) (to_le 8 v)) (j * 8) 8 = window (cells p) (j * 8) 8"
    if "j \<noteq> i" "j < 504"
    using that i assms(1) by (intro window_patch_other) (auto simp: wf_page_def page_consts)
  then show ?thesis
    using i p' assms(1) by (simp add: get_cell_def wf_page_def page_consts)
qed

lemma as_u64_slice_get_cell:
  "i < PAGE_CELLS \<Longrightarrow> get_cell p i = Some (as_u64_slice p ! i)"
  by (simp add: get_cell_def as_u64_slice_def mult.commute)

section \<open>Parity of a flipped payload\<close>

definition xor_words :: "bytes list \<Rightarrow> u64" where
  "xor_words = foldl (\<lambda>parity chunk. parity XOR from_le chunk) 0"

lemma foldl_xor_words: "foldl (\<lambda>parity chunk. parity XOR from_le chunk) a cs = a XOR xor_words cs"
proof (induction cs arbitrary: a)
  case (Cons c cs)
  from Cons [of "a XOR from_le c"] Cons [of "from_le c"] show ?case
    by (simp add: xor_words_def xor.assoc)
qed (simp add: xor_words_def)

lemma xor_words_Nil [simp]: "xor_words [] = 0"
  by (simp add: xor_words_def)

lemma xor_words_Cons [simp]: "xor_words (c # cs) = from_le c XOR xor_words cs"
  using foldl_xor_words [of "from_le c" cs] by (simp add: xor_words_def)

lemma xor_words_append [simp]: "xor_words (cs @ ds) = xor_words cs XOR xor_words ds"
  by (induction cs) (simp_all add: xor.assoc)

lemma xor_words_update:
  assumes "i < length cs" and "from_le c = (from_le (cs ! i) :: u64) XOR d"
  shows "xor_words (cs[i := c]) = xor_words cs XOR d"
proof -
  have "xor_words cs = xor_words (take i cs) XOR (from_le (cs ! i) XOR xor_words (drop (Suc i) cs))"
    using assms(1) by (subst id_take_nth_drop) simp_all
  with assms show ?thesis by (simp add: upd_conv_take_nth_drop ac_simps)
qed

lemma from_le_flip_byte_bit:
  assumes "length bs = 8" and "j < 8" and "k < 8"
  shows "(from_le (flip_byte_bit bs j k) :: u64) = from_le bs XOR 2 ^ (8 * j + k)"
proof (rule bit_word_eqI)
  fix i assume "i < LENGTH(64)"
  then have "i div 8 < 8" and i: "i < 64" by auto
  moreover have "(i div 8 = j \<and> i mod 8 = k) = (i = 8 * j + k)" using assms by auto
  ultimately show "bit (from_le (flip_byte_bit bs j k) :: u64) i =
      bit (from_le bs XOR 2 ^ (8 * j + k) :: u64) i"
    using assms by (auto simp: bit_from_le nth_flip_byte_bit bit_xor_iff bit_two_pow)
qed

lemma window_flip_byte_bit:
  assumes "8 * i + 8 \<le> length cs" and "j < length cs"
  shows "window (flip_byte_bit cs j k) (8 * i) 8 =
    (if i = j div 8 then flip_byte_bit (window cs (8 * i) 8) (j mod 8) k else window cs (8 * i) 8)"
proof (rule nth_equalityI)
  show "length (window (flip_byte_bit cs j k) (8 * i) 8) = length
    (if i = j div 8 then flip_byte_bit (window cs (8 * i) 8) (j mod 8) k else window cs (8 * i) 8)"
    using assms by simp
  fix n assume "n < length (window (flip_byte_bit cs j k) (8 * i) 8)"
  then have n: "n < 8" using assms by simp
  have "(8 * i + n = j) = (i = j div 8 \<and> n = j mod 8)" using n by auto
  with n assms show "window (flip_byte_bit cs j k) (8 * i) 8 ! n =
    (if i = j div 8 then flip_byte_bit (window cs (8 * i) 8) (j mod 8) k else window cs (8 * i) 8) ! n"
    by (auto simp: nth_window flip_byte_bit_def nth_list_update)
qed

lemma chunks_exact_flip_byte_bit:
  assumes "length cs = 8 * n" and "j < 8 * n"
  shows "chunks_exact 8 (flip_byte_bit cs j k) =
    (chunks_exact 8 cs)[j div 8 := flip_byte_bit (chunks_exact 8 cs ! (j div 8)) (j mod 8) k]"
proof (rule nth_equalityI)
  show "length (chunks_exact 8 (flip_byte_bit cs j k)) = length
    ((chunks_exact 8 cs)[j div 8 := flip_byte_bit (chunks_exact 8 cs ! (j div 8)) (j mod 8) k])"
    by (simp add: length_chunks_exact)
  fix i assume "i < length (chunks_exact 8 (flip_byte_bit cs j k))"
  then have i: "i < n" "8 * i + 8 \<le> length cs" using assms by (simp_all add: length_chunks_exact)
  with assms have "j div 8 < n" by simp
  with i assms show "chunks_exact 8 (flip_byte_bit cs j k) ! i =
    (chunks_exact 8 cs)[j div 8 := flip_byte_bit (chunks_exact 8 cs ! (j div 8)) (j mod 8) k] ! i"
    using window_flip_byte_bit [OF i(2), of j k]
    by (simp add: length_chunks_exact nth_chunks_exact nth_list_update)
qed

lemma compute_parity_words: "8 dvd length cs \<Longrightarrow> compute_parity cs = xor_words (chunks_exact 8 cs)"
  by (simp add: compute_parity_def xor_words_def chunks_remainder_def)

lemma compute_parity_flip_byte_bit:
  assumes "8 dvd length cs" and "j < length cs" and "k < 8"
  shows "compute_parity (flip_byte_bit cs j k) = compute_parity cs XOR 2 ^ (8 * (j mod 8) + k)"
proof -
  from assms(1) obtain n where n: "length cs = 8 * n" by (rule dvdE)
  have "j div 8 < n" using n assms(2) by simp
  then have "length (chunks_exact 8 cs ! (j div 8)) = 8"
    using n by (intro chunks_exact_width [of _ 8 cs] nth_mem) (simp add: length_chunks_exact)
  then have "from_le (flip_byte_bit (chunks_exact 8 cs ! (j div 8)) (j mod 8) k) =
      (from_le (chunks_exact 8 cs ! (j div 8)) :: u64) XOR 2 ^ (8 * (j mod 8) + k)"
    using assms(3) by (intro from_le_flip_byte_bit) simp_all
  with n assms show ?thesis
    by (simp add: compute_parity_words chunks_exact_flip_byte_bit xor_words_update length_chunks_exact)
qed

section \<open>The candidate loop\<close>

lemma xor_cell_simps [simp]:
  "header (xor_cell p i m) = header p" "length (cells (xor_cell p i m)) = length (cells p)"
  "wf_page (xor_cell p i m) = wf_page p" "xor_cell (xor_cell p i m) i m = p"
  by (cases "i < length (cells p)";
      simp add: xor_cell_def wf_page_def xor.assoc list_update_beyond)+

lemma cells_xor_cell: "cells (xor_cell p j (2 ^ k)) = flip_byte_bit (cells p) j k"
  by (simp add: xor_cell_def flip_byte_bit_def)

lemma try_words_skip:
  "\<forall>w\<in>set ws. \<not> verify_checksum hw (xor_cell p (w * 8 + b) m) \<Longrightarrow>
     try_words hw b m (ws @ ws') p = try_words hw b m ws' p"
  by (induction ws) (simp_all add: Let_def)

lemma try_words_cases:
  obtains (found) w where "w \<in> set ws" and "try_words hw b m ws p = (True, xor_cell p (w * 8 + b) m)"
      and "verify_checksum hw (xor_cell p (w * 8 + b) m)"
  | (none) "try_words hw b m ws p = (False, p)"
      and "\<forall>w\<in>set ws. \<not> verify_checksum hw (xor_cell p (w * 8 + b) m)"
proof (induction ws arbitrary: thesis)
  case (Cons w ws)
  show ?case
  proof (cases "verify_checksum hw (xor_cell p (w * 8 + b) m)")
    case True
    then show ?thesis by (intro Cons.prems(1) [of w]) simp_all
  next
    case False
    show ?thesis
      by (rule Cons.IH; use False Cons.prems in \<open>fastforce simp: Let_def\<close>)
  qed
qed simp

section \<open>Detection and correction\<close>

lemma verify_checksum_flip:
  assumes "wf_page p" and "j < 4032" and "k < 8"
  shows "verify_checksum hw (xor_cell p j (2 ^ k)) \<longleftrightarrow>
    checksum (header p) = ucast (compute_crc32c hw (cells p) XOR (crc_round ^^ (8 * (4032 - j) - k)) 1)"
  using assms compute_crc32c_flip [of j "cells p" k hw]
  by (auto simp: verify_checksum_def cells_xor_cell wf_page_length)

lemma ucast_u32_eq: "(ucast a :: u64) = ucast b \<longleftrightarrow> a = (b :: u32)"
proof
  assume eq: "(ucast a :: u64) = ucast b"
  show "a = b"
  proof (rule bit_word_eqI)
    fix i assume "i < LENGTH(32)"
    with arg_cong [OF eq, of "\<lambda>w. bit w i"] show "bit a i = bit b i" by (simp add: bit_ucast_iff)
  qed
qed simp

lemma flip_not_verified:
  assumes "wf_page p" and "verify_checksum hw p" and "j < 4032" and "k < 8"
  shows "\<not> verify_checksum hw (xor_cell p j (2 ^ k))"
proof -
  have "checksum (header p) = ucast (compute_crc32c hw (cells p))"
    using assms(2) by (simp add: verify_checksum_def)
  with assms show ?thesis
    by (simp only: verify_checksum_flip ucast_u32_eq word_eq_xor_iff crc_round_pow_eq_0)
      simp
qed

lemma two_flips_not_verified:
  assumes "wf_page p" and "verify_checksum hw p"
    and "j < 4032" and "k < 8" and "j' < 4032" and "k' < 8" and "(j, k) \<noteq> (j', k')"
  shows "\<not> verify_checksum hw (xor_cell (xor_cell p j (2 ^ k)) j' (2 ^ k'))"
proof
  let ?a = "8 * (4032 - j) - k" and ?b = "8 * (4032 - j') - k'"
  assume "verify_checksum hw (xor_cell (xor_cell p j (2 ^ k)) j' (2 ^ k'))"
  then have "checksum (header p) =
      ucast (compute_crc32c hw (cells (xor_cell p j (2 ^ k))) XOR (crc_round ^^ ?b) 1)"
    using assms verify_checksum_flip [of "xor_cell p j (2 ^ k)" j' k' hw] by simp
  moreover have "compute_crc32c hw (cells (xor_cell p j (2 ^ k))) =
      compute_crc32c hw (cells p) XOR (crc_round ^^ ?a) 1"
    using assms compute_crc32c_flip [of j "cells p" k hw] by (simp add: cells_xor_cell wf_page_length)
  moreover have "checksum (header p) = ucast (compute_crc32c hw (cells p))"
    using assms(2) by (simp add: verify_checksum_def)
  ultimately have "(crc_round ^^ ?a) 1 = (crc_round ^^ ?b) 1"
    by (simp only: ucast_u32_eq xor.assoc word_eq_xor_iff word_xor_eq_0)
  moreover have "8 * j + k \<noteq> 8 * j' + k'"
  proof
    assume "8 * j + k = 8 * j' + k'"
    then have "(8 * j + k) div 8 = (8 * j' + k') div 8" "(8 * j + k) mod 8 = (8 * j' + k') mod 8"
      by simp_all
    with assms show False by simp
  qed
  then have "?a \<noteq> ?b" using assms(3-6) by linarith
  ultimately show False using crc_pow_distinct [of ?a ?b] assms by simp
qed

lemma two_pow_xor_not_single:
  assumes "a < 64" and "b < 64"
  shows "count_ones (2 ^ a XOR 2 ^ b :: u64) \<noteq> 1"
proof
  assume "count_ones (2 ^ a XOR 2 ^ b :: u64) = 1"
  then obtain c where c: "c < LENGTH(64)" "2 ^ a XOR 2 ^ b = (2 ^ c :: u64)"
    by (rule count_ones_eq_1)
  then have "bit (2 ^ a XOR 2 ^ b :: u64) i = bit (2 ^ c :: u64) i" for i by simp
  then have "((i = a) \<noteq> (i = b)) = (i = c)" for i
    using assms c(1) by (auto simp: bit_xor_iff bit_two_pow)
  then show False by metis
qed

lemma flip_syndrome:
  assumes "wf_page p" and "j < 4032" and "k < 8"
  shows "compute_parity (cells (xor_cell p j (2 ^ k))) = compute_parity (cells p) XOR 2 ^ (8 * (j mod 8) + k)"
  using assms compute_parity_flip_byte_bit [of "cells p" j k]
  by (simp add: cells_xor_cell wf_page_length)

lemma update_checksum_simps [simp]:
  "verify_checksum hw (update_checksum hw p)"
  "cells (update_checksum hw p) = cells p"
  "parity (header (update_checksum hw p)) = compute_parity (cells p)"
  by (simp_all add: verify_checksum_def update_checksum_def)

text \<open>C1: single-bit error correction. Take any page whose header was refreshed by
  \<open>update_checksum\<close> and flip any one bit of its payload: \<open>verify_and_correct\<close> answers
  \<open>Ok(true)\<close> and leaves exactly the original page, on both CRC paths.\<close>

theorem verify_and_correct_single_flip:
  assumes "wf_page p" and "j < PAGE_SIZE - HEADER_SIZE" and "k < 8"
  shows "verify_and_correct sse42 (xor_cell (update_checksum sse42 p) j (push_bit k 1)) =
    (Inr True, update_checksum sse42 p)"
proof -
  let ?q = "update_checksum sse42 p" and ?b = "j mod 8" and ?w = "j div 8"
  let ?p = "xor_cell ?q j (2 ^ k)"
  have j: "j < 4032" using assms(2) by (simp add: page_consts)
  have wf: "wf_page ?q" "wf_page ?p" using assms by simp_all
  have syn: "compute_parity (cells p) XOR compute_parity (cells ?p) = 2 ^ (8 * ?b + k)"
    using flip_syndrome [OF wf(1) j assms(3)] by simp
  have "8 * ?b + k < 64" using assms(3) by simp
  then have bits: "count_ones (2 ^ (8 * ?b + k) :: u64) = 1"
      "trailing_zeros (2 ^ (8 * ?b + k) :: u64) = 8 * ?b + k"
    by (simp_all add: count_ones_two_pow trailing_zeros_two_pow)
  have "[0..<504] = [0..<?w] @ ?w # [Suc ?w..<504]"
    using j upt_add_eq_append [of 0 ?w "504 - ?w"] upt_conv_Cons [of ?w 504] by simp
  moreover have "\<not> verify_checksum sse42 (xor_cell ?p (w * 8 + ?b) (2 ^ k))" if "w < ?w" for w
  proof -
    from that have "w * 8 + ?b < j" by (metis add.commute add_less_cancel_left div_mult_mod_eq
      mult_less_cancel2 zero_less_numeral)
    with j assms(3) wf(1) show ?thesis by (intro two_flips_not_verified) simp_all
  qed
  ultimately have "try_words sse42 ?b (2 ^ k) [0..<504] ?p = (True, ?q)"
    by (simp add: try_words_skip)
  moreover have "\<not> verify_checksum sse42 ?p"
    using wf(1) j assms(3) by (simp add: flip_not_verified)
  ultimately show ?thesis
    using wf assms(3) by (simp add: verify_and_correct_def Let_def syn bits wf_page_length)
qed

theorem verify_and_correct_single_flip_witness:
  "verify_and_correct True (xor_cell (update_checksum True page_new) 4031 (push_bit 7 1)) =
    (Inr True, update_checksum True page_new)"
  by (rule verify_and_correct_single_flip) (simp_all add: page_consts)

text \<open>C2: double-bit error detection. Two flips of different payload bits of a checksummed page
  are never mistaken for a clean page and never "corrected": the answer is the multi-bit
  error and the page is left as it was found.\<close>

theorem verify_and_correct_double_flip:
  assumes "wf_page p" and "j < PAGE_SIZE - HEADER_SIZE" and "k < 8"
    and "j' < PAGE_SIZE - HEADER_SIZE" and "k' < 8" and "(j, k) \<noteq> (j', k')"
    and "q = xor_cell (xor_cell (update_checksum sse42 p) j (push_bit k 1)) j' (push_bit k' 1)"
  shows "\<exists>s n. n \<noteq> 1 \<and> verify_and_correct sse42 q = (Inl (MultiBit s n), q)"
proof -
  let ?u = "update_checksum sse42 p" and ?a = "8 * (j mod 8) + k" and ?b = "8 * (j' mod 8) + k'"
  have j: "j < 4032" "j' < 4032" using assms(2,4) by (simp_all add: page_consts)
  have "?a < 64" "?b < 64" using assms(3,5) by simp_all
  then have c: "count_ones (2 ^ ?a XOR 2 ^ ?b :: u64) \<noteq> 1" by (rule two_pow_xor_not_single)
  have q: "q = xor_cell (xor_cell ?u j (2 ^ k)) j' (2 ^ k')" using assms(7) by simp
  have "compute_parity (cells q) = compute_parity (cells p) XOR 2 ^ ?a XOR 2 ^ ?b"
    unfolding q using flip_syndrome [of ?u j k] flip_syndrome [of "xor_cell ?u j (2 ^ k)" j' k'] assms j
    by (simp add: xor.assoc)
  then have "parity (header q) XOR compute_parity (cells q) = 2 ^ ?a XOR 2 ^ ?b"
    using q by (simp add: xor.assoc)
  moreover have "\<not> verify_checksum sse42 q"
    unfolding q using assms(1,3,5,6) j by (intro two_flips_not_verified) simp_all
  ultimately show ?thesis using c by (simp add: verify_and_correct_def Let_def)
qed

theorem verify_and_correct_double_flip_witness:
  "\<exists>s n. n \<noteq> 1 \<and> verify_and_correct False
     (xor_cell (xor_cell (update_checksum False page_new) 0 (push_bit 3 1)) 8 (push_bit 3 1)) =
     (Inl (MultiBit s n),
      xor_cell (xor_cell (update_checksum False page_new) 0 (push_bit 3 1)) 8 (push_bit 3 1))"
  by (rule verify_and_correct_double_flip [of page_new 0 3 8 3]) (simp_all add: page_consts)

text \<open>C4: what an answer of \<open>verify_and_correct\<close> means, for an arbitrary page. \<open>Ok(false)\<close>
  leaves the page alone and its checksum holds; \<open>Ok(true)\<close> means the page was corrupt, exactly
  one payload bit was changed, and now both checksum and parity hold; an error leaves the
  (corrupt) page unchanged.\<close>

theorem verify_and_correct_sound:
  assumes "wf_page p"
  shows "case verify_and_correct sse42 p of
      (Inr False, p') \<Rightarrow> p' = p \<and> verify_checksum sse42 p
    | (Inr True, p') \<Rightarrow> \<not> verify_checksum sse42 p \<and> verify_checksum sse42 p'
        \<and> compute_parity (cells p') = parity (header p')
        \<and> (\<exists>j<PAGE_SIZE - HEADER_SIZE. \<exists>k<8. p' = xor_cell p j (push_bit k 1))
    | (Inl e, p') \<Rightarrow> p' = p \<and> \<not> verify_checksum sse42 p"
proof -
  let ?s = "parity (header p) XOR compute_parity (cells p)"
  consider (ok) "verify_checksum sse42 p" | (multi) "\<not> verify_checksum sse42 p" "count_ones ?s \<noteq> 1"
    | (single) "\<not> verify_checksum sse42 p" "count_ones ?s = 1" by blast
  then show ?thesis
  proof cases
    case single
    from single(2) obtain b where b: "b < LENGTH(64)" "?s = 2 ^ b" by (rule count_ones_eq_1)
    let ?t = "try_words sse42 (b div 8) (2 ^ (b mod 8)) [0..<504] p"
    have v: "verify_and_correct sse42 p =
        (case ?t of (True, p') \<Rightarrow> (Inr True, p') | (False, p') \<Rightarrow> (Inl (NoWordRepairs ?s), p'))"
      using single b assms
      by (simp add: verify_and_correct_def Let_def count_ones_two_pow trailing_zeros_two_pow wf_page_length)
    show ?thesis
    proof (cases rule: try_words_cases [of "[0..<504]" sse42 "b div 8" "2 ^ (b mod 8)" p])
      case (found w)
      let ?j = "w * 8 + b div 8"
      have "w < 504" "b div 8 < 8" using found(1) b(1) by auto
      then have j: "?j < 4032" "?j mod 8 = b div 8" by simp_all
      have "compute_parity (cells (xor_cell p ?j (2 ^ (b mod 8)))) = compute_parity (cells p) XOR ?s"
        using flip_syndrome [OF assms j(1), of "b mod 8"] b(2) j(2) by simp
      then have "compute_parity (cells (xor_cell p ?j (2 ^ (b mod 8)))) = parity (header p)"
        by (simp add: xor.commute)
      moreover have "\<exists>j<4032. \<exists>k<8. xor_cell p ?j (2 ^ (b mod 8)) = xor_cell p j (2 ^ k)"
        using j(1) by (intro exI [of _ ?j] conjI exI [of _ "b mod 8"]) simp_all
      ultimately show ?thesis using v found single(1) by (simp add: page_consts)
    next
      case none
      then show ?thesis using v single(1) by simp
    qed
  qed (simp_all add: verify_and_correct_def Let_def)
qed

theorem verify_and_correct_sound_witness:
  "case verify_and_correct True page_new of
      (Inr False, p') \<Rightarrow> p' = page_new \<and> verify_checksum True page_new
    | (Inr True, p') \<Rightarrow> \<not> verify_checksum True page_new \<and> verify_checksum True p'
        \<and> compute_parity (cells p') = parity (header p')
        \<and> (\<exists>j<PAGE_SIZE - HEADER_SIZE. \<exists>k<8. p' = xor_cell page_new j (push_bit k 1))
    | (Inl e, p') \<Rightarrow> p' = page_new \<and> \<not> verify_checksum True page_new"
  by (rule verify_and_correct_sound) simp

text \<open>Decoding an encoded page, with any bytes after it, gives the page back, and the encoding
  takes exactly \<open>PAGE_SIZE\<close> bytes, for every header codec with the contract of bytemuck.\<close>

theorem page_bytes_roundtrip:
  assumes "pod_codec bo fb" and "wf_page p"
  shows "from_bytes fb (to_bytes bo p @ rest) = Some (Inr p) \<and> length (to_bytes bo p) = PAGE_SIZE"
  using pod_codec.from_bytes_to_bytes [OF assms] pod_codec.length_to_bytes [OF assms] by simp

theorem page_bytes_roundtrip_witness:
  "from_bytes le_from_bytes (to_bytes le_bytes_of page_new @ []) = Some (Inr page_new) \<and>
   length (to_bytes le_bytes_of page_new) = PAGE_SIZE"
  by (rule page_bytes_roundtrip [OF le_pod.pod_codec_axioms wf_page_new])

text \<open>Writing a cell is visible in that cell, leaves every other cell and the header alone,
  keeps the payload size, and panics exactly on an index past the last cell.\<close>

theorem set_cell_correct:
  assumes "wf_page p"
  shows "case set_cell p i v of
      None \<Rightarrow> PAGE_CELLS \<le> i
    | Some p' \<Rightarrow> i < PAGE_CELLS \<and> wf_page p' \<and> header p' = header p
        \<and> (\<forall>j. get_cell p' j = (if j = i then Some v else get_cell p j))"
proof (cases "set_cell p i v")
  case None
  then show ?thesis by (simp add: set_cell_def split: if_splits)
next
  case (Some p')
  have "i < PAGE_CELLS" and "header p' = header p"
    using Some by (auto simp: set_cell_def split: if_splits)
  with Some show ?thesis using get_set_cell [OF assms Some] set_cell_wf [OF assms Some] by simp
qed

theorem set_cell_correct_witness:
  "case set_cell page_new 503 7 of
      None \<Rightarrow> PAGE_CELLS \<le> 503
    | Some p' \<Rightarrow> 503 < PAGE_CELLS \<and> wf_page p' \<and> header p' = header page_new
        \<and> (\<forall>j. get_cell p' j = (if j = 503 then Some 7 else get_cell page_new j))"
  by (rule set_cell_correct) simp

end
