(* ===== verification/Sstable.thy ===== *)
theory Sstable
  imports Page
begin

text \<open>
  Sorted string tables (src/storage/sstable.rs): the writer that appends pages, index and
  footer, and the memory-mapped reader. \<open>usize\<close> and \<open>u64\<close> offsets are 64-bit words whose
  arithmetic wraps as in a release build; a slice out of range is the panic \<open>None\<close>. Which
  writes the operating system accepts is the parameter \<open>io\<close>; after an I/O error the content
  of the file is not specified and the model has no successor state. bytemuck is the pair
  \<open>bo\<close>, \<open>fb\<close> of \<^theory_text>\<open>Page\<close>.
\<close>

section \<open>Writer\<close>

definition SSTABLE_MAGIC :: bytes where
  "SSTABLE_MAGIC = [0x54, 0x56, 0x53, 0x53, 0x54, 0x30, 0x30, 0x31]"

definition HEADER_SIZE_BYTES :: nat where "HEADER_SIZE_BYTES = 16"
definition FOOTER_SIZE_BYTES :: nat where "FOOTER_SIZE_BYTES = 24"

record sst_writer =
  w_file :: bytes
  w_page_count :: u64
  w_page_offsets :: "u64 list"

text \<open>
  \<open>io_write io f bs\<close> is \<open>write_all\<close> of \<open>bs\<close> after the bytes \<open>f\<close>; \<open>io\<close> tells for each
  system interaction whether it succeeds.
\<close>

datatype io_call = Open_File | Write_Bytes bytes bytes | Flush bytes | Seek_Patch bytes | Sync_All bytes

type_synonym io_env = "io_call \<Rightarrow> bool"

definition io_write :: "io_env \<Rightarrow> bytes \<Rightarrow> bytes \<Rightarrow> bytes result" where
  "io_write io f bs = (if io (Write_Bytes f bs) then Inr (f @ bs) else Inl Io)"

definition sst_create :: "io_env \<Rightarrow> sst_writer result" where
  "sst_create io =
     (if \<not> io Open_File then Inl Io
      else bind_result (io_write io [] SSTABLE_MAGIC) (\<lambda>f.
           bind_result (io_write io f (to_le 8 (0 :: u64))) (\<lambda>f.
           Inr \<lparr>w_file = f, w_page_count = 0, w_page_offsets = []\<rparr>)))"

definition sst_write_page :: "io_env \<Rightarrow> (page_header \<Rightarrow> bytes) \<Rightarrow> sst_writer \<Rightarrow> page \<Rightarrow> (u64 \<times> sst_writer) result" where
  "sst_write_page io bo w p =
     (let offset = of_nat HEADER_SIZE_BYTES + w_page_count w * of_nat PAGE_SIZE
      in bind_result (io_write io (w_file w) (bo (header p))) (\<lambda>f.
         bind_result (io_write io f (cells p)) (\<lambda>f.
         Inr (offset, \<lparr>w_file = f, w_page_count = w_page_count w + 1,
                        w_page_offsets = w_page_offsets w @ [offset]\<rparr>))))"

primrec io_write_offsets :: "io_env \<Rightarrow> bytes \<Rightarrow> u64 list \<Rightarrow> bytes result" where
  "io_write_offsets io f [] = Inr f"
| "io_write_offsets io f (x # xs) =
     bind_result (io_write io f (to_le 8 x)) (\<lambda>f. io_write_offsets io f xs)"

text \<open>\<open>finish\<close> returns the bytes it reports as written together with the finished file.\<close>

definition sst_finish :: "io_env \<Rightarrow> sst_writer \<Rightarrow> (u64 \<times> bytes) result" where
  "sst_finish io w =
     (let index_offset = of_nat HEADER_SIZE_BYTES + w_page_count w * of_nat PAGE_SIZE
      in bind_result (io_write_offsets io (w_file w) (w_page_offsets w)) (\<lambda>f.
         bind_result (io_write io f SSTABLE_MAGIC) (\<lambda>f.
         bind_result (io_write io f (to_le 8 (w_page_count w))) (\<lambda>f.
         bind_result (io_write io f (to_le 8 index_offset)) (\<lambda>f.
         if \<not> io (Flush f) then Inl Io
         else if \<not> io (Seek_Patch f) then Inl Io
         else let f = patch f 8 (to_le 8 (w_page_count w))
              in if \<not> io (Sync_All f) then Inl Io
                 else Inr (index_offset + w_page_count w * 8 + of_nat FOOTER_SIZE_BYTES, f))))))"

section \<open>Reader\<close>

record sst_reader =
  r_mmap :: bytes
  r_page_count :: u64
  r_index_offset :: u64

definition sst_open :: "bytes \<Rightarrow> sst_reader result" where
  "sst_open mmap =
     (let mmap_len = length mmap
      in if mmap_len < HEADER_SIZE_BYTES + FOOTER_SIZE_BYTES then Inl Corruption
         else if take 8 mmap \<noteq> SSTABLE_MAGIC then Inl Corruption
         else
           let footer_start = mmap_len - FOOTER_SIZE_BYTES
           in if window mmap footer_start 8 \<noteq> SSTABLE_MAGIC then Inl Corruption
              else
                let page_count = from_le (window mmap (footer_start + 8) 8);
                    index_offset = from_le (window mmap (footer_start + 16) 8);
                    index_end = index_offset + page_count * 8 :: u64
                in if unat index_end > mmap_len - FOOTER_SIZE_BYTES then Inl Corruption
                   else Inr \<lparr>r_mmap = mmap, r_page_count = page_count, r_index_offset = index_offset\<rparr>)"

text \<open>\<open>read_u64 m pos\<close> is \<open>u64::from_le_bytes(m[pos..pos + 8].try_into().unwrap())\<close>.\<close>

definition read_u64 :: "bytes \<Rightarrow> u64 \<Rightarrow> u64 option" where
  "read_u64 m pos = map_option from_le (slice_range m (unat pos) (unat (pos + 8)))"

definition page_offset :: "sst_reader \<Rightarrow> u64 \<Rightarrow> u64 result option" where
  "page_offset r index =
     (let pos = r_index_offset r + index * 8
      in if unat (pos + 8) > length (r_mmap r) then Some (Inl Corruption)
         else map_option Inr (read_u64 (r_mmap r) pos))"

definition first_cell :: "sst_reader \<Rightarrow> u64 \<Rightarrow> u64 option option" where
  "first_cell r index =
     (case page_offset r index of
        None \<Rightarrow> None
      | Some (Inl _) \<Rightarrow> Some None
      | Some (Inr offset) \<Rightarrow>
          let cell_pos = offset + of_nat HEADER_SIZE
          in if unat (cell_pos + 8) > length (r_mmap r) then Some None
             else map_option Some (read_u64 (r_mmap r) cell_pos))"

definition sst_read_page :: "(bytes \<Rightarrow> page_header option) \<Rightarrow> sst_reader \<Rightarrow> u64 \<Rightarrow> page result option" where
  "sst_read_page fb r index =
     (if index \<ge> r_page_count r then Some (Inl NotFound)
      else case page_offset r index of
        None \<Rightarrow> None
      | Some (Inl e) \<Rightarrow> Some (Inl e)
      | Some (Inr offset) \<Rightarrow>
          if unat (offset + of_nat PAGE_SIZE) > length (r_mmap r) then Some (Inl Corruption)
          else case slice_range (r_mmap r) (unat offset) (unat (offset + of_nat PAGE_SIZE)) of
                 None \<Rightarrow> None
               | Some bs \<Rightarrow> from_bytes fb bs)"

text \<open>
  The search loop on signed 64-bit bounds (\<open>i64 n\<close> is \<open>n as i64\<close>). The outer option is
  termination, the middle one a panic inside \<open>first_cell\<close>.
\<close>

partial_function (option) search_loop ::
  "sst_reader \<Rightarrow> u64 \<Rightarrow> int \<Rightarrow> int \<Rightarrow> u64 option \<Rightarrow> u64 option option option" where
  "search_loop r key lo hi res =
     (if lo \<le> hi then
        let mid = word_of_int (i64 (lo + hi) div 2)
        in case first_cell r mid of
             None \<Rightarrow> Some None
           | Some None \<Rightarrow> Some (Some res)
           | Some (Some first_key) \<Rightarrow>
               if first_key \<le> key then search_loop r key (i64 (sint mid + 1)) hi (Some mid)
               else search_loop r key lo (i64 (sint mid - 1)) res
      else Some (Some res))"

definition binary_search :: "sst_reader \<Rightarrow> u64 \<Rightarrow> u64 option option option" where
  "binary_search r key =
     (if r_page_count r = 0 then Some (Some None)
      else search_loop r key 0 (i64 (sint (r_page_count r) - 1)) None)"

section \<open>The file a writer produces\<close>

definition page_pos :: "nat \<Rightarrow> nat" where
  "page_pos i = 16 + 4096 * i"

definition sst_file :: "(page_header \<Rightarrow> bytes) \<Rightarrow> page list \<Rightarrow> bytes" where
  "sst_file bo ps =
     (let n = length ps; count = to_le 8 (of_nat n :: u64)
      in SSTABLE_MAGIC @ count @ concat (map (to_bytes bo) ps) @
         concat (map (\<lambda>i. to_le 8 (of_nat (page_pos i) :: u64)) [0..<n]) @
         SSTABLE_MAGIC @ count @ to_le 8 (of_nat (page_pos n) :: u64))"

primrec sst_write_pages :: "io_env \<Rightarrow> (page_header \<Rightarrow> bytes) \<Rightarrow> sst_writer \<Rightarrow> page list \<Rightarrow> sst_writer result" where
  "sst_write_pages io bo w [] = Inr w"
| "sst_write_pages io bo w (p # ps) =
     bind_result (sst_write_page io bo w p) (\<lambda>(_, w'). sst_write_pages io bo w' ps)"

definition sst_build :: "io_env \<Rightarrow> (page_header \<Rightarrow> bytes) \<Rightarrow> page list \<Rightarrow> (u64 \<times> bytes) result" where
  "sst_build io bo ps =
     bind_result (sst_create io) (\<lambda>w. bind_result (sst_write_pages io bo w ps) (sst_finish io))"

lemma io_write_Inr: "io_write io f bs = Inr g \<longleftrightarrow> io (Write_Bytes f bs) \<and> g = f @ bs"
  by (auto simp: io_write_def)

lemma io_write_offsets_Inr:
  "io_write_offsets io f xs = Inr g \<Longrightarrow> g = f @ concat (map (to_le 8) xs)"
  by (induction xs arbitrary: f) (fastforce simp: bind_result_Inr io_write_Inr)+

lemma sst_write_page_Inr:
  assumes "sst_write_page io bo w p = Inr (o', w1)" and "w_page_count w = of_nat n"
  shows "w1 = \<lparr>w_file = w_file w @ to_bytes bo p, w_page_count = of_nat (Suc n),
       w_page_offsets = w_page_offsets w @ [of_nat (page_pos n)]\<rparr>"
proof -
  have "of_nat HEADER_SIZE_BYTES + of_nat n * of_nat PAGE_SIZE = (of_nat (page_pos n) :: u64)"
    by (simp add: page_pos_def HEADER_SIZE_BYTES_def PAGE_SIZE_def)
  with assms show ?thesis
    by (auto simp: sst_write_page_def bind_result_Inr io_write_Inr to_bytes_def Let_def add.commute)
qed

lemma sst_write_pages_Inr:
  assumes "sst_write_pages io bo w ps = Inr w'"
    and "w_page_count w = of_nat n"
  shows "w' = \<lparr>w_file = w_file w @ concat (map (to_bytes bo) ps),
      w_page_count = of_nat (n + length ps),
      w_page_offsets = w_page_offsets w @ map (\<lambda>i. of_nat (page_pos i)) [n..<n + length ps]\<rparr>"
  using assms
proof (induction ps arbitrary: w n)
  case (Cons p ps)
  let ?w1 = "\<lparr>w_file = w_file w @ to_bytes bo p, w_page_count = of_nat (Suc n),
       w_page_offsets = w_page_offsets w @ [of_nat (page_pos n)]\<rparr>"
  from Cons.prems(1) obtain o' w1 where w1: "sst_write_page io bo w p = Inr (o', w1)"
    "sst_write_pages io bo w1 ps = Inr w'"
    by (auto simp: bind_result_Inr)
  from w1(1) Cons.prems(2) have "w1 = ?w1" by (rule sst_write_page_Inr)
  moreover have "[n..<n + length (p # ps)] = n # [Suc n..<Suc n + length ps]"
    using upt_conv_Cons [of n "n + Suc (length ps)"] by (simp del: upt.simps)
  ultimately show ?case using Cons.IH [OF w1(2), of "Suc n"] by (simp del: upt.simps)
qed simp

lemma length_SSTABLE_MAGIC [simp]: "length SSTABLE_MAGIC = 8"
  by (simp add: SSTABLE_MAGIC_def)

lemma sst_build_Inr:
  assumes "sst_build io bo ps = Inr (tot, f)"
  shows "f = sst_file bo ps" and "tot = of_nat (page_pos (length ps) + 8 * length ps + 24)"
proof -
  from assms obtain w g where w: "sst_write_pages io bo
      \<lparr>w_file = SSTABLE_MAGIC @ to_le 8 (0 :: u64), w_page_count = 0, w_page_offsets = []\<rparr> ps = Inr w"
    and g: "io_write_offsets io (w_file w) (w_page_offsets w) = Inr g"
    and f: "f = patch (g @ SSTABLE_MAGIC @ to_le 8 (w_page_count w) @
        to_le 8 (of_nat HEADER_SIZE_BYTES + w_page_count w * of_nat PAGE_SIZE)) 8 (to_le 8 (w_page_count w))"
    and t: "tot = of_nat HEADER_SIZE_BYTES + w_page_count w * of_nat PAGE_SIZE +
        w_page_count w * 8 + of_nat FOOTER_SIZE_BYTES"
    by (auto simp: sst_build_def sst_create_def sst_finish_def bind_result_Inr io_write_Inr Let_def
      split: if_splits)
  note w' = sst_write_pages_Inr [OF w, of 0]
  note g' = io_write_offsets_Inr [OF g]
  show "tot = of_nat (page_pos (length ps) + 8 * length ps + 24)"
    using t w' by (simp add: page_pos_def HEADER_SIZE_BYTES_def FOOTER_SIZE_BYTES_def PAGE_SIZE_def)
  show "f = sst_file bo ps"
    unfolding f g' using w'
    by (simp add: patch_def sst_file_def Let_def page_pos_def HEADER_SIZE_BYTES_def PAGE_SIZE_def
      comp_def ac_simps)
qed

section \<open>Reading the file back\<close>

definition sst_fits :: "nat \<Rightarrow> bool" where
  "sst_fits n \<longleftrightarrow> page_pos n + 8 * n + 24 < 2 ^ 63"

lemma sst_fits_bounds:
  assumes "sst_fits n" and "i \<le> n"
  shows "unat (of_nat i :: u64) = i" and "unat (of_nat (page_pos i) :: u64) = page_pos i"
  using assms by (intro unat_of_nat_u64; simp add: sst_fits_def page_pos_def)+

text \<open>The reader state \<open>open\<close> reaches on such a file, and the sort key of a page.\<close>

definition sst_view :: "(page_header \<Rightarrow> bytes) \<Rightarrow> page list \<Rightarrow> sst_reader" where
  "sst_view bo ps = \<lparr>r_mmap = sst_file bo ps, r_page_count = of_nat (length ps),
     r_index_offset = of_nat (page_pos (length ps))\<rparr>"

definition cell0 :: "page \<Rightarrow> u64" where
  "cell0 p = from_le (window (cells p) 0 8)"

lemma sorted_cell0:
  "sorted (map cell0 ps) \<Longrightarrow> i \<le> j \<Longrightarrow> j < length ps \<Longrightarrow> cell0 (ps ! i) \<le> cell0 (ps ! j)"
  using sorted_nth_mono [of "map cell0 ps" i j] by simp

context pod_codec
begin

lemma length_sst_pages:
  "\<forall>p\<in>set ps. wf_page p \<Longrightarrow> length (concat (map (to_bytes bo) ps)) = 4096 * length ps"
  by (subst length_concat_blocks [of _ 4096]) (simp_all add: length_to_bytes PAGE_SIZE_def)

lemma length_sst_index: "length (concat (map (\<lambda>i. to_le 8 (g i)) [0..<n])) = 8 * n"
  by (subst length_concat_blocks [of _ 8]) simp_all

lemma sst_file_layout:
  assumes "\<forall>p\<in>set ps. wf_page p" and "n = length ps"
  shows "length (sst_file bo ps) = page_pos n + 8 * n + 24"
    and "take 8 (sst_file bo ps) = SSTABLE_MAGIC"
    and "window (sst_file bo ps) (page_pos n + 8 * n) 8 = SSTABLE_MAGIC"
    and "window (sst_file bo ps) (page_pos n + 8 * n + 8) 8 = to_le 8 (of_nat n :: u64)"
    and "window (sst_file bo ps) (page_pos n + 8 * n + 16) 8 = to_le 8 (of_nat (page_pos n) :: u64)"
    and "i < n \<Longrightarrow> window (sst_file bo ps) (page_pos i) 4096 = to_bytes bo (ps ! i)"
    and "i < n \<Longrightarrow> window (sst_file bo ps) (page_pos n + 8 * i) 8 = to_le 8 (of_nat (page_pos i) :: u64)"
proof -
  let ?P = "concat (map (to_bytes bo) ps)"
  let ?I = "concat (map (\<lambda>i. to_le 8 (of_nat (page_pos i) :: u64)) [0..<n])"
  let ?c = "to_le 8 (of_nat n :: u64)" and ?o = "to_le 8 (of_nat (page_pos n) :: u64)"
  have F: "sst_file bo ps = (SSTABLE_MAGIC @ ?c) @ ?P @ ?I @ SSTABLE_MAGIC @ ?c @ ?o"
    using assms(2) by (simp add: sst_file_def Let_def)
  have P: "length ?P = 4096 * n" using length_sst_pages [OF assms(1)] assms(2) by simp
  note len = P length_sst_index page_pos_def
  show "length (sst_file bo ps) = page_pos n + 8 * n + 24" unfolding F by (simp add: len)
  show "take 8 (sst_file bo ps) = SSTABLE_MAGIC" unfolding F by simp
  show "window (sst_file bo ps) (page_pos n + 8 * n) 8 = SSTABLE_MAGIC"
    unfolding F by (simp add: window_append_right len window_def)
  show "window (sst_file bo ps) (page_pos n + 8 * n + 8) 8 = ?c"
    unfolding F by (simp add: window_append_right len window_def)
  show "window (sst_file bo ps) (page_pos n + 8 * n + 16) 8 = ?o"
    unfolding F by (simp add: window_append_right len window_def)
  show "window (sst_file bo ps) (page_pos i) 4096 = to_bytes bo (ps ! i)" if "i < n"
    unfolding F using that assms
      window_concat_blocks [of "map (to_bytes bo) ps" 4096 i "?I @ SSTABLE_MAGIC @ ?c @ ?o"]
    by (simp add: window_append_right page_pos_def length_to_bytes PAGE_SIZE_def)
  show "window (sst_file bo ps) (page_pos n + 8 * i) 8 = to_le 8 (of_nat (page_pos i) :: u64)" if "i < n"
    unfolding F using that window_concat_blocks [of "map (\<lambda>i. to_le 8 (of_nat (page_pos i) :: u64)) [0..<n]"
        8 i "SSTABLE_MAGIC @ ?c @ ?o"]
    by (simp add: window_append_right len)
qed

lemma sst_open_file:
  assumes "\<forall>p\<in>set ps. wf_page p" and "sst_fits (length ps)"
  shows "sst_open (sst_file bo ps) = Inr (sst_view bo ps)"
proof -
  let ?n = "length ps"
  note L = sst_file_layout [OF assms(1) refl]
  have "of_nat (page_pos ?n) + of_nat ?n * 8 = (of_nat (page_pos ?n + 8 * ?n) :: u64)" by simp
  moreover have "unat (of_nat (page_pos ?n + 8 * ?n) :: u64) = page_pos ?n + 8 * ?n"
    using assms(2) by (intro unat_of_nat_u64) (simp add: sst_fits_def)
  ultimately have "unat (of_nat (page_pos ?n) + of_nat ?n * 8 :: u64) = page_pos ?n + 8 * ?n"
    by (simp only:)
  moreover have "16 \<le> page_pos ?n" by (simp add: page_pos_def)
  ultimately show ?thesis
    using L(1-5) by (simp add: sst_open_def Let_def HEADER_SIZE_BYTES_def FOOTER_SIZE_BYTES_def
      sst_view_def)
qed

lemma page_offset_file:
  assumes "\<forall>p\<in>set ps. wf_page p" and "sst_fits (length ps)" and "i < length ps"
  shows "page_offset (sst_view bo ps) (of_nat i) = Some (Inr (of_nat (page_pos i)))"
proof -
  let ?pos = "page_pos (length ps) + 8 * i"
  have "of_nat (page_pos (length ps)) + of_nat i * 8 = (of_nat ?pos :: u64)" by simp
  moreover have "of_nat ?pos + 8 = (of_nat (?pos + 8) :: u64)" by simp
  moreover have "unat (of_nat ?pos :: u64) = ?pos" "unat (of_nat (?pos + 8) :: u64) = ?pos + 8"
    using assms by (intro unat_of_nat_u64; simp add: sst_fits_def)+
  moreover have "?pos + 8 \<le> length (sst_file bo ps)"
    using assms sst_file_layout(1) [OF assms(1) refl] by simp
  ultimately show ?thesis
    using sst_file_layout(7) [OF assms(1) refl assms(3)]
    by (simp only: page_offset_def read_u64_def slice_range_def sst_view_def sst_reader.simps Let_def)
      simp
qed

lemma page_window_in_file:
  assumes "\<forall>p\<in>set ps. wf_page p" and "sst_fits (length ps)" and "i < length ps" and "k + m \<le> 4096"
  shows "page_pos i + k + m \<le> length (sst_file bo ps)"
    and "unat (of_nat (page_pos i) + of_nat k :: u64) = page_pos i + k"
    and "window (sst_file bo ps) (page_pos i + k) m = window (to_bytes bo (ps ! i)) k m"
proof -
  show len: "page_pos i + k + m \<le> length (sst_file bo ps)"
    using assms sst_file_layout(1) [OF assms(1) refl] by (simp add: page_pos_def)
  have "unat (of_nat (page_pos i + k) :: u64) = page_pos i + k"
    using assms by (intro unat_of_nat_u64) (simp add: sst_fits_def page_pos_def)
  then show "unat (of_nat (page_pos i) + of_nat k :: u64) = page_pos i + k" by simp
  have "window (sst_file bo ps) (page_pos i + k) m =
      window (window (sst_file bo ps) (page_pos i) 4096) k m"
    using assms(4) by (simp add: window_def drop_take add.commute)
  then show "window (sst_file bo ps) (page_pos i + k) m = window (to_bytes bo (ps ! i)) k m"
    using sst_file_layout(6) [OF assms(1) refl assms(3)] by simp
qed

lemma first_cell_file:
  assumes "\<forall>p\<in>set ps. wf_page p" and "sst_fits (length ps)" and "i < length ps"
  shows "first_cell (sst_view bo ps) (of_nat i) = Some (Some (cell0 (ps ! i)))"
proof -
  note A = page_window_in_file [OF assms, of 64 8] and B = page_window_in_file [OF assms, of 72 0]
  have "window (to_bytes bo (ps ! i)) 64 8 = window (cells (ps ! i)) 0 8"
    by (simp add: to_bytes_def window_append_right HEADER_SIZE_def)
  moreover have "of_nat (page_pos i) + of_nat HEADER_SIZE + 8 = (of_nat (page_pos i) + of_nat 72 :: u64)"
    and "of_nat HEADER_SIZE = (of_nat 64 :: u64)"
    by (simp_all add: HEADER_SIZE_def)
  ultimately show ?thesis
    using A B
    by (simp add: first_cell_def page_offset_file [OF assms] Let_def read_u64_def slice_range_def
      cell0_def) (simp add: sst_view_def add.commute)
qed

lemma sst_read_page_file:
  assumes "\<forall>p\<in>set ps. wf_page p" and "sst_fits (length ps)"
  shows "sst_read_page fb (sst_view bo ps) (of_nat i) =
    (if unat (of_nat i :: u64) < length ps then Some (Inr (ps ! unat (of_nat i :: u64)))
     else Some (Inl NotFound))"
proof -
  let ?i = "unat (of_nat i :: u64)"
  have i: "of_nat ?i = (of_nat i :: u64)" by simp
  have n: "(of_nat i \<ge> r_page_count (sst_view bo ps)) = (\<not> ?i < length ps)"
    using sst_fits_bounds(1) [OF assms(2) order.refl] by (auto simp: sst_view_def word_le_nat_alt)
  show ?thesis
  proof (cases "?i < length ps")
    case True
    note A = page_window_in_file [OF assms True, of 0 4096] and B = page_window_in_file [OF assms True, of 4096 0]
    have "from_bytes fb (to_bytes bo (ps ! ?i)) = Some (Inr (ps ! ?i))"
      using from_bytes_to_bytes [of "ps ! ?i" "[]"] assms(1) True by simp
    moreover have "window (to_bytes bo (ps ! ?i)) 0 4096 = to_bytes bo (ps ! ?i)"
      using length_to_bytes [of "ps ! ?i"] assms(1) True by (simp add: window_def PAGE_SIZE_def)
    moreover have "(of_nat PAGE_SIZE :: u64) = of_nat 4096" by (simp add: PAGE_SIZE_def)
    ultimately show ?thesis
      using n True A B page_offset_file [OF assms True]
      by (simp add: sst_read_page_def i slice_range_def) (simp add: sst_view_def)
  qed (use n in \<open>simp add: sst_read_page_def\<close>)
qed

text \<open>The search on a file, with the bounds as naturals \<open>a = lo\<close> and \<open>b = hi + 1\<close>.\<close>

lemma search_loop_file:
  assumes "\<forall>p\<in>set ps. wf_page p" and "sst_fits (length ps)"
    and "sorted (map cell0 ps)" and "a \<le> b" and "b \<le> length ps"
    and "\<forall>j<a. cell0 (ps ! j) \<le> key" and "\<forall>j. b \<le> j \<longrightarrow> j < length ps \<longrightarrow> key < cell0 (ps ! j)"
  shows "\<exists>k\<le>length ps. search_loop (sst_view bo ps) key (int a) (int b - 1)
        (if a = 0 then None else Some (of_nat (a - 1))) =
      Some (Some (if k = 0 then None else Some (of_nat (k - 1)))) \<and>
    (\<forall>j<k. cell0 (ps ! j) \<le> key) \<and> (\<forall>j. k \<le> j \<longrightarrow> j < length ps \<longrightarrow> key < cell0 (ps ! j))"
  using assms(4-7)
proof (induction "b - a" arbitrary: a b rule: less_induct)
  case less
  have n: "length ps < 2 ^ 62" using assms(2) by (simp add: sst_fits_def page_pos_def)
  show ?case
  proof (cases "a < b")
    case False
    then show ?thesis using less.prems
      by (intro exI [of _ a]) (simp add: search_loop.simps)
  next
    case True
    define m where "m = (a + b - 1) div 2"
    have m: "a \<le> m" "m < b" "m < length ps" using True less.prems by (auto simp: m_def)
    have "int a + (int b - 1) = int (a + b - 1)" using True by simp
    moreover have "i64 (int (a + b - 1)) = int (a + b - 1)"
      using n less.prems True by (intro i64_id) simp_all
    ultimately have "i64 (int a + (int b - 1)) div 2 = int m" by (simp only: m_def zdiv_int of_nat_numeral)
    then have mid: "word_of_int (i64 (int a + (int b - 1)) div 2) = (of_nat m :: u64)" by simp
    have sm: "sint (of_nat m :: u64) = int m"
      using i64_id [of "int m"] n m by (simp add: i64_def)
    have lohi: "i64 (sint (of_nat m :: u64) + 1) = int (Suc m)" "i64 (sint (of_nat m :: u64) - 1) = int m - 1"
      using i64_id [of "int m + 1"] i64_id [of "int m - 1"] n m sm by simp_all
    show ?thesis
    proof (cases "cell0 (ps ! m) \<le> key")
      case True
      have "\<forall>j<Suc m. cell0 (ps ! j) \<le> key"
        using True sorted_cell0 [OF assms(3) _ m(3)] by (meson less_Suc_eq_le order_trans)
      with less.hyps [of b "Suc m"] less.prems m True
      obtain k where "k\<le>length ps" "search_loop (sst_view bo ps) key (int (Suc m)) (int b - 1)
          (Some (of_nat m)) = Some (Some (if k = 0 then None else Some (of_nat (k - 1))))"
        "(\<forall>j<k. cell0 (ps ! j) \<le> key)" "(\<forall>j. k \<le> j \<longrightarrow> j < length ps \<longrightarrow> key < cell0 (ps ! j))"
        by fastforce
      with \<open>a < b\<close> True show ?thesis
        using first_cell_file [OF assms(1,2) m(3)] mid lohi
        by (subst search_loop.simps) (auto simp: Let_def)
    next
      case False
      have "\<forall>j. m \<le> j \<longrightarrow> j < length ps \<longrightarrow> key < cell0 (ps ! j)"
        using False sorted_cell0 [OF assms(3)] by (meson not_le order_trans)
      with less.hyps [of m a] less.prems m
      obtain k where "k\<le>length ps" "search_loop (sst_view bo ps) key (int a) (int m - 1)
          (if a = 0 then None else Some (of_nat (a - 1))) =
          Some (Some (if k = 0 then None else Some (of_nat (k - 1))))"
        "(\<forall>j<k. cell0 (ps ! j) \<le> key)" "(\<forall>j. k \<le> j \<longrightarrow> j < length ps \<longrightarrow> key < cell0 (ps ! j))"
        by fastforce
      with \<open>a < b\<close> False show ?thesis
        using first_cell_file [OF assms(1,2) m(3)] mid lohi
        by (subst search_loop.simps) (auto simp: Let_def)
    qed
  qed
qed

end

section \<open>End-to-end properties\<close>

lemma sst_build_succeeds:
  assumes "\<And>c. io c"
  shows "\<exists>tot. sst_build io bo ps = Inr (tot, sst_file bo ps)"
proof -
  have w: "\<exists>w'. sst_write_pages io bo w ps = Inr w'" for w
    using assms by (induction ps arbitrary: w) (simp_all add: sst_write_page_def io_write_def Let_def)
  have o: "io_write_offsets io f xs \<noteq> Inl e" for f xs e
    using assms by (induction xs arbitrary: f) (simp_all add: io_write_def)
  have "\<exists>r. sst_build io bo ps = Inr r"
    using w o assms
    by (auto simp: sst_build_def sst_create_def sst_finish_def io_write_def Let_def bind_result_Inr)
      (metis sum.exhaust)
  then show ?thesis using sst_build_Inr by fastforce
qed

text \<open>C7: a finished SSTable opens, reports the number of pages written, returns page \<open>i\<close> exactly
  as it was written, and answers \<open>NotFound\<close> for every index past the last page; \<open>finish\<close>
  reports the length of the file.\<close>

theorem sstable_roundtrip:
  assumes "pod_codec bo fb" and "\<forall>p\<in>set ps. wf_page p" and "sst_fits (length ps)"
    and "sst_build io bo ps = Inr (tot, f)"
  shows "\<exists>r. sst_open f = Inr r \<and> unat (r_page_count r) = length ps \<and> unat tot = length f \<and>
    (\<forall>i. sst_read_page fb r i =
       Some (if unat i < length ps then Inr (ps ! unat i) else Inl NotFound))"
proof -
  note f = sst_build_Inr [OF assms(4)]
  have "unat tot = page_pos (length ps) + 8 * length ps + 24"
    unfolding f(2) using assms(3) by (intro unat_of_nat_u64) (simp add: sst_fits_def)
  moreover have "sst_read_page fb (sst_view bo ps) i =
       Some (if unat i < length ps then Inr (ps ! unat i) else Inl NotFound)" for i
    using pod_codec.sst_read_page_file [OF assms(1-3), of "unat i"] by simp
  ultimately show ?thesis
    using f(1) pod_codec.sst_open_file [OF assms(1-3)] sst_fits_bounds(1) [OF assms(3) order.refl]
      pod_codec.sst_file_layout(1) [OF assms(1,2) refl]
    by (simp add: sst_view_def)
qed

theorem sstable_roundtrip_witness:
  "\<exists>tot f r. sst_build (\<lambda>_. True) le_bytes_of [page_new] = Inr (tot, f) \<and> sst_open f = Inr r \<and>
     unat (r_page_count r) = length [page_new] \<and> unat tot = length f \<and>
     (\<forall>i. sst_read_page le_from_bytes r i =
       Some (if unat i < length [page_new] then Inr ([page_new] ! unat i) else Inl NotFound))"
proof -
  obtain tot where "sst_build (\<lambda>_. True) le_bytes_of [page_new] = Inr (tot, sst_file le_bytes_of [page_new])"
    using sst_build_succeeds [of "\<lambda>_. True"] by blast
  with sstable_roundtrip [OF le_pod.pod_codec_axioms _ _ this] show ?thesis
    by (simp add: sst_fits_def page_pos_def)
qed

text \<open>C12: on a finished SSTable whose pages were written in the order of their first cells,
  \<open>binary_search\<close> returns (it terminates without panicking) the index of the last page whose
  first cell is at most the key, and \<open>None\<close> exactly when the key lies before the first page.\<close>

theorem binary_search_floor:
  assumes "pod_codec bo fb" and "\<forall>p\<in>set ps. wf_page p" and "sst_fits (length ps)"
    and "sorted (map cell0 ps)" and "sst_build io bo ps = Inr (tot, f)" and "sst_open f = Inr r"
  shows "\<exists>res. binary_search r key = Some (Some res) \<and>
    (case res of
       None \<Rightarrow> \<forall>i<length ps. key < cell0 (ps ! i)
     | Some m \<Rightarrow> unat m < length ps \<and> cell0 (ps ! unat m) \<le> key \<and>
         (\<forall>j. unat m < j \<longrightarrow> j < length ps \<longrightarrow> key < cell0 (ps ! j)))"
proof -
  let ?n = "length ps"
  have r: "r = sst_view bo ps"
    using assms(6) sst_build_Inr(1) [OF assms(5)] pod_codec.sst_open_file [OF assms(1-3)] by simp
  have n: "?n < 2 ^ 62" using assms(3) by (simp add: sst_fits_def page_pos_def)
  have "sint (of_nat ?n :: u64) = int ?n" using i64_id [of "int ?n"] n by (simp add: i64_def)
  then have hi: "i64 (sint (of_nat ?n :: u64) - 1) = int ?n - 1" using i64_id [of "int ?n - 1"] n by simp
  have z: "of_nat ?n = (0 :: u64) \<longleftrightarrow> ps = []"
    using sst_fits_bounds(1) [OF assms(3) order.refl] by (cases ps) (force simp: unat_eq_zero)+
  obtain k where k: "k \<le> ?n" "search_loop (sst_view bo ps) key 0 (int ?n - 1) None =
      Some (Some (if k = 0 then None else Some (of_nat (k - 1))))"
    "\<forall>j<k. cell0 (ps ! j) \<le> key" "\<forall>j. k \<le> j \<longrightarrow> j < ?n \<longrightarrow> key < cell0 (ps ! j)"
    using pod_codec.search_loop_file [OF assms(1-4), of 0 ?n key] by auto
  have "unat (of_nat (k - 1) :: u64) = k - 1" using k(1) n by (intro unat_of_nat_u64) simp
  then show ?thesis
    using k z hi r by (cases "k = 0") (auto simp: binary_search_def sst_view_def)
qed

theorem binary_search_floor_witness:
  "\<exists>tot f r res. sst_build (\<lambda>_. True) le_bytes_of [page_new] = Inr (tot, f) \<and> sst_open f = Inr r \<and>
    binary_search r 5 = Some (Some res) \<and>
    (case res of
       None \<Rightarrow> \<forall>i<length [page_new]. 5 < cell0 ([page_new] ! i)
     | Some m \<Rightarrow> unat m < length [page_new] \<and> cell0 ([page_new] ! unat m) \<le> 5 \<and>
         (\<forall>j. unat m < j \<longrightarrow> j < length [page_new] \<longrightarrow> 5 < cell0 ([page_new] ! j)))"
proof -
  obtain tot where b: "sst_build (\<lambda>_. True) le_bytes_of [page_new] = Inr (tot, sst_file le_bytes_of [page_new])"
    using sst_build_succeeds [of "\<lambda>_. True"] by blast
  have fits: "sst_fits (length [page_new])" by (simp add: sst_fits_def page_pos_def)
  have o: "sst_open (sst_file le_bytes_of [page_new]) = Inr (sst_view le_bytes_of [page_new])"
    using le_pod.sst_open_file [OF _ fits] by simp
  have "\<forall>p\<in>set [page_new]. wf_page p" "sorted (map cell0 [page_new])" by simp_all
  from binary_search_floor [OF le_pod.pod_codec_axioms this(1) fits this(2) b o, of 5] b o
  show ?thesis by blast
qed

end
