(* ===== verification/Hlc_Clock.thy ===== *)
theory Hlc_Clock
  imports TV_Prelude
begin

text \<open>
  The hybrid logical clock of src/protocol/clock.rs. The wall clock is an argument: the signed
  number of nanoseconds since the UNIX epoch at the moment of the call. The counter arithmetic
  wraps at 64 bits as in a release build. Beyond the single-step laws the theory proves the
  clock's purpose: along every causal chain of a distributed execution the timestamps grow.
\<close>

section \<open>Timestamps and clock\<close>

datatype hlc_timestamp = Hlc (physical_ns: u64) (logical: u64)

instantiation hlc_timestamp :: linorder
begin

definition less_eq_hlc_timestamp :: "hlc_timestamp \<Rightarrow> hlc_timestamp \<Rightarrow> bool" where
  "less_eq_hlc_timestamp a b \<longleftrightarrow>
     physical_ns a < physical_ns b \<or> physical_ns a = physical_ns b \<and> logical a \<le> logical b"

definition less_hlc_timestamp :: "hlc_timestamp \<Rightarrow> hlc_timestamp \<Rightarrow> bool" where
  "less_hlc_timestamp a b \<longleftrightarrow>
     physical_ns a < physical_ns b \<or> physical_ns a = physical_ns b \<and> logical a < logical b"

instance
proof
  fix a b c :: hlc_timestamp
  show "(a < b) = (a \<le> b \<and> \<not> b \<le> a)"
    by (auto simp: less_eq_hlc_timestamp_def less_hlc_timestamp_def)
  show "a \<le> a" by (simp add: less_eq_hlc_timestamp_def)
  show "a \<le> b \<Longrightarrow> b \<le> c \<Longrightarrow> a \<le> c" by (auto simp: less_eq_hlc_timestamp_def)
  show "a \<le> b \<Longrightarrow> b \<le> a \<Longrightarrow> a = b"
    by (cases a; cases b) (auto simp: less_eq_hlc_timestamp_def)
  show "a \<le> b \<or> b \<le> a" by (auto simp: less_eq_hlc_timestamp_def)
qed

end

definition ZERO :: hlc_timestamp where
  "ZERO = Hlc 0 0"

record hlc_clock =
  clock_last :: hlc_timestamp

definition clock_new :: hlc_clock where
  "clock_new = \<lparr>clock_last = ZERO\<rparr>"

text \<open>\<open>as_nanos() as u64\<close>; a system clock before the epoch is the \<open>Err\<close> branch.\<close>

definition physical_now :: "int \<Rightarrow> u64" where
  "physical_now t = (if t < 0 then 0 else word_of_int t)"

definition clock_now :: "int \<Rightarrow> hlc_clock \<Rightarrow> hlc_timestamp \<times> hlc_clock" where
  "clock_now t c =
     (let pt = physical_now t;
          l = clock_last c;
          c' = (if pt > physical_ns l then c\<lparr>clock_last := Hlc pt 0\<rparr>
                else c\<lparr>clock_last := Hlc (physical_ns l) (logical l + 1)\<rparr>)
      in (clock_last c', c'))"

definition clock_observe :: "hlc_timestamp \<Rightarrow> hlc_clock \<Rightarrow> hlc_timestamp \<times> hlc_clock" where
  "clock_observe other c =
     (let l = clock_last c;
          c' = (if physical_ns other > physical_ns l then
                  c\<lparr>clock_last := Hlc (physical_ns other) (logical other + 1)\<rparr>
                else if physical_ns other = physical_ns l then
                  c\<lparr>clock_last := Hlc (physical_ns l) (max (logical l) (logical other) + 1)\<rparr>
                else
                  c\<lparr>clock_last := Hlc (physical_ns l) (logical l + 1)\<rparr>)
      in (clock_last c', c'))"

section \<open>Single steps\<close>

lemma word_less_succ: "unat (x :: u64) < 2 ^ 64 - 1 \<Longrightarrow> x < x + 1 \<and> unat (x + 1) = unat x + 1"
  by (simp add: word_less_nat_alt unat_word_ariths)

lemma snd_clock_now: "clock_last (snd (clock_now t c)) = fst (clock_now t c)"
  by (simp add: clock_now_def Let_def)

lemma snd_clock_observe: "clock_last (snd (clock_observe ts c)) = fst (clock_observe ts c)"
  by (simp add: clock_observe_def Let_def)

lemma clock_now_less:
  assumes "unat (logical (clock_last c)) < 2 ^ 64 - 1"
  shows "clock_last c < fst (clock_now t c)"
    and "unat (logical (fst (clock_now t c))) \<le> unat (logical (clock_last c)) + 1"
  using word_less_succ [OF assms]
  by (simp_all add: clock_now_def Let_def less_hlc_timestamp_def)

lemma clock_observe_less:
  assumes "unat (logical (clock_last c)) < 2 ^ 64 - 1" and "unat (logical ts) < 2 ^ 64 - 1"
  shows "clock_last c < fst (clock_observe ts c)" and "ts < fst (clock_observe ts c)"
    and "unat (logical (fst (clock_observe ts c))) \<le> max (unat (logical (clock_last c))) (unat (logical ts)) + 1"
proof -
  let ?l = "logical (clock_last c)" and ?o = "logical ts"
  note s = word_less_succ [OF assms(1)] word_less_succ [OF assms(2)]
  have m: "?l < max ?l ?o + 1" "?o < max ?l ?o + 1"
    using s by (auto simp: max_def not_le intro: le_less_trans less_trans)
  have u: "unat (max ?l ?o + 1) = max (unat ?l) (unat ?o) + 1"
    using s by (auto simp: max_def word_le_nat_alt)
  show "clock_last c < fst (clock_observe ts c)" and "ts < fst (clock_observe ts c)"
    using s m by (auto simp: clock_observe_def Let_def less_hlc_timestamp_def)
  show "unat (logical (fst (clock_observe ts c))) \<le> max (unat ?l) (unat ?o) + 1"
    using s u by (simp add: clock_observe_def Let_def)
qed

section \<open>Distributed executions\<close>

text \<open>
  An execution is a sequence of events, each at a node: a local event (a call of \<open>now\<close> with a
  wall-clock reading) or the receipt of the message sent at an earlier event (a call of
  \<open>observe\<close> with that event's timestamp). The state holds each node's clock and the
  timestamps issued so far.
\<close>

datatype hlc_event = Local int | Receive nat

type_synonym hlc_state = "(nat \<Rightarrow> hlc_clock) \<times> hlc_timestamp list"

definition hlc_step :: "hlc_state \<Rightarrow> nat \<times> hlc_event \<Rightarrow> hlc_state" where
  "hlc_step st pe =
     (let (cs, tss) = st; (p, e) = pe;
          (ts, c) = (case e of Local t \<Rightarrow> clock_now t (cs p) | Receive i \<Rightarrow> clock_observe (tss ! i) (cs p))
      in (cs(p := c), tss @ [ts]))"

definition hlc_exec :: "(nat \<times> hlc_event) list \<Rightarrow> hlc_state" where
  "hlc_exec es = foldl hlc_step (\<lambda>_. clock_new, []) es"

definition hlc_wf :: "(nat \<times> hlc_event) list \<Rightarrow> bool" where
  "hlc_wf es \<longleftrightarrow> (\<forall>j<length es. case snd (es ! j) of Local t \<Rightarrow> True | Receive i \<Rightarrow> i < j)"

definition happens_before :: "(nat \<times> hlc_event) list \<Rightarrow> (nat \<times> nat) set" where
  "happens_before es = {(i, j). i < j \<and> j < length es \<and>
     (fst (es ! i) = fst (es ! j) \<or> snd (es ! j) = Receive i)}"

definition hlc_inv :: "(nat \<times> hlc_event) list \<Rightarrow> bool" where
  "hlc_inv es \<longleftrightarrow>
     (let (cs, tss) = hlc_exec es
      in length tss = length es \<and>
         (\<forall>p. unat (logical (clock_last (cs p))) \<le> length es) \<and>
         (\<forall>i<length es. unat (logical (tss ! i)) \<le> length es \<and> tss ! i \<le> clock_last (cs (fst (es ! i)))) \<and>
         (\<forall>(i, j)\<in>happens_before es. tss ! i < tss ! j))"

lemma hlc_wf_snoc:
  "hlc_wf (es @ [e]) \<longleftrightarrow> hlc_wf es \<and> (case snd e of Local t \<Rightarrow> True | Receive i \<Rightarrow> i < length es)"
  by (auto simp: hlc_wf_def nth_append less_Suc_eq)

lemma happens_before_snoc:
  "happens_before (es @ [e]) = happens_before es \<union>
     {(i, length es) | i. i < length es \<and> (fst (es ! i) = fst e \<or> snd e = Receive i)}"
  by (auto simp: happens_before_def nth_append less_Suc_eq)

lemma hlc_inv_snoc:
  assumes "hlc_inv es" and "hlc_wf (es @ [e])" and "length es < 2 ^ 64 - 1"
  shows "hlc_inv (es @ [e])"
proof -
  obtain p ev where e: "e = (p, ev)" by (cases e)
  obtain cs tss where st: "hlc_exec es = (cs, tss)" by (cases "hlc_exec es")
  from assms(1) st have len: "length tss = length es"
    and cb: "\<And>q. unat (logical (clock_last (cs q))) \<le> length es"
    and tb: "\<And>i. i < length es \<Longrightarrow> unat (logical (tss ! i)) \<le> length es"
    and tc: "\<And>i. i < length es \<Longrightarrow> tss ! i \<le> clock_last (cs (fst (es ! i)))"
    and hb: "\<And>i j. (i, j) \<in> happens_before es \<Longrightarrow> tss ! i < tss ! j"
    by (auto simp: hlc_inv_def)
  define r where "r = (case ev of Local t \<Rightarrow> clock_now t (cs p) | Receive i \<Rightarrow> clock_observe (tss ! i) (cs p))"
  have st': "hlc_exec (es @ [e]) = (cs(p := snd r), tss @ [fst r])"
    using st by (simp add: hlc_exec_def hlc_step_def e r_def split: prod.splits)
  have lb: "unat (logical (clock_last (cs p))) < 2 ^ 64 - 1" using cb [of p] assms(3) by simp
  have rl: "clock_last (snd r) = fst r" by (simp add: r_def snd_clock_now snd_clock_observe split: hlc_event.split)
  have r: "clock_last (cs p) < fst r \<and> unat (logical (fst r)) \<le> length es + 1 \<and>
      (\<forall>i. ev = Receive i \<longrightarrow> tss ! i < fst r)"
  proof (cases ev)
    case (Local t)
    then show ?thesis using clock_now_less [OF lb, of t] cb [of p] by (simp add: r_def)
  next
    case (Receive i)
    with assms(2) e have i: "i < length es" by (simp add: hlc_wf_snoc)
    then have "unat (logical (tss ! i)) < 2 ^ 64 - 1" using tb assms(3) by force
    from clock_observe_less [OF lb this] Receive cb [of p] tb [OF i] show ?thesis by (simp add: r_def)
  qed
  have "tss ! i < fst r" if "i < length es" "fst (es ! i) = p \<or> ev = Receive i" for i
    using that r tc [OF that(1)] by (auto intro: le_less_trans)
  moreover have "i < length es \<and> j < length es" if "(i, j) \<in> happens_before es" for i j
    using that by (auto simp: happens_before_def)
  moreover have "tss ! i \<le> fst r" if "i < length es" "fst (es ! i) = p" for i
    using calculation(1) that by (auto intro: less_imp_le)
  ultimately show ?thesis
    using st' len cb tb tc hb r rl e
    by (auto simp: hlc_inv_def happens_before_snoc nth_append less_Suc_eq le_Suc_eq)
qed

lemma hlc_exec_inv: "hlc_wf es \<Longrightarrow> length es < 2 ^ 64 \<Longrightarrow> hlc_inv es"
proof (induction es rule: rev_induct)
  case Nil
  show ?case by (simp add: hlc_inv_def hlc_exec_def clock_new_def ZERO_def happens_before_def)
next
  case (snoc e es)
  then show ?case by (intro hlc_inv_snoc) (simp_all add: hlc_wf_snoc)
qed

section \<open>Properties\<close>

text \<open>C14: causality. In every distributed execution of fewer than \<open>2^64\<close> events, whatever the wall
  clocks show, an event that happens before another (same node earlier, or message sent and
  received, or a chain of these) carries a strictly smaller timestamp.\<close>

theorem hlc_causality:
  assumes "hlc_wf es" and "length es < 2 ^ 64" and "(i, j) \<in> (happens_before es)\<^sup>+"
  shows "snd (hlc_exec es) ! i < snd (hlc_exec es) ! j"
  using assms(3)
proof (induction rule: trancl.induct)
  case (r_into_trancl i j)
  with hlc_exec_inv [OF assms(1,2)] show ?case by (auto simp: hlc_inv_def split: prod.splits)
next
  case (trancl_into_trancl i j k)
  with hlc_exec_inv [OF assms(1,2)] have "snd (hlc_exec es) ! j < snd (hlc_exec es) ! k"
    by (auto simp: hlc_inv_def split: prod.splits)
  with trancl_into_trancl.IH show ?case by simp
qed

theorem hlc_causality_witness:
  "snd (hlc_exec [(0, Local 5), (1, Receive 0), (1, Local 3)]) ! 0 <
   snd (hlc_exec [(0, Local 5), (1, Receive 0), (1, Local 3)]) ! 2"
proof (rule hlc_causality)
  let ?es = "[(0, Local 5), (1, Receive 0), (1, Local 3)]"
  show "hlc_wf ?es" by (auto simp: hlc_wf_def less_Suc_eq numeral_eq_Suc)
  show "length ?es < 2 ^ 64" by simp
  have "(0, 1) \<in> happens_before ?es" "(1, 2) \<in> happens_before ?es" by (simp_all add: happens_before_def)
  then show "(0, 2) \<in> (happens_before ?es)\<^sup>+" by (rule trancl_into_trancl [OF r_into_trancl])
qed

text \<open>\<open>observe\<close> returns a timestamp greater than both the clock's last one and the received one,
  and \<open>now\<close> one greater than the last, as long as the counters have not reached their
  maximum; both leave the clock at the returned timestamp.\<close>

theorem hlc_steps_increase:
  assumes "unat (logical (clock_last c)) < 2 ^ 64 - 1" and "unat (logical ts) < 2 ^ 64 - 1"
  shows "(case clock_observe ts c of (r, c') \<Rightarrow> clock_last c < r \<and> ts < r \<and> clock_last c' = r) \<and>
    (case clock_now t c of (r, c') \<Rightarrow> clock_last c < r \<and> clock_last c' = r)"
  using clock_now_less(1) [OF assms(1)] clock_observe_less(1,2) [OF assms] snd_clock_now snd_clock_observe
  by (simp add: split_beta)

theorem hlc_steps_increase_witness:
  "(case clock_observe (Hlc 9 4) clock_new of
      (r, c') \<Rightarrow> clock_last clock_new < r \<and> Hlc 9 4 < r \<and> clock_last c' = r) \<and>
   (case clock_now (- 1) clock_new of (r, c') \<Rightarrow> clock_last clock_new < r \<and> clock_last c' = r)"
  by (rule hlc_steps_increase) (simp_all add: clock_new_def ZERO_def)

end
