(* ===== verification/Tier.thy ===== *)
theory Tier
  imports TV_Prelude
begin

text \<open>
  The memory tiers of src/memory/tier.rs: the enum, its display names and the volatility and
  locality predicates. The latency, bandwidth and energy tables are floating-point constants
  and are not modelled.
\<close>

datatype memory_tier = L1L2 | L3 | Ddr5 | Hbm | Cxl | Nvme | NvmeOf | Network

definition default_tier :: memory_tier where
  "default_tier = Ddr5"

fun tier_name :: "memory_tier \<Rightarrow> string" where
  "tier_name L1L2 = ''L1/L2''"
| "tier_name L3 = ''L3''"
| "tier_name Ddr5 = ''DDR5''"
| "tier_name Hbm = ''HBM''"
| "tier_name Cxl = ''CXL''"
| "tier_name Nvme = ''NVMe''"
| "tier_name NvmeOf = ''NVMe-oF''"
| "tier_name Network = ''Network''"

fun is_volatile :: "memory_tier \<Rightarrow> bool" where
  "is_volatile t \<longleftrightarrow> t \<in> {L1L2, L3, Ddr5, Hbm, Cxl}"

fun is_local :: "memory_tier \<Rightarrow> bool" where
  "is_local t \<longleftrightarrow> t \<in> {L1L2, L3, Ddr5, Hbm, Cxl, Nvme}"

lemma volatile_is_local: "is_volatile t \<Longrightarrow> is_local t"
  by auto

lemma tier_name_inj: "tier_name a = tier_name b \<longleftrightarrow> a = b"
  by (cases a; cases b) simp_all

end
