(* ===== verification/Wal.thy ===== *)
theory Wal
  imports Tier
begin

text \<open>
  The zoned write-ahead log of src/storage/wal.rs: record framing, the writer with its
  \<open>BufWriter\<close> and zone bookkeeping, the simulated crash, and the reader. The xxh3 hash is a
  parameter; so is the environment \<open>wal_env\<close>, which says how many bytes of each write the
  operating system accepts and whether \<open>fsync\<close> and the zone \<open>ioctl\<close>s succeed. The buffer is
  the standard library's \<open>BufWriter\<close> with its default capacity of 8 KiB. \<open>disk\<close> is what the
  operating system holds, \<open>synced\<close> how much of it was durable at the last \<open>fsync\<close>.
\<close>

section \<open>Data\<close>

definition DEFAULT_ZONE_CAPACITY :: u64 where
  "DEFAULT_ZONE_CAPACITY = push_bit 30 1"

record wal_record =
  txn_id :: u64
  record_type :: u8
  payload :: bytes

datatype wal_zone_state = Zone_Empty | Zone_Open | Zone_Full | Zone_Finished

record wal_zone =
  zone_id :: u64
  capacity :: u64
  write_offset :: u64
  zone_state :: wal_zone_state

definition zone_new :: "u64 \<Rightarrow> u64 \<Rightarrow> wal_zone" where
  "zone_new i c = \<lparr>zone_id = i, capacity = c, write_offset = 0, zone_state = Zone_Empty\<rparr>"

definition saturating_sub :: "'a::len word \<Rightarrow> 'a word \<Rightarrow> 'a word" where
  "saturating_sub a b = (if a < b then 0 else a - b)"

definition remaining :: "wal_zone \<Rightarrow> u64" where
  "remaining z = saturating_sub (capacity z) (write_offset z)"

record wal =
  wal_path :: string
  wal_buf :: "bytes option"
  disk :: bytes
  synced :: nat
  bytes_written :: u64
  records_written :: u64
  wal_tier :: memory_tier
  is_zns :: bool
  zone_capacity :: u64
  current_zone :: "wal_zone option"
  zones_opened :: u64
  zones_finished :: u64

record wal_env =
  os_accepts :: "bytes \<Rightarrow> bytes \<Rightarrow> nat"
  fsync_ok :: "bytes \<Rightarrow> bool"
  open_ioctl :: "u64 \<Rightarrow> u64 \<Rightarrow> bool"
  finish_ioctl :: "u64 \<Rightarrow> u64 \<Rightarrow> bool"

type_synonym 'a wal_op = "wal \<Rightarrow> 'a result \<times> wal"

definition bind_wal :: "'a wal_op \<Rightarrow> ('a \<Rightarrow> 'b wal_op) \<Rightarrow> 'b wal_op" where
  "bind_wal m k w = (case m w of (Inl e, w') \<Rightarrow> (Inl e, w') | (Inr x, w') \<Rightarrow> k x w')"

section \<open>The buffered file\<close>

definition BUF_CAPACITY :: nat where
  "BUF_CAPACITY = 8192"

text \<open>\<open>os_write\<close> hands \<open>bs\<close> to the file; a short count is an error after a partial write.\<close>

definition os_write :: "wal_env \<Rightarrow> bytes \<Rightarrow> bytes \<Rightarrow> bool \<times> nat \<times> bytes" where
  "os_write env d bs =
     (let k = min (os_accepts env d bs) (length bs) in (k = length bs, k, d @ take k bs))"

definition flush_buf :: "wal_env \<Rightarrow> bytes \<Rightarrow> unit wal_op" where
  "flush_buf env buf w =
     (case os_write env (disk w) buf of
        (ok, k, d) \<Rightarrow> (if ok then Inr () else Inl Io, w\<lparr>disk := d, wal_buf := Some (drop k buf)\<rparr>))"

definition buf_write_all :: "wal_env \<Rightarrow> bytes \<Rightarrow> bytes \<Rightarrow> unit wal_op" where
  "buf_write_all env buf bs w =
     (let spare = BUF_CAPACITY - length buf
      in if length bs < spare then (Inr (), w\<lparr>wal_buf := Some (buf @ bs)\<rparr>)
         else bind_wal
           (if length bs > spare then flush_buf env buf else (\<lambda>w. (Inr (), w)))
           (\<lambda>_ w. if length bs \<ge> BUF_CAPACITY then
                    (case os_write env (disk w) bs of
                       (ok, k, d) \<Rightarrow> (if ok then Inr () else Inl Io, w\<lparr>disk := d\<rparr>))
                  else (Inr (), w\<lparr>wal_buf := map_option (\<lambda>b. b @ bs) (wal_buf w)\<rparr>)) w)"

section \<open>Writer\<close>

text \<open>\<open>detect_zns\<close> from the outcome of opening the path and of the \<open>BLKGETZONESZ\<close> ioctl.\<close>

definition detect_zns :: "bool \<Rightarrow> int \<Rightarrow> u32 \<Rightarrow> bool" where
  "detect_zns opened ret zone_size \<longleftrightarrow> (if opened then ret = 0 \<and> zone_size > 0 else False)"

text \<open>\<open>open\<close> on a file with content \<open>d\<close>; \<open>opened\<close> says whether directory creation and open
  succeed, \<open>zns\<close> is the answer of \<open>detect_zns\<close>.\<close>

definition wal_open :: "bool \<Rightarrow> bool \<Rightarrow> string \<Rightarrow> bytes \<Rightarrow> memory_tier \<Rightarrow> wal result" where
  "wal_open opened zns path d tier =
     (if \<not> opened then Inl Io
      else Inr \<lparr>wal_path = path, wal_buf = Some [], disk = d, synced = length d,
        bytes_written = 0, records_written = 0, wal_tier = tier, is_zns = zns,
        zone_capacity = DEFAULT_ZONE_CAPACITY, current_zone = None, zones_opened = 0,
        zones_finished = 0\<rparr>)"

definition wal_flush :: "wal_env \<Rightarrow> unit wal_op" where
  "wal_flush env w =
     (case wal_buf w of None \<Rightarrow> (Inr (), w) | Some buf \<Rightarrow> flush_buf env buf w)"

definition wal_sync :: "wal_env \<Rightarrow> unit wal_op" where
  "wal_sync env w =
     (case wal_buf w of
        None \<Rightarrow> (Inr (), w)
      | Some buf \<Rightarrow> bind_wal (flush_buf env buf)
          (\<lambda>_ w. if fsync_ok env (disk w) then (Inr (), w\<lparr>synced := length (disk w)\<rparr>)
                 else (Inl Io, w)) w)"

definition finish_zone :: "wal_env \<Rightarrow> unit wal_op" where
  "finish_zone env w =
     (case current_zone w of
        None \<Rightarrow> (Inr (), w)
      | Some zone \<Rightarrow>
          let w = w\<lparr>current_zone := None\<rparr>;
              zone_size_sectors = zone_capacity w div 512
          in if is_zns w \<and> wal_buf w \<noteq> None \<and>
                \<not> finish_ioctl env (zone_id zone * zone_size_sectors) zone_size_sectors
             then (Inl Unsupported, w)
             else bind_wal (wal_sync env)
               (\<lambda>_ w. (Inr (), w\<lparr>zones_finished := zones_finished w + 1\<rparr>)) w)"

definition open_zone :: "wal_env \<Rightarrow> u64 wal_op" where
  "open_zone env =
     bind_wal (\<lambda>w. if current_zone w \<noteq> None then finish_zone env w else (Inr (), w))
       (\<lambda>_ w.
          let zid = zones_opened w;
              w = w\<lparr>zones_opened := zid + 1\<rparr>;
              zone_size_sectors = zone_capacity w div 512
          in if is_zns w \<and> wal_buf w \<noteq> None \<and>
                \<not> open_ioctl env (zid * zone_size_sectors) zone_size_sectors
             then (Inl Unsupported, w)
             else (Inr zid, w\<lparr>current_zone := Some (zone_new zid (zone_capacity w))\<rparr>))"

definition rotate_zone :: "wal_env \<Rightarrow> unit wal_op" where
  "rotate_zone env = bind_wal (finish_zone env) (\<lambda>_. bind_wal (open_zone env) (\<lambda>_ w. (Inr (), w)))"

definition WAL_MAGIC :: bytes where
  "WAL_MAGIC = [0x54, 0x56, 0x57, 0x31]"

definition record_body :: "wal_record \<Rightarrow> bytes" where
  "record_body r = to_le 8 (txn_id r) @ [record_type r] @ payload r"

definition encode_record :: "(bytes \<Rightarrow> u64) \<Rightarrow> wal_record \<Rightarrow> bytes" where
  "encode_record xxh3 r =
     (let body = record_body r; rec_len = length body + 8
      in WAL_MAGIC @ to_le 4 (of_nat rec_len :: u32) @ body @ to_le 8 (xxh3 body))"

definition charge_zone :: "u64 \<Rightarrow> wal_zone \<Rightarrow> wal_zone" where
  "charge_zone n z =
     (let z = z\<lparr>write_offset := write_offset z + n\<rparr>;
          z = (if zone_state z = Zone_Empty then z\<lparr>zone_state := Zone_Open\<rparr> else z)
      in if write_offset z \<ge> capacity z then z\<lparr>zone_state := Zone_Full\<rparr> else z)"

definition wal_append :: "wal_env \<Rightarrow> (bytes \<Rightarrow> u64) \<Rightarrow> wal_record \<Rightarrow> unit wal_op" where
  "wal_append env xxh3 r w =
     (let buf = encode_record xxh3 r;
          buf_len = of_nat (length buf) :: u64;
          need_rotate = (case current_zone w of None \<Rightarrow> True | Some z \<Rightarrow> remaining z < buf_len)
      in bind_wal (if need_rotate then rotate_zone env else (\<lambda>w. (Inr (), w)))
         (\<lambda>_ w.
            let w = w\<lparr>current_zone := map_option (charge_zone buf_len) (current_zone w)\<rparr>
            in case wal_buf w of
                 None \<Rightarrow> (Inl Other, w)
               | Some b \<Rightarrow> bind_wal (buf_write_all env b buf)
                   (\<lambda>_ w. (Inr (), w\<lparr>bytes_written := bytes_written w + buf_len,
                              records_written := records_written w + 1\<rparr>)) w) w)"

text \<open>\<open>simulate_crash\<close> consumes the log and forgets the buffer; what is left is the file.\<close>

definition simulate_crash :: "wal \<Rightarrow> bytes" where
  "simulate_crash w = disk w"

section \<open>Reader\<close>

text \<open>\<open>read_exact\<close> on the unread bytes of the file; \<open>fault\<close> is an I/O error other than
  end of file.\<close>

datatype read_outcome = Got bytes bytes | Eof | Fault

definition read_exact :: "(bytes \<Rightarrow> nat \<Rightarrow> bool) \<Rightarrow> bytes \<Rightarrow> nat \<Rightarrow> read_outcome" where
  "read_exact fault inp n =
     (if fault inp n then Fault else if length inp < n then Eof else Got (take n inp) (drop n inp))"

definition next_record ::
  "(bytes \<Rightarrow> nat \<Rightarrow> bool) \<Rightarrow> (bytes \<Rightarrow> u64) \<Rightarrow> bytes \<Rightarrow> (wal_record \<times> bytes) option result" where
  "next_record fault xxh3 inp =
     (case read_exact fault inp 8 of
        Eof \<Rightarrow> Inr None
      | Fault \<Rightarrow> Inl Io
      | Got hdr inp \<Rightarrow>
          if take 4 hdr \<noteq> WAL_MAGIC then Inr None
          else
            let rec_len = unat (from_le (drop 4 hdr) :: u32)
            in if rec_len < 17 then Inr None
               else case read_exact fault inp rec_len of
                      Eof \<Rightarrow> Inr None
                    | Fault \<Rightarrow> Inl Io
                    | Got body_and_checksum inp \<Rightarrow>
                        let body = take (rec_len - 8) body_and_checksum;
                            stored_checksum = from_le (drop (rec_len - 8) body_and_checksum) :: u64;
                            computed_checksum = xxh3 body
                        in if stored_checksum \<noteq> computed_checksum then Inr None
                           else Inr (Some (\<lparr>txn_id = from_le (take 8 body), record_type = body ! 8,
                                            payload = drop 9 body\<rparr>, inp)))"

lemma next_record_shorter: "next_record fault xxh3 inp = Inr (Some (r, rest)) \<Longrightarrow> length rest < length inp"
  by (auto simp: next_record_def read_exact_def Let_def split: read_outcome.splits if_splits)

text \<open>Collecting the iterator up to its first \<open>None\<close>; \<open>Inl\<close> is the error item.\<close>

function read_records :: "(bytes \<Rightarrow> nat \<Rightarrow> bool) \<Rightarrow> (bytes \<Rightarrow> u64) \<Rightarrow> bytes \<Rightarrow> wal_record list result" where
  "read_records fault xxh3 inp =
     (case next_record fault xxh3 inp of
        Inl e \<Rightarrow> Inl e
      | Inr None \<Rightarrow> Inr []
      | Inr (Some (r, rest)) \<Rightarrow>
          (case read_records fault xxh3 rest of Inl e \<Rightarrow> Inl e | Inr rs \<Rightarrow> Inr (r # rs)))"
  by pat_completeness auto
termination
  by (relation "measure (\<lambda>(fault, xxh3, inp). length inp)") (auto dest: next_record_shorter)

declare read_records.simps [simp del]

section \<open>Logs of self-delimiting records\<close>

text \<open>
  What a reader needs from a record framing: a record followed by anything is read back, and
  a proper prefix of a record is recognised as the end of the log.
\<close>

locale framed_log =
  fixes enc :: "'r \<Rightarrow> 'b list" and ok :: "'r \<Rightarrow> bool"
    and nxt :: "'b list \<Rightarrow> ('r \<times> 'b list) option" and rd :: "'b list \<Rightarrow> 'r list"
  assumes nxt_enc: "ok r \<Longrightarrow> nxt (enc r @ rest) = Some (r, rest)"
    and nxt_torn: "ok r \<Longrightarrow> k < length (enc r) \<Longrightarrow> nxt (take k (enc r)) = None"
    and nxt_Nil: "nxt [] = None"
    and rd_step: "rd bs = (case nxt bs of None \<Rightarrow> [] | Some (r, rest) \<Rightarrow> r # rd rest)"
begin

lemma rd_Nil: "rd [] = []"
  by (subst rd_step) (simp add: nxt_Nil)

lemma rd_enc: "ok r \<Longrightarrow> rd (enc r @ rest) = r # rd rest"
  by (subst rd_step) (simp add: nxt_enc)

lemma rd_torn: "ok r \<Longrightarrow> k < length (enc r) \<Longrightarrow> rd (take k (enc r)) = []"
  by (subst rd_step) (simp add: nxt_torn)

lemma rd_append: "list_all ok rs \<Longrightarrow> rd (concat (map enc rs) @ rest) = rs @ rd rest"
  by (induction rs) (simp_all add: rd_enc)

lemma rd_concat: "list_all ok rs \<Longrightarrow> rd (concat (map enc rs)) = rs"
  using rd_append [of rs "[]"] by (simp add: rd_Nil)

lemma rd_cut:
  assumes "list_all ok rs" and "k \<le> length (concat (map enc rs))"
    and "length (concat (map enc (take n rs))) \<le> k" and "n \<le> length rs"
  shows "\<exists>m. n \<le> m \<and> m \<le> length rs \<and> rd (take k (concat (map enc rs))) = take m rs"
  using assms
proof (induction rs arbitrary: k n)
  case Nil
  then show ?case by (simp add: rd_Nil)
next
  case (Cons r rs)
  show ?case
  proof (cases "k < length (enc r)")
    case True
    then have "n = 0" using Cons.prems(3) by (cases n) auto
    with True Cons.prems show ?thesis by (intro exI [of _ 0]) (simp add: rd_torn)
  next
    case False
    let ?k = "k - length (enc r)"
    have "\<exists>m. n - 1 \<le> m \<and> m \<le> length rs \<and> rd (take ?k (concat (map enc rs))) = take m rs"
      using Cons.prems False by (intro Cons.IH) (auto simp: take_Cons split: nat.splits)
    then obtain m where "n - 1 \<le> m" "m \<le> length rs" "rd (take ?k (concat (map enc rs))) = take m rs"
      by blast
    with Cons.prems False show ?thesis
      by (intro exI [of _ "Suc m"]) (auto simp: rd_enc)
  qed
qed

end

text \<open>The framing of this log: the length field has 32 bits.\<close>

definition record_ok :: "wal_record \<Rightarrow> bool" where
  "record_ok r \<longleftrightarrow> length (payload r) + 17 < 2 ^ 32"

definition no_fault :: "bytes \<Rightarrow> nat \<Rightarrow> bool" where
  "no_fault inp n \<longleftrightarrow> False"

definition wal_next :: "(bytes \<Rightarrow> u64) \<Rightarrow> bytes \<Rightarrow> (wal_record \<times> bytes) option" where
  "wal_next xxh3 inp = (case next_record no_fault xxh3 inp of Inl _ \<Rightarrow> None | Inr x \<Rightarrow> x)"

definition wal_read :: "(bytes \<Rightarrow> u64) \<Rightarrow> bytes \<Rightarrow> wal_record list" where
  "wal_read xxh3 inp = (case read_records no_fault xxh3 inp of Inl _ \<Rightarrow> [] | Inr rs \<Rightarrow> rs)"

lemma next_record_no_fault: "next_record no_fault xxh3 inp = Inr (wal_next xxh3 inp)"
  by (auto simp: wal_next_def next_record_def read_exact_def no_fault_def Let_def
    split: read_outcome.splits)

lemma read_records_no_fault: "read_records no_fault xxh3 inp = Inr (wal_read xxh3 inp)"
proof (induction "length inp" arbitrary: inp rule: less_induct)
  case less
  have IH: "read_records no_fault xxh3 rest = Inr (wal_read xxh3 rest)"
    if "wal_next xxh3 inp = Some (r, rest)" for r rest
    using that next_record_shorter [of no_fault xxh3 inp r rest]
    by (intro less.hyps) (simp add: next_record_no_fault)
  have "\<exists>rs. read_records no_fault xxh3 inp = Inr rs"
    by (subst read_records.simps) (auto simp: next_record_no_fault IH split: option.splits)
  then show ?case by (auto simp: wal_read_def)
qed

lemma length_WAL_MAGIC [simp]: "length WAL_MAGIC = 4"
  by (simp add: WAL_MAGIC_def)

lemma length_record_body: "length (record_body r) = 9 + length (payload r)"
  by (simp add: record_body_def)

lemma length_encode_record: "length (encode_record xxh3 r) = 25 + length (payload r)"
  by (simp add: encode_record_def Let_def length_record_body WAL_MAGIC_def)

lemma rec_len_roundtrip:
  assumes "record_ok r"
  shows "unat (from_le (to_le 4 (of_nat (length (record_body r) + 8) :: u32)) :: u32) = length (record_body r) + 8"
proof -
  have "unat (of_nat (length (record_body r) + 8) :: u32) = length (record_body r) + 8"
    using assms by (simp only: unat_of_nat) (simp add: record_ok_def length_record_body)
  then show ?thesis by (simp only: from_le_to_le_u32)
qed

lemma wal_next_encode:
  assumes "record_ok r"
  shows "wal_next xxh3 (encode_record xxh3 r @ rest) = Some (r, rest)"
proof -
  let ?n = "length (record_body r) + 8"
  let ?t = "record_body r @ to_le 8 (xxh3 (record_body r)) @ rest"
  have "encode_record xxh3 r @ rest = (WAL_MAGIC @ to_le 4 (of_nat ?n :: u32)) @ ?t"
    by (simp add: encode_record_def Let_def)
  then have "wal_next xxh3 (encode_record xxh3 r @ rest) =
      (let body = record_body r
       in Some (\<lparr>txn_id = from_le (take 8 body), record_type = body ! 8, payload = drop 9 body\<rparr>, rest))"
    using rec_len_roundtrip [OF assms]
    by (simp add: wal_next_def next_record_def read_exact_def no_fault_def WAL_MAGIC_def
      length_record_body Let_def)
  then show ?thesis by (simp add: record_body_def nth_append Let_def)
qed

lemma wal_next_short:
  assumes "length l = 4" and "length t < unat (from_le l :: u32)"
  shows "wal_next xxh3 ((WAL_MAGIC @ l) @ t) = None"
  using assms by (simp add: wal_next_def next_record_def read_exact_def no_fault_def Let_def)

lemma wal_next_torn:
  assumes "record_ok r" and "k < length (encode_record xxh3 r)"
  shows "wal_next xxh3 (take k (encode_record xxh3 r)) = None"
proof -
  let ?n = "length (record_body r) + 8"
  let ?t = "record_body r @ to_le 8 (xxh3 (record_body r))"
  have E: "encode_record xxh3 r = (WAL_MAGIC @ to_le 4 (of_nat ?n :: u32)) @ ?t"
    by (simp add: encode_record_def Let_def)
  show ?thesis
  proof (cases "k < 8")
    case True
    then show ?thesis by (simp add: wal_next_def next_record_def read_exact_def no_fault_def)
  next
    case False
    then have "take k (encode_record xxh3 r) =
        (WAL_MAGIC @ to_le 4 (of_nat ?n :: u32)) @ take (k - 8) ?t"
      unfolding E by (simp del: append_assoc)
    moreover have "length (take (k - 8) ?t) < ?n"
      using assms(2) by (simp add: length_encode_record length_record_body)
    ultimately show ?thesis
      using rec_len_roundtrip [OF assms(1)] by (simp only: wal_next_short length_to_le)
  qed
qed

interpretation wal_log: framed_log "encode_record xxh3" record_ok "wal_next xxh3" "wal_read xxh3"
  for xxh3 :: "bytes \<Rightarrow> u64"
proof
  show "wal_next xxh3 [] = None"
    by (simp add: wal_next_def next_record_def read_exact_def no_fault_def)
  show "wal_read xxh3 bs =
      (case wal_next xxh3 bs of None \<Rightarrow> [] | Some (r, rest) \<Rightarrow> r # wal_read xxh3 rest)" for bs
    using read_records.simps [of no_fault xxh3 bs]
    by (auto simp: read_records_no_fault next_record_no_fault split: option.splits)
qed (simp_all add: wal_next_encode wal_next_torn)

section \<open>Successful operations\<close>

text \<open>\<open>io_step w w'\<close>: bytes may move from the buffer to the disk and become durable, in order,
  and nothing else of the log's byte stream changes.\<close>

definition io_step :: "bytes \<Rightarrow> wal \<Rightarrow> wal \<Rightarrow> bool" where
  "io_step bs w w' \<longleftrightarrow>
     (\<exists>b b' e. wal_buf w = Some b \<and> wal_buf w' = Some b' \<and> disk w' = disk w @ e \<and>
        e @ b' = b @ bs \<and> synced w \<le> synced w' \<and>
        (synced w \<le> length (disk w) \<longrightarrow> synced w' \<le> length (disk w')))"

definition same_zones :: "wal \<Rightarrow> wal \<Rightarrow> bool" where
  "same_zones w w' \<longleftrightarrow> current_zone w' = current_zone w \<and> zones_opened w' = zones_opened w \<and>
     zones_finished w' = zones_finished w \<and> zone_capacity w' = zone_capacity w"

definition same_counts :: "wal \<Rightarrow> wal \<Rightarrow> bool" where
  "same_counts w w' \<longleftrightarrow> bytes_written w' = bytes_written w \<and> records_written w' = records_written w"

lemmas wal_frame = io_step_def same_zones_def same_counts_def

lemma bind_wal_Inr:
  "bind_wal m k w = (Inr y, w'') \<longleftrightarrow> (\<exists>x w'. m w = (Inr x, w') \<and> k x w' = (Inr y, w''))"
  by (auto simp: bind_wal_def split: prod.splits sum.splits)

lemma flush_buf_Inr:
  "flush_buf env buf w = (Inr u, w') \<longleftrightarrow>
     length buf \<le> os_accepts env (disk w) buf \<and> w' = w\<lparr>disk := disk w @ buf, wal_buf := Some []\<rparr>"
  by (auto simp: flush_buf_def os_write_def Let_def min_def split: if_splits)

lemma os_write_Inr:
  "(case os_write env d bs of (ok, k, d') \<Rightarrow> (if ok then Inr () else Inl Io, f d')) = (Inr u, w') \<longleftrightarrow>
     length bs \<le> os_accepts env d bs \<and> w' = f (d @ bs)"
  by (auto simp: os_write_def Let_def min_def split: if_splits)

lemma io_step_trans:
  assumes "io_step bs w w'" and "io_step cs w' w''"
  shows "io_step (bs @ cs) w w''"
proof -
  from assms(1) obtain b b' e where 1: "wal_buf w = Some b" "wal_buf w' = Some b'"
    "disk w' = disk w @ e" "e @ b' = b @ bs" "synced w \<le> synced w'"
    "synced w \<le> length (disk w) \<longrightarrow> synced w' \<le> length (disk w')" by (auto simp: io_step_def)
  from assms(2) 1(2) obtain b'' e' where 2: "wal_buf w'' = Some b''"
    "disk w'' = disk w' @ e'" "e' @ b'' = b' @ cs" "synced w' \<le> synced w''"
    "synced w' \<le> length (disk w') \<longrightarrow> synced w'' \<le> length (disk w'')" by (auto simp: io_step_def)
  have "(e @ e') @ b'' = b @ bs @ cs" using 1(4) 2(3) by (metis append.assoc)
  with 1 2 show ?thesis unfolding io_step_def by (intro exI [of _ b] exI [of _ b''] exI [of _ "e @ e'"]) auto
qed

lemma io_step_refl: "wal_buf w = Some b \<Longrightarrow> io_step [] w w"
  by (auto simp: io_step_def)

lemma wal_flush_frame:
  "wal_flush env w = (Inr u, w') \<Longrightarrow> wal_buf w = Some b \<Longrightarrow>
     io_step [] w w' \<and> same_zones w w' \<and> same_counts w w'"
  by (auto simp: wal_flush_def flush_buf_Inr wal_frame)

lemma wal_sync_frame:
  "wal_sync env w = (Inr u, w') \<Longrightarrow> wal_buf w = Some b \<Longrightarrow> synced w \<le> length (disk w) \<Longrightarrow>
     io_step [] w w' \<and> same_zones w w' \<and> same_counts w w' \<and>
     wal_buf w' = Some [] \<and> synced w' = length (disk w')"
  by (auto simp: wal_sync_def bind_wal_Inr flush_buf_Inr wal_frame split: if_splits)

lemma buf_write_all_frame:
  assumes "buf_write_all env b bs w = (Inr u, w')" and "wal_buf w = Some b" and "length b \<le> BUF_CAPACITY"
  shows "io_step bs w w' \<and> same_zones w w' \<and> same_counts w w' \<and>
    (\<exists>b'. wal_buf w' = Some b' \<and> length b' \<le> BUF_CAPACITY)"
proof (cases "length bs < BUF_CAPACITY - length b")
  case True
  then show ?thesis using assms by (auto simp: buf_write_all_def wal_frame)
next
  case False
  then obtain w1 where w1: "w1 = w \<and> length bs = BUF_CAPACITY - length b \<or>
      w1 = w\<lparr>disk := disk w @ b, wal_buf := Some []\<rparr>"
    and w': "(if length bs \<ge> BUF_CAPACITY then
        (case os_write env (disk w1) bs of
           (ok, k, d) \<Rightarrow> (if ok then Inr () else Inl Io, w1\<lparr>disk := d\<rparr>))
      else (Inr (), w1\<lparr>wal_buf := map_option (\<lambda>b. b @ bs) (wal_buf w1)\<rparr>)) = (Inr u, w')"
    using assms(1)
    by (cases "length bs > BUF_CAPACITY - length b")
      (auto simp: buf_write_all_def Let_def bind_wal_Inr flush_buf_Inr)
  show ?thesis
  proof (cases "length bs \<ge> BUF_CAPACITY")
    case True
    with w' have "w' = w1\<lparr>disk := disk w1 @ bs\<rparr>" by (simp add: os_write_Inr)
    moreover have "b = []" if "length bs = BUF_CAPACITY - length b"
    proof -
      have "length b = 0" using that True assms(3) unfolding BUF_CAPACITY_def by linarith
      then show ?thesis by simp
    qed
    ultimately show ?thesis using w1 assms(2) by (auto simp: wal_frame)
  next
    case False
    with w' w1 assms(2,3) show ?thesis by (auto simp: wal_frame)
  qed
qed

lemma finish_zone_frame:
  assumes "finish_zone env w = (Inr u, w')" and "wal_buf w = Some b"
    and "length b \<le> BUF_CAPACITY" and "synced w \<le> length (disk w)"
  shows "io_step [] w w' \<and> same_counts w w' \<and> current_zone w' = None \<and>
    zones_opened w' = zones_opened w \<and> zone_capacity w' = zone_capacity w \<and>
    zones_finished w' = zones_finished w + (if current_zone w = None then 0 else 1) \<and>
    (\<exists>b'. wal_buf w' = Some b' \<and> length b' \<le> BUF_CAPACITY)"
proof (cases "current_zone w")
  case None
  with assms show ?thesis by (auto simp: finish_zone_def wal_frame)
next
  case (Some z)
  let ?w = "w\<lparr>current_zone := None\<rparr>"
  from assms(1) Some obtain w1 where w1: "wal_sync env ?w = (Inr (), w1)"
    and w': "w' = w1\<lparr>zones_finished := zones_finished w1 + 1\<rparr>"
    by (auto simp: finish_zone_def Let_def bind_wal_Inr split: if_splits)
  have "io_step [] ?w w1 \<and> same_zones ?w w1 \<and> same_counts ?w w1 \<and> wal_buf w1 = Some []"
    using wal_sync_frame [OF w1, of b] assms by simp
  with Some w' show ?thesis by (auto simp: wal_frame)
qed

lemma open_zone_frame:
  assumes "open_zone env w = (Inr zid, w')" and "wal_buf w = Some b"
    and "length b \<le> BUF_CAPACITY" and "synced w \<le> length (disk w)"
  shows "io_step [] w w' \<and> same_counts w w' \<and> zid = zones_opened w \<and>
    current_zone w' = Some (zone_new zid (zone_capacity w)) \<and>
    zones_opened w' = zones_opened w + 1 \<and> zone_capacity w' = zone_capacity w \<and>
    zones_finished w' = zones_finished w + (if current_zone w = None then 0 else 1) \<and>
    (\<exists>b'. wal_buf w' = Some b' \<and> length b' \<le> BUF_CAPACITY)"
proof -
  from assms(1) obtain w1 where w1: "(if current_zone w \<noteq> None then finish_zone env w else (Inr (), w)) = (Inr (), w1)"
    and zid: "zid = zones_opened w1"
    and w': "w' = w1\<lparr>zones_opened := zid + 1, current_zone := Some (zone_new zid (zone_capacity w1))\<rparr>"
    by (auto simp: open_zone_def bind_wal_Inr Let_def split: if_splits)
  show ?thesis
  proof (cases "current_zone w")
    case None
    with w1 zid w' assms show ?thesis by (auto simp: wal_frame)
  next
    case (Some z)
    with w1 have "finish_zone env w = (Inr (), w1)" by simp
    from finish_zone_frame [OF this assms(2-4)] zid w' show ?thesis
      using Some by (auto simp: wal_frame)
  qed
qed

lemma rotate_zone_frame:
  assumes "rotate_zone env w = (Inr u, w')" and "wal_buf w = Some b"
    and "length b \<le> BUF_CAPACITY" and "synced w \<le> length (disk w)"
  shows "io_step [] w w' \<and> same_counts w w' \<and>
    current_zone w' = Some (zone_new (zones_opened w) (zone_capacity w)) \<and>
    zones_opened w' = zones_opened w + 1 \<and> zone_capacity w' = zone_capacity w \<and>
    zones_finished w' = zones_finished w + (if current_zone w = None then 0 else 1) \<and>
    (\<exists>b'. wal_buf w' = Some b' \<and> length b' \<le> BUF_CAPACITY)"
proof -
  from assms(1) obtain w1 zid where w1: "finish_zone env w = (Inr (), w1)"
    and w': "open_zone env w1 = (Inr zid, w')"
    by (auto simp: rotate_zone_def bind_wal_Inr)
  note 1 = finish_zone_frame [OF w1 assms(2-4)]
  then obtain b1 where b1: "wal_buf w1 = Some b1" "length b1 \<le> BUF_CAPACITY" by blast
  have "synced w1 \<le> length (disk w1)" using 1 assms(4) by (auto simp: io_step_def)
  note 2 = open_zone_frame [OF w' b1 this]
  have "io_step ([] @ []) w w'" using 1 2 by (blast intro: io_step_trans)
  with 1 2 show ?thesis by (simp add: same_counts_def)
qed

lemma wal_append_frame:
  assumes "wal_append env xxh3 r w = (Inr u, w')" and "wal_buf w = Some b"
    and "length b \<le> BUF_CAPACITY" and "synced w \<le> length (disk w)"
    and n: "n = (of_nat (length (encode_record xxh3 r)) :: u64)"
  shows "io_step (encode_record xxh3 r) w w' \<and>
    bytes_written w' = bytes_written w + n \<and> records_written w' = records_written w + 1 \<and>
    zone_capacity w' = zone_capacity w \<and> (\<exists>b'. wal_buf w' = Some b' \<and> length b' \<le> BUF_CAPACITY) \<and>
    (case current_zone w of
       Some z \<Rightarrow> if remaining z < n
         then current_zone w' = Some (charge_zone n (zone_new (zones_opened w) (zone_capacity w))) \<and>
           zones_opened w' = zones_opened w + 1 \<and> zones_finished w' = zones_finished w + 1
         else current_zone w' = Some (charge_zone n z) \<and>
           zones_opened w' = zones_opened w \<and> zones_finished w' = zones_finished w
     | None \<Rightarrow> current_zone w' = Some (charge_zone n (zone_new (zones_opened w) (zone_capacity w))) \<and>
         zones_opened w' = zones_opened w + 1 \<and> zones_finished w' = zones_finished w)"
proof -
  let ?e = "encode_record xxh3 r"
  let ?rot = "case current_zone w of None \<Rightarrow> True | Some z \<Rightarrow> remaining z < n"
  from assms(1) n obtain w1 where w1: "(if ?rot then rotate_zone env else (\<lambda>w. (Inr (), w))) w = (Inr (), w1)"
    and w2: "(let w = w1\<lparr>current_zone := map_option (charge_zone n) (current_zone w1)\<rparr>
            in case wal_buf w of
                 None \<Rightarrow> (Inl Other, w)
               | Some b \<Rightarrow> bind_wal (buf_write_all env b ?e)
                   (\<lambda>_ w. (Inr (), w\<lparr>bytes_written := bytes_written w + n,
                              records_written := records_written w + 1\<rparr>)) w) = (Inr u, w')"
    by (auto simp: wal_append_def Let_def bind_wal_Inr)
  have A: "io_step [] w w1 \<and> same_counts w w1 \<and> zone_capacity w1 = zone_capacity w \<and>
      (\<exists>b'. wal_buf w1 = Some b' \<and> length b' \<le> BUF_CAPACITY) \<and>
      (if ?rot then current_zone w1 = Some (zone_new (zones_opened w) (zone_capacity w)) \<and>
         zones_opened w1 = zones_opened w + 1 \<and>
         zones_finished w1 = zones_finished w + (if current_zone w = None then 0 else 1)
       else w1 = w)"
  proof (cases ?rot)
    case True
    with w1 have "rotate_zone env w = (Inr (), w1)" by simp
    from rotate_zone_frame [OF this assms(2-4)] True show ?thesis by simp
  next
    case False
    with w1 assms show ?thesis by (auto simp: wal_frame)
  qed
  then obtain b1 where b1: "wal_buf w1 = Some b1" "length b1 \<le> BUF_CAPACITY" by blast
  let ?w1 = "w1\<lparr>current_zone := map_option (charge_zone n) (current_zone w1)\<rparr>"
  from w2 b1 obtain w3 where w3: "buf_write_all env b1 ?e ?w1 = (Inr (), w3)"
    and w': "w' = w3\<lparr>bytes_written := bytes_written w3 + n, records_written := records_written w3 + 1\<rparr>"
    by (auto simp: bind_wal_Inr)
  have B: "io_step ?e ?w1 w3 \<and> same_zones ?w1 w3 \<and> same_counts ?w1 w3 \<and>
      (\<exists>b'. wal_buf w3 = Some b' \<and> length b' \<le> BUF_CAPACITY)"
    using buf_write_all_frame [OF w3] b1 by simp
  have "io_step [] w ?w1" using A by (simp add: io_step_def)
  with B have "io_step ([] @ ?e) w w3" by (blast intro: io_step_trans)
  then have "io_step ?e w w'" using w' by (simp add: io_step_def)
  moreover have "bytes_written w' = bytes_written w + n" "records_written w' = records_written w + 1"
    "zone_capacity w' = zone_capacity w" "wal_buf w' = wal_buf w3"
    "current_zone w' = map_option (charge_zone n) (current_zone w1)"
    "zones_opened w' = zones_opened w1" "zones_finished w' = zones_finished w1"
    using A B w' by (simp_all add: same_counts_def same_zones_def)
  ultimately show ?thesis
    using A B by (cases "current_zone w") (auto split: if_splits)
qed

section \<open>Runs and crashes\<close>

text \<open>
  \<open>wal_run xxh3 w rs n\<close>: from a freshly created log, calls that returned \<open>Ok\<close> (under any
  environment, which may change between calls) led to state \<open>w\<close>; \<open>rs\<close> are the appended
  records and the first \<open>n\<close> of them were appended before the last \<open>sync\<close>.
\<close>

inductive wal_run :: "(bytes \<Rightarrow> u64) \<Rightarrow> wal \<Rightarrow> wal_record list \<Rightarrow> nat \<Rightarrow> bool" for xxh3 where
  run_open: "wal_open opened zns path [] tier = Inr w \<Longrightarrow> wal_run xxh3 w [] 0"
| run_append: "wal_run xxh3 w rs n \<Longrightarrow> wal_append env xxh3 r w = (Inr (), w') \<Longrightarrow> wal_run xxh3 w' (rs @ [r]) n"
| run_flush: "wal_run xxh3 w rs n \<Longrightarrow> wal_flush env w = (Inr (), w') \<Longrightarrow> wal_run xxh3 w' rs n"
| run_sync: "wal_run xxh3 w rs n \<Longrightarrow> wal_sync env w = (Inr (), w') \<Longrightarrow> wal_run xxh3 w' rs (length rs)"
| run_finish: "wal_run xxh3 w rs n \<Longrightarrow> finish_zone env w = (Inr (), w') \<Longrightarrow> wal_run xxh3 w' rs n"
| run_open_zone: "wal_run xxh3 w rs n \<Longrightarrow> open_zone env w = (Inr zid, w') \<Longrightarrow> wal_run xxh3 w' rs n"
| run_rotate: "wal_run xxh3 w rs n \<Longrightarrow> rotate_zone env w = (Inr (), w') \<Longrightarrow> wal_run xxh3 w' rs n"

definition stream_inv :: "(bytes \<Rightarrow> u64) \<Rightarrow> wal \<Rightarrow> wal_record list \<Rightarrow> nat \<Rightarrow> bool" where
  "stream_inv xxh3 w rs n \<longleftrightarrow>
     (\<exists>b. wal_buf w = Some b \<and> length b \<le> BUF_CAPACITY \<and>
        disk w @ b = concat (map (encode_record xxh3) rs)) \<and>
     synced w \<le> length (disk w) \<and> n \<le> length rs \<and>
     length (concat (map (encode_record xxh3) (take n rs))) \<le> synced w \<and>
     records_written w = of_nat (length rs) \<and>
     bytes_written w = of_nat (length (concat (map (encode_record xxh3) rs)))"

lemma stream_inv_step:
  assumes "stream_inv xxh3 w rs n" and "io_step [] w w'" and "same_counts w w'"
    and "wal_buf w' = Some b'" and "length b' \<le> BUF_CAPACITY"
  shows "stream_inv xxh3 w' rs n"
proof -
  from assms(1,2,4) have "disk w' @ b' = concat (map (encode_record xxh3) rs)"
    by (auto simp: stream_inv_def io_step_def)
  moreover have "synced w' \<le> length (disk w')" "synced w \<le> synced w'"
    using assms(1,2) by (auto simp: stream_inv_def io_step_def)
  ultimately show ?thesis using assms by (auto simp: stream_inv_def same_counts_def)
qed

lemma stream_inv_append:
  assumes "stream_inv xxh3 w rs n" and "wal_append env xxh3 r w = (Inr (), w')"
  shows "stream_inv xxh3 w' (rs @ [r]) n"
proof -
  from assms(1) obtain b where b: "wal_buf w = Some b" "length b \<le> BUF_CAPACITY"
    "synced w \<le> length (disk w)" "disk w @ b = concat (map (encode_record xxh3) rs)"
    by (auto simp: stream_inv_def)
  note A = wal_append_frame [OF assms(2) b(1-3) refl]
  then obtain b' where b': "wal_buf w' = Some b'" "length b' \<le> BUF_CAPACITY" by blast
  from A b b'(1) have "disk w' @ b' = concat (map (encode_record xxh3) (rs @ [r]))"
    "synced w' \<le> length (disk w')" "synced w \<le> synced w'"
    by (auto simp: io_step_def)
  with A b' assms(1) show ?thesis by (auto simp: stream_inv_def)
qed

lemma stream_inv_buf:
  assumes "stream_inv xxh3 w rs n"
  obtains b where "wal_buf w = Some b" "length b \<le> BUF_CAPACITY" "synced w \<le> length (disk w)"
  using assms by (auto simp: stream_inv_def)

lemma stream_inv_sync:
  assumes "stream_inv xxh3 w rs n" and "wal_sync env w = (Inr (), w')"
  shows "stream_inv xxh3 w' rs (length rs)"
proof -
  obtain b where b: "wal_buf w = Some b" "length b \<le> BUF_CAPACITY" "synced w \<le> length (disk w)"
    using assms(1) by (rule stream_inv_buf)
  note A = wal_sync_frame [OF assms(2) b(1,3)]
  have "stream_inv xxh3 w' rs n" using A by (intro stream_inv_step [OF assms(1)]) auto
  with A show ?thesis by (auto simp: stream_inv_def)
qed

lemma wal_run_stream: "wal_run xxh3 w rs n \<Longrightarrow> stream_inv xxh3 w rs n"
proof (induction rule: wal_run.induct)
  case (run_open opened zns path tier w)
  then show ?case by (auto simp: wal_open_def stream_inv_def split: if_splits)
next
  case (run_append w rs n env r w')
  then show ?case by (blast intro: stream_inv_append)
next
  case (run_flush w rs n env w')
  obtain b where b: "wal_buf w = Some b" "length b \<le> BUF_CAPACITY"
    using run_flush.IH by (rule stream_inv_buf)
  from run_flush.hyps(2) b(1) have "wal_buf w' = Some []"
    by (auto simp: wal_flush_def flush_buf_Inr)
  with wal_flush_frame [OF run_flush.hyps(2) b(1)] show ?case
    by (intro stream_inv_step [OF run_flush.IH]) auto
next
  case (run_sync w rs n env w')
  then show ?case by (blast intro: stream_inv_sync)
next
  case (run_finish w rs n env w')
  obtain b where b: "wal_buf w = Some b" "length b \<le> BUF_CAPACITY" "synced w \<le> length (disk w)"
    using run_finish.IH by (rule stream_inv_buf)
  from finish_zone_frame [OF run_finish.hyps(2) b] show ?case
    by (blast intro: stream_inv_step [OF run_finish.IH])
next
  case (run_open_zone w rs n env zid w')
  obtain b where b: "wal_buf w = Some b" "length b \<le> BUF_CAPACITY" "synced w \<le> length (disk w)"
    using run_open_zone.IH by (rule stream_inv_buf)
  from open_zone_frame [OF run_open_zone.hyps(2) b] show ?case
    by (blast intro: stream_inv_step [OF run_open_zone.IH])
next
  case (run_rotate w rs n env w')
  obtain b where b: "wal_buf w = Some b" "length b \<le> BUF_CAPACITY" "synced w \<le> length (disk w)"
    using run_rotate.IH by (rule stream_inv_buf)
  from rotate_zone_frame [OF run_rotate.hyps(2) b] show ?case
    by (blast intro: stream_inv_step [OF run_rotate.IH])
qed

section \<open>Zones\<close>

definition zone_wf :: "u64 \<Rightarrow> wal_zone \<Rightarrow> bool" where
  "zone_wf cap z \<longleftrightarrow> capacity z = cap \<and> write_offset z \<le> cap \<and>
     zone_state z = (if write_offset z = 0 then Zone_Empty
       else if write_offset z = cap then Zone_Full else Zone_Open)"

definition zone_inv :: "wal \<Rightarrow> bool" where
  "zone_inv w \<longleftrightarrow> zone_capacity w = DEFAULT_ZONE_CAPACITY \<and>
     (case current_zone w of
        None \<Rightarrow> zones_opened w = zones_finished w
      | Some z \<Rightarrow> zones_opened w = zones_finished w + 1 \<and> zone_id z + 1 = zones_opened w \<and>
          zone_wf (zone_capacity w) z)"

lemma zone_wf_new: "zone_wf cap (zone_new i cap)"
  by (simp add: zone_wf_def zone_new_def)

lemma charge_zone_simps [simp]:
  "write_offset (charge_zone n z) = write_offset z + n" "capacity (charge_zone n z) = capacity z"
  "zone_id (charge_zone n z) = zone_id z"
  "zone_state (charge_zone n z) = (if capacity z \<le> write_offset z + n then Zone_Full
     else if zone_state z = Zone_Empty then Zone_Open else zone_state z)"
  by (simp_all add: charge_zone_def Let_def)

lemma charge_zone_wf:
  assumes "zone_wf cap z" and "n \<le> remaining z" and "0 < n"
  shows "zone_wf cap (charge_zone n z)"
proof -
  have le: "write_offset z \<le> cap" "n \<le> cap - write_offset z"
    using assms by (auto simp: zone_wf_def remaining_def saturating_sub_def split: if_splits)
  then have "unat n \<le> unat cap - unat (write_offset z)" by (simp add: word_le_nat_alt unat_sub)
  moreover have "unat (write_offset z) \<le> unat cap" "0 < unat n"
    using le(1) assms(3) by (simp_all add: word_le_nat_alt word_less_nat_alt)
  moreover have "unat cap < 2 ^ 64" using unsigned_less [of cap] by simp
  ultimately have u: "unat (write_offset z + n) = unat (write_offset z) + unat n"
    "unat (write_offset z) + unat n \<le> unat cap" "unat (write_offset z) + unat n \<noteq> 0"
    by (simp_all add: unat_word_ariths)
  then have "write_offset z + n \<le> cap" "write_offset z + n \<noteq> 0"
    by (simp_all add: word_le_nat_alt unat_eq_zero [symmetric])
  moreover have "capacity z \<le> write_offset z + n \<longleftrightarrow> write_offset z + n = cap"
    using assms(1) \<open>write_offset z + n \<le> cap\<close> by (auto simp: zone_wf_def)
  moreover have "capacity z = cap" using assms(1) by (simp add: zone_wf_def)
  moreover have "zone_state z = Zone_Empty \<or> zone_state z = Zone_Open" if "write_offset z + n \<noteq> cap"
  proof -
    have "write_offset z \<noteq> cap" using u assms(3) by (auto simp: word_less_nat_alt)
    with assms(1) show ?thesis by (simp add: zone_wf_def)
  qed
  ultimately show ?thesis by (auto simp: zone_wf_def)
qed

lemma zone_inv_append:
  assumes "zone_inv w" and "stream_inv xxh3 w rs n" and "wal_append env xxh3 r w = (Inr (), w')"
    and "length (payload r) + 25 \<le> 2 ^ 30"
  shows "zone_inv w'"
proof -
  let ?n = "of_nat (length (encode_record xxh3 r)) :: u64"
  obtain b where b: "wal_buf w = Some b" "length b \<le> BUF_CAPACITY" "synced w \<le> length (disk w)"
    using assms(2) by (rule stream_inv_buf)
  have u: "unat ?n = length (payload r) + 25"
    using assms(4) by (subst unat_of_nat_u64) (simp_all add: length_encode_record)
  then have pos: "0 < ?n" by (simp add: word_less_nat_alt)
  have "unat DEFAULT_ZONE_CAPACITY = 2 ^ 30" by (simp add: DEFAULT_ZONE_CAPACITY_def)
  then have fresh: "?n \<le> remaining (zone_new i DEFAULT_ZONE_CAPACITY)" for i
    using u assms(4) by (simp add: remaining_def saturating_sub_def zone_new_def word_le_nat_alt)
  note new = charge_zone_wf [OF zone_wf_new fresh pos]
  note A = wal_append_frame [OF assms(3) b refl]
  show ?thesis
  proof (cases "current_zone w")
    case None
    with A assms(1) new show ?thesis by (auto simp: zone_inv_def zone_new_def)
  next
    case (Some z)
    with assms(1) have z: "zone_wf DEFAULT_ZONE_CAPACITY z" by (auto simp: zone_inv_def)
    show ?thesis
    proof (cases "remaining z < ?n")
      case True
      with Some A assms(1) new show ?thesis by (auto simp: zone_inv_def zone_new_def)
    next
      case False
      with Some A assms(1) charge_zone_wf [OF z _ pos] show ?thesis by (auto simp: zone_inv_def)
    qed
  qed
qed

lemma wal_run_zones:
  "wal_run xxh3 w rs n \<Longrightarrow> \<forall>r\<in>set rs. length (payload r) + 25 \<le> 2 ^ 30 \<Longrightarrow> zone_inv w"
proof (induction rule: wal_run.induct)
  case (run_open opened zns path tier w)
  then show ?case by (auto simp: wal_open_def zone_inv_def split: if_splits)
next
  case (run_append w rs n env r w')
  then have "zone_inv w" "length (payload r) + 25 \<le> 2 ^ 30" by simp_all
  with wal_run_stream [OF run_append.hyps(1)] run_append.hyps(2) show ?case
    by (blast intro: zone_inv_append)
next
  case (run_flush w rs n env w')
  then show ?case
    by (auto simp: wal_flush_def flush_buf_Inr zone_inv_def split: option.splits)
next
  case (run_sync w rs n env w')
  then show ?case
    by (auto simp: wal_sync_def bind_wal_Inr flush_buf_Inr zone_inv_def split: option.splits if_splits)
next
  case (run_finish w rs n env w')
  obtain b where b: "wal_buf w = Some b" "length b \<le> BUF_CAPACITY" "synced w \<le> length (disk w)"
    using wal_run_stream [OF run_finish.hyps(1)] by (rule stream_inv_buf)
  from finish_zone_frame [OF run_finish.hyps(2) b] run_finish.IH run_finish.prems show ?case
    by (auto simp: zone_inv_def split: option.splits)
next
  case (run_open_zone w rs n env zid w')
  obtain b where b: "wal_buf w = Some b" "length b \<le> BUF_CAPACITY" "synced w \<le> length (disk w)"
    using wal_run_stream [OF run_open_zone.hyps(1)] by (rule stream_inv_buf)
  from open_zone_frame [OF run_open_zone.hyps(2) b] run_open_zone.IH run_open_zone.prems show ?case
    by (auto simp: zone_inv_def zone_new_def zone_wf_def split: option.splits)
next
  case (run_rotate w rs n env w')
  obtain b where b: "wal_buf w = Some b" "length b \<le> BUF_CAPACITY" "synced w \<le> length (disk w)"
    using wal_run_stream [OF run_rotate.hyps(1)] by (rule stream_inv_buf)
  from rotate_zone_frame [OF run_rotate.hyps(2) b] run_rotate.IH run_rotate.prems show ?case
    by (auto simp: zone_inv_def zone_new_def zone_wf_def split: option.splits)
qed

section \<open>Properties\<close>

text \<open>A concrete run for the witnesses: create a log, append one record, sync.\<close>

definition demo_env :: wal_env where
  "demo_env = \<lparr>os_accepts = \<lambda>_ bs. length bs, fsync_ok = \<lambda>_. True,
     open_ioctl = \<lambda>_ _. True, finish_ioctl = \<lambda>_ _. True\<rparr>"

definition demo_record :: wal_record where
  "demo_record = \<lparr>txn_id = 7, record_type = 2, payload = [1, 2, 3]\<rparr>"

definition demo_wal :: wal where
  "demo_wal = \<lparr>wal_path = ''wal'', wal_buf = Some [], disk = [], synced = 0, bytes_written = 0,
     records_written = 0, wal_tier = Nvme, is_zns = False, zone_capacity = DEFAULT_ZONE_CAPACITY,
     current_zone = None, zones_opened = 0, zones_finished = 0\<rparr>"

lemma demo_append: "fst (wal_append demo_env xxh3 demo_record demo_wal) = Inr ()"
  by (simp add: wal_append_def demo_wal_def bind_wal_def rotate_zone_def finish_zone_def open_zone_def
    Let_def buf_write_all_def BUF_CAPACITY_def length_encode_record demo_record_def)

lemma wal_sync_accepting:
  "\<forall>d bs. length bs \<le> os_accepts env d bs \<Longrightarrow> \<forall>d. fsync_ok env d \<Longrightarrow> fst (wal_sync env w) = Inr ()"
  by (simp add: wal_sync_def bind_wal_def flush_buf_def os_write_def Let_def split: option.splits)

lemma demo_run: "\<exists>w. wal_run xxh3 w [demo_record] 1"
proof -
  let ?w1 = "snd (wal_append demo_env xxh3 demo_record demo_wal)"
  have "wal_open True False ''wal'' [] Nvme = Inr demo_wal" by (simp add: wal_open_def demo_wal_def)
  then have "wal_run xxh3 demo_wal [] 0" by (rule wal_run.run_open)
  moreover have "wal_append demo_env xxh3 demo_record demo_wal = (Inr (), ?w1)"
    using demo_append [of xxh3] by (simp add: prod_eq_iff)
  ultimately have r: "wal_run xxh3 ?w1 ([] @ [demo_record]) 0" by (rule wal_run.run_append)
  have "wal_sync demo_env ?w1 = (Inr (), snd (wal_sync demo_env ?w1))"
    using wal_sync_accepting [of demo_env ?w1] by (simp add: demo_env_def prod_eq_iff)
  from wal_run.run_sync [OF r this] show ?thesis by auto
qed

text \<open>C6: crash consistency. After any sequence of successful calls, cut the file anywhere at or
  after the last \<open>fsync\<close> (which is what a crash of the process or of the machine leaves): the
  reader returns, without error, a prefix of the appended records that contains every record
  appended before the last \<open>sync\<close>. No assumption on the hash is needed.\<close>

theorem wal_crash_consistent:
  assumes "wal_run xxh3 w rs n" and "list_all record_ok rs"
    and "synced w \<le> k" and "k \<le> length (disk w)"
  shows "\<exists>m. n \<le> m \<and> m \<le> length rs \<and>
    read_records no_fault xxh3 (take k (disk w)) = Inr (take m rs)"
proof -
  let ?S = "concat (map (encode_record xxh3) rs)"
  from wal_run_stream [OF assms(1)] obtain b where inv: "disk w @ b = ?S" "n \<le> length rs"
    "length (concat (map (encode_record xxh3) (take n rs))) \<le> synced w"
    by (auto simp: stream_inv_def)
  have "take k (disk w) = take k (disk w @ b)" "k \<le> length (disk w @ b)" using assms(4) by simp_all
  then have "take k (disk w) = take k ?S" "k \<le> length ?S" unfolding inv(1) by simp_all
  with inv assms wal_log.rd_cut [OF assms(2), of k xxh3 n] show ?thesis
    by (simp add: read_records_no_fault)
qed

theorem wal_crash_consistent_witness:
  "\<exists>w m. wal_run (\<lambda>_. 0) w [demo_record] 1 \<and> 1 \<le> m \<and> m \<le> length [demo_record] \<and>
    read_records no_fault (\<lambda>_. 0) (take (synced w) (disk w)) = Inr (take m [demo_record])"
proof -
  obtain w where w: "wal_run (\<lambda>_. 0) w [demo_record] 1" using demo_run by blast
  have "list_all record_ok [demo_record]" by (simp add: record_ok_def demo_record_def)
  moreover have "synced w \<le> length (disk w)" using wal_run_stream [OF w] by (simp add: stream_inv_def)
  ultimately show ?thesis using w wal_crash_consistent [OF w] by blast
qed

text \<open>Reading a log that ends in a torn record (any proper prefix of an encoded record,
  including the empty one) returns exactly the complete records before it.\<close>

theorem wal_read_torn_tail:
  assumes "list_all record_ok rs" and "record_ok r" and "k < length (encode_record xxh3 r)"
  shows "read_records no_fault xxh3
    (concat (map (encode_record xxh3) rs) @ take k (encode_record xxh3 r)) = Inr rs"
  using wal_log.rd_append [OF assms(1)] wal_log.rd_torn [OF assms(2,3)]
  by (simp add: read_records_no_fault)

theorem wal_read_torn_tail_witness:
  "read_records no_fault (\<lambda>_. 5) (concat (map (encode_record (\<lambda>_. 5)) [demo_record]) @
     take 20 (encode_record (\<lambda>_. 5) demo_record)) = Inr [demo_record]"
  by (rule wal_read_torn_tail) (simp_all add: record_ok_def demo_record_def length_encode_record)

text \<open>Zone bookkeeping. In every state reached by successful calls whose records fit a zone,
  the zones opened are the zones finished plus the open one, the open zone carries the last
  issued id, never holds more than its capacity, and its state tag says exactly whether it is
  empty, partly filled or full; the counters agree with the appended records.\<close>

theorem wal_zone_accounting:
  assumes "wal_run xxh3 w rs n" and "\<forall>r\<in>set rs. length (payload r) + 25 \<le> 2 ^ 30"
  shows "zone_inv w \<and> records_written w = of_nat (length rs) \<and>
    bytes_written w = of_nat (length (concat (map (encode_record xxh3) rs)))"
  using wal_run_zones [OF assms] wal_run_stream [OF assms(1)] by (simp add: stream_inv_def)

theorem wal_zone_accounting_witness:
  "\<exists>w. wal_run (\<lambda>_. 0) w [demo_record] 1 \<and> zone_inv w \<and> records_written w = of_nat (length [demo_record]) \<and>
    bytes_written w = of_nat (length (concat (map (encode_record (\<lambda>_. 0)) [demo_record])))"
proof -
  obtain w where w: "wal_run (\<lambda>_. 0) w [demo_record] 1" using demo_run by blast
  have "\<forall>r\<in>set [demo_record]. length (payload r) + 25 \<le> 2 ^ 30" by (simp add: demo_record_def)
  from wal_zone_accounting [OF w this] w show ?thesis by blast
qed

section \<open>Two observations\<close>

text \<open>A record of at least 8 KiB reaches the file without any \<open>sync\<close>: it bypasses the buffer, so
  it survives \<open>simulate_crash\<close>, whose documentation says unsynced records are lost.\<close>

lemma unsynced_record_survives:
  assumes "BUF_CAPACITY \<le> length (payload r)" and "length (payload r) + 25 \<le> 2 ^ 30"
    and "wal_append demo_env xxh3 r demo_wal = (Inr (), w)"
  shows "read_records no_fault xxh3 (simulate_crash w) = Inr [r] \<and> synced w = 0"
proof -
  have "simulate_crash w = encode_record xxh3 r \<and> synced w = 0"
    using assms by (auto simp: wal_append_def demo_wal_def demo_env_def bind_wal_def rotate_zone_def
      finish_zone_def open_zone_def Let_def buf_write_all_def BUF_CAPACITY_def length_encode_record
      flush_buf_def os_write_def simulate_crash_def split: if_splits)
  moreover have "record_ok r" using assms(2) by (simp add: record_ok_def)
  ultimately show ?thesis
    using wal_log.rd_concat [of "[r]" xxh3] by (simp add: read_records_no_fault)
qed

text \<open>Opening a log for append does not remove a torn tail: after a tail of one to three bytes
  the reader never sees a record appended later.\<close>

lemma torn_tail_hides_later_records:
  assumes "0 < k" and "k < 4"
  shows "read_records no_fault xxh3 (take k (encode_record xxh3 r) @ encode_record xxh3 r' @ rest) = Inr []"
proof -
  let ?inp = "take k (encode_record xxh3 r) @ encode_record xxh3 r' @ rest"
  have E: "\<exists>t. encode_record xxh3 x = WAL_MAGIC @ t" for x by (simp add: encode_record_def Let_def)
  obtain t t' where "encode_record xxh3 r = WAL_MAGIC @ t" "encode_record xxh3 r' = WAL_MAGIC @ t'"
    using E by blast
  moreover have "k = 1 \<or> k = 2 \<or> k = 3" using assms by auto
  ultimately have "take 4 ?inp \<noteq> WAL_MAGIC" by (auto simp: WAL_MAGIC_def)
  then have "next_record no_fault xxh3 ?inp = Inr None"
    by (simp add: next_record_def read_exact_def no_fault_def min_def del: take_append)
  then show ?thesis by (simp add: read_records.simps [of _ _ ?inp])
qed

end
