(* ===== verification/Coordinator.thy ===== *)
theory Coordinator
  imports Hlc_Clock Wal
begin

text \<open>
  The commit coordinators of src/protocol/cxl.rs and src/protocol/raft.rs. Both issue a hybrid
  logical timestamp and make the commit durable in a write-ahead log; the CXL coordinator skips
  the log when the hardware is present, the Raft coordinator refuses on a follower. The wall
  clock reading, the environment of the log and the hash are arguments. Replication in the
  Raft coordinator is a log message in the source and has no effect on the state. What both
  have in common is the locale \<open>commit_clock\<close>.
\<close>

section \<open>CXL coordinator\<close>

definition WAL_RECORD_TYPE_COMMIT :: u8 where
  "WAL_RECORD_TYPE_COMMIT = 0"

record cxl_coordinator =
  available :: bool
  cxl_clock :: hlc_clock
  cxl_wal :: "wal option"

definition cxl_new :: "bool \<Rightarrow> wal option \<Rightarrow> cxl_coordinator" where
  "cxl_new probe w = \<lparr>available = probe, cxl_clock = clock_new, cxl_wal = w\<rparr>"

definition commit_tier :: "cxl_coordinator \<Rightarrow> memory_tier" where
  "commit_tier c = (if available c then Cxl else if cxl_wal c \<noteq> None then Nvme else Ddr5)"

definition commit_record :: "u64 \<Rightarrow> hlc_timestamp \<Rightarrow> wal_record" where
  "commit_record txn ts =
     \<lparr>txn_id = txn, record_type = WAL_RECORD_TYPE_COMMIT, payload = to_le 8 (physical_ns ts)\<rparr>"

definition cxl_commit ::
  "wal_env \<Rightarrow> (bytes \<Rightarrow> u64) \<Rightarrow> int \<Rightarrow> u64 \<Rightarrow> cxl_coordinator \<Rightarrow> hlc_timestamp result \<times> cxl_coordinator" where
  "cxl_commit env xxh3 t txn c =
     (let (ts, clk) = clock_now t (cxl_clock c);
          c = c\<lparr>cxl_clock := clk\<rparr>
      in if available c then (Inr ts, c)
         else case cxl_wal c of
                None \<Rightarrow> (Inr ts, c)
              | Some w \<Rightarrow>
                  (case bind_wal (wal_append env xxh3 (commit_record txn ts)) (\<lambda>_. wal_sync env) w of
                     (Inl e, w') \<Rightarrow> (Inl e, c\<lparr>cxl_wal := Some w'\<rparr>)
                   | (Inr _, w') \<Rightarrow> (Inr ts, c\<lparr>cxl_wal := Some w'\<rparr>)))"

section \<open>Raft coordinator\<close>

record raft_coordinator =
  cluster_size :: u64
  node_id :: u64
  raft_clock :: hlc_clock
  raft_wal :: "wal option"
  is_leader :: bool

definition raft_new :: "u64 \<Rightarrow> u64 \<Rightarrow> wal option \<Rightarrow> raft_coordinator" where
  "raft_new n i w = \<lparr>cluster_size = n, node_id = i, raft_clock = clock_new, raft_wal = w, is_leader = False\<rparr>"

definition raft_new_as_leader :: "u64 \<Rightarrow> u64 \<Rightarrow> wal option \<Rightarrow> raft_coordinator" where
  "raft_new_as_leader n i w = (raft_new n i w)\<lparr>is_leader := True\<rparr>"

definition quorum :: "raft_coordinator \<Rightarrow> u64" where
  "quorum c = cluster_size c div 2 + 1"

definition become_leader :: "raft_coordinator \<Rightarrow> raft_coordinator" where
  "become_leader c = c\<lparr>is_leader := True\<rparr>"

definition become_follower :: "raft_coordinator \<Rightarrow> raft_coordinator" where
  "become_follower c = c\<lparr>is_leader := False\<rparr>"

definition raft_commit ::
  "wal_env \<Rightarrow> (bytes \<Rightarrow> u64) \<Rightarrow> int \<Rightarrow> u64 \<Rightarrow> raft_coordinator \<Rightarrow> hlc_timestamp result \<times> raft_coordinator" where
  "raft_commit env xxh3 t txn c =
     (if \<not> is_leader c then (Inl Protocol, c)
      else
        let (ts, clk) = clock_now t (raft_clock c);
            c = c\<lparr>raft_clock := clk\<rparr>
        in case raft_wal c of
             None \<Rightarrow> (Inr ts, c)
           | Some w \<Rightarrow>
               (case wal_append env xxh3 (commit_record txn ts) w of
                  (Inl e, w') \<Rightarrow> (Inl e, c\<lparr>raft_wal := Some w'\<rparr>)
                | (Inr _, w') \<Rightarrow>
                    (case wal_sync env w' of
                       (Inl e, w'') \<Rightarrow> (Inl e, c\<lparr>raft_wal := Some w''\<rparr>)
                     | (Inr _, w'') \<Rightarrow> (Inr ts, c\<lparr>raft_wal := Some w''\<rparr>))))"

text \<open>Any two quorums of a cluster share a node.\<close>

lemma quorum_majority: "unat (cluster_size c) < 2 * unat (quorum c)"
proof -
  have "unat (cluster_size c) < 2 ^ 64" using unsigned_less [of "cluster_size c", where 'a = nat] by simp
  then have "unat (cluster_size c) div 2 + 1 < 2 ^ 64" by simp
  then have "unat (quorum c) = unat (cluster_size c) div 2 + 1"
    by (simp add: quorum_def unat_word_ariths unat_div)
  then show ?thesis by simp
qed

section \<open>What both coordinators promise about timestamps\<close>

text \<open>
  \<open>commit x c\<close> runs one commit with inputs \<open>x\<close> (environment, clock reading, transaction);
  \<open>clk\<close> is the coordinator's clock. A successful commit returns the clock's new timestamp;
  a failed one leaves the clock where it was or advances it.
\<close>

text \<open>The timestamps of the successful commits of a sequence, and the final state.\<close>

primrec run_commits ::
  "('x \<Rightarrow> 'c \<Rightarrow> hlc_timestamp result \<times> 'c) \<Rightarrow> 'x list \<Rightarrow> 'c \<Rightarrow> hlc_timestamp list \<times> 'c" where
  "run_commits commit [] c = ([], c)"
| "run_commits commit (x # xs) c =
     (case commit x c of
        (Inl e, c') \<Rightarrow> run_commits commit xs c'
      | (Inr ts, c') \<Rightarrow> (case run_commits commit xs c' of (tss, c'') \<Rightarrow> (ts # tss, c'')))"

locale commit_clock =
  fixes commit :: "'x \<Rightarrow> 'c \<Rightarrow> hlc_timestamp result \<times> 'c" and clk :: "'c \<Rightarrow> hlc_clock"
  assumes commit_ok: "commit x c = (Inr ts, c') \<Longrightarrow> \<exists>t. clock_now t (clk c) = (ts, clk c')"
    and commit_err: "commit x c = (Inl e, c') \<Longrightarrow> clk c' = clk c \<or> (\<exists>t. clk c' = snd (clock_now t (clk c)))"
begin

lemma commit_bound:
  assumes "commit x c = (r, c')" and "unat (logical (clock_last (clk c))) < 2 ^ 64 - 1"
  shows "unat (logical (clock_last (clk c'))) \<le> unat (logical (clock_last (clk c))) + 1"
    and "clock_last (clk c) \<le> clock_last (clk c')"
    and "r = Inr ts \<Longrightarrow> clock_last (clk c) < ts \<and> clock_last (clk c') = ts"
proof -
  have "clk c' = clk c \<or> (\<exists>t. clk c' = snd (clock_now t (clk c)))"
    using assms(1) commit_ok [of x c _ c'] commit_err [of x c _ c'] by (cases r) (fastforce, metis snd_conv)
  then show "unat (logical (clock_last (clk c'))) \<le> unat (logical (clock_last (clk c))) + 1"
    and "clock_last (clk c) \<le> clock_last (clk c')"
    using clock_now_less [OF assms(2)] by (auto simp: snd_clock_now intro: less_imp_le)
  assume "r = Inr ts"
  with assms(1) obtain t where "clock_now t (clk c) = (ts, clk c')" using commit_ok by blast
  then show "clock_last (clk c) < ts \<and> clock_last (clk c') = ts"
    using clock_now_less(1) [OF assms(2), of t] snd_clock_now [of t "clk c"] by simp
qed

lemma commits_increase:
  "unat (logical (clock_last (clk c))) + length xs < 2 ^ 64 \<Longrightarrow>
     sorted_wrt (<) (clock_last (clk c) # fst (run_commits commit xs c))"
proof (induction xs arbitrary: c)
  case (Cons x xs)
  obtain r c' where r: "commit x c = (r, c')" by (cases "commit x c")
  have b: "unat (logical (clock_last (clk c))) < 2 ^ 64 - 1" using Cons.prems by simp
  note B = commit_bound [OF r b]
  have IH: "sorted_wrt (<) (clock_last (clk c') # fst (run_commits commit xs c'))"
    using B(1) Cons.prems by (intro Cons.IH) simp
  show ?case
  proof (cases r)
    case (Inl e)
    with IH r B(2) show ?thesis by (auto intro: le_less_trans)
  next
    case (Inr ts)
    with IH r B(3) [OF Inr] show ?thesis by (auto split: prod.splits intro: less_trans)
  qed
qed simp

end

interpretation cxl: commit_clock "\<lambda>(env, xxh3, t, txn). cxl_commit env xxh3 t txn" cxl_clock
  by unfold_locales
    (auto simp: cxl_commit_def Let_def split: prod.splits if_splits option.splits sum.splits, metis snd_conv)

interpretation raft: commit_clock "\<lambda>(env, xxh3, t, txn). raft_commit env xxh3 t txn" raft_clock
  by unfold_locales
    (auto simp: raft_commit_def Let_def split: prod.splits if_splits option.splits sum.splits, (metis snd_conv)+)

section \<open>Properties\<close>

lemma append_sync_run:
  assumes "wal_run xxh3 w rs n" and "wal_append env xxh3 r w = (Inr u, w1)" and "wal_sync env' w1 = (Inr v, w2)"
  shows "wal_run xxh3 w2 (rs @ [r]) (length (rs @ [r]))"
  using assms wal_run.run_append [OF assms(1), of env r w1] wal_run.run_sync by fastforce

lemma synced_log_complete:
  assumes "wal_run xxh3 w rs (length rs)" and "list_all record_ok rs"
    and "synced w \<le> k" and "k \<le> length (disk w)"
  shows "read_records no_fault xxh3 (take k (disk w)) = Inr rs"
proof -
  let ?S = "concat (map (encode_record xxh3) rs)"
  from wal_run_stream [OF assms(1)] obtain b where inv: "disk w @ b = ?S" "length ?S \<le> synced w"
    by (auto simp: stream_inv_def)
  have "length ?S \<le> length (disk w)" using inv(2) assms(3,4) by linarith
  then have "b = []" "disk w = ?S" using inv(1) by (metis append.right_neutral append_eq_conv_conj take_all)+
  moreover have "k = length ?S" using inv(2) assms(3,4) \<open>disk w = ?S\<close> by simp
  ultimately show ?thesis using wal_log.rd_concat [OF assms(2)] by (simp add: read_records_no_fault)
qed

lemma commit_record_ok: "record_ok (commit_record txn ts)"
  by (simp add: record_ok_def commit_record_def)

text \<open>C17: a Raft commit that returns \<open>Ok(ts)\<close> is durable. With a log reached by successful calls,
  whatever the file is cut back to by a crash after the call (at or beyond the last \<open>fsync\<close>),
  reading it returns all earlier records and, last, this transaction's commit record.\<close>

theorem raft_commit_durable:
  assumes "raft_wal c = Some w" and "wal_run xxh3 w rs n" and "list_all record_ok rs"
    and "raft_commit env xxh3 t txn c = (Inr ts, c')"
  shows "\<exists>w'. raft_wal c' = Some w' \<and> synced w' \<le> length (disk w') \<and>
    (\<forall>k. synced w' \<le> k \<longrightarrow> k \<le> length (disk w') \<longrightarrow>
       read_records no_fault xxh3 (take k (disk w')) = Inr (rs @ [commit_record txn ts]))"
proof -
  from assms(1,4) obtain w1 w2 where "wal_append env xxh3 (commit_record txn ts) w = (Inr (), w1)"
    "wal_sync env w1 = (Inr (), w2)" and c': "raft_wal c' = Some w2"
    by (auto simp: raft_commit_def Let_def split: prod.splits if_splits sum.splits)
  with assms(2) have run: "wal_run xxh3 w2 (rs @ [commit_record txn ts]) (length (rs @ [commit_record txn ts]))"
    by (blast intro: append_sync_run)
  moreover have "list_all record_ok (rs @ [commit_record txn ts])" using assms(3) by (simp add: commit_record_ok)
  ultimately show ?thesis using c' synced_log_complete wal_run_stream [OF run] by (auto simp: stream_inv_def)
qed

lemma demo_commit_append:
  "fst (wal_append demo_env xxh3 (commit_record txn ts) demo_wal) = Inr ()"
  by (simp add: wal_append_def demo_wal_def bind_wal_def rotate_zone_def finish_zone_def open_zone_def
    Let_def buf_write_all_def BUF_CAPACITY_def length_encode_record commit_record_def)

lemma demo_raft_commit:
  "\<exists>ts c'. raft_commit demo_env xxh3 5 42 (raft_new_as_leader 3 1 (Some demo_wal)) = (Inr ts, c')"
proof -
  have "fst (wal_sync demo_env w) = Inr ()" for w
    by (rule wal_sync_accepting) (simp_all add: demo_env_def)
  then show ?thesis
    using demo_commit_append
    by (simp add: raft_commit_def raft_new_as_leader_def raft_new_def split_beta split: sum.splits)
qed

lemma demo_wal_run: "wal_run xxh3 demo_wal [] 0"
  by (rule wal_run.run_open [of True False "''wal''" Nvme]) (simp add: wal_open_def demo_wal_def)

theorem raft_commit_durable_witness:
  "\<exists>ts c' w'. raft_commit demo_env (\<lambda>_. 0) 5 42 (raft_new_as_leader 3 1 (Some demo_wal)) = (Inr ts, c') \<and>
     raft_wal c' = Some w' \<and> synced w' \<le> length (disk w') \<and>
    (\<forall>k. synced w' \<le> k \<longrightarrow> k \<le> length (disk w') \<longrightarrow>
       read_records no_fault (\<lambda>_. 0) (take k (disk w')) = Inr ([] @ [commit_record 42 ts]))"
proof -
  let ?c = "raft_new_as_leader 3 1 (Some demo_wal)"
  obtain ts c' where c: "raft_commit demo_env (\<lambda>_. 0) 5 42 ?c = (Inr ts, c')" using demo_raft_commit by blast
  have "raft_wal ?c = Some demo_wal" by (simp add: raft_new_as_leader_def raft_new_def)
  from raft_commit_durable [OF this demo_wal_run _ c] c show ?thesis by (metis list.pred_inject(1))
qed

text \<open>A CXL coordinator without CXL hardware falls back to the log with the same durability:
  after \<open>Ok(ts)\<close> the commit record is read back after every crash. With the hardware present
  the log is untouched.\<close>

theorem cxl_commit_durable:
  assumes "cxl_wal c = Some w" and "wal_run xxh3 w rs n" and "list_all record_ok rs"
    and "cxl_commit env xxh3 t txn c = (Inr ts, c')"
  shows "if available c then cxl_wal c' = Some w
    else \<exists>w'. cxl_wal c' = Some w' \<and> synced w' \<le> length (disk w') \<and>
      (\<forall>k. synced w' \<le> k \<longrightarrow> k \<le> length (disk w') \<longrightarrow>
         read_records no_fault xxh3 (take k (disk w')) = Inr (rs @ [commit_record txn ts]))"
proof (cases "available c")
  case True
  with assms show ?thesis by (auto simp: cxl_commit_def Let_def split: prod.splits)
next
  case False
  with assms(1,4) obtain w1 w2 where "wal_append env xxh3 (commit_record txn ts) w = (Inr (), w1)"
    "wal_sync env w1 = (Inr (), w2)" and c': "cxl_wal c' = Some w2"
    by (auto simp: cxl_commit_def Let_def bind_wal_Inr split: prod.splits if_splits sum.splits)
  with assms(2) have run: "wal_run xxh3 w2 (rs @ [commit_record txn ts]) (length (rs @ [commit_record txn ts]))"
    by (blast intro: append_sync_run)
  moreover have "list_all record_ok (rs @ [commit_record txn ts])" using assms(3) by (simp add: commit_record_ok)
  ultimately show ?thesis
    using False c' synced_log_complete wal_run_stream [OF run] by (auto simp: stream_inv_def)
qed

lemma demo_cxl_commit:
  "\<exists>ts c'. cxl_commit demo_env xxh3 5 42 (cxl_new False (Some demo_wal)) = (Inr ts, c')"
proof -
  have "fst (wal_sync demo_env w) = Inr ()" for w
    by (rule wal_sync_accepting) (simp_all add: demo_env_def)
  then show ?thesis
    using demo_commit_append by (simp add: cxl_commit_def cxl_new_def bind_wal_def split_beta split: sum.splits)
qed

theorem cxl_commit_durable_witness:
  "\<exists>ts c' w'. cxl_commit demo_env (\<lambda>_. 0) 5 42 (cxl_new False (Some demo_wal)) = (Inr ts, c') \<and>
     cxl_wal c' = Some w' \<and> synced w' \<le> length (disk w') \<and>
     (\<forall>k. synced w' \<le> k \<longrightarrow> k \<le> length (disk w') \<longrightarrow>
       read_records no_fault (\<lambda>_. 0) (take k (disk w')) = Inr ([] @ [commit_record 42 ts]))"
proof -
  let ?c = "cxl_new False (Some demo_wal)"
  obtain ts c' where c: "cxl_commit demo_env (\<lambda>_. 0) 5 42 ?c = (Inr ts, c')" using demo_cxl_commit by blast
  have w: "cxl_wal ?c = Some demo_wal" "\<not> available ?c" by (simp_all add: cxl_new_def)
  have "list_all record_ok []" by simp
  from cxl_commit_durable [OF w(1) demo_wal_run this c] w(2) c show ?thesis by auto
qed

text \<open>Over any sequence of commit attempts on a coordinator (successful or not, with any clock
  readings), the timestamps of the successful commits are strictly increasing, for both
  coordinators.\<close>

theorem commit_timestamps_increase:
  assumes "unat (logical (clock_last (raft_clock c))) + length xs < 2 ^ 64"
    and "unat (logical (clock_last (cxl_clock d))) + length xs < 2 ^ 64"
  shows "sorted_wrt (<) (clock_last (raft_clock c) #
      fst (run_commits (\<lambda>(env, xxh3, t, txn). raft_commit env xxh3 t txn) xs c)) \<and>
    sorted_wrt (<) (clock_last (cxl_clock d) #
      fst (run_commits (\<lambda>(env, xxh3, t, txn). cxl_commit env xxh3 t txn) xs d))"
  using raft.commits_increase [OF assms(1)] cxl.commits_increase [OF assms(2)] by blast

theorem commit_timestamps_increase_witness:
  "sorted_wrt (<) (clock_last (raft_clock (raft_new 3 1 None)) #
      fst (run_commits (\<lambda>(env, xxh3, t, txn). raft_commit env xxh3 t txn)
        [(demo_env, \<lambda>_. 0, 9, 1), (demo_env, \<lambda>_. 0, 3, 2)] (raft_new 3 1 None))) \<and>
   sorted_wrt (<) (clock_last (cxl_clock (cxl_new True None)) #
      fst (run_commits (\<lambda>(env, xxh3, t, txn). cxl_commit env xxh3 t txn)
        [(demo_env, \<lambda>_. 0, 9, 1), (demo_env, \<lambda>_. 0, 3, 2)] (cxl_new True None)))"
  by (rule commit_timestamps_increase) (simp_all add: raft_new_def cxl_new_def clock_new_def ZERO_def)

end
