(* ===== verification/Bitmap.thy ===== *)
theory Bitmap
  imports TV_Prelude
begin

text \<open>
  The packed row bitmap of src/src/exec/bitmap.rs: the \<open>Bitmap\<close> type and its operations, with the list
  of rows they stand for. Rust's \<open>&mut\<close> receivers are state passing; \<open>None\<close> is an index panic. The
  filter kernels and the combinators with bool masks are in the theory \<open>Bitmap_Kernels\<close>.
\<close>

section \<open>The bitmap\<close>

record bitmap =
  bits :: bytes
  blen :: nat

definition bm_new :: "nat \<Rightarrow> bitmap" where
  "bm_new len = \<lparr>bits = replicate ((len + 7) div 8) 0, blen = len\<rparr>"

definition all_ones :: "nat \<Rightarrow> bitmap" where
  "all_ones len =
     (let bs = replicate ((len + 7) div 8) (0xFF :: u8);
          unused = (8 - len mod 8) mod 8
      in \<lparr>bits = (if unused > 0 \<and> bs \<noteq> [] then bs[length bs - 1 := drop_bit unused (last bs)] else bs),
          blen = len\<rparr>)"

definition bm_set :: "bitmap \<Rightarrow> nat \<Rightarrow> bitmap option" where
  "bm_set bm i =
     (if i div 8 < length (bits bm)
      then Some (bm\<lparr>bits := (bits bm)[i div 8 := bits bm ! (i div 8) OR push_bit (i mod 8) 1]\<rparr>) else None)"

definition bm_clear :: "bitmap \<Rightarrow> nat \<Rightarrow> bitmap option" where
  "bm_clear bm i =
     (if i div 8 < length (bits bm)
      then Some (bm\<lparr>bits := (bits bm)[i div 8 := bits bm ! (i div 8) AND NOT (push_bit (i mod 8) 1)]\<rparr>) else None)"

definition byte_test :: "bytes \<Rightarrow> nat \<Rightarrow> bool" where
  "byte_test bs i \<longleftrightarrow> drop_bit (i mod 8) (bs ! (i div 8)) AND 1 \<noteq> 0"

definition bm_get :: "bitmap \<Rightarrow> nat \<Rightarrow> bool option" where
  "bm_get bm i = (if i div 8 < length (bits bm) then Some (byte_test (bits bm) i) else None)"

text \<open>The byte loops \<open>for i in 0..n { out.bits[i] = ... }\<close> write the first \<open>n\<close> bytes of a fresh
  bitmap.\<close>

definition bm_and :: "bitmap \<Rightarrow> bitmap \<Rightarrow> bitmap" where
  "bm_and a b =
     (let out = bm_new (min (blen a) (blen b)); n = min (length (bits a)) (length (bits b))
      in out\<lparr>bits := patch (bits out) 0 (map (\<lambda>i. bits a ! i AND bits b ! i) [0..<n])\<rparr>)"

definition bm_or :: "bitmap \<Rightarrow> bitmap \<Rightarrow> bitmap" where
  "bm_or a b =
     (let out = bm_new (max (blen a) (blen b)); n = min (length (bits a)) (length (bits b))
      in out\<lparr>bits := patch (bits out) 0 (map (\<lambda>i. bits a ! i OR bits b ! i) [0..<n])\<rparr>)"

definition bm_not :: "bitmap \<Rightarrow> bitmap" where
  "bm_not a =
     (let bs = patch (bits (bm_new (blen a))) 0 (map NOT (bits a));
          unused = (8 - blen a mod 8) mod 8;
          m = push_bit (8 - unused) (1 :: u8) - 1
      in \<lparr>bits = (if unused > 0 \<and> bs \<noteq> [] then bs[length bs - 1 := last bs AND m] else bs), blen = blen a\<rparr>)"

definition bm_count_ones :: "bitmap \<Rightarrow> nat" where
  "bm_count_ones bm = sum_list (map count_ones (bits bm))"

definition to_bool_vec :: "bitmap \<Rightarrow> bool list option" where
  "to_bool_vec bm = those (map (bm_get bm) [0..<blen bm])"

text \<open>The loop \<open>for (i, &c) in col.iter().enumerate() { if p(c) { bm.set(i); } }\<close>.\<close>

primrec set_where :: "('a \<Rightarrow> bool) \<Rightarrow> 'a list \<Rightarrow> nat \<Rightarrow> bitmap \<Rightarrow> bitmap option" where
  "set_where p [] i bm = Some bm"
| "set_where p (c # cs) i bm =
     (case (if p c then bm_set bm i else Some bm) of None \<Rightarrow> None | Some bm \<Rightarrow> set_where p cs (i + 1) bm)"

definition from_bool_slice :: "bool list \<Rightarrow> bitmap option" where
  "from_bool_slice bools = set_where (\<lambda>b. b) bools 0 (bm_new (length bools))"

primrec to_bool_loop :: "bytes \<Rightarrow> nat \<Rightarrow> nat \<Rightarrow> bool list \<Rightarrow> bool list option" where
  "to_bool_loop bs i 0 out = Some out"
| "to_bool_loop bs i (Suc k) out =
     (if i < length out \<and> i div 8 < length bs then to_bool_loop bs (i + 1) k (out[i := byte_test bs i]) else None)"

definition to_bool_slice :: "bitmap \<Rightarrow> bool list \<Rightarrow> bool list option" where
  "to_bool_slice bm out = to_bool_loop (bits bm) 0 (blen bm) out"

section \<open>Rows of a bitmap\<close>

text \<open>The rows a bitmap stands for, its well-formedness (exactly the bytes its length needs, with the
  unused bits of the last one clear), and the packing of a list of rows.\<close>

definition rows :: "bitmap \<Rightarrow> bool list" where
  "rows bm = map (byte_test (bits bm)) [0..<blen bm]"

definition bm_wf :: "bitmap \<Rightarrow> bool" where
  "bm_wf bm \<longleftrightarrow> length (bits bm) = (blen bm + 7) div 8 \<and>
     (\<forall>i. blen bm \<le> i \<longrightarrow> i < 8 * length (bits bm) \<longrightarrow> \<not> byte_test (bits bm) i)"

definition pack :: "bool list \<Rightarrow> bitmap" where
  "pack rs = \<lparr>bits = map (\<lambda>k. horner_sum of_bool 2 (window rs (8 * k) 8)) [0..<(length rs + 7) div 8],
     blen = length rs\<rparr>"

lemma byte_test_iff: "byte_test bs i \<longleftrightarrow> bit (bs ! (i div 8)) (i mod 8)"
  by (simp add: byte_test_def bit_iff_odd_drop_bit and_one_eq odd_iff_mod_2_eq_one)

lemma byte_test_update:
  assumes "k < length bs" and "i < 8 * length bs"
  shows "byte_test (bs[k := b]) i \<longleftrightarrow> (if i div 8 = k then bit b (i mod 8) else byte_test bs i)"
  using assms by (auto simp: byte_test_iff nth_list_update)

lemma bytes_eqI:
  assumes "length bs = length cs" and "\<And>i. i < 8 * length bs \<Longrightarrow> byte_test bs i = byte_test cs i"
  shows "bs = cs"
proof (rule nth_equalityI [OF assms(1)], rule bit_word_eqI)
  fix k j assume k: "k < length bs" and "j < LENGTH(8)"
  then have j: "j < 8" by simp
  with k have "8 * k + j < 8 * length bs" by linarith
  with assms(2) [of "8 * k + j"] j show "bit (bs ! k) j = bit (cs ! k) j"
    by (simp add: byte_test_iff)
qed

lemma length_rows [simp, tv_len]: "length (rows bm) = blen bm"
  by (simp add: rows_def)

lemma nth_rows: "i < blen bm \<Longrightarrow> rows bm ! i = byte_test (bits bm) i"
  by (simp add: rows_def)

lemma row_byte: "bm_wf bm \<Longrightarrow> i < blen bm \<Longrightarrow> i div 8 < length (bits bm)"
  unfolding bm_wf_def by linarith

lemma bm_eqI:
  assumes "bm_wf a" and "bm_wf b" and "rows a = rows b"
  shows "a = (b :: bitmap)"
proof -
  have len: "blen a = blen b" using arg_cong [OF assms(3), of length] by simp
  have "bits a = bits b"
  proof (rule bytes_eqI)
    show "length (bits a) = length (bits b)" using assms len by (simp add: bm_wf_def)
    fix i assume "i < 8 * length (bits a)"
    then show "byte_test (bits a) i = byte_test (bits b) i"
      using assms len nth_rows [of i a] nth_rows [of i b] unfolding bm_wf_def
      by (cases "i < blen a") auto
  qed
  with len show ?thesis by simp
qed

lemma pack_wf [simp]: "bm_wf (pack rs)" and rows_pack [simp]: "rows (pack rs) = rs"
proof -
  have "byte_test (bits (pack rs)) i \<longleftrightarrow> i < length rs \<and> rs ! i" if "i < 8 * ((length rs + 7) div 8)" for i
  proof -
    have "i div 8 < (length rs + 7) div 8" using that by linarith
    moreover have "i mod 8 < length rs - 8 * (i div 8) \<longleftrightarrow> i < length rs"
      using mult_div_mod_eq [of 8 i] by linarith
    ultimately show ?thesis
      by (auto simp: byte_test_iff pack_def bit_horner_sum_bit_word_iff window_def min_def not_less)
  qed
  then show "bm_wf (pack rs)" "rows (pack rs) = rs"
    by (auto simp: bm_wf_def pack_def rows_def intro!: nth_equalityI)
qed

lemma eq_packI: "bm_wf bm \<Longrightarrow> rows bm = rs \<Longrightarrow> bm = pack rs"
  by (rule bm_eqI) simp_all

lemma pack_rows: "bm_wf bm \<Longrightarrow> pack (rows bm) = bm"
  by (rule eq_packI [symmetric]) simp_all

text \<open>A well-formed bitmap given by its bits.\<close>

lemma bitmap_eq_packI:
  assumes "length bs = (length rs + 7) div 8"
    and "\<And>i. i < 8 * length bs \<Longrightarrow> byte_test bs i \<longleftrightarrow> i < length rs \<and> rs ! i"
  shows "\<lparr>bits = bs, blen = length rs\<rparr> = pack rs"
  using assms by (intro eq_packI) (auto simp: bm_wf_def rows_def intro!: nth_equalityI)

lemma bm_new_eq: "bm_new n = pack (replicate n False)"
proof -
  have "byte_test (replicate m 0) i \<longleftrightarrow> False" if "i < 8 * m" for i m
    using that by (simp add: byte_test_iff less_mult_imp_div_less mult.commute)
  then show ?thesis
    using bitmap_eq_packI [of "replicate ((n + 7) div 8) 0" "replicate n False"] by (auto simp: bm_new_def)
qed

lemma to_bool_vec_rows: "bm_wf bm \<Longrightarrow> to_bool_vec bm = Some (rows bm)"
proof -
  assume wf: "bm_wf bm"
  have "map (bm_get bm) [0..<blen bm] = map Some (rows bm)"
    using row_byte [OF wf] by (simp add: bm_get_def rows_def)
  then show ?thesis by (simp add: to_bool_vec_def)
qed

section \<open>Operations on rows\<close>

lemma bm_update_bits: "bm\<lparr>bits := bs\<rparr> = \<lparr>bits = bs, blen = blen bm\<rparr>"
  by (cases bm) simp

lemma bit_set_byte: "bit (b OR 2 ^ k :: u8) j \<longleftrightarrow> bit b j \<or> (j = k \<and> k < 8)"
  by (auto simp: bit_or_iff bit_two_pow)

lemma div_mod_8_eq: "i div 8 = j div 8 \<Longrightarrow> i mod 8 = j mod 8 \<longleftrightarrow> i = (j :: nat)"
  by (metis mod_div_mult_eq)

lemma pack_bits: "bits (pack rs) = bs \<longleftrightarrow> pack rs = \<lparr>bits = bs, blen = length rs\<rparr>"
  by (auto simp: pack_def)

lemma length_bits_pack [simp, tv_len]: "length (bits (pack rs)) = (length rs + 7) div 8"
  by (simp add: pack_def)

lemma blen_pack [simp]: "blen (pack rs) = length rs"
  by (simp add: pack_def)

lemma byte_test_pack: "i < 8 * ((length rs + 7) div 8) \<Longrightarrow> byte_test (bits (pack rs)) i \<longleftrightarrow> i < length rs \<and> rs ! i"
  using pack_wf [of rs] nth_rows [of i "pack rs"] by (cases "i < length rs") (simp_all add: bm_wf_def)

lemma bm_set_pack:
  assumes "i < length rs"
  shows "bm_set (pack rs) i = Some (pack (rs[i := True]))"
proof -
  let ?bs = "(bits (pack rs))[i div 8 := bits (pack rs) ! (i div 8) OR push_bit (i mod 8) 1]"
  have i: "i div 8 < (length rs + 7) div 8" using assms by linarith
  have "\<lparr>bits = ?bs, blen = length (rs[i := True])\<rparr> = pack (rs[i := True])"
  proof (rule bitmap_eq_packI)
    fix j assume "j < 8 * length ?bs"
    then have j: "j < 8 * ((length rs + 7) div 8)" by simp
    then show "byte_test ?bs j \<longleftrightarrow> j < length (rs[i := True]) \<and> rs[i := True] ! j"
      using i byte_test_pack [OF j] assms div_mod_8_eq [of j i]
      by (cases "j div 8 = i div 8"; cases "j = i") (auto simp: byte_test_update bit_set_byte byte_test_iff)
  qed simp
  with i show ?thesis by (simp add: bm_set_def bm_update_bits)
qed

lemma bm_clear_pack:
  assumes "i < length rs"
  shows "bm_clear (pack rs) i = Some (pack (rs[i := False]))"
proof -
  let ?bs = "(bits (pack rs))[i div 8 := bits (pack rs) ! (i div 8) AND NOT (push_bit (i mod 8) 1)]"
  have i: "i div 8 < (length rs + 7) div 8" using assms by linarith
  have c: "bit (b AND NOT (2 ^ k) :: u8) j \<longleftrightarrow> bit b j \<and> j \<noteq> k" for b k j
    by (auto simp: bit_and_iff bit_not_iff bit_two_pow dest: bit_imp_le_length)
  have "\<lparr>bits = ?bs, blen = length (rs[i := False])\<rparr> = pack (rs[i := False])"
  proof (rule bitmap_eq_packI)
    fix j assume "j < 8 * length ?bs"
    then have j: "j < 8 * ((length rs + 7) div 8)" by simp
    then show "byte_test ?bs j \<longleftrightarrow> j < length (rs[i := False]) \<and> rs[i := False] ! j"
      using i byte_test_pack [OF j] assms div_mod_8_eq [of j i]
      by (cases "j div 8 = i div 8"; cases "j = i") (auto simp: byte_test_update c byte_test_iff)
  qed simp
  with i show ?thesis by (simp add: bm_clear_def bm_update_bits)
qed

lemma bm_get_pack: "i < length rs \<Longrightarrow> bm_get (pack rs) i = Some (rs ! i)"
  using row_byte [OF pack_wf, of i rs] by (simp add: bm_get_def byte_test_pack)

lemma set_where_pack:
  "set_where p cs (length rs) (pack (rs @ replicate (length cs) False)) = Some (pack (rs @ map p cs))"
proof (induction cs arbitrary: rs)
  case (Cons c cs)
  have "(if p c then bm_set (pack (rs @ replicate (length (c # cs)) False)) (length rs)
         else Some (pack (rs @ replicate (length (c # cs)) False))) =
      Some (pack ((rs @ [p c]) @ replicate (length cs) False))"
    by (simp add: bm_set_pack list_update_append)
  then show ?case using Cons.IH [of "rs @ [p c]"] unfolding set_where.simps by simp
qed simp

lemma from_bool_slice_pack: "from_bool_slice rs = Some (pack rs)"
  using set_where_pack [of "\<lambda>b. b" rs "[]"] by (simp add: from_bool_slice_def bm_new_eq)

lemma to_bool_loop_pack:
  "i + k \<le> length rs \<Longrightarrow> i + k \<le> length out \<Longrightarrow>
   to_bool_loop (bits (pack rs)) i k out = Some (take i out @ take k (drop i rs) @ drop (i + k) out)"
proof (induction k arbitrary: i out)
  case (Suc k)
  then have "i div 8 < (length rs + 7) div 8" "i < 8 * ((length rs + 7) div 8)" by linarith+
  moreover have "take (Suc i) (out[i := rs ! i]) = take i out @ [rs ! i]"
    using Suc.prems by (simp add: take_Suc_conv_app_nth)
  moreover have "take (Suc k) (drop i rs) = rs ! i # take k (drop (Suc i) rs)"
    using Suc.prems by (simp add: Cons_nth_drop_Suc [symmetric])
  ultimately show ?case using Suc by (simp add: byte_test_pack)
qed simp

lemma bm_and_pack: "bm_and (pack as) (pack bs) = pack (map2 (\<and>) as bs)"
proof -
  let ?n = "min (length (bits (pack as))) (length (bits (pack bs)))"
  let ?cs = "map (\<lambda>i. bits (pack as) ! i AND bits (pack bs) ! i) [0..<?n]"
  have n: "?n = (min (length as) (length bs) + 7) div 8" by (auto simp: min_def)
  have "\<lparr>bits = ?cs, blen = length (map2 (\<and>) as bs)\<rparr> = pack (map2 (\<and>) as bs)"
  proof (rule bitmap_eq_packI)
    fix i assume "i < 8 * length ?cs"
    then have i: "i div 8 < ?n" "i < 8 * ((length as + 7) div 8)" "i < 8 * ((length bs + 7) div 8)" by auto
    then show "byte_test ?cs i \<longleftrightarrow> i < length (map2 (\<and>) as bs) \<and> map2 (\<and>) as bs ! i"
      using byte_test_pack [OF i(2)] byte_test_pack [OF i(3)] by (auto simp: byte_test_iff bit_and_iff)
  qed (simp add: n)
  then show ?thesis by (simp add: bm_and_def bm_update_bits patch_all n bm_new_def Let_def)
qed

lemma bm_or_pack:
  assumes "length as = length bs"
  shows "bm_or (pack as) (pack bs) = pack (map2 (\<or>) as bs)"
proof -
  let ?n = "min (length (bits (pack as))) (length (bits (pack bs)))"
  let ?cs = "map (\<lambda>i. bits (pack as) ! i OR bits (pack bs) ! i) [0..<?n]"
  have "\<lparr>bits = ?cs, blen = length (map2 (\<or>) as bs)\<rparr> = pack (map2 (\<or>) as bs)"
  proof (rule bitmap_eq_packI)
    fix i assume "i < 8 * length ?cs"
    then have i: "i div 8 < ?n" "i < 8 * ((length as + 7) div 8)" "i < 8 * ((length bs + 7) div 8)"
      by (auto simp: assms)
    then show "byte_test ?cs i \<longleftrightarrow> i < length (map2 (\<or>) as bs) \<and> map2 (\<or>) as bs ! i"
      using byte_test_pack [OF i(2)] byte_test_pack [OF i(3)] assms by (auto simp: byte_test_iff bit_or_iff)
  qed (simp add: assms)
  then show ?thesis using assms by (simp add: bm_or_def bm_update_bits patch_all bm_new_def Let_def)
qed

text \<open>Bits of the last byte past the length, for the two operations that clear them.\<close>

lemma last_byte:
  assumes "i < 8 * ((n + 7) div 8)" and "(8 - n mod 8) mod 8 > (0 :: nat)"
  shows "i div 8 = (n + 7) div 8 - 1 \<Longrightarrow> i mod 8 < n mod 8 \<longleftrightarrow> i < n"
    and "i div 8 \<noteq> (n + 7) div 8 - 1 \<Longrightarrow> i < n"
    and "0 < (n + 7) div 8" and "8 - (8 - n mod 8) mod 8 = n mod 8"
proof -
  have m: "n mod 8 \<noteq> 0" using assms(2) by (cases "n mod 8 = 0") auto
  have q: "(n + 7) div 8 = n div 8 + 1" using m mult_div_mod_eq [of 8 n] by linarith
  note e = mult_div_mod_eq [of 8 n] mult_div_mod_eq [of 8 i]
  have d: "i mod 8 < n mod 8 \<Longrightarrow> i < n" "i < n \<Longrightarrow> i mod 8 < n mod 8" if "i div 8 = n div 8"
    using e that by linarith+
  then show "i div 8 = (n + 7) div 8 - 1 \<Longrightarrow> i mod 8 < n mod 8 \<longleftrightarrow> i < n" by (auto simp: q)
  have "i div 8 < n div 8 + 1"
    using assms(1) unfolding q by (intro less_mult_imp_div_less) (simp only: mult.commute)
  then have "i < n" if "i div 8 \<noteq> n div 8" using that e mod_less_divisor [of 8 i] by linarith
  then show "i div 8 \<noteq> (n + 7) div 8 - 1 \<Longrightarrow> i < n" by (simp add: q)
  show "0 < (n + 7) div 8" "8 - (8 - n mod 8) mod 8 = n mod 8" using m by (simp_all add: q)
qed

lemma no_unused: "\<not> (8 - n mod 8) mod 8 > 0 \<Longrightarrow> i < 8 * ((n + 7) div 8) \<Longrightarrow> i < (n :: nat)"
proof -
  assume a: "\<not> (8 - n mod 8) mod 8 > 0" "i < 8 * ((n + 7) div 8)"
  have "n mod 8 < 8" by simp
  with a(1) have "n mod 8 = 0" by (cases "n mod 8 = 0") auto
  then obtain k where "n = 8 * k" by (auto simp: mod_eq_0_iff_dvd dvd_def)
  with a(2) show "i < n" by simp
qed

lemma bm_not_pack: "bm_not (pack rs) = pack (map Not rs)"
proof -
  let ?n = "length rs"
  let ?bs = "map NOT (bits (pack rs))" and ?u = "(8 - ?n mod 8) mod 8"
  let ?m = "push_bit (8 - ?u) (1 :: u8) - 1"
  let ?cs = "if ?u > 0 \<and> ?bs \<noteq> [] then ?bs[length ?bs - 1 := last ?bs AND ?m] else ?bs"
  have "\<lparr>bits = ?cs, blen = length (map Not rs)\<rparr> = pack (map Not rs)"
  proof (rule bitmap_eq_packI)
    fix i assume "i < 8 * length ?cs"
    then have i: "i < 8 * ((?n + 7) div 8)" by (simp split: if_splits)
    then have d: "i div 8 < (?n + 7) div 8" by linarith
    have nb: "byte_test ?bs i \<longleftrightarrow> \<not> (i < ?n \<and> rs ! i)"
      using byte_test_pack [OF i] d by (simp add: byte_test_iff bit_not_iff)
    show "byte_test ?cs i \<longleftrightarrow> i < length (map Not rs) \<and> map Not rs ! i"
    proof (cases "?u > 0")
      case False
      with nb no_unused [OF False i] show ?thesis by simp
    next
      case True
      note L = last_byte [OF i True]
      have ne: "?bs \<noteq> []" using L(3) by (auto simp: pack_def)
      have m: "?m = mask (?n mod 8)" using L(4) by (simp add: mask_eq_exp_minus_1)
      have c: "?cs = ?bs[(?n + 7) div 8 - 1 := ?bs ! ((?n + 7) div 8 - 1) AND mask (?n mod 8)]"
        unfolding m [symmetric] using True ne by (simp add: last_conv_nth)
      show ?thesis
      proof (cases "i div 8 = (?n + 7) div 8 - 1")
        case True
        have "byte_test ?cs i \<longleftrightarrow> byte_test ?bs i \<and> i mod 8 < ?n mod 8"
          unfolding c using d True by (simp add: byte_test_iff bit_and_iff bit_mask_iff)
        with nb L(1) [OF True] show ?thesis by auto
      next
        case False
        then have "byte_test ?cs i \<longleftrightarrow> byte_test ?bs i" unfolding c using d by (simp add: byte_test_iff)
        with nb L(2) [OF False] show ?thesis by simp
      qed
    qed
  qed simp
  moreover have "patch (bits (bm_new ?n)) 0 ?bs = ?bs" by (simp add: patch_all bm_new_def)
  ultimately show ?thesis by (simp only: bm_not_def Let_def blen_pack length_map)
qed

lemma all_ones_pack: "all_ones n = pack (replicate n True)"
proof -
  let ?bs = "replicate ((n + 7) div 8) (0xFF :: u8)" and ?u = "(8 - n mod 8) mod 8"
  let ?cs = "if ?u > 0 \<and> ?bs \<noteq> [] then ?bs[length ?bs - 1 := drop_bit ?u (last ?bs)] else ?bs"
  have ff: "bit (0xFF :: u8) j \<longleftrightarrow> j < 8" for j
    using bit_mask_iff [where 'a = u8, of 8 j] by (simp add: mask_eq_exp_minus_1)
  have "\<lparr>bits = ?cs, blen = length (replicate n True)\<rparr> = pack (replicate n True)"
  proof (rule bitmap_eq_packI)
    fix i assume "i < 8 * length ?cs"
    then have i: "i < 8 * ((n + 7) div 8)" by (simp split: if_splits)
    then have d: "i div 8 < (n + 7) div 8" by linarith
    show "byte_test ?cs i \<longleftrightarrow> i < length (replicate n True) \<and> replicate n True ! i"
    proof (cases "?u > 0")
      case False
      with no_unused [OF False i] d ff [of "i mod 8"] show ?thesis by (simp add: byte_test_iff)
    next
      case True
      note L = last_byte [OF i True]
      have c: "?cs = ?bs[(n + 7) div 8 - 1 := drop_bit ?u 0xFF]" using True L(3) by simp
      have "?u + i mod 8 < 8 \<longleftrightarrow> i mod 8 < n mod 8" using L(4) True by linarith
      then have "byte_test ?cs i \<longleftrightarrow> (i div 8 = (n + 7) div 8 - 1 \<longrightarrow> i mod 8 < n mod 8)"
        unfolding c using d ff [of "i mod 8"] ff [of "?u + i mod 8"]
        by (simp add: byte_test_iff nth_list_update bit_drop_bit_eq)
      then show ?thesis using L(1,2) by auto
    qed
  qed simp
  then show ?thesis by (simp only: all_ones_def Let_def length_replicate)
qed

lemma upt_8_Suc: "[0..<8 * Suc n] = [0..<8 * n] @ map (\<lambda>j. 8 * n + j) [0..<8]"
  using upt_add_eq_append [of 0 "8 * n" 8] by (simp add: map_add_upt add.commute)

lemma count_ones_bytes: "sum_list (map count_ones bs) = length (filter (byte_test bs) [0..<8 * length bs])"
proof (induction bs rule: rev_induct)
  case (snoc b bs)
  have "filter (byte_test (bs @ [b])) [0..<8 * length bs] = filter (byte_test bs) [0..<8 * length bs]"
    by (rule filter_cong) (simp_all add: byte_test_iff nth_append less_mult_imp_div_less mult.commute)
  moreover have "filter (byte_test (bs @ [b]) \<circ> (\<lambda>j. 8 * length bs + j)) [0..<8] = filter (bit b) [0..<8]"
    by (rule filter_cong) (simp_all add: byte_test_iff)
  ultimately show ?case
    using snoc.IH by (simp add: upt_8_Suc filter_map count_ones_def del: mult_Suc_right)
qed simp

lemma bm_count_ones_pack: "bm_count_ones (pack rs) = length (filter (\<lambda>r. r) rs)"
proof -
  let ?b = "byte_test (bits (pack rs))"
  have le: "length rs \<le> 8 * ((length rs + 7) div 8)" by linarith
  have s: "[0..<8 * ((length rs + 7) div 8)] = [0..<length rs] @ [length rs..<8 * ((length rs + 7) div 8)]"
    using upt_add_eq_append [of 0 "length rs" "8 * ((length rs + 7) div 8) - length rs"] le by simp
  have "filter ?b [length rs..<8 * ((length rs + 7) div 8)] = []"
    by (simp add: filter_empty_conv byte_test_pack)
  moreover have "length (filter ?b [0..<length rs]) = length (filter (\<lambda>r. r) rs)"
  proof -
    have "map ?b [0..<length rs] = rs" using rows_pack [of rs] by (simp add: rows_def)
    then have "filter (\<lambda>r. r) rs = filter (\<lambda>r. r) (map ?b [0..<length rs])" by simp
    then show ?thesis by (simp add: filter_map comp_def)
  qed
  ultimately show ?thesis by (simp add: bm_count_ones_def count_ones_bytes s)
qed

end
