(* ===== verification/Bitmap_Kernels.thy ===== *)
theory Bitmap_Kernels
  imports Bitmap
begin

text \<open>
  The kernels of src/src/exec/bitmap.rs: the in-place combinators, the filters of a column by a
  comparison, and the folding of a bitmap into a bool mask, each with its AVX-512 and its scalar
  path. The run-time CPU detection is the argument \<open>avx\<close>; vector registers are lists of lanes and
  the intrinsics act on them lane by lane. An \<open>f64\<close> is its bit pattern. Every kernel is shown to
  compute its specification on rows on both paths.
\<close>

section \<open>Block loops\<close>

text \<open>\<open>while i + k <= n\<close>: combine \<open>k\<close> bytes of \<open>dst\<close> and \<open>src\<close> and store them back. The loops of
  \<open>and_inplace_avx512\<close> and \<open>or_inplace_avx512\<close> run it for \<open>k = 64\<close>, 16 and 1.\<close>

function block_loop :: "nat \<Rightarrow> ('a \<Rightarrow> 'b \<Rightarrow> 'a) \<Rightarrow> 'b list \<Rightarrow> nat \<Rightarrow> 'a list \<Rightarrow> nat \<times> 'a list" where
  "block_loop k f src i dst =
     (if 0 < k \<and> i + k \<le> length dst
      then block_loop k f src (i + k) (patch dst i (map2 f (window dst i k) (window src i k)))
      else (i, dst))"
  by pat_completeness auto
termination
  by (relation "measure (\<lambda>(k, f, src, i, dst). length dst - i)") (auto simp: patch_def)

declare block_loop.simps [simp del]

definition and_inplace_avx512 :: "bytes \<Rightarrow> bytes \<Rightarrow> bytes" where
  "and_inplace_avx512 dst src =
     (let (i, dst) = block_loop 64 (AND) src 0 dst;
          (i, dst) = block_loop 16 (AND) src i dst;
          (i, dst) = block_loop 1 (AND) src i dst
      in dst)"

definition or_inplace_avx512 :: "bytes \<Rightarrow> bytes \<Rightarrow> bytes" where
  "or_inplace_avx512 dst src =
     (let (i, dst) = block_loop 64 (OR) src 0 dst;
          (i, dst) = block_loop 16 (OR) src i dst;
          (i, dst) = block_loop 1 (OR) src i dst
      in dst)"

definition and_inplace :: "bool \<Rightarrow> bitmap \<Rightarrow> bitmap \<Rightarrow> bitmap" where
  "and_inplace avx a b =
     (let n = min (length (bits a)) (length (bits b))
      in a\<lparr>bits := patch (bits a) 0
            (if avx then and_inplace_avx512 (take n (bits a)) (take n (bits b))
             else map (\<lambda>i. bits a ! i AND bits b ! i) [0..<n])\<rparr>)"

definition or_inplace :: "bool \<Rightarrow> bitmap \<Rightarrow> bitmap \<Rightarrow> bitmap" where
  "or_inplace avx a b =
     (let n = min (length (bits a)) (length (bits b))
      in a\<lparr>bits := patch (bits a) 0
            (if avx then or_inplace_avx512 (take n (bits a)) (take n (bits b))
             else map (\<lambda>i. bits a ! i OR bits b ! i) [0..<n])\<rparr>)"

section \<open>Filter kernels\<close>

text \<open>An eight-lane compare: bit \<open>j\<close> of the mask is the outcome on lane \<open>j\<close>.\<close>

definition lane_mask :: "(u64 \<Rightarrow> u64 \<Rightarrow> bool) \<Rightarrow> u64 list \<Rightarrow> u64 list \<Rightarrow> u8" where
  "lane_mask p v t = horner_sum of_bool 2 (map2 p v t)"

text \<open>The 32-row loop of \<open>filter_u64_avx512_inner\<close>.\<close>

function avx_loop32 ::
  "(u64 list \<Rightarrow> u64 list \<Rightarrow> u8) \<Rightarrow> u64 list \<Rightarrow> u64 list \<Rightarrow> nat \<Rightarrow> nat \<Rightarrow> bytes \<Rightarrow> nat \<times> nat \<times> bytes" where
  "avx_loop32 cmp target col i byte_idx bs =
     (if i + 32 \<le> length col then
        let m0 = cmp (window col i 8) target;
            m1 = cmp (window col (i + 8) 8) target;
            m2 = cmp (window col (i + 16) 8) target;
            m3 = cmp (window col (i + 24) 8) target
        in avx_loop32 cmp target col (i + 32) (byte_idx + 4)
             (bs[byte_idx := m0, byte_idx + 1 := m1, byte_idx + 2 := m2, byte_idx + 3 := m3])
      else (i, byte_idx, bs))"
  by pat_completeness auto
termination
  by (relation "measure (\<lambda>(cmp, t, col, i, b, bs). length col - i)") auto

declare avx_loop32.simps [simp del]

function avx_loop8 ::
  "(u64 list \<Rightarrow> u64 list \<Rightarrow> u8) \<Rightarrow> u64 list \<Rightarrow> u64 list \<Rightarrow> nat \<Rightarrow> nat \<Rightarrow> bytes \<Rightarrow> nat \<times> nat \<times> bytes" where
  "avx_loop8 cmp target col i byte_idx bs =
     (if i + 8 \<le> length col then
        avx_loop8 cmp target col (i + 8) (byte_idx + 1) (bs[byte_idx := cmp (window col i 8) target])
      else (i, byte_idx, bs))"
  by pat_completeness auto
termination
  by (relation "measure (\<lambda>(cmp, t, col, i, b, bs). length col - i)") auto

declare avx_loop8.simps [simp del]

text \<open>The last rows one at a time, \<open>p\<close> deciding a row.\<close>

function avx_tail :: "(u64 \<Rightarrow> bool) \<Rightarrow> u64 list \<Rightarrow> nat \<Rightarrow> nat \<Rightarrow> bytes \<Rightarrow> bytes" where
  "avx_tail p col i byte_idx bs =
     (if i < length col then
        avx_tail p col (i + 1) byte_idx
          (if p (col ! i) then bs[byte_idx := bs ! byte_idx OR push_bit (i mod 8) 1] else bs)
      else bs)"
  by pat_completeness auto
termination
  by (relation "measure (\<lambda>(p, col, i, b, bs). length col - i)") auto

declare avx_tail.simps [simp del]

definition filter_u64_avx512_inner :: "u64 list \<Rightarrow> u64 \<Rightarrow> (u64 list \<Rightarrow> u64 list \<Rightarrow> u8) \<Rightarrow> bitmap" where
  "filter_u64_avx512_inner col val cmp =
     (let bm = bm_new (length col);
          target = replicate 8 val;
          (i, byte_idx, bs) = avx_loop32 cmp target col 0 0 (bits bm);
          (i, byte_idx, bs) = avx_loop8 cmp target col i byte_idx bs;
          bs = avx_tail (\<lambda>c. cmp (c # replicate 7 0) target AND 1 \<noteq> 0) col i byte_idx bs
      in bm\<lparr>bits := bs\<rparr>)"

definition filter_scalar :: "(u64 \<Rightarrow> bool) \<Rightarrow> u64 list \<Rightarrow> bitmap option" where
  "filter_scalar p col = set_where p col 0 (bm_new (length col))"

definition filter_eq_u64 :: "bool \<Rightarrow> u64 list \<Rightarrow> u64 \<Rightarrow> bitmap option" where
  "filter_eq_u64 avx col val =
     (if avx then Some (filter_u64_avx512_inner col val (lane_mask (=))) else filter_scalar (\<lambda>c. c = val) col)"

definition filter_ne_u64 :: "bool \<Rightarrow> u64 list \<Rightarrow> u64 \<Rightarrow> bitmap option" where
  "filter_ne_u64 avx col val =
     (if avx then Some (filter_u64_avx512_inner col val (\<lambda>v t. NOT (lane_mask (=) v t)))
      else filter_scalar (\<lambda>c. c \<noteq> val) col)"

definition filter_lt_u64 :: "bool \<Rightarrow> u64 list \<Rightarrow> u64 \<Rightarrow> bitmap option" where
  "filter_lt_u64 avx col val =
     (if avx then Some (filter_u64_avx512_inner col val (lane_mask (<))) else filter_scalar (\<lambda>c. c < val) col)"

definition filter_gt_u64 :: "bool \<Rightarrow> u64 list \<Rightarrow> u64 \<Rightarrow> bitmap option" where
  "filter_gt_u64 avx col val =
     (if avx then Some (filter_u64_avx512_inner col val (lane_mask (>))) else filter_scalar (\<lambda>c. c > val) col)"

definition filter_le_u64 :: "bool \<Rightarrow> u64 list \<Rightarrow> u64 \<Rightarrow> bitmap option" where
  "filter_le_u64 avx col val =
     (if avx then Some (filter_u64_avx512_inner col val (lane_mask (\<le>))) else filter_scalar (\<lambda>c. c \<le> val) col)"

definition filter_ge_u64 :: "bool \<Rightarrow> u64 list \<Rightarrow> u64 \<Rightarrow> bitmap option" where
  "filter_ge_u64 avx col val =
     (if avx then Some (filter_u64_avx512_inner col val (lane_mask (\<ge>))) else filter_scalar (\<lambda>c. c \<ge> val) col)"

text \<open>The signed filters take an \<open>i64\<close> given as a word and compare as signed.\<close>

definition filter_lt_i64 :: "bool \<Rightarrow> u64 list \<Rightarrow> u64 \<Rightarrow> bitmap option" where
  "filter_lt_i64 avx col val =
     (if avx then Some (filter_u64_avx512_inner col val (lane_mask (<s))) else filter_scalar (\<lambda>c. sint c < sint val) col)"

definition filter_le_i64 :: "bool \<Rightarrow> u64 list \<Rightarrow> u64 \<Rightarrow> bitmap option" where
  "filter_le_i64 avx col val =
     (if avx then Some (filter_u64_avx512_inner col val (lane_mask (\<le>s))) else filter_scalar (\<lambda>c. sint c \<le> sint val) col)"

definition filter_gt_i64 :: "bool \<Rightarrow> u64 list \<Rightarrow> u64 \<Rightarrow> bitmap option" where
  "filter_gt_i64 avx col val =
     (if avx then Some (filter_u64_avx512_inner col val (lane_mask (\<lambda>x y. y <s x)))
      else filter_scalar (\<lambda>c. sint c > sint val) col)"

definition filter_ge_i64 :: "bool \<Rightarrow> u64 list \<Rightarrow> u64 \<Rightarrow> bitmap option" where
  "filter_ge_i64 avx col val =
     (if avx then Some (filter_u64_avx512_inner col val (lane_mask (\<lambda>x y. y \<le>s x)))
      else filter_scalar (\<lambda>c. sint c \<ge> sint val) col)"

subsection \<open>Double-precision filters\<close>

text \<open>IEEE 754 comparison on bit patterns: a NaN has all exponent bits and some fraction bit set and
  is ordered with nothing; the other values are ordered as sign and magnitude, the two zeros being
  equal.\<close>

definition f64_is_nan :: "u64 \<Rightarrow> bool" where
  "f64_is_nan w \<longleftrightarrow> take_bit 63 w > 0x7FF0000000000000"

definition f64_key :: "u64 \<Rightarrow> int" where
  "f64_key w = (if bit w 63 then - uint (take_bit 63 w) else uint w)"

definition f64_eq :: "u64 \<Rightarrow> u64 \<Rightarrow> bool" where
  "f64_eq a b \<longleftrightarrow> \<not> f64_is_nan a \<and> \<not> f64_is_nan b \<and> f64_key a = f64_key b"

definition f64_lt :: "u64 \<Rightarrow> u64 \<Rightarrow> bool" where
  "f64_lt a b \<longleftrightarrow> \<not> f64_is_nan a \<and> \<not> f64_is_nan b \<and> f64_key a < f64_key b"

definition f64_le :: "u64 \<Rightarrow> u64 \<Rightarrow> bool" where
  "f64_le a b \<longleftrightarrow> \<not> f64_is_nan a \<and> \<not> f64_is_nan b \<and> f64_key a \<le> f64_key b"

text \<open>The immediate \<open>PRED\<close> of \<open>filter_f64_avx512_inner\<close>, with the ordered, quiet comparison it selects.\<close>

datatype cmp_imm = CMP_EQ_OQ | CMP_LT_OQ | CMP_GT_OQ | CMP_LE_OQ | CMP_GE_OQ

primrec f64_cmp :: "cmp_imm \<Rightarrow> u64 \<Rightarrow> u64 \<Rightarrow> bool" where
  "f64_cmp CMP_EQ_OQ a b = f64_eq a b"
| "f64_cmp CMP_LT_OQ a b = f64_lt a b"
| "f64_cmp CMP_GT_OQ a b = f64_lt b a"
| "f64_cmp CMP_LE_OQ a b = f64_le a b"
| "f64_cmp CMP_GE_OQ a b = f64_le b a"

definition filter_f64_avx512_inner :: "cmp_imm \<Rightarrow> u64 list \<Rightarrow> u64 \<Rightarrow> bitmap" where
  "filter_f64_avx512_inner PRED col val =
     (let bm = bm_new (length col);
          target = replicate 8 val;
          (i, byte_idx, bs) = avx_loop32 (lane_mask (f64_cmp PRED)) target col 0 0 (bits bm);
          (i, byte_idx, bs) = avx_loop8 (lane_mask (f64_cmp PRED)) target col i byte_idx bs;
          bs = avx_tail (\<lambda>c. case PRED of
                    CMP_EQ_OQ \<Rightarrow> f64_eq c val
                  | CMP_LT_OQ \<Rightarrow> f64_lt c val
                  | CMP_GT_OQ \<Rightarrow> f64_lt val c
                  | CMP_LE_OQ \<Rightarrow> f64_le c val
                  | CMP_GE_OQ \<Rightarrow> f64_le val c) col i byte_idx bs
      in bm\<lparr>bits := bs\<rparr>)"

definition filter_eq_f64 :: "bool \<Rightarrow> u64 list \<Rightarrow> u64 \<Rightarrow> bitmap option" where
  "filter_eq_f64 avx col val =
     (if avx then Some (filter_f64_avx512_inner CMP_EQ_OQ col val) else filter_scalar (\<lambda>c. c = val) col)"

definition filter_eq_f64_exact :: "bool \<Rightarrow> u64 list \<Rightarrow> u64 \<Rightarrow> bitmap option" where
  "filter_eq_f64_exact avx col val = map_option bm_not (filter_eq_f64 avx col val)"

definition filter_lt_f64 :: "bool \<Rightarrow> u64 list \<Rightarrow> u64 \<Rightarrow> bitmap option" where
  "filter_lt_f64 avx col val =
     (if avx then Some (filter_f64_avx512_inner CMP_LT_OQ col val) else filter_scalar (\<lambda>c. f64_lt c val) col)"

definition filter_gt_f64 :: "bool \<Rightarrow> u64 list \<Rightarrow> u64 \<Rightarrow> bitmap option" where
  "filter_gt_f64 avx col val =
     (if avx then Some (filter_f64_avx512_inner CMP_GT_OQ col val) else filter_scalar (\<lambda>c. f64_lt val c) col)"

definition filter_le_f64 :: "bool \<Rightarrow> u64 list \<Rightarrow> u64 \<Rightarrow> bitmap option" where
  "filter_le_f64 avx col val =
     (if avx then Some (filter_f64_avx512_inner CMP_LE_OQ col val) else filter_scalar (\<lambda>c. f64_le c val) col)"

definition filter_ge_f64 :: "bool \<Rightarrow> u64 list \<Rightarrow> u64 \<Rightarrow> bitmap option" where
  "filter_ge_f64 avx col val =
     (if avx then Some (filter_f64_avx512_inner CMP_GE_OQ col val) else filter_scalar (\<lambda>c. f64_le val c) col)"

section \<open>Folding a bitmap into a bool mask\<close>

text \<open>The scalar loops; \<open>p old bit\<close> is the new mask entry.\<close>

primrec mask_loop :: "(bool \<Rightarrow> bool \<Rightarrow> bool) \<Rightarrow> bytes \<Rightarrow> nat \<Rightarrow> nat \<Rightarrow> bool list \<Rightarrow> bool list option" where
  "mask_loop p bs i 0 msk = Some msk"
| "mask_loop p bs i (Suc k) msk =
     (if i div 8 < length bs then mask_loop p bs (i + 1) k (msk[i := p (msk ! i) (byte_test bs i)]) else None)"

text \<open>A \<open>bool\<close> is a byte 0 or 1; any other byte in its place is undefined behaviour (\<open>None\<close>).\<close>

definition bool_byte :: "bool \<Rightarrow> u8" where
  "bool_byte b = (if b then 1 else 0)"

definition byte_bool :: "u8 \<Rightarrow> bool option" where
  "byte_bool x = (if x = 0 then Some False else if x = 1 then Some True else None)"

text \<open>\<open>_mm512_maskz_set1_epi8(packed, 0xFF)\<close> on \<open>k\<close> lanes, the mask bits being those of the \<open>k div 8\<close>
  bytes read.\<close>

definition maskz_ff :: "bytes \<Rightarrow> nat \<Rightarrow> bytes" where
  "maskz_ff packed k = map (\<lambda>j. if byte_test packed j then 0xFF else 0) [0..<k]"

text \<open>The \<open>k\<close>-lane loop: load \<open>k\<close> mask bytes, combine them with the expanded bits by \<open>f\<close>, store. The
  unchecked bitmap read is in range or undefined behaviour.\<close>

function mask_blocks ::
  "nat \<Rightarrow> (u8 \<Rightarrow> u8 \<Rightarrow> u8) \<Rightarrow> bytes \<Rightarrow> nat \<Rightarrow> bool list \<Rightarrow> (nat \<times> bool list) option" where
  "mask_blocks k f bs i msk =
     (if 0 < k \<and> i + k \<le> length msk then
        (if i div 8 + k div 8 \<le> length bs then
           case those (map byte_bool
             (map2 f (map bool_byte (window msk i k)) (maskz_ff (window bs (i div 8) (k div 8)) k))) of
             None \<Rightarrow> None
           | Some r \<Rightarrow> mask_blocks k f bs (i + k) (take i msk @ take k r @ drop (i + k) msk)
         else None)
      else Some (i, msk))"
  by pat_completeness auto
termination
  by (relation "measure (\<lambda>(k, f, bs, i, msk). length msk - i)") auto

declare mask_blocks.simps [simp del]

definition and_byte :: "u8 \<Rightarrow> u8 \<Rightarrow> u8" where
  "and_byte m e = m AND e"

definition or_min_byte :: "u8 \<Rightarrow> u8 \<Rightarrow> u8" where
  "or_min_byte m e = min (m OR e) 1"

definition and_into_bool_avx512 :: "bitmap \<Rightarrow> bool list \<Rightarrow> bool list option" where
  "and_into_bool_avx512 bm msk =
     (case mask_blocks 64 and_byte (bits bm) 0 msk of
        None \<Rightarrow> None
      | Some (i, msk) \<Rightarrow>
          (case mask_blocks 8 and_byte (bits bm) i msk of
             None \<Rightarrow> None
           | Some (i, msk) \<Rightarrow> mask_loop (\<and>) (bits bm) i (length msk - i) msk))"

definition or_into_bool_avx512 :: "bitmap \<Rightarrow> bool list \<Rightarrow> bool list option" where
  "or_into_bool_avx512 bm msk =
     (case mask_blocks 64 or_min_byte (bits bm) 0 msk of
        None \<Rightarrow> None
      | Some (i, msk) \<Rightarrow>
          (case mask_blocks 8 or_min_byte (bits bm) i msk of
             None \<Rightarrow> None
           | Some (i, msk) \<Rightarrow> mask_loop (\<or>) (bits bm) i (length msk - i) msk))"

definition and_into_bool :: "bool \<Rightarrow> bitmap \<Rightarrow> bool list \<Rightarrow> bool list option" where
  "and_into_bool avx bm msk =
     (if avx then and_into_bool_avx512 bm msk else mask_loop (\<and>) (bits bm) 0 (length msk) msk)"

definition or_into_bool :: "bool \<Rightarrow> bitmap \<Rightarrow> bool list \<Rightarrow> bool list option" where
  "or_into_bool avx bm msk =
     (if avx then or_into_bool_avx512 bm msk else mask_loop (\<or>) (bits bm) 0 (length msk) msk)"

section \<open>The scalar paths\<close>

lemma filter_scalar_pack: "filter_scalar p col = Some (pack (map p col))"
  using set_where_pack [of p col "[]"] by (simp add: filter_scalar_def bm_new_eq)

section \<open>In-place combinators\<close>

lemma block_loop_step:
  assumes "i + k \<le> length dst" and "length src = length dst" and "j < length dst"
  shows "patch dst i (map2 f (window dst i k) (window src i k)) ! j =
    (if i \<le> j \<and> j < i + k then f (dst ! j) (src ! j) else dst ! j)"
  using assms by (auto simp: nth_patch nth_window)

lemma block_loop_correct:
  assumes "0 < k" and "length src = length dst" and "i \<le> length dst" and "block_loop k f src i dst = (i', dst')"
  shows "i \<le> i' \<and> i' \<le> length dst \<and> length dst < i' + k \<and> length dst' = length dst \<and>
    (\<forall>j<length dst. dst' ! j = (if i \<le> j \<and> j < i' then f (dst ! j) (src ! j) else dst ! j))"
  using assms
proof (induction k f src i dst rule: block_loop.induct)
  case (1 k f src i dst)
  show ?case
  proof (cases "i + k \<le> length dst")
    case False
    with "1.prems" show ?thesis by (auto simp: block_loop.simps [of k f src i dst])
  next
    case True
    let ?d = "patch dst i (map2 f (window dst i k) (window src i k))"
    have len: "length ?d = length dst" using True "1.prems" by simp
    have "block_loop k f src (i + k) ?d = (i', dst')"
      using True "1.prems" by (simp add: block_loop.simps [of k f src i dst])
    with "1.IH" "1.prems" True len have
      IH: "i + k \<le> i'" "i' \<le> length dst" "length dst < i' + k" "length dst' = length dst"
        "\<And>j. j < length dst \<Longrightarrow> dst' ! j = (if i + k \<le> j \<and> j < i' then f (?d ! j) (src ! j) else ?d ! j)"
      by simp_all
    have "dst' ! j = (if i \<le> j \<and> j < i' then f (dst ! j) (src ! j) else dst ! j)" if "j < length dst" for j
      using IH(5) [OF that] IH(1) block_loop_step [OF True "1.prems"(2) that, of f] by simp
    with IH show ?thesis by simp
  qed
qed

lemma block_loops_map2:
  assumes "length src = length dst"
  shows "(case block_loop 64 f src 0 dst of (i, d) \<Rightarrow>
      case block_loop 16 f src i d of (i, d) \<Rightarrow> case block_loop 1 f src i d of (i, d) \<Rightarrow> d) = map2 f dst src"
proof -
  obtain i1 d1 where 1: "block_loop 64 f src 0 dst = (i1, d1)" by fastforce
  obtain i2 d2 where 2: "block_loop 16 f src i1 d1 = (i2, d2)" by fastforce
  obtain i3 d3 where 3: "block_loop 1 f src i2 d2 = (i3, d3)" by fastforce
  note B1 = block_loop_correct [OF _ assms _ 1, simplified]
  note B2 = block_loop_correct [OF _ _ _ 2, simplified]
  note B3 = block_loop_correct [OF _ _ _ 3, simplified]
  have "d3 = map2 f dst src"
    using B1 B2 B3 assms by (intro nth_equalityI) auto
  then show ?thesis by (simp only: 1 2 3 prod.case)
qed

lemma and_inplace_avx512_map2: "length src = length dst \<Longrightarrow> and_inplace_avx512 dst src = map2 (AND) dst src"
  and or_inplace_avx512_map2: "length src = length dst \<Longrightarrow> or_inplace_avx512 dst src = map2 (OR) dst src"
  using block_loops_map2 [of src dst] by (simp_all add: and_inplace_avx512_def or_inplace_avx512_def)

section \<open>Vector filters\<close>

text \<open>What the filter loops need of a compare: bit \<open>j\<close> of its mask is the predicate on lane \<open>j\<close>.\<close>

locale lane_compare =
  fixes cmp :: "u64 list \<Rightarrow> u64 list \<Rightarrow> u8" and p :: "u64 \<Rightarrow> u64 \<Rightarrow> bool"
  assumes cmp_bit: "length v = 8 \<Longrightarrow> length t = 8 \<Longrightarrow> j < 8 \<Longrightarrow> bit (cmp v t) j \<longleftrightarrow> p (v ! j) (t ! j)"
begin

text \<open>The bytes after the rows below \<open>i\<close> have been compared.\<close>

lemma avx_loop8_correct:
  assumes "avx_loop8 cmp (replicate 8 val) col i b bs = (i', b', bs')" and "i = 8 * b" and "i \<le> length col"
    and "length bs = (length col + 7) div 8"
    and "\<And>j. j < 8 * length bs \<Longrightarrow> byte_test bs j \<longleftrightarrow> j < i \<and> p (col ! j) val"
  shows "i' = 8 * b' \<and> i' \<le> length col \<and> length col < i' + 8 \<and> length bs' = length bs \<and>
    (\<forall>j<8 * length bs. byte_test bs' j \<longleftrightarrow> j < i' \<and> p (col ! j) val)"
  using assms
proof (induction "length col - i" arbitrary: i b bs rule: less_induct)
  case less
  show ?case
  proof (cases "i + 8 \<le> length col")
    case False
    with less.prems show ?thesis by (auto simp: avx_loop8.simps [of cmp])
  next
    case True
    let ?m = "cmp (window col i 8) (replicate 8 val)"
    let ?bs = "bs[b := ?m]"
    have b: "b < length bs" using True less.prems(2,4) by linarith
    have upd: "byte_test ?bs j \<longleftrightarrow> j < i + 8 \<and> p (col ! j) val" if j: "j < 8 * length ?bs" for j
    proof (cases "j div 8 = b")
      case eq: True
      then have e: "i + j mod 8 = j" using less.prems(2) by (metis mult_div_mod_eq)
      have "bit ?m (j mod 8) \<longleftrightarrow> p (window col i 8 ! (j mod 8)) (replicate 8 val ! (j mod 8))"
        using True by (intro cmp_bit) simp_all
      then have "bit ?m (j mod 8) \<longleftrightarrow> p (col ! j) val" using True e by (simp add: nth_window)
      moreover have "j < i + 8" using e mod_less_divisor [of 8 j] by linarith
      ultimately show ?thesis using b j eq by (simp add: byte_test_update)
    next
      case False
      then have "j < i \<longleftrightarrow> j < i + 8" using less.prems(2) by linarith
      then show ?thesis using less.prems(5) [of j] b j False by (simp add: byte_test_update)
    qed
    have "avx_loop8 cmp (replicate 8 val) col (i + 8) (b + 1) ?bs = (i', b', bs')"
      using less.prems(1) True by (simp add: avx_loop8.simps [of cmp _ col i])
    note IH = less.hyps [OF _ this _ _ _ upd, unfolded length_list_update]
    show ?thesis by (rule IH) (use True less.prems(2,4) in simp_all)
  qed
qed

text \<open>The 32-row loop is four steps of the 8-row loop at a time.\<close>

lemma avx_loop32_loop8:
  "(case avx_loop32 cmp t col i b bs of (i, b, bs) \<Rightarrow> avx_loop8 cmp t col i b bs) = avx_loop8 cmp t col i b bs"
proof (induction "length col - i" arbitrary: i b bs rule: less_induct)
  case less
  show ?case
  proof (cases "i + 32 \<le> length col")
    case False
    then show ?thesis by (simp add: avx_loop32.simps [of cmp t col i])
  next
    case True
    let ?m = "\<lambda>k. cmp (window col (i + k) 8) t"
    let ?bs = "bs[b := ?m 0, b + 1 := ?m 8, b + 2 := ?m 16, b + 3 := ?m 24]"
    have n: "b + 3 = Suc (Suc (Suc b))" "b + 4 = Suc (Suc (Suc (Suc b)))" by simp_all
    have "avx_loop8 cmp t col i b bs = avx_loop8 cmp t col (i + 32) (b + 4) ?bs"
      using True by (simp add: avx_loop8.simps [of cmp t col i] avx_loop8.simps [of cmp t col "i + 8"]
          avx_loop8.simps [of cmp t col "i + 16"] avx_loop8.simps [of cmp t col "i + 24"] n add.commute)
    with True less.hyps [of "i + 32" "b + 4" ?bs] show ?thesis
      by (simp add: avx_loop32.simps [of cmp t col i] Let_def)
  qed
qed

lemma avx_tail_correct:
  assumes "\<And>c. q c \<longleftrightarrow> p c val" and "8 * b \<le> i" and "i \<le> length col" and "length col < 8 * b + 8"
    and "length bs = (length col + 7) div 8"
    and "\<And>j. j < 8 * length bs \<Longrightarrow> byte_test bs j \<longleftrightarrow> j < i \<and> p (col ! j) val"
  shows "length (avx_tail q col i b bs) = length bs \<and>
    (\<forall>j<8 * length bs. byte_test (avx_tail q col i b bs) j \<longleftrightarrow> j < length col \<and> p (col ! j) val)"
  using assms(2-)
proof (induction "length col - i" arbitrary: i bs rule: less_induct)
  case less
  show ?case
  proof (cases "i < length col")
    case False
    then have "avx_tail q col i b bs = bs" by (simp add: avx_tail.simps [of q col i])
    with less.prems False show ?thesis by simp
  next
    case True
    let ?bs = "if q (col ! i) then bs[b := bs ! b OR push_bit (i mod 8) 1] else bs"
    have b: "b < length bs" using True less.prems by linarith
    have d: "i div 8 = b" using True less.prems by linarith
    have upd: "byte_test ?bs j \<longleftrightarrow> j < i + 1 \<and> p (col ! j) val" if j: "j < 8 * length ?bs" for j
    proof -
      have j': "j < 8 * length bs" using j by (simp split: if_splits)
      have "byte_test ?bs j \<longleftrightarrow> byte_test bs j \<or> (j = i \<and> q (col ! i))"
        using b j' d div_mod_8_eq [of j i] byte_test_iff [of bs j]
        by (cases "j div 8 = i div 8") (auto simp: byte_test_update bit_set_byte)
      then show ?thesis using less.prems(5) [OF j'] assms(1) by (cases "j = i") (simp_all add: less_Suc_eq)
    qed
    have len: "length ?bs = length bs" by simp
    have "avx_tail q col i b bs = avx_tail q col (i + 1) b ?bs" using True by (simp add: avx_tail.simps [of q col i])
    moreover have "length col - (i + 1) < length col - i" using True by simp
    ultimately show ?thesis using less.hyps [of "i + 1" ?bs] less.prems(1-4) True upd len by simp
  qed
qed

lemma avx_filter_pack:
  assumes "\<And>c. q c \<longleftrightarrow> p c val"
  shows "(case avx_loop32 cmp (replicate 8 val) col 0 0 (bits (bm_new (length col))) of (i, b, bs) \<Rightarrow>
      case avx_loop8 cmp (replicate 8 val) col i b bs of (i, b, bs) \<Rightarrow>
        (bm_new (length col))\<lparr>bits := avx_tail q col i b bs\<rparr>) = pack (map (\<lambda>c. p c val) col)"
proof -
  let ?t = "replicate 8 val" and ?bs = "bits (bm_new (length col))"
  obtain i1 b1 bs1 where 1: "avx_loop32 cmp ?t col 0 0 ?bs = (i1, b1, bs1)" by (metis prod.exhaust)
  obtain i b bs where 2: "avx_loop8 cmp ?t col i1 b1 bs1 = (i, b, bs)" by (metis prod.exhaust)
  have e: "avx_loop8 cmp ?t col 0 0 ?bs = (i, b, bs)" using avx_loop32_loop8 [of ?t col 0 0 ?bs] 1 2 by simp
  have z: "byte_test ?bs j \<longleftrightarrow> j < 0 \<and> p (col ! j) val" if "j < 8 * length ?bs" for j
    using that by (simp add: bm_new_eq byte_test_pack)
  note L = avx_loop8_correct [OF e _ _ _ z]
  have len: "length ?bs = (length col + 7) div 8" by (simp add: bm_new_def)
  have T: "length (avx_tail q col i b bs) = length bs \<and>
      (\<forall>j<8 * length bs. byte_test (avx_tail q col i b bs) j \<longleftrightarrow> j < length col \<and> p (col ! j) val)"
    using L len by (intro avx_tail_correct [OF assms]) simp_all
  have "\<lparr>bits = avx_tail q col i b bs, blen = length (map (\<lambda>c. p c val) col)\<rparr> = pack (map (\<lambda>c. p c val) col)"
    using T L len by (intro bitmap_eq_packI) (simp_all, metis nth_map)
  moreover have "blen (bm_new (length col)) = length (map (\<lambda>c. p c val) col)" by (simp add: bm_new_def)
  ultimately show ?thesis by (simp only: 1 2 prod.case bm_update_bits)
qed

lemma filter_u64_avx512_pack: "filter_u64_avx512_inner col val cmp = pack (map (\<lambda>c. p c val) col)"
proof -
  have "cmp (c # replicate 7 0) (replicate 8 val) AND 1 \<noteq> 0 \<longleftrightarrow> p c val" for c
    using cmp_bit [of "c # replicate 7 0" "replicate 8 val" 0]
    by (simp add: and_one_eq odd_iff_mod_2_eq_one bit_0)
  from avx_filter_pack [OF this, of col] show ?thesis by (simp add: filter_u64_avx512_inner_def Let_def)
qed

end

interpretation lane: lane_compare "lane_mask p" p for p
  by unfold_locales (simp add: lane_mask_def bit_horner_sum_bit_word_iff)

interpretation lane_ne: lane_compare "\<lambda>v t. NOT (lane_mask (=) v t)" "(\<noteq>)"
  by unfold_locales (simp add: bit_not_iff lane.cmp_bit)

lemma filter_f64_avx512_pack:
  "filter_f64_avx512_inner PRED col val = pack (map (\<lambda>c. f64_cmp PRED c val) col)"
proof -
  have "(case PRED of CMP_EQ_OQ \<Rightarrow> f64_eq c val | CMP_LT_OQ \<Rightarrow> f64_lt c val | CMP_GT_OQ \<Rightarrow> f64_lt val c
      | CMP_LE_OQ \<Rightarrow> f64_le c val | CMP_GE_OQ \<Rightarrow> f64_le val c) = f64_cmp PRED c val" for c
    by (cases PRED) simp_all
  from lane.avx_filter_pack [where p = "f64_cmp PRED" and val = val, OF this, of col]
  show ?thesis by (simp add: filter_f64_avx512_inner_def Let_def)
qed

lemmas filter_defs = filter_eq_u64_def filter_ne_u64_def filter_lt_u64_def filter_gt_u64_def filter_le_u64_def
  filter_ge_u64_def filter_lt_i64_def filter_le_i64_def filter_gt_i64_def filter_ge_i64_def
  filter_eq_f64_def filter_lt_f64_def filter_gt_f64_def filter_le_f64_def filter_ge_f64_def

lemmas filter_pack = filter_scalar_pack lane.filter_u64_avx512_pack lane_ne.filter_u64_avx512_pack
  filter_f64_avx512_pack

section \<open>Mask folding\<close>

lemma byte_test_window:
  assumes "8 dvd i" and "i div 8 + m \<le> length bs" and "j < 8 * m"
  shows "byte_test (window bs (i div 8) m) j \<longleftrightarrow> byte_test bs (i + j)"
proof -
  have "j div 8 < m" using assms(3) by (intro less_mult_imp_div_less) (simp add: mult.commute)
  moreover from assms(1) obtain q where "i = 8 * q" by (auto simp: dvd_def)
  ultimately show ?thesis using assms(2) by (simp add: byte_test_iff nth_window)
qed

lemma those_bool_bytes: "those (map byte_bool (map bool_byte rs)) = Some rs"
proof -
  have "byte_bool \<circ> bool_byte = Some" by (simp add: fun_eq_iff byte_bool_def bool_byte_def)
  then show ?thesis by simp
qed

lemma mask_loop_correct:
  assumes "i + n \<le> length rs" and "length rs \<le> 8 * length bs"
  shows "mask_loop p bs i n rs =
    Some (map (\<lambda>j. if i \<le> j \<and> j < i + n then p (rs ! j) (byte_test bs j) else rs ! j) [0..<length rs])"
  using assms
proof (induction n arbitrary: i rs)
  case 0
  then show ?case by (auto intro!: nth_equalityI)
next
  case (Suc n)
  then have "i div 8 < length bs" by linarith
  with Suc show ?case by (auto simp: nth_list_update intro!: nth_equalityI)
qed

text \<open>What the vector loops need of their byte operation: on a bool byte and an expanded mask bit it
  is the boolean operation, and gives a bool byte again.\<close>

locale byte_fold =
  fixes f :: "u8 \<Rightarrow> u8 \<Rightarrow> u8" and p :: "bool \<Rightarrow> bool \<Rightarrow> bool"
  assumes fold_byte: "f (bool_byte a) (if b then 0xFF else 0) = bool_byte (p a b)"
begin

lemma mask_block:
  assumes "8 dvd i" and "8 dvd k" and "i + k \<le> length rs" and "i div 8 + k div 8 \<le> length bs"
  shows "those (map byte_bool (map2 f (map bool_byte (window rs i k)) (maskz_ff (window bs (i div 8) (k div 8)) k))) =
    Some (map (\<lambda>j. p (rs ! (i + j)) (byte_test bs (i + j))) [0..<k])"
proof -
  have "map2 f (map bool_byte (window rs i k)) (maskz_ff (window bs (i div 8) (k div 8)) k) =
      map bool_byte (map (\<lambda>j. p (rs ! (i + j)) (byte_test bs (i + j))) [0..<k])"
    using assms by (intro nth_equalityI)
      (simp_all add: maskz_ff_def fold_byte nth_window byte_test_window)
  then show ?thesis by (simp only: those_bool_bytes)
qed

lemma mask_blocks_correct:
  assumes "0 < k" and "8 dvd k" and "8 dvd i" and "i \<le> length rs" and "length rs \<le> 8 * length bs"
  shows "\<exists>i' rs'. mask_blocks k f bs i rs = Some (i', rs') \<and> i \<le> i' \<and> i' \<le> length rs \<and> 8 dvd i' \<and>
    rs' = map (\<lambda>j. if i \<le> j \<and> j < i' then p (rs ! j) (byte_test bs j) else rs ! j) [0..<length rs]"
  using assms
proof (induction "length rs - i" arbitrary: i rs rule: less_induct)
  case less
  show ?case
  proof (cases "i + k \<le> length rs")
    case False
    moreover have "rs = map (\<lambda>j. if i \<le> j \<and> j < i then p (rs ! j) (byte_test bs j) else rs ! j) [0..<length rs]"
      by (auto intro!: nth_equalityI)
    ultimately show ?thesis using less.prems(3,4)
      by (intro exI [of _ i] exI [of _ rs]) (simp add: mask_blocks.simps [of k f bs i rs])
  next
    case True
    let ?r = "map (\<lambda>j. p (rs ! (i + j)) (byte_test bs (i + j))) [0..<k]"
    define qs where "qs = take i rs @ take k ?r @ drop (i + k) rs"
    have b: "i div 8 + k div 8 \<le> length bs" using True less.prems by (auto simp: dvd_def)
    have step: "mask_blocks k f bs i rs = mask_blocks k f bs (i + k) qs"
      using True b mask_block [OF less.prems(3,2) True b] less.prems(1)
      by (simp add: mask_blocks.simps [of k f bs i rs] qs_def)
    have len: "length qs = length rs" using True by (simp add: qs_def)
    have nth: "qs ! j = (if i \<le> j \<and> j < i + k then p (rs ! j) (byte_test bs j) else rs ! j)"
      if "j < length rs" for j
      using that True by (auto simp: nth_append qs_def)
    have "length qs - (i + k) < length rs - i" using len True less.prems(1) by linarith
    from less.hyps [OF this] less.prems True len
    obtain i' rs' where IH: "mask_blocks k f bs (i + k) qs = Some (i', rs')" "i + k \<le> i'" "i' \<le> length rs" "8 dvd i'"
      "rs' = map (\<lambda>j. if i + k \<le> j \<and> j < i' then p (qs ! j) (byte_test bs j) else qs ! j) [0..<length rs]"
      by auto
    have "rs' = map (\<lambda>j. if i \<le> j \<and> j < i' then p (rs ! j) (byte_test bs j) else rs ! j) [0..<length rs]"
      unfolding IH(5) using IH(2) by (intro map_cong refl) (simp add: nth)
    with IH step show ?thesis by auto
  qed
qed

lemma mask_fold_correct:
  assumes "length rs \<le> 8 * length bs"
  shows "(case mask_blocks 64 f bs 0 rs of None \<Rightarrow> None | Some (i, rs) \<Rightarrow>
      (case mask_blocks 8 f bs i rs of None \<Rightarrow> None | Some (i, rs) \<Rightarrow> mask_loop p bs i (length rs - i) rs)) =
    Some (map (\<lambda>j. p (rs ! j) (byte_test bs j)) [0..<length rs])"
proof -
  from mask_blocks_correct [of 64 0 rs bs] assms obtain i1 rs1 where
    1: "mask_blocks 64 f bs 0 rs = Some (i1, rs1)" "i1 \<le> length rs" "8 dvd i1"
      "rs1 = map (\<lambda>j. if j < i1 then p (rs ! j) (byte_test bs j) else rs ! j) [0..<length rs]"
    by auto
  from mask_blocks_correct [of 8 i1 rs1 bs] assms 1 obtain i2 rs2 where
    2: "mask_blocks 8 f bs i1 rs1 = Some (i2, rs2)" "i1 \<le> i2" "i2 \<le> length rs"
      "rs2 = map (\<lambda>j. if i1 \<le> j \<and> j < i2 then p (rs1 ! j) (byte_test bs j) else rs1 ! j) [0..<length rs1]"
    by auto
  have len: "length rs2 = length rs" by (simp add: 1(4) 2(4))
  have "mask_loop p bs i2 (length rs2 - i2) rs2 = Some (map (\<lambda>j. p (rs ! j) (byte_test bs j)) [0..<length rs])"
    using mask_loop_correct [of i2 "length rs2 - i2" rs2 bs p] assms len 2(2,3)
    by (auto simp: 1(4) 2(4))
  with 1 2 show ?thesis by simp
qed

end

interpretation and_fold: byte_fold and_byte "(\<and>)"
  by unfold_locales (auto simp: and_byte_def bool_byte_def)

interpretation or_fold: byte_fold or_min_byte "(\<or>)"
  by unfold_locales (auto simp: or_min_byte_def bool_byte_def min_def word_le_nat_alt)

lemma map_rows: "bm_wf bm \<Longrightarrow> length rs = blen bm \<Longrightarrow>
    map (\<lambda>j. p (rs ! j) (byte_test (bits bm) j)) [0..<length rs] = map2 p rs (rows bm)"
  by (rule nth_equalityI) (simp_all add: nth_rows)

lemma into_bool_rows:
  assumes "bm_wf bm" and "length rs = blen bm"
  shows "and_into_bool avx bm rs = Some (map2 (\<and>) rs (rows bm))"
    and "or_into_bool avx bm rs = Some (map2 (\<or>) rs (rows bm))"
proof -
  have le: "length rs \<le> 8 * length (bits bm)" using assms unfolding bm_wf_def by linarith
  have s: "mask_loop p (bits bm) 0 (length rs) rs = Some (map2 p rs (rows bm))" for p
    using mask_loop_correct [of 0 "length rs" rs "bits bm" p] le
    unfolding map_rows [OF assms, of p, symmetric] by (auto intro!: map_cong)
  show "and_into_bool avx bm rs = Some (map2 (\<and>) rs (rows bm))"
    using and_fold.mask_fold_correct [OF le] map_rows [OF assms, of "(\<and>)"] s
    by (simp add: and_into_bool_def and_into_bool_avx512_def)
  show "or_into_bool avx bm rs = Some (map2 (\<or>) rs (rows bm))"
    using or_fold.mask_fold_correct [OF le] map_rows [OF assms, of "(\<or>)"] s
    by (simp add: or_into_bool_def or_into_bool_avx512_def)
qed

lemma map_index_map2: "length xs = length ys \<Longrightarrow> map (\<lambda>i. f (xs ! i) (ys ! i)) [0..<length xs] = map2 f xs ys"
  by (rule nth_equalityI) simp_all

lemma inplace_eq:
  assumes "bm_wf a" and "bm_wf b" and "blen a = blen b"
  shows "and_inplace avx a b = bm_and a b" and "or_inplace avx a b = bm_or a b"
proof -
  have len: "length (bits a) = length (bits b)" "length (bits a) = (blen a + 7) div 8"
    using assms by (simp_all add: bm_wf_def)
  show "and_inplace avx a b = bm_and a b"
    using assms len map_index_map2 [OF len(1), of "(AND)"]
    by (simp add: and_inplace_def bm_and_def bm_update_bits patch_all and_inplace_avx512_map2 bm_new_def Let_def)
  show "or_inplace avx a b = bm_or a b"
    using assms len map_index_map2 [OF len(1), of "(OR)"]
    by (simp add: or_inplace_def bm_or_def bm_update_bits patch_all or_inplace_avx512_map2 bm_new_def Let_def)
qed

section \<open>Equality of doubles\<close>

lemma f64_key_inj:
  assumes "f64_key a = f64_key b" and "take_bit 63 b \<noteq> 0"
  shows "a = b"
proof -
  have split: "uint w = uint (take_bit 63 w) + (if bit w 63 then 2 ^ 63 else 0)" for w :: u64
  proof -
    have "take_bit 64 (uint w) = take_bit 63 (uint w) + (if bit (uint w) 63 then 2 ^ 63 else 0)"
      using take_bit_Suc_from_most [of 63 "uint w"] by (simp add: of_bool_def)
    moreover have "take_bit 64 (uint w) = uint w"
      using unsigned_less [of w, where 'a = int] by (intro take_bit_int_eq_self) simp_all
    ultimately show ?thesis by (simp add: unsigned_take_bit_eq bit_uint_iff)
  qed
  have "uint (take_bit 63 b) \<noteq> 0" using assms(2) by (metis uint_0_iff)
  then have pos: "uint (take_bit 63 b) > 0" using uint_ge_0 [of "take_bit 63 b"] by linarith
  have "uint (take_bit 63 a) \<ge> 0" by simp
  have "uint a = uint b"
    using assms(1) split [of a] split [of b] pos \<open>uint (take_bit 63 a) \<ge> 0\<close>
    unfolding f64_key_def by (cases "bit a 63"; cases "bit b 63") auto
  then show ?thesis by (rule word_uint_eqI)
qed

lemma f64_eq_bits:
  assumes "\<not> f64_is_nan b" and "take_bit 63 b \<noteq> 0"
  shows "f64_eq a b \<longleftrightarrow> a = b"
  using assms f64_key_inj [of a b] by (auto simp: f64_eq_def)

text \<open>On the zeros and on NaN the two paths of \<open>filter_eq_f64\<close> differ: the vector path compares
  values, the scalar path bit patterns.\<close>

lemma filter_eq_f64_paths_differ:
  "filter_eq_f64 True [0x8000000000000000] 0 = Some (pack [True])"
  "filter_eq_f64 False [0x8000000000000000] 0 = Some (pack [False])"
  "filter_eq_f64 True [0x7FF8000000000000] 0x7FF8000000000000 = Some (pack [False])"
  "filter_eq_f64 False [0x7FF8000000000000] 0x7FF8000000000000 = Some (pack [True])"
  by (simp_all add: filter_defs filter_pack f64_eq_def f64_is_nan_def f64_key_def)

text \<open>\<open>filter_eq_f64_exact\<close> is documented as \<open>col == val\<close> and computes its negation.\<close>

lemma filter_eq_f64_exact_negated:
  assumes "\<not> f64_is_nan val" and "take_bit 63 val \<noteq> 0"
  shows "filter_eq_f64_exact avx col val = Some (pack (map (\<lambda>c. c \<noteq> val) col))"
  using assms by (simp add: filter_eq_f64_exact_def filter_eq_f64_def filter_pack bm_not_pack f64_eq_bits comp_def)

text \<open>An \<open>or\<close> of bitmaps of different lengths loses the rows only the longer one has.\<close>

lemma bm_or_drops_tail: "bm_or (pack []) (pack [True]) = pack [False]"
  by (simp add: bm_or_def bm_new_eq patch_def pack_def bm_update_bits Let_def)

section \<open>Properties\<close>

text \<open>C38: bitmaps refine lists of rows. On well-formed bitmaps of one length, \<open>and\<close>, \<open>or\<close> and \<open>not\<close>
  are the row-wise operations, keep well-formedness, and \<open>count_ones\<close> counts the rows that are set,
  so that the count of the complement is what is left of the length.\<close>

theorem bitmap_refines_rows:
  assumes "bm_wf a" and "bm_wf b" and "blen a = blen b"
  shows "bm_wf (bm_and a b) \<and> rows (bm_and a b) = map2 (\<and>) (rows a) (rows b)
    \<and> bm_wf (bm_or a b) \<and> rows (bm_or a b) = map2 (\<or>) (rows a) (rows b)
    \<and> bm_wf (bm_not a) \<and> rows (bm_not a) = map Not (rows a)
    \<and> bm_count_ones a = length (filter (\<lambda>r. r) (rows a))
    \<and> bm_count_ones (bm_not a) = blen a - bm_count_ones a"
proof -
  have c: "length (filter (\<lambda>r. r) (map Not rs)) = length rs - length (filter (\<lambda>r. r) rs)" for rs :: "bool list"
    using sum_length_filter_compl [of "\<lambda>r. r" rs] by (simp add: filter_map comp_def)
  obtain as bs where "a = pack as" "b = pack bs" using assms(1,2) pack_rows by metis
  with assms(3) show ?thesis
    using c [of as] by (simp add: bm_and_pack bm_or_pack bm_not_pack bm_count_ones_pack)
qed

theorem bitmap_refines_rows_witness:
  "bm_count_ones (bm_not (pack [True, False, True])) = 1"
proof -
  have "bm_count_ones (bm_not (pack [True, False, True])) =
      blen (pack [True, False, True]) - bm_count_ones (pack [True, False, True])"
    and "bm_count_ones (pack [True, False, True]) = length (filter (\<lambda>r. r) (rows (pack [True, False, True])))"
    using bitmap_refines_rows [OF pack_wf pack_wf, of "[True, False, True]" "[True, False, True]"] by blast+
  then show ?thesis by simp
qed

text \<open>Single bits and conversions. \<open>set\<close>, \<open>clear\<close> and \<open>get\<close> act on their row alone and never
  panic on a row of the bitmap; packing a bool slice and expanding it again is the identity in both
  directions; \<open>all_ones\<close> has exactly its rows set.\<close>

theorem bitmap_bits_roundtrip:
  assumes "bm_wf bm" and "i < blen bm"
  shows "map_option rows (bm_set bm i) = Some ((rows bm)[i := True])
    \<and> map_option rows (bm_clear bm i) = Some ((rows bm)[i := False])
    \<and> bm_get bm i = Some (rows bm ! i)
    \<and> to_bool_vec bm = Some (rows bm) \<and> from_bool_slice (rows bm) = Some bm
    \<and> to_bool_slice bm (replicate (blen bm) False) = Some (rows bm)
    \<and> rows (all_ones (blen bm)) = replicate (blen bm) True"
proof -
  obtain rs where "bm = pack rs" using assms(1) pack_rows by metis
  with assms show ?thesis
    by (simp add: bm_set_pack bm_clear_pack bm_get_pack from_bool_slice_pack to_bool_vec_rows
        all_ones_pack to_bool_slice_def to_bool_loop_pack)
qed

theorem bitmap_bits_roundtrip_witness:
  "bm_get (pack [False, True]) 1 = Some True"
  using bitmap_bits_roundtrip [OF pack_wf, of 1 "[False, True]"] by simp

text \<open>C21: the integer filters. Each comparison filter returns, without a panic, the bitmap with bit
  \<open>i\<close> set exactly when row \<open>i\<close> satisfies the comparison, on columns of every length, and whether it
  runs the 32-row and 8-row vector loops with their tail or the scalar loop.\<close>

theorem filter_int_correct:
  "filter_eq_u64 avx col val = Some (pack (map (\<lambda>c. c = val) col))
   \<and> filter_ne_u64 avx col val = Some (pack (map (\<lambda>c. c \<noteq> val) col))
   \<and> filter_lt_u64 avx col val = Some (pack (map (\<lambda>c. c < val) col))
   \<and> filter_gt_u64 avx col val = Some (pack (map (\<lambda>c. c > val) col))
   \<and> filter_le_u64 avx col val = Some (pack (map (\<lambda>c. c \<le> val) col))
   \<and> filter_ge_u64 avx col val = Some (pack (map (\<lambda>c. c \<ge> val) col))
   \<and> filter_lt_i64 avx col val = Some (pack (map (\<lambda>c. sint c < sint val) col))
   \<and> filter_gt_i64 avx col val = Some (pack (map (\<lambda>c. sint c > sint val) col))
   \<and> filter_le_i64 avx col val = Some (pack (map (\<lambda>c. sint c \<le> sint val) col))
   \<and> filter_ge_i64 avx col val = Some (pack (map (\<lambda>c. sint c \<ge> sint val) col))"
  unfolding filter_defs filter_pack word_sless_alt word_sle_eq by simp

text \<open>The double filters: both paths of the ordered comparisons select the rows for which the IEEE
  comparison holds, and the two paths of equality agree for every comparison value that is neither
  a NaN nor a zero.\<close>

theorem filter_f64_correct:
  assumes "\<not> f64_is_nan val" and "take_bit 63 val \<noteq> 0"
  shows "filter_lt_f64 avx col val = Some (pack (map (\<lambda>c. f64_lt c val) col))
    \<and> filter_gt_f64 avx col val = Some (pack (map (\<lambda>c. f64_lt val c) col))
    \<and> filter_le_f64 avx col val = Some (pack (map (\<lambda>c. f64_le c val) col))
    \<and> filter_ge_f64 avx col val = Some (pack (map (\<lambda>c. f64_le val c) col))
    \<and> filter_eq_f64 avx col val = Some (pack (map (\<lambda>c. f64_eq c val) col))"
  using assms by (simp add: filter_defs filter_pack f64_eq_bits)

theorem filter_f64_correct_witness:
  "filter_eq_f64 True [0x3FF0000000000000] 0x3FF0000000000000 = Some (pack [f64_eq 0x3FF0000000000000 0x3FF0000000000000])"
proof -
  have "\<not> f64_is_nan 0x3FF0000000000000" "take_bit 63 (0x3FF0000000000000 :: u64) \<noteq> 0"
    by (simp_all add: f64_is_nan_def)
  from filter_f64_correct [OF this, of True "[0x3FF0000000000000]"] show ?thesis by simp
qed

text \<open>The vector combinators: \<open>and_inplace\<close> and \<open>or_inplace\<close> agree with \<open>and\<close> and \<open>or\<close>, and folding
  a bitmap into a bool mask is the row-wise operation, on both paths; the vector stores write only
  the bytes 0 and 1 into the bool slice and every unchecked read of the bitmap is in range.\<close>

theorem bitmap_combinators_correct:
  assumes "bm_wf a" and "bm_wf b" and "blen a = blen b" and "length msk = blen a"
  shows "and_inplace avx a b = bm_and a b \<and> or_inplace avx a b = bm_or a b
    \<and> and_into_bool avx a msk = Some (map2 (\<and>) msk (rows a))
    \<and> or_into_bool avx a msk = Some (map2 (\<or>) msk (rows a))"
  using inplace_eq [OF assms(1-3)] into_bool_rows [OF assms(1,4)] by blast

theorem bitmap_combinators_correct_witness:
  "and_into_bool True (pack [True, False]) [True, True] = Some [True, False]"
  using bitmap_combinators_correct [OF pack_wf pack_wf, of "[True, False]" "[True, False]" "[True, True]" True] by simp

end
