(* ===== verification/Leapfrog.thy ===== *)
theory Leapfrog
  imports TV_Prelude "HOL-Library.Monad_Syntax"
begin

text \<open>
  The leapfrog join of src/src/kernel/leapfrog.rs: the slice iterator, the join loop over any
  \<open>SortedIterator\<close>, and the two-way kernel. The methods of the trait object are arguments of the
  join; a method with \<open>&mut self\<close> returns its result with the new iterator. The loop is a partial
  function, since an iterator that never advances keeps it running; for iterators with the contract
  of the trait it is shown to return, with exactly the keys common to all of them in ascending order.
\<close>

section \<open>The slice iterator\<close>

record slice_iter =
  keys :: "u64 list"
  pos :: nat

definition slice_new :: "u64 list \<Rightarrow> slice_iter" where
  "slice_new ks = \<lparr>keys = ks, pos = 0\<rparr>"

definition at_start :: "u64 list \<Rightarrow> slice_iter" where
  "at_start ks = \<lparr>keys = ks, pos = 0\<rparr>"

definition slice_current :: "slice_iter \<Rightarrow> u64 option" where
  "slice_current it = (if pos it < length (keys it) then Some (keys it ! pos it) else None)"

text \<open>\<open>partition_point\<close> of the standard library: the binary search of \<open>slice::partition_point\<close> for
  the number of leading elements that satisfy the predicate.\<close>

function partition_loop :: "('a \<Rightarrow> bool) \<Rightarrow> 'a list \<Rightarrow> nat \<Rightarrow> nat \<Rightarrow> nat" where
  "partition_loop p xs lo hi =
     (if lo < hi then
        let mid = lo + (hi - lo) div 2
        in if p (xs ! mid) then partition_loop p xs (mid + 1) hi else partition_loop p xs lo mid
      else lo)"
  by pat_completeness auto
termination
  by (relation "measure (\<lambda>(p, xs, lo, hi). hi - lo)") auto

declare partition_loop.simps [simp del]

definition partition_point :: "('a \<Rightarrow> bool) \<Rightarrow> 'a list \<Rightarrow> nat" where
  "partition_point p xs = partition_loop p xs 0 (length xs)"

definition slice_seek :: "slice_iter \<Rightarrow> u64 \<Rightarrow> u64 option \<times> slice_iter" where
  "slice_seek it key =
     (if length (keys it) \<le> pos it then (None, it)
      else if keys it ! pos it \<ge> key then (Some (keys it ! pos it), it)
      else let remaining = drop (pos it) (keys it);
               off = partition_point (\<lambda>k. k < key) remaining;
               it = it\<lparr>pos := pos it + off\<rparr>
           in (slice_current it, it))"

definition slice_next :: "slice_iter \<Rightarrow> u64 option \<times> slice_iter" where
  "slice_next it =
     (let it = (if pos it < length (keys it) then it\<lparr>pos := pos it + 1\<rparr> else it)
      in (slice_current it, it))"

section \<open>The join\<close>

text \<open>The loop of a single iterator.\<close>

partial_function (option) lf_drain ::
  "('i \<Rightarrow> u64 option) \<Rightarrow> ('i \<Rightarrow> u64 option \<times> 'i) \<Rightarrow> 'i \<Rightarrow> u64 list \<Rightarrow> u64 list option" where
  "lf_drain current_key nxt it out =
     (case current_key it of
        None \<Rightarrow> Some out
      | Some k \<Rightarrow> lf_drain current_key nxt (snd (nxt it)) (out @ [k]))"

text \<open>The initialisation: \<open>None\<close> when an iterator is empty after its \<open>seek(0)\<close>.\<close>

primrec lf_init ::
  "('i \<Rightarrow> u64 option) \<Rightarrow> ('i \<Rightarrow> u64 \<Rightarrow> u64 option \<times> 'i) \<Rightarrow> 'i list \<Rightarrow> 'i list option" where
  "lf_init current_key seek [] = Some []"
| "lf_init current_key seek (it # its) =
     (let it = (if current_key it = None then snd (seek it 0) else it)
      in if current_key it = None then None
         else map_option (\<lambda>its. it # its) (lf_init current_key seek its))"

text \<open>Step 1: the maximum of the current keys; \<open>None\<close> when an iterator is exhausted.\<close>

primrec lf_max :: "('i \<Rightarrow> u64 option) \<Rightarrow> 'i list \<Rightarrow> u64 \<Rightarrow> u64 option" where
  "lf_max current_key [] max_key = Some max_key"
| "lf_max current_key (it # its) max_key =
     (case current_key it of
        None \<Rightarrow> None
      | Some k \<Rightarrow> lf_max current_key its (if k > max_key then k else max_key))"

text \<open>Step 2: seek every iterator; the result is the iterators, the final \<open>max_key\<close> and \<open>all_match\<close>,
  or \<open>None\<close> when an iterator is exhausted.\<close>

definition lf_seek_one ::
  "('i \<Rightarrow> u64 \<Rightarrow> u64 option \<times> 'i) \<Rightarrow> 'i \<Rightarrow> u64 \<Rightarrow> bool \<Rightarrow> ('i \<times> u64 \<times> bool) option" where
  "lf_seek_one seek it max_key all_match =
     (case seek it max_key of
        (None, it) \<Rightarrow> None
      | (Some k, it) \<Rightarrow>
          if k = max_key then Some (it, max_key, all_match)
          else Some (it, if k > max_key then k else max_key, False))"

definition lf_align ::
  "('i \<Rightarrow> u64 option) \<Rightarrow> ('i \<Rightarrow> u64 \<Rightarrow> u64 option \<times> 'i) \<Rightarrow> 'i \<Rightarrow> u64 \<Rightarrow> bool \<Rightarrow> ('i \<times> u64 \<times> bool) option" where
  "lf_align current_key seek it max_key all_match =
     (case current_key it of
        Some k \<Rightarrow>
          if k = max_key then Some (it, max_key, all_match)
          else if k > max_key then Some (it, max_key, False)
          else lf_seek_one seek it max_key all_match
      | None \<Rightarrow> lf_seek_one seek it max_key all_match)"

primrec lf_seek ::
  "('i \<Rightarrow> u64 option) \<Rightarrow> ('i \<Rightarrow> u64 \<Rightarrow> u64 option \<times> 'i) \<Rightarrow> 'i list \<Rightarrow> u64 \<Rightarrow> bool \<Rightarrow> ('i list \<times> u64 \<times> bool) option" where
  "lf_seek current_key seek [] max_key all_match = Some ([], max_key, all_match)"
| "lf_seek current_key seek (it # its) max_key all_match =
     (case lf_align current_key seek it max_key all_match of
        None \<Rightarrow> None
      | Some (it, max_key, all_match) \<Rightarrow>
          map_option (\<lambda>(its, r). (it # its, r)) (lf_seek current_key seek its max_key all_match))"

partial_function (option) lf_loop ::
  "('i \<Rightarrow> u64 option) \<Rightarrow> ('i \<Rightarrow> u64 \<Rightarrow> u64 option \<times> 'i) \<Rightarrow> ('i \<Rightarrow> u64 option \<times> 'i)
     \<Rightarrow> 'i list \<Rightarrow> u64 list \<Rightarrow> u64 list option" where
  "lf_loop current_key seek nxt its out =
     (case lf_max current_key its 0 of
        None \<Rightarrow> Some out
      | Some max_key \<Rightarrow>
          (case lf_seek current_key seek its max_key True of
             None \<Rightarrow> Some out
           | Some (its, max_key, all_match) \<Rightarrow>
               if all_match then
                 (case nxt (hd its) of
                    (None, it) \<Rightarrow> Some (out @ [max_key])
                  | (Some _, it) \<Rightarrow> lf_loop current_key seek nxt (it # tl its) (out @ [max_key]))
               else lf_loop current_key seek nxt its out))"

definition lf_run ::
  "('i \<Rightarrow> u64 option) \<Rightarrow> ('i \<Rightarrow> u64 \<Rightarrow> u64 option \<times> 'i) \<Rightarrow> ('i \<Rightarrow> u64 option \<times> 'i) \<Rightarrow> 'i list \<Rightarrow> u64 list option" where
  "lf_run current_key seek nxt its =
     (case its of
        [] \<Rightarrow> Some []
      | [it] \<Rightarrow>
          lf_drain current_key nxt (if current_key it = None then snd (seek it 0) else it) []
      | _ \<Rightarrow>
          (case lf_init current_key seek its of
             None \<Rightarrow> Some []
           | Some its \<Rightarrow> lf_loop current_key seek nxt its []))"

text \<open>The two-way kernel: \<open>cells\<close> is the memory at the input pointer, \<open>n1\<close> and \<open>n2\<close> the lengths of
  the two slices; the result is \<open>count\<close>.\<close>

definition leapfrog_execute :: "u64 list \<Rightarrow> nat \<Rightarrow> nat \<Rightarrow> u64 option" where
  "leapfrog_execute cells n1 n2 =
     (if n1 + n2 = 0 then Some 0
      else map_option (\<lambda>matches. of_nat (length matches))
        (lf_run slice_current slice_seek slice_next
          [at_start (take n1 cells), at_start (take n2 (drop n1 cells))]))"

section \<open>The iterator contract\<close>

text \<open>
  The trait's contract: \<open>rest it\<close> are the keys still to come, strictly increasing; \<open>current_key\<close> is
  the first of them, \<open>seek k\<close> drops those below \<open>k\<close>, \<open>next\<close> drops the first.
\<close>

locale sorted_iterator =
  fixes current_key :: "'i \<Rightarrow> u64 option" and seek :: "'i \<Rightarrow> u64 \<Rightarrow> u64 option \<times> 'i"
    and nxt :: "'i \<Rightarrow> u64 option \<times> 'i" and rest :: "'i \<Rightarrow> u64 list" and ok :: "'i \<Rightarrow> bool"
  assumes sorted_rest: "ok it \<Longrightarrow> sorted_wrt (<) (rest it)"
    and current_rest: "ok it \<Longrightarrow> current_key it = (case rest it of [] \<Rightarrow> None | k # _ \<Rightarrow> Some k)"
    and seek_ok: "ok it \<Longrightarrow> ok (snd (seek it k))"
    and seek_rest: "ok it \<Longrightarrow> rest (snd (seek it k)) = dropWhile (\<lambda>x. x < k) (rest it)"
    and seek_key: "ok it \<Longrightarrow> fst (seek it k) = current_key (snd (seek it k))"
    and next_ok: "ok it \<Longrightarrow> ok (snd (nxt it))"
    and next_rest: "ok it \<Longrightarrow> rest (snd (nxt it)) = tl (rest it)"
    and next_key: "ok it \<Longrightarrow> fst (nxt it) = current_key (snd (nxt it))"
begin

text \<open>The keys common to all iterators.\<close>

definition common :: "'i list \<Rightarrow> u64 set" where
  "common its = {k. \<forall>it\<in>set its. k \<in> set (rest it)}"

definition keys_left :: "'i list \<Rightarrow> nat" where
  "keys_left its = (\<Sum>it\<leftarrow>its. length (rest it))"

lemma drain_rest: "ok it \<Longrightarrow> lf_drain current_key nxt it out = Some (out @ rest it)"
proof (induction "length (rest it)" arbitrary: it out)
  case 0
  then show ?case by (simp add: lf_drain.simps [of _ _ it] current_rest)
next
  case (Suc n)
  then obtain k ks where r: "rest it = k # ks" by (cases "rest it") auto
  have "lf_drain current_key nxt (snd (nxt it)) (out @ [k]) = Some ((out @ [k]) @ rest (snd (nxt it)))"
    by (rule Suc.hyps(1)) (use Suc.hyps(2) r next_rest next_ok Suc.prems in auto)
  then show ?case
    using r Suc.prems by (simp add: lf_drain.simps [of _ _ it] current_rest next_rest)
qed

lemma init_id:
  assumes "\<forall>it\<in>set its. ok it"
  shows "lf_init current_key seek its = (if \<exists>it\<in>set its. rest it = [] then None else Some its)"
  using assms
proof (induction its)
  case (Cons it its)
  have "rest (snd (seek it 0)) = rest it" using Cons.prems seek_rest [of it 0] by simp
  then show ?case
    using Cons by (auto simp: current_rest seek_ok Let_def split: list.splits)
qed simp

lemma max_correct:
  assumes "\<forall>it\<in>set its. ok it"
  shows "case lf_max current_key its m of
      None \<Rightarrow> \<exists>it\<in>set its. rest it = []
    | Some m' \<Rightarrow> m \<le> m' \<and> (\<forall>it\<in>set its. rest it \<noteq> [] \<and> hd (rest it) \<le> m')
        \<and> (m' = m \<or> (\<exists>it\<in>set its. hd (rest it) = m'))"
  using assms
proof (induction its arbitrary: m)
  case (Cons it its)
  show ?case
  proof (cases "rest it")
    case Nil
    with Cons.prems show ?thesis by (simp add: current_rest)
  next
    case (Cons k ks)
    with Cons.IH [of "if k > m then k else m"] Cons.prems show ?thesis
      by (auto simp: current_rest split: option.splits if_splits)
  qed
qed simp

lemma align_correct:
  assumes "ok it" and "rest it \<noteq> []" and "hd (rest it) \<le> m" and "K \<subseteq> set (rest it)" and "\<And>c. c \<in> K \<Longrightarrow> m \<le> c"
  shows "case lf_align current_key seek it m am of
      None \<Rightarrow> K = {}
    | Some (it', m', am') \<Rightarrow> ok it' \<and> rest it' \<noteq> [] \<and> hd (rest it') \<le> m' \<and> K \<subseteq> set (rest it')
        \<and> set (rest it') \<subseteq> set (rest it) \<and> m \<le> m' \<and> (\<forall>c\<in>K. m' \<le> c) \<and> length (rest it') \<le> length (rest it)
        \<and> (am' \<longrightarrow> am \<and> m' = m \<and> hd (rest it') = m) \<and> (\<not> am' \<and> am \<longrightarrow> length (rest it') < length (rest it))"
proof -
  obtain k ks where r: "rest it = k # ks" using assms(2) by (cases "rest it") auto
  have cur: "current_key it = Some k" using assms(1) r by (simp add: current_rest)
  show ?thesis
  proof (cases "k = m")
    case True
    then show ?thesis using assms r cur by (simp add: lf_align_def)
  next
    case False
    with assms(3) r have lt: "k < m" by simp
    then have nlt: "\<not> m < k" by (simp add: not_less)
    obtain o' it' where sk: "seek it m = (o', it')" by fastforce
    let ?ks = "dropWhile (\<lambda>x. x < m) ks"
    have it': "ok it'" "rest it' = ?ks" using sk seek_ok [OF assms(1), of m] seek_rest [OF assms(1), of m] r lt by auto
    have o': "o' = (case ?ks of [] \<Rightarrow> None | k # _ \<Rightarrow> Some k)"
      using sk seek_key [OF assms(1), of m] current_rest [OF it'(1)] it'(2) by auto
    have K: "K \<subseteq> set ?ks"
    proof
      fix c assume "c \<in> K"
      then have "c \<in> set ks" and "m \<le> c" using assms(4,5) r lt by (auto simp: leD)
      then show "c \<in> set ?ks"
        using takeWhile_dropWhile_id [of "\<lambda>x. x < m" ks] set_takeWhileD [of c "\<lambda>x. x < m" ks]
        by (metis Un_iff leD set_append)
    qed
    have len: "length ?ks \<le> length ks" by (rule length_dropWhile_le)
    have sub: "set ?ks \<subseteq> set (rest it)" using set_dropWhileD [of _ "\<lambda>x. x < m" ks] r by auto
    show ?thesis
    proof (cases ?ks)
      case Nil
      with cur nlt False K o' sk show ?thesis by (simp add: lf_align_def lf_seek_one_def)
    next
      case (Cons j js)
      have j: "m \<le> j" using Cons hd_dropWhile [of "\<lambda>x. x < m" ks] by auto
      have sorted: "sorted_wrt (<) (j # js)" using sorted_rest [OF it'(1)] it'(2) Cons by simp
      have jK: "j \<le> c" if "c \<in> K" for c using that K sorted Cons by fastforce
      have al: "lf_align current_key seek it m am = (if j = m then Some (it', m, am) else Some (it', j, False))"
        using cur nlt False o' Cons sk j by (auto simp: lf_align_def lf_seek_one_def)
      show ?thesis using al it' Cons K sub len j jK r assms(5) by (cases "j = m") (auto simp del: dropWhile_eq_Cons_conv)
    qed
  qed
qed

lemma seek_correct:
  assumes "\<forall>it\<in>set its. ok it \<and> rest it \<noteq> [] \<and> hd (rest it) \<le> m \<and> K \<subseteq> set (rest it)" and "\<And>c. c \<in> K \<Longrightarrow> m \<le> c"
  shows "case lf_seek current_key seek its m am of
      None \<Rightarrow> K = {}
    | Some (its', m', am') \<Rightarrow> (\<forall>it\<in>set its'. ok it \<and> K \<subseteq> set (rest it)) \<and> length its' = length its
        \<and> list_all2 (\<lambda>it it'. set (rest it') \<subseteq> set (rest it)) its its' \<and> m \<le> m'
        \<and> keys_left its' \<le> keys_left its
        \<and> (am' \<longrightarrow> am \<and> m' = m \<and> (\<forall>it\<in>set its'. rest it \<noteq> [] \<and> hd (rest it) = m))
        \<and> (\<not> am' \<and> am \<longrightarrow> keys_left its' < keys_left its)"
  using assms
proof (induction its arbitrary: m am)
  case Nil
  then show ?case by (simp add: keys_left_def)
next
  case (Cons it its)
  note A = align_correct [of it m K am]
  show ?case
  proof (cases "lf_align current_key seek it m am")
    case None
    with A Cons.prems show ?thesis by simp
  next
    case (Some r)
    obtain it' m' am' where r: "r = (it', m', am')" using prod_cases3 by blast
    have B: "ok it'" "rest it' \<noteq> []" "K \<subseteq> set (rest it')" "set (rest it') \<subseteq> set (rest it)" "m \<le> m'"
      "\<And>c. c \<in> K \<Longrightarrow> m' \<le> c" "length (rest it') \<le> length (rest it)"
      "am' \<Longrightarrow> am \<and> m' = m \<and> hd (rest it') = m" "\<not> am' \<Longrightarrow> am \<Longrightarrow> length (rest it') < length (rest it)"
      using A Cons.prems Some r by auto
    have pre: "\<forall>it\<in>set its. ok it \<and> rest it \<noteq> [] \<and> hd (rest it) \<le> m' \<and> K \<subseteq> set (rest it)"
      using Cons.prems(1) B(5) by (auto intro: order_trans)
    note IH = Cons.IH [OF pre B(6), of am']
    show ?thesis
    proof (cases "lf_seek current_key seek its m' am'")
      case None
      with IH Some r show ?thesis by simp
    next
      case (Some s)
      obtain its' m'' am'' where s: "s = (its', m'', am'')" using prod_cases3 by blast
      have res: "lf_seek current_key seek (it # its) m am = Some (it' # its', m'', am'')"
        using Some s \<open>lf_align current_key seek it m am = Some r\<close> r by simp
      have IH': "(\<forall>it\<in>set its'. ok it \<and> K \<subseteq> set (rest it))" "length its' = length its"
        "list_all2 (\<lambda>it it'. set (rest it') \<subseteq> set (rest it)) its its'" "m' \<le> m''" "keys_left its' \<le> keys_left its"
        "am'' \<Longrightarrow> am' \<and> m'' = m' \<and> (\<forall>it\<in>set its'. rest it \<noteq> [] \<and> hd (rest it) = m')"
        "\<not> am'' \<Longrightarrow> am' \<Longrightarrow> keys_left its' < keys_left its"
        using IH Some s by auto
      have left: "keys_left (x # xs) = length (rest x) + keys_left xs" for x xs by (simp add: keys_left_def)
      have dec: "keys_left (it' # its') < keys_left (it # its)" if "\<not> am''" "am"
        using that B(7,9) IH'(5,7) unfolding left by (cases am') fastforce+
      show ?thesis
        unfolding res using B IH' dec by (auto simp: left intro: order_trans)
    qed
  qed
qed

lemma common_ge_hd: "ok it \<Longrightarrow> c \<in> set (rest it) \<Longrightarrow> hd (rest it) \<le> c"
  using sorted_rest [of it] by (cases "rest it") auto

text \<open>Emitting \<open>m\<close> and advancing the first iterator removes exactly \<open>m\<close> from the common keys.\<close>

lemma advance_common:
  assumes "\<forall>it\<in>set (it # its). ok it \<and> rest it \<noteq> [] \<and> hd (rest it) = m"
  shows "m \<in> common (it # its)" and "common (snd (nxt it) # its) = common (it # its) - {m}"
    and "c \<in> common (snd (nxt it) # its) \<Longrightarrow> m < c"
proof -
  obtain t where r: "rest it = m # t" using assms by (cases "rest it") auto
  then have t: "\<forall>c\<in>set t. m < c" using sorted_rest [of it] assms by auto
  have n: "rest (snd (nxt it)) = t" using next_rest [of it] assms r by simp
  show "m \<in> common (it # its)" using assms by (simp add: common_def) (metis hd_in_set)
  show "common (snd (nxt it) # its) = common (it # its) - {m}" using n r t by (auto simp: common_def)
  show "c \<in> common (snd (nxt it) # its) \<Longrightarrow> m < c" using n t by (auto simp: common_def)
qed

lemma loop_correct:
  assumes "its \<noteq> []" and "\<forall>it\<in>set its. ok it"
  shows "\<exists>res. lf_loop current_key seek nxt its out = Some (out @ res) \<and> sorted_wrt (<) res \<and> set res = common its"
  using assms
proof (induction "keys_left its" arbitrary: its out rule: less_induct)
  case less
  let ?K = "common its"
  have emp: ?case if "?K = {}" and "lf_loop current_key seek nxt its out = Some out"
    using that by (intro exI [of _ "[]"]) simp
  note M = max_correct [OF less.prems(2), of 0]
  show ?case
  proof (cases "lf_max current_key its 0")
    case None
    with M obtain it where "it \<in> set its" "rest it = []" by auto
    then have "?K = {}" by (force simp: common_def)
    with None emp show ?thesis by (simp add: lf_loop.simps [of _ _ _ its])
  next
    case (Some m)
    have hd_le: "rest it \<noteq> [] \<and> hd (rest it) \<le> m" if "it \<in> set its" for it using M Some that by auto
    have mK: "m \<le> c" if "c \<in> ?K" for c
      using M Some that common_ge_hd less.prems(2) by (auto simp: common_def)
    have K: "?K \<subseteq> set (rest it)" if "it \<in> set its" for it using that by (auto simp: common_def)
    note S = seek_correct [of its m ?K True]
    show ?thesis
    proof (cases "lf_seek current_key seek its m True")
      case None
      show ?thesis
        by (rule emp) (use S None hd_le mK K less.prems(2) Some in \<open>auto simp: lf_loop.simps [of _ _ _ its]\<close>)
    next
      case seek: (Some r)
      obtain its' m' am where r: "r = (its', m', am)" using prod_cases3 by blast
      have B: "\<forall>it\<in>set its'. ok it \<and> ?K \<subseteq> set (rest it)" "length its' = length its"
        "list_all2 (\<lambda>it it'. set (rest it') \<subseteq> set (rest it)) its its'" "keys_left its' \<le> keys_left its"
        "am \<Longrightarrow> m' = m \<and> (\<forall>it\<in>set its'. rest it \<noteq> [] \<and> hd (rest it) = m)"
        "\<not> am \<Longrightarrow> keys_left its' < keys_left its"
        using S seek r hd_le mK K less.prems(2) by auto
      have "common its' \<subseteq> ?K"
      proof
        fix c assume c: "c \<in> common its'"
        have "c \<in> set (rest (its ! i))" if "i < length its" for i
        proof -
          have "c \<in> set (rest (its' ! i))" using c that B(2) by (simp add: common_def)
          with list_all2_nthD [OF B(3) that] show ?thesis by blast
        qed
        then show "c \<in> ?K" by (auto simp: common_def in_set_conv_nth)
      qed
      then have C: "common its' = ?K" using B(1) by (auto simp: common_def)
      have ne: "its' \<noteq> []" using B(2) less.prems(1) by auto
      show ?thesis
      proof (cases am)
        case False
        with Some seek r have "lf_loop current_key seek nxt its out = lf_loop current_key seek nxt its' out"
          by (simp add: lf_loop.simps [of _ _ _ its])
        with less.hyps [OF B(6) [OF False] ne] B(1) C show ?thesis by auto
      next
        case True
        obtain it tl' where its': "its' = it # tl'" using ne by (cases its') auto
        have all: "\<forall>it\<in>set (it # tl'). ok it \<and> rest it \<noteq> [] \<and> hd (rest it) = m"
          using B(1) B(5) [OF True] its' by auto
        note A = advance_common [OF all]
        let ?it = "snd (nxt it)"
        have it: "ok ?it" "rest ?it = tl (rest it)" using next_ok next_rest all by simp_all
        show ?thesis
        proof (cases "fst (nxt it)")
          case None
          then have "lf_loop current_key seek nxt its out = Some (out @ [m])"
            using Some seek r True its' B(5) [OF True] by (cases "nxt it") (simp add: lf_loop.simps [of _ _ _ its])
          moreover have "rest ?it = []"
            using None next_key [of it] all it current_rest [OF it(1)] by (auto split: list.splits)
          then have "?K = {m}" using A(1,2) C its' by (auto simp: common_def)
          ultimately show ?thesis by (intro exI [of _ "[m]"]) simp
        next
          case (Some k)
          have "keys_left (?it # tl') < keys_left its"
          proof -
            have "length (rest ?it) < length (rest it)" using it all by (cases "rest it") auto
            then show ?thesis using B(4) its' by (simp add: keys_left_def)
          qed
          from less.hyps [OF this] it(1) all obtain res where
            res: "lf_loop current_key seek nxt (?it # tl') (out @ [m]) = Some ((out @ [m]) @ res)"
              "sorted_wrt (<) res" "set res = common (?it # tl')" by fastforce
          have "lf_loop current_key seek nxt its out = lf_loop current_key seek nxt (?it # tl') (out @ [m])"
            using Some \<open>lf_max current_key its 0 = Some m\<close> seek r True its' B(5) [OF True]
            by (cases "nxt it") (simp add: lf_loop.simps [of _ _ _ its])
          moreover have "insert m (set res) = ?K" using res(3) A(1,2) C its' by auto
          moreover have "sorted_wrt (<) (m # res)" using res(2,3) A(3) by simp
          ultimately show ?thesis using res(1) by (intro exI [of _ "m # res"]) simp
        qed
      qed
    qed
  qed
qed

lemma run_correct:
  assumes "its \<noteq> []" and "\<forall>it\<in>set its. ok it"
  shows "\<exists>res. lf_run current_key seek nxt its = Some res \<and> sorted_wrt (<) res \<and> set res = common its"
proof -
  consider it where "its = [it]" | it it' its' where "its = it # it' # its'"
    using assms(1) by (metis neq_Nil_conv)
  then show ?thesis
  proof cases
    case 1
    have "rest (if current_key it = None then snd (seek it 0) else it) = rest it"
      using assms 1 seek_rest [of it 0] by simp
    moreover have "ok (if current_key it = None then snd (seek it 0) else it)"
      using assms 1 seek_ok by simp
    ultimately have "lf_run current_key seek nxt its = Some (rest it)"
      using 1 drain_rest [of "if current_key it = None then snd (seek it 0) else it" "[]"]
      by (simp add: lf_run_def)
    then show ?thesis using 1 assms sorted_rest by (auto simp: common_def)
  next
    case 2
    then have run: "lf_run current_key seek nxt its =
        (case lf_init current_key seek its of None \<Rightarrow> Some [] | Some its \<Rightarrow> lf_loop current_key seek nxt its [])"
      by (simp add: lf_run_def)
    show ?thesis
    proof (cases "\<exists>it\<in>set its. rest it = []")
      case True
      then have "common its = {}" by (force simp: common_def)
      with True run init_id [OF assms(2)] show ?thesis by auto
    next
      case False
      with run init_id [OF assms(2)] loop_correct [OF assms, of "[]"] show ?thesis by auto
    qed
  qed
qed

end

section \<open>The slice iterator meets the contract\<close>

lemma partition_loop_correct:
  assumes "lo \<le> hi" and "hi \<le> length xs" and "\<forall>i<lo. p (xs ! i)" and "\<forall>i<length xs. hi \<le> i \<longrightarrow> \<not> p (xs ! i)"
    and mono: "\<And>i j. i < j \<Longrightarrow> j < length xs \<Longrightarrow> p (xs ! j) \<Longrightarrow> p (xs ! i)"
  shows "partition_loop p xs lo hi = length (takeWhile p xs)"
  using assms(1-4)
proof (induction "hi - lo" arbitrary: lo hi rule: less_induct)
  case less
  show ?case
  proof (cases "lo < hi")
    case False
    with less.prems have "takeWhile p xs = take lo xs"
      by (intro takeWhile_eq_take_P_nth) auto
    moreover have "partition_loop p xs lo hi = lo" using False by (simp add: partition_loop.simps [of p xs lo])
    ultimately show ?thesis using less.prems False by simp
  next
    case True
    let ?mid = "lo + (hi - lo) div 2"
    have mid: "lo \<le> ?mid" "?mid < hi" using True by auto
    show ?thesis
    proof (cases "p (xs ! ?mid)")
      case p: True
      have "p (xs ! i)" if "i < ?mid + 1" for i
        using that p mono [of i ?mid] mid less.prems(2) by (cases "i = ?mid") auto
      with less.hyps [of hi "?mid + 1"] less.prems mid p True show ?thesis
        by (simp add: partition_loop.simps [of p xs lo] Let_def)
    next
      case p: False
      have "\<not> p (xs ! i)" if "i < length xs" "?mid \<le> i" for i
        using that p mono [of ?mid i] by (cases "i = ?mid") auto
      with less.hyps [of ?mid lo] less.prems mid p True show ?thesis
        by (simp add: partition_loop.simps [of p xs lo] Let_def)
    qed
  qed
qed

lemma partition_point_sorted:
  fixes xs :: "u64 list"
  assumes "sorted_wrt (<) xs"
  shows "partition_point (\<lambda>k. k < key) xs = length (takeWhile (\<lambda>k. k < key) xs)"
  unfolding partition_point_def
proof (rule partition_loop_correct)
  fix i j assume "i < j" "j < length xs" "xs ! j < key"
  then show "xs ! i < key" using sorted_wrt_nth_less [OF assms, of i j] by simp
qed simp_all

definition slice_rest :: "slice_iter \<Rightarrow> u64 list" where
  "slice_rest it = drop (pos it) (keys it)"

lemma drop_takeWhile_length: "drop (length (takeWhile p xs)) xs = dropWhile p xs"
  by (metis append_eq_conv_conj takeWhile_dropWhile_id)

lemma slice_current_rest: "slice_current it = (case slice_rest it of [] \<Rightarrow> None | k # _ \<Rightarrow> Some k)"
  by (simp add: slice_current_def slice_rest_def drop_eq_Nil Cons_nth_drop_Suc [symmetric] split: list.splits)

lemma slice_seek_rest:
  assumes "sorted_wrt (<) (keys it)"
  shows "slice_rest (snd (slice_seek it k)) = dropWhile (\<lambda>x. x < k) (slice_rest it)"
    and "keys (snd (slice_seek it k)) = keys it"
    and "fst (slice_seek it k) = slice_current (snd (slice_seek it k))"
proof -
  let ?r = "slice_rest it"
  have "partition_point (\<lambda>x. x < k) ?r = length (takeWhile (\<lambda>x. x < k) ?r)"
    using assms by (intro partition_point_sorted) (simp add: slice_rest_def sorted_wrt_drop)
  then have d: "drop (pos it + partition_point (\<lambda>x. x < k) ?r) (keys it) = dropWhile (\<lambda>x. x < k) ?r"
    using drop_takeWhile_length [of "\<lambda>x. x < k" ?r] by (simp add: slice_rest_def add.commute)
  have hd: "?r = keys it ! pos it # drop (Suc (pos it)) (keys it)" if "pos it < length (keys it)"
    using that by (simp add: slice_rest_def Cons_nth_drop_Suc)
  show "slice_rest (snd (slice_seek it k)) = dropWhile (\<lambda>x. x < k) ?r"
    using d hd by (auto simp: slice_seek_def Let_def slice_rest_def not_le)
  show "keys (snd (slice_seek it k)) = keys it" by (simp add: slice_seek_def Let_def)
  show "fst (slice_seek it k) = slice_current (snd (slice_seek it k))"
    by (simp add: slice_seek_def Let_def slice_current_def)
qed

interpretation slice: sorted_iterator slice_current slice_seek slice_next slice_rest
  "\<lambda>it. sorted_wrt (<) (keys it)"
proof
  fix it :: slice_iter and k assume s: "sorted_wrt (<) (keys it)"
  show "sorted_wrt (<) (slice_rest it)" using s by (simp add: slice_rest_def sorted_wrt_drop)
  show "slice_current it = (case slice_rest it of [] \<Rightarrow> None | k # _ \<Rightarrow> Some k)" by (rule slice_current_rest)
  show "sorted_wrt (<) (keys (snd (slice_seek it k)))" using s slice_seek_rest(2) [OF s] by simp
  show "slice_rest (snd (slice_seek it k)) = dropWhile (\<lambda>x. x < k) (slice_rest it)" using s by (rule slice_seek_rest)
  show "fst (slice_seek it k) = slice_current (snd (slice_seek it k))" using s by (rule slice_seek_rest)
  show "sorted_wrt (<) (keys (snd (slice_next it)))" using s by (simp add: slice_next_def Let_def)
  show "slice_rest (snd (slice_next it)) = tl (slice_rest it)"
    by (simp add: slice_next_def Let_def slice_rest_def tl_drop drop_Suc [symmetric])
  show "fst (slice_next it) = slice_current (snd (slice_next it))" by (simp add: slice_next_def Let_def)
qed

section \<open>Properties\<close>

text \<open>The intersection as a list, in the order of the first input.\<close>

definition intersection :: "u64 list list \<Rightarrow> u64 list" where
  "intersection kss = filter (\<lambda>k. \<forall>ks\<in>set kss. k \<in> set ks) (hd kss)"

lemma sorted_lists_eq:
  fixes xs :: "u64 list"
  assumes "sorted_wrt (<) xs" and "sorted_wrt (<) ys" and "set xs = set ys"
  shows "xs = ys"
  using assms by (simp add: sorted_distinct_set_unique strict_sorted_iff)

lemma slice_run:
  assumes "kss \<noteq> []" and "\<forall>ks\<in>set kss. sorted_wrt (<) ks"
  shows "lf_run slice_current slice_seek slice_next (map at_start kss) = Some (intersection kss)"
proof -
  have ok: "\<forall>it\<in>set (map at_start kss). sorted_wrt (<) (keys it)" using assms(2) by (auto simp: at_start_def)
  from slice.run_correct [OF _ ok] assms(1) obtain res where
    res: "lf_run slice_current slice_seek slice_next (map at_start kss) = Some res" "sorted_wrt (<) res"
      "set res = slice.common (map at_start kss)" by auto
  have "set (intersection kss) = slice.common (map at_start kss)"
    using assms(1) by (auto simp: intersection_def slice.common_def at_start_def slice_rest_def)
  moreover have "sorted_wrt (<) (intersection kss)"
    using assms by (simp add: intersection_def sorted_wrt_filter)
  ultimately show ?thesis using res sorted_lists_eq by metis
qed

lemma leapfrog_execute_count:
  assumes "sorted_wrt (<) (take n1 cells)" and "sorted_wrt (<) (take n2 (drop n1 cells))"
  shows "leapfrog_execute cells n1 n2 =
    Some (of_nat (length (intersection [take n1 cells, take n2 (drop n1 cells)])))"
  using slice_run [of "[take n1 cells, take n2 (drop n1 cells)]"] assms
  by (simp add: leapfrog_execute_def intersection_def)

text \<open>C13: the leapfrog join computes the intersection. For any number of strictly increasing inputs,
  \<open>LeapfrogJoin::run\<close> returns, and returns exactly the keys present in all of them, in ascending
  order; with no input it returns nothing.\<close>

theorem leapfrog_run_intersection:
  assumes "\<forall>ks\<in>set kss. sorted_wrt (<) ks"
  shows "lf_run slice_current slice_seek slice_next (map at_start kss) =
    Some (if kss = [] then [] else intersection kss)"
proof (cases "kss = []")
  case True
  then show ?thesis by (simp add: lf_run_def)
next
  case False
  then show ?thesis using slice_run [OF False assms] by simp
qed

theorem leapfrog_run_intersection_witness:
  "lf_run slice_current slice_seek slice_next (map at_start [[1, 3, 4], [3, 4, 7], [2, 3]]) = Some [3]"
  using leapfrog_run_intersection [of "[[1, 3, 4], [3, 4, 7], [2, 3]]"] by (simp add: intersection_def)

text \<open>The contract is all the join needs. Over any iterator that keeps the contract of the
  \<open>SortedIterator\<close> trait, the loop terminates and returns the common keys in ascending order.\<close>

theorem leapfrog_any_iterator:
  assumes "sorted_iterator current_key seek nxt rest ok" and "its \<noteq> []" and "\<forall>it\<in>set its. ok it"
  shows "\<exists>res. lf_run current_key seek nxt its = Some res \<and> sorted_wrt (<) res
    \<and> set res = {k. \<forall>it\<in>set its. k \<in> set (rest it)}"
  using sorted_iterator.run_correct [OF assms] unfolding sorted_iterator.common_def [OF assms(1)] .

theorem leapfrog_any_iterator_witness:
  "\<exists>res. lf_run slice_current slice_seek slice_next [at_start [1, 2], at_start [2]] = Some res \<and> sorted_wrt (<) res
    \<and> set res = {k. \<forall>it\<in>set [at_start [1, 2], at_start [2]]. k \<in> set (slice_rest it)}"
  by (rule leapfrog_any_iterator [OF slice.sorted_iterator_axioms]) (simp_all add: at_start_def)

end
