(* ===== verification/Civil_Year.thy ===== *)
theory Civil_Year
  imports TV_Prelude
begin

text \<open>
  Signed integer arithmetic of the date code and the year of a day: \<open>days_since_epoch_to_year\<close> of
  src/src/types/datetime.rs is shown to be the year of the proleptic Gregorian calendar. The lemma on
  the starts of the 400 years of an era is checked by evaluation, the rest is monotonicity.
\<close>

section \<open>Integers\<close>

definition i32 :: "int \<Rightarrow> int" where
  "i32 n = sint (word_of_int n :: u32)"

lemma i32_id: "- (2 ^ 31) \<le> n \<Longrightarrow> n < 2 ^ 31 \<Longrightarrow> i32 n = n"
  by (simp add: i32_def signed_of_int signed_take_bit_int_eq_self)

text \<open>Rust's \<open>/\<close> and \<open>%\<close> on signed integers truncate towards zero; \<open>div_euclid\<close> and \<open>rem_euclid\<close> by a
  positive number are \<open>div\<close> and \<open>mod\<close>.\<close>

definition trunc_div :: "int \<Rightarrow> int \<Rightarrow> int" where
  "trunc_div a b = (if 0 \<le> a then a div b else - (- a div b))"

definition trunc_rem :: "int \<Rightarrow> int \<Rightarrow> int" where
  "trunc_rem a b = a - b * trunc_div a b"

definition sat :: "nat \<Rightarrow> int \<Rightarrow> int" where
  "sat w n = max (- (2 ^ (w - 1))) (min n (2 ^ (w - 1) - 1))"

section \<open>The year of a day\<close>

definition days_since_epoch_to_year :: "int \<Rightarrow> int" where
  "days_since_epoch_to_year d =
     (let z = i64 (d + 719468);
          era = trunc_div (if z \<ge> 0 then z else i64 (z - 146096)) 146097;
          doe = z - era * 146097;
          yoe = trunc_div (doe - trunc_div doe 1460 + trunc_div doe 36524 - trunc_div doe 146096) 365;
          y = yoe + era * 400;
          doy = doe - (365 * yoe + trunc_div yoe 4 - trunc_div yoe 100)
      in if doy \<ge> 306 then i32 (y + 1) else i32 y)"

definition is_leap_year :: "int \<Rightarrow> bool" where
  "is_leap_year year \<longleftrightarrow>
     (trunc_rem year 4 = 0 \<and> trunc_rem year 100 \<noteq> 0) \<or> trunc_rem year 400 = 0"

section \<open>The Gregorian year\<close>

text \<open>\<open>march_start y\<close> counts the days from 0000-03-01 to March 1 of year \<open>y\<close>, \<open>year_start y\<close> those from
  1970-01-01 to January 1 of year \<open>y\<close>.\<close>

definition march_start :: "int \<Rightarrow> int" where
  "march_start y = 365 * y + y div 4 - y div 100 + y div 400"

definition year_start :: "int \<Rightarrow> int" where
  "year_start y = march_start (y - 1) + 306 - 719468"

lemma year_start_1970: "year_start 1970 = 0"
  by (simp add: year_start_def march_start_def)

lemma trunc_rem_0:
  assumes "0 < b"
  shows "trunc_rem a b = 0 \<longleftrightarrow> b dvd a"
proof -
  have "a + b * (- a div b) = - (- a mod b)"
    using minus_mult_div_eq_mod [of "- a" b] by linarith
  then have "trunc_rem a b = (if 0 \<le> a then a mod b else - (- a mod b))"
    by (simp add: trunc_rem_def trunc_div_def minus_mult_div_eq_mod)
  then show ?thesis by (simp add: mod_eq_0_iff_dvd)
qed

lemma is_leap_year_dvd: "is_leap_year y \<longleftrightarrow> (4 dvd y \<and> \<not> 100 dvd y) \<or> 400 dvd y"
  by (simp add: is_leap_year_def trunc_rem_0)

lemma div_step:
  assumes "0 < (k :: int)"
  shows "y div k - (y - 1) div k = (if k dvd y then 1 else 0)"
proof -
  have e: "k * (y div k) + y mod k = y" by simp
  have r: "0 \<le> y mod k" "y mod k < k" using assms by simp_all
  show ?thesis
  proof (cases "k dvd y")
    case True
    then have "y mod k = 0" by simp
    then have "(y - 1) div k = y div k - 1"
      using e assms by (intro int_div_pos_eq [of _ _ _ "k - 1"]) (simp_all add: algebra_simps)
    with True show ?thesis by simp
  next
    case False
    then have "y mod k \<noteq> 0" by (simp add: mod_eq_0_iff_dvd)
    then have "(y - 1) div k = y div k"
      using e r by (intro int_div_pos_eq [of _ _ _ "y mod k - 1"]) simp_all
    with False show ?thesis by simp
  qed
qed

text \<open>The years are consecutive, of 365 days or, when leap, 366.\<close>

lemma year_start_step: "year_start (y + 1) = year_start y + (if is_leap_year y then 366 else 365)"
proof -
  have "400 dvd y \<Longrightarrow> 100 dvd y" "100 dvd y \<Longrightarrow> 4 dvd y" by (auto elim: dvd_trans [rotated])
  moreover have "year_start (y + 1) - year_start y =
      365 + (y div 4 - (y - 1) div 4) - (y div 100 - (y - 1) div 100) + (y div 400 - (y - 1) div 400)"
    by (simp add: year_start_def march_start_def)
  then have "year_start (y + 1) - year_start y =
      365 + (if 4 dvd y then 1 else 0) - (if 100 dvd y then 1 else 0) + (if 400 dvd y then 1 else 0)"
    by (simp only: div_step zero_less_numeral)
  ultimately show ?thesis unfolding is_leap_year_dvd by (cases "4 dvd y"; cases "100 dvd y"; cases "400 dvd y") simp_all
qed

text \<open>Hinnant's year of era, and the day of era its year begins on.\<close>

definition yoe_of :: "int \<Rightarrow> int" where
  "yoe_of doe = (doe - doe div 1460 + doe div 36524 - doe div 146096) div 365"

definition yoe_start :: "int \<Rightarrow> int" where
  "yoe_start y = 365 * y + y div 4 - y div 100"

lemma yoe_of_mono:
  assumes "0 \<le> m" and "m \<le> n" and "n \<le> 146096"
  shows "yoe_of m \<le> yoe_of n"
proof -
  have 1: "m - m div 1460 \<le> n - n div 1460"
    using assms by linarith
  have 2: "m div 36524 - m div 146096 \<le> n div 36524 - n div 146096"
  proof (cases "n = 146096")
    case n: True
    show ?thesis
    proof (cases "m = n")
      case False
      then have "m div 146096 = 0" using assms n by simp
      moreover have "m div 36524 \<le> 146095 div 36524" using False assms n by (intro zdiv_mono1) simp_all
      ultimately show ?thesis using n by simp
    qed simp
  next
    case False
    then have "n div 146096 = 0" "m div 146096 = 0" using assms by simp_all
    then show ?thesis using assms by (simp add: zdiv_mono1)
  qed
  show ?thesis
    unfolding yoe_of_def using add_mono [OF 1 2] by (intro zdiv_mono1) (simp_all only: add_diff_eq zero_less_numeral)
qed

lemma yoe_of_starts: "\<forall>y\<in>set [1..399]. yoe_of (yoe_start y) = y \<and> yoe_of (yoe_start y - 1) = y - 1"
  by code_simp

lemma yoe_of_range:
  assumes "0 \<le> doe" and "doe \<le> 146096"
  shows "0 \<le> yoe_of doe" and "yoe_of doe \<le> 399"
    and "yoe_start (yoe_of doe) \<le> doe" and "doe < yoe_start (yoe_of doe + 1) + (if yoe_of doe = 399 then 1 else 0)"
proof -
  let ?y = "yoe_of doe"
  have "yoe_of 0 = 0" "yoe_of 146096 = 399" by (simp_all add: yoe_of_def)
  then show r: "0 \<le> ?y" "?y \<le> 399"
    using yoe_of_mono [of 0 doe] yoe_of_mono [of doe 146096] assms by simp_all
  have st: "yoe_of (yoe_start y) = y" "yoe_of (yoe_start y - 1) = y - 1" if "1 \<le> y" "y \<le> 399" for y
    using yoe_of_starts that by simp_all
  have pos: "0 \<le> yoe_start y - 1" "yoe_start y \<le> 146096" if "1 \<le> y" "y \<le> 399" for y
    using that unfolding yoe_start_def by linarith+
  show "yoe_start ?y \<le> doe"
  proof (rule ccontr)
    assume "\<not> yoe_start ?y \<le> doe"
    then have lt: "doe \<le> yoe_start ?y - 1" by simp
    have "1 \<le> ?y" using lt assms(1) r by (cases "?y = 0") (simp_all add: yoe_start_def)
    with yoe_of_mono [OF assms(1) lt] st(2) [of ?y] pos [of ?y] r show False by simp
  qed
  show "doe < yoe_start (?y + 1) + (if ?y = 399 then 1 else 0)"
  proof (cases "?y = 399")
    case True
    then show ?thesis using assms by (simp add: yoe_start_def)
  next
    case False
    show ?thesis
    proof (rule ccontr)
      assume "\<not> doe < yoe_start (?y + 1) + (if ?y = 399 then 1 else 0)"
      then have "yoe_start (?y + 1) \<le> doe" using False by simp
      with yoe_of_mono [of "yoe_start (?y + 1)" doe] st(1) [of "?y + 1"] pos [of "?y + 1"] r False assms
      show False by simp
    qed
  qed
qed

lemma march_start_era: "march_start (y + era * 400) = 146097 * era + yoe_start y + y div 400"
proof -
  have "(y + era * 400) div 4 = 100 * era + y div 4" "(y + era * 400) div 100 = 4 * era + y div 100"
    "(y + era * 400) div 400 = era + y div 400"
    using div_mult_self1 [of 4 y "100 * era"] div_mult_self1 [of 100 y "4 * era"] div_mult_self1 [of 400 y era]
    by (simp_all add: ac_simps)
  then show ?thesis by (simp add: march_start_def yoe_start_def)
qed

lemma floor_via_trunc:
  assumes "0 < (b :: int)"
  shows "- ((b - 1 - z) div b) = z div b"
proof -
  have "b - 1 - z = b * - (z div b) + (b - 1 - z mod b)" using mult_div_mod_eq [of b z] by linarith
  moreover have "0 \<le> b - 1 - z mod b" "b - 1 - z mod b < b" using assms pos_mod_bound [of b z] pos_mod_sign [of b z] by linarith+
  ultimately have "(b - 1 - z) div b = - (z div b)" by (rule int_div_pos_eq)
  then show ?thesis by simp
qed

lemma days_to_year:
  assumes "- (2 ^ 31) \<le> d" and "d < 2 ^ 31"
  shows "year_start (days_since_epoch_to_year d) \<le> d \<and> d < year_start (days_since_epoch_to_year d + 1)"
proof -
  define z where "z = d + 719468"
  define era where "era = z div 146097"
  define doe where "doe = z mod 146097"
  define yoe where "yoe = yoe_of doe"
  have doe: "0 \<le> doe" "doe \<le> 146096" by (simp_all add: doe_def)
  have e: "z = 146097 * era + doe" by (simp add: era_def doe_def)
  have z: "i64 (d + 719468) = z" "z < 0 \<Longrightarrow> i64 (z - 146096) = z - 146096"
    using assms by (simp_all add: z_def i64_id)
  have era: "trunc_div (if z \<ge> 0 then z else i64 (z - 146096)) 146097 = era"
    using z(2) floor_via_trunc [of 146097 z] by (simp add: trunc_div_def era_def)
  note Y = yoe_of_range [OF doe, folded yoe_def]
  have tr: "trunc_div n k = n div k" if "0 \<le> n" for n k using that by (simp add: trunc_div_def)
  have pos: "0 \<le> doe - doe div 1460 + doe div 36524 - doe div 146096" using doe by linarith
  have yoe': "trunc_div (doe - trunc_div doe 1460 + trunc_div doe 36524 - trunc_div doe 146096) 365 = yoe"
    using doe pos by (simp add: tr yoe_def yoe_of_def)
  have y: "- (2 ^ 30) \<le> yoe + era * 400" "yoe + era * 400 < 2 ^ 30"
    using Y(1,2) e doe assms by (simp_all add: z_def)
  have i: "i32 (yoe + era * 400) = yoe + era * 400" "i32 (yoe + era * 400 + 1) = yoe + era * 400 + 1"
    using y by (simp_all add: i32_id)
  have year: "days_since_epoch_to_year d =
      (if doe - yoe_start yoe \<ge> 306 then yoe + era * 400 + 1 else yoe + era * 400)"
    unfolding days_since_epoch_to_year_def Let_def z(1) era
    using e yoe' i tr [OF Y(1)] by (simp add: yoe_start_def)
  have M: "march_start (yoe + era * 400) = 146097 * era + yoe_start yoe"
    "march_start (yoe + era * 400 + 1) = 146097 * era + yoe_start (yoe + 1) + (if yoe = 399 then 1 else 0)"
    using march_start_era [of yoe era] march_start_era [of "yoe + 1" era] Y(1,2) by (auto simp: ac_simps)
  define y where "y = yoe + era * 400"
  have S: "year_start (x + 1) = march_start x - 719162" for x by (simp add: year_start_def)
  have step: "year_start y + 365 \<le> year_start (y + 1)" using year_start_step [of y] by simp
  note facts = year [folded y_def] M [folded y_def] S [of y] S [of "y + 1"] step e Y(3,4) z_def
  show ?thesis
  proof (cases "doe - yoe_start yoe \<ge> 306")
    case True
    then have eq: "days_since_epoch_to_year d = y + 1" using facts(1) by simp
    show ?thesis unfolding eq using facts(2-) True by (intro conjI) linarith+
  next
    case False
    then have eq: "days_since_epoch_to_year d = y" using facts(1) by simp
    show ?thesis unfolding eq using facts(2-) False by (intro conjI) linarith+
  qed
qed

lemma year_start_mono: "a \<le> b \<Longrightarrow> year_start a \<le> year_start b"
proof (induction "nat (b - a)" arbitrary: b)
  case (Suc n)
  then have "year_start a \<le> year_start (b - 1)" by simp
  also have "\<dots> \<le> year_start b" using year_start_step [of "b - 1"] by simp
  finally show ?case .
qed simp

lemma year_unique:
  assumes "year_start y \<le> d" and "d < year_start (y + 1)" and "year_start y' \<le> d" and "d < year_start (y' + 1)"
  shows "y = y'"
  using assms year_start_mono [of "y + 1" y'] year_start_mono [of "y' + 1" y] by linarith

end
