(* ===== verification/Datetime.thy ===== *)
theory Datetime
  imports Civil_Year
begin

text \<open>
  The date and time types of src/src/types/datetime.rs. Dates, timestamps and interval components are
  integers of the width the source gives them, with the wrap-around of release builds written out.
  The \<open>time\<close> crate is a parameter: a record of the functions the source calls, with their documented
  behaviour in the locale \<open>calendar\<close>. The text parsers and printers, which only call that crate and
  \<open>format!\<close>, are not modelled.
\<close>

section \<open>Day of the year\<close>

definition days_in_months :: "int \<Rightarrow> nat list" where
  "days_in_months year = [31, if is_leap_year year then 29 else 28, 31, 30, 31, 30, 31, 31, 30, 31, 30, 31]"

text \<open>The loop \<open>for m in 1..month\<close>; a month past 13 indexes out of range.\<close>

definition day_of_year :: "int \<Rightarrow> nat \<Rightarrow> nat \<Rightarrow> nat option" where
  "day_of_year year month day =
     (if month \<le> 13 then Some (day + sum_list (map (\<lambda>m. days_in_months year ! (m - 1)) [1..<month])) else None)"

section \<open>Dates\<close>

text \<open>The functions of the \<open>time\<close> crate on its date type \<open>'d\<close>.\<close>

record 'd time_crate =
  month_try_from :: "nat \<Rightarrow> nat option"
  from_calendar_date :: "int \<Rightarrow> nat \<Rightarrow> nat \<Rightarrow> 'd option"
  to_julian_day :: "'d \<Rightarrow> int"
  from_julian_day :: "int \<Rightarrow> 'd option"
  tc_year :: "'d \<Rightarrow> int"
  tc_month :: "'d \<Rightarrow> nat"
  tc_day :: "'d \<Rightarrow> nat"
  previous_day :: "'d \<Rightarrow> 'd option"

definition from_ymd :: "'d time_crate \<Rightarrow> int \<Rightarrow> nat \<Rightarrow> nat \<Rightarrow> int result" where
  "from_ymd tc year month day =
     (case month_try_from tc (month mod 256) of
        None \<Rightarrow> Inl InvalidArg
      | Some m \<Rightarrow>
          (case from_calendar_date tc year m (day mod 256) of
             None \<Rightarrow> Inl InvalidArg
           | Some d \<Rightarrow> Inr (i32 (to_julian_day tc d - 2440588))))"

definition to_ymd :: "'d time_crate \<Rightarrow> int \<Rightarrow> (int \<times> nat \<times> nat) option" where
  "to_ymd tc date =
     (case from_julian_day tc (i32 (date + 2440588)) of
        None \<Rightarrow> None
      | Some d \<Rightarrow> Some (tc_year tc d, tc_month tc d, tc_day tc d))"

definition date_year :: "int \<Rightarrow> int" where
  "date_year date = days_since_epoch_to_year date"

definition date_to_u64 :: "int \<Rightarrow> u64" where
  "date_to_u64 date = ucast (word_of_int date :: u32)"

definition date_from_u64 :: "u64 \<Rightarrow> int" where
  "date_from_u64 v = sint (ucast v :: u32)"

definition add_days :: "int \<Rightarrow> int \<Rightarrow> int" where
  "add_days date days = sat 32 (date + days)"

definition days_in_month :: "'d time_crate \<Rightarrow> int \<Rightarrow> nat \<Rightarrow> nat" where
  "days_in_month tc year month =
     (case month_try_from tc (month mod 256) of
        None \<Rightarrow> 28
      | Some m \<Rightarrow>
          (case from_calendar_date tc year m 1 of
             None \<Rightarrow> 28
           | Some first \<Rightarrow>
               let next_first =
                     (if month = 12 then
                        case from_calendar_date tc (i32 (year + 1)) 1 1 of None \<Rightarrow> first | Some d \<Rightarrow> d
                      else
                        let next_m = (case month_try_from tc ((month + 1) mod 256) of None \<Rightarrow> 12 | Some m \<Rightarrow> m)
                        in case from_calendar_date tc year next_m 1 of None \<Rightarrow> first | Some d \<Rightarrow> d)
               in tc_day tc (case previous_day tc next_first of None \<Rightarrow> first | Some d \<Rightarrow> d)))"

record interval =
  months :: int
  micros :: int

definition date_add_interval :: "'d time_crate \<Rightarrow> int \<Rightarrow> interval \<Rightarrow> int option" where
  "date_add_interval tc date iv =
     (case to_ymd tc date of
        None \<Rightarrow> None
      | Some (y, m, d) \<Rightarrow>
          let total_months = i32 (i32 (i32 (y * 12) + (int m - 1)) + months iv);
              ny = total_months div 12;
              nm = nat (total_months mod 12) + 1;
              nd = min (d mod 256) (days_in_month tc ny nm);
              base = (case from_ymd tc ny nm nd of Inl _ \<Rightarrow> date | Inr b \<Rightarrow> b)
          in Some (i64 (base * 86400000000 + micros iv)))"

definition days_since :: "int \<Rightarrow> int \<Rightarrow> int" where
  "days_since date other = i32 (date - other)"

definition dow :: "int \<Rightarrow> int" where
  "dow date = i32 (date + 4) mod 7"

definition isodow :: "int \<Rightarrow> int" where
  "isodow date = i32 (date + 3) mod 7 + 1"

definition doy :: "'d time_crate \<Rightarrow> int \<Rightarrow> nat option" where
  "doy tc date = (case to_ymd tc date of None \<Rightarrow> None | Some (y, m, d) \<Rightarrow> day_of_year y m d)"

definition quarter :: "'d time_crate \<Rightarrow> int \<Rightarrow> nat option" where
  "quarter tc date = map_option (\<lambda>(_, m, _). (m - 1) div 3 + 1) (to_ymd tc date)"

definition epoch_seconds :: "int \<Rightarrow> int" where
  "epoch_seconds date = date * 86400"

section \<open>Times of day\<close>

text \<open>\<open>hms_ok\<close> is the range check of \<open>time::Time::from_hms_nano\<close>.\<close>

definition from_hms_nano ::
  "(nat \<Rightarrow> nat \<Rightarrow> nat \<Rightarrow> nat \<Rightarrow> bool) \<Rightarrow> nat \<Rightarrow> nat \<Rightarrow> nat \<Rightarrow> nat \<Rightarrow> nat result" where
  "from_hms_nano hms_ok hour minute second nano =
     (let h = hour mod 256; m = minute mod 256; s = second mod 256
      in if hms_ok h m s nano
         then Inr (h * 3600000000 + m * 60000000 + s * 1000000 + nano div 1000)
         else Inl InvalidArg)"

definition to_hms_micro :: "nat \<Rightarrow> nat \<times> nat \<times> nat \<times> nat" where
  "to_hms_micro us =
     ((us div 3600000000) mod 2 ^ 32, (us div 60000000) mod 60, (us div 1000000) mod 60, us mod 1000000)"

section \<open>Timestamps and intervals\<close>

definition timestamp_to_u64 :: "int \<Rightarrow> u64" where
  "timestamp_to_u64 ts = word_of_int ts"

definition timestamp_from_u64 :: "u64 \<Rightarrow> int" where
  "timestamp_from_u64 v = sint v"

definition from_date :: "int \<Rightarrow> int" where
  "from_date date = date * 86400000000"

definition from_date_time :: "int \<Rightarrow> nat \<Rightarrow> int" where
  "from_date_time date t = i64 (date * 86400000000 + i64 (int t))"

definition to_date_time :: "int \<Rightarrow> int \<times> nat" where
  "to_date_time ts = (i32 (ts div 86400000000), nat (ts mod 86400000000))"

definition timestamp_add_interval :: "'d time_crate \<Rightarrow> int \<Rightarrow> interval \<Rightarrow> int option" where
  "timestamp_add_interval tc ts iv =
     (let (d, t) = to_date_time ts
      in map_option (\<lambda>new_ts. i64 (new_ts + int t)) (date_add_interval tc d iv))"

definition from_months :: "int \<Rightarrow> interval" where
  "from_months m = \<lparr>months = m, micros = 0\<rparr>"

definition from_days :: "int \<Rightarrow> interval" where
  "from_days d = \<lparr>months = 0, micros = d * 86400000000\<rparr>"

definition from_micros :: "int \<Rightarrow> interval" where
  "from_micros m = \<lparr>months = 0, micros = m\<rparr>"

definition to_u64_pair :: "interval \<Rightarrow> u64 \<times> u64" where
  "to_u64_pair iv = (ucast (word_of_int (months iv) :: u32), word_of_int (micros iv))"

definition from_u64_pair :: "u64 \<times> u64 \<Rightarrow> interval" where
  "from_u64_pair v = \<lparr>months = sint (ucast (fst v) :: u32), micros = sint (snd v)\<rparr>"

text \<open>The part of \<open>from_sql_str\<close> after the text has been split into a number and a unit.\<close>

definition interval_of_unit :: "int \<Rightarrow> string \<Rightarrow> interval result" where
  "interval_of_unit n unit =
     (if unit = ''year'' \<or> unit = ''years'' then Inr (from_months (i32 (i64 (n * 12))))
      else if unit = ''month'' \<or> unit = ''months'' then Inr (from_months (i32 n))
      else if unit = ''day'' \<or> unit = ''days'' then Inr (from_days (i32 n))
      else if unit = ''hour'' \<or> unit = ''hours'' then Inr (from_micros (i64 (n * 3600000000)))
      else if unit = ''minute'' \<or> unit = ''minutes'' then Inr (from_micros (i64 (n * 60000000)))
      else if unit = ''second'' \<or> unit = ''seconds'' then Inr (from_micros (i64 (n * 1000000)))
      else if unit = ''millisecond'' \<or> unit = ''milliseconds'' then Inr (from_micros (i64 (n * 1000)))
      else if unit = ''microsecond'' \<or> unit = ''microseconds'' then Inr (from_micros n)
      else Inl Parse)"

definition interval_add :: "interval \<Rightarrow> interval \<Rightarrow> interval" where
  "interval_add a b = \<lparr>months = sat 32 (months a + months b), micros = sat 64 (micros a + micros b)\<rparr>"

text \<open>The casts to \<open>u8\<close> come before the range checks: out-of-range months, days and hours are
  accepted as their value modulo 256.\<close>

lemma from_ymd_truncates:
  "from_ymd tc y (m + 256) d = from_ymd tc y m d" "from_ymd tc y m (d + 256) = from_ymd tc y m d"
  "from_hms_nano hms_ok (h + 256) mi sec ns = from_hms_nano hms_ok h mi sec ns"
  by (simp_all add: from_ymd_def from_hms_nano_def cong: option.case_cong)

section \<open>Months\<close>

text \<open>Days of the year before a month, and the days from the epoch to a calendar date.\<close>

definition month_days :: "int \<Rightarrow> nat \<Rightarrow> nat" where
  "month_days y m = days_in_months y ! (m - 1)"

definition days_before :: "int \<Rightarrow> nat \<Rightarrow> nat" where
  "days_before y m = sum_list (map (month_days y) [1..<m])"

definition valid_ymd :: "int \<Rightarrow> nat \<Rightarrow> nat \<Rightarrow> bool" where
  "valid_ymd y m d \<longleftrightarrow> - 9999 \<le> y \<and> y \<le> 9999 \<and> 1 \<le> m \<and> m \<le> 12 \<and> 1 \<le> d \<and> d \<le> month_days y m"

definition civil_days :: "int \<Rightarrow> nat \<Rightarrow> nat \<Rightarrow> int" where
  "civil_days y m d = year_start y + int (days_before y m) + int d - 1"

lemma day_of_year_before: "m \<le> 13 \<Longrightarrow> day_of_year y m d = Some (d + days_before y m)"
  by (simp add: day_of_year_def days_before_def month_days_def [abs_def])

lemma days_before_Suc: "1 \<le> m \<Longrightarrow> days_before y (m + 1) = days_before y m + month_days y m"
  by (simp add: days_before_def)

lemma days_before_1 [simp]: "days_before y (Suc 0) = 0"
  by (simp add: days_before_def)

lemma days_before_year: "days_before y 13 = (if is_leap_year y then 366 else 365)"
  by (simp add: days_before_def month_days_def days_in_months_def upt_rec [of _ 13])

lemma days_before_mono: "1 \<le> m \<Longrightarrow> m \<le> n \<Longrightarrow> days_before y m \<le> days_before y n"
proof (induction n)
  case (Suc n)
  then show ?case using days_before_Suc [of n y] by (cases "m = Suc n") auto
qed simp

lemma month_days_pos: "1 \<le> m \<Longrightarrow> m \<le> 12 \<Longrightarrow> 28 \<le> month_days y m \<and> month_days y m \<le> 31"
proof -
  assume "1 \<le> m" "m \<le> 12"
  then have "m - 1 \<in> set [0..<12]" by auto
  moreover have "\<forall>i\<in>set [0..<12]. 28 \<le> days_in_months y ! i \<and> days_in_months y ! i \<le> 31"
    by (simp add: days_in_months_def upt_rec)
  ultimately show ?thesis unfolding month_days_def by blast
qed

lemma civil_in_year:
  assumes "valid_ymd y m d"
  shows "year_start y \<le> civil_days y m d" and "civil_days y m d < year_start (y + 1)"
proof -
  have "days_before y m + month_days y m \<le> days_before y 13"
    using assms days_before_Suc [of m y] days_before_mono [of "m + 1" 13 y] by (simp add: valid_ymd_def)
  then show "year_start y \<le> civil_days y m d" "civil_days y m d < year_start (y + 1)"
    using assms year_start_step [of y] days_before_year [of y] by (auto simp: civil_days_def valid_ymd_def)
qed

lemma civil_days_inj:
  assumes "valid_ymd y m d" and "valid_ymd y' m' d'" and "civil_days y m d = civil_days y' m' d'"
  shows "y = y' \<and> m = m' \<and> d = d'"
proof -
  have y: "y = y'"
    using civil_in_year [OF assms(1)] civil_in_year [OF assms(2)] assms(3) by (intro year_unique) simp_all
  have lt: "days_before y a + c < days_before y b + e"
    if "valid_ymd y a c" "valid_ymd y b e" "a < b" for a b c e
  proof -
    have "days_before y a + c \<le> days_before y (a + 1)"
      using that(1) days_before_Suc [of a y] by (simp add: valid_ymd_def)
    also have "\<dots> \<le> days_before y b" using that by (intro days_before_mono) simp_all
    also have "\<dots> < days_before y b + e" using that(2) by (simp add: valid_ymd_def)
    finally show ?thesis .
  qed
  have "days_before y m + d = days_before y m' + d'" using assms(3) y by (simp add: civil_days_def)
  then have "m = m'" using lt [of m d m' d'] lt [of m' d' m d] assms(1,2) y by (cases m m' rule: linorder_cases) auto
  with y assms(3) show ?thesis by (simp add: civil_days_def)
qed

lemma year_start_bounds:
  assumes "- 9999 \<le> y" and "y \<le> 10000"
  shows "- 4400000 \<le> year_start y" and "year_start y \<le> 3000000"
proof -
  have "year_start (- 9999) \<le> year_start y" "year_start y \<le> year_start 10000"
    using assms by (simp_all add: year_start_mono)
  moreover have "year_start (- 9999) \<ge> - 4400000" "year_start 10000 \<le> 3000000"
    by (simp_all add: year_start_def march_start_def)
  ultimately show "- 4400000 \<le> year_start y" "year_start y \<le> 3000000" by simp_all
qed

lemma civil_days_bounds: "valid_ymd y m d \<Longrightarrow> - 4400000 \<le> civil_days y m d \<and> civil_days y m d < 3000000"
  using civil_in_year [of y m d] year_start_bounds [of y] year_start_bounds [of "y + 1"] by (simp add: valid_ymd_def)

lemma i32_mod: "i32 n = (n + 2 ^ 31) mod 2 ^ 32 - 2 ^ 31"
  by (simp add: i32_def signed_of_int signed_take_bit_eq_take_bit_shift take_bit_eq_mod)

lemma i32_wrap: "2 ^ 31 \<le> n \<Longrightarrow> n < 2 ^ 32 \<Longrightarrow> i32 n = n - 2 ^ 32"
  using minus_mod_self2 [of "n + 2 ^ 31" "2 ^ 32"] mod_pos_pos_trivial [of "n - 2 ^ 31" "2 ^ 32"]
  unfolding i32_mod by simp

section \<open>The calendar contract\<close>

text \<open>
  What the source relies on of the \<open>time\<close> crate. Its date type holds the dates of the proleptic
  Gregorian calendar from year -9999 to 9999 (\<open>ok\<close>), a date is made exactly of valid components and
  gives them back, and its Julian day number is its distance from the epoch plus 2440588.
\<close>

locale calendar =
  fixes tc :: "'d time_crate" and ok :: "'d \<Rightarrow> bool"
  assumes month_from: "month_try_from tc n = (if 1 \<le> n \<and> n \<le> 12 then Some n else None)"
    and valid: "ok x \<Longrightarrow> valid_ymd (tc_year tc x) (tc_month tc x) (tc_day tc x)"
    and from_cal: "from_calendar_date tc y m d = Some x \<longleftrightarrow> ok x \<and> tc_year tc x = y \<and> tc_month tc x = m \<and> tc_day tc x = d"
    and from_cal_valid: "valid_ymd y m d \<Longrightarrow> from_calendar_date tc y m d \<noteq> None"
    and julian: "ok x \<Longrightarrow> to_julian_day tc x = civil_days (tc_year tc x) (tc_month tc x) (tc_day tc x) + 2440588"
    and from_jd: "from_julian_day tc j = Some x \<longleftrightarrow> ok x \<and> to_julian_day tc x = j"
    and prev: "ok x \<Longrightarrow> previous_day tc x = Some x' \<longleftrightarrow> ok x' \<and> to_julian_day tc x' = to_julian_day tc x - 1"
begin

lemma from_ymd_iff:
  assumes "m < 256" and "d < 256"
  shows "from_ymd tc y m d = Inr date \<longleftrightarrow> valid_ymd y m d \<and> date = civil_days y m d"
proof -
  have m: "1 \<le> m \<and> m \<le> 12" if "valid_ymd y m d" using that by (simp add: valid_ymd_def)
  have "i32 (to_julian_day tc x - 2440588) = civil_days y m d" if "from_calendar_date tc y m d = Some x" for x
    using that from_cal julian [of x] valid [of x] civil_days_bounds [of y m d] by (auto simp: i32_id)
  moreover have "valid_ymd y m d" if "from_calendar_date tc y m d = Some x" for x
    using that from_cal valid [of x] by auto
  ultimately show ?thesis
    using assms m from_cal_valid [of y m d] by (auto simp: from_ymd_def month_from split: option.splits)
qed

lemma to_ymd_iff:
  assumes "- (2 ^ 31) \<le> date" and "date < 2 ^ 31"
  shows "to_ymd tc date = Some (y, m, d) \<longleftrightarrow> valid_ymd y m d \<and> date = civil_days y m d"
proof
  assume "to_ymd tc date = Some (y, m, d)"
  then obtain x where "from_julian_day tc (i32 (date + 2440588)) = Some x"
    and c: "y = tc_year tc x" "m = tc_month tc x" "d = tc_day tc x"
    by (auto simp: to_ymd_def split: option.splits)
  then have x: "ok x" "to_julian_day tc x = i32 (date + 2440588)" using from_jd by blast+
  have v: "valid_ymd y m d" using valid [OF x(1)] c by simp
  have e: "civil_days y m d + 2440588 = i32 (date + 2440588)" using julian [OF x(1)] x(2) c by simp
  have "i32 (date + 2440588) = date + 2440588"
  proof (cases "date + 2440588 < 2 ^ 31")
    case True
    then show ?thesis using assms(1) by (simp add: i32_id)
  next
    case False
    then have "i32 (date + 2440588) = date + 2440588 - 2 ^ 32" using assms(2) by (simp add: i32_wrap)
    then show ?thesis using e civil_days_bounds [OF v] assms(2) by simp
  qed
  with v e show "valid_ymd y m d \<and> date = civil_days y m d" by simp
next
  assume a: "valid_ymd y m d \<and> date = civil_days y m d"
  then obtain x where x: "from_calendar_date tc y m d = Some x" using from_cal_valid by blast
  then have "from_julian_day tc (date + 2440588) = Some x" using a from_cal julian [of x] from_jd by auto
  moreover have "i32 (date + 2440588) = date + 2440588" using a civil_days_bounds [of y m d] by (simp add: i32_id)
  ultimately show "to_ymd tc date = Some (y, m, d)" using x from_cal by (auto simp: to_ymd_def)
qed

lemma to_ymdD:
  assumes "- (2 ^ 31) \<le> date" and "date < 2 ^ 31" and "to_ymd tc date = Some (y, m, d)"
  shows "valid_ymd y m d" and "date = civil_days y m d"
  using to_ymd_iff [OF assms(1,2), of y m d] assms(3) by simp_all

lemma year_agrees:
  assumes "- (2 ^ 31) \<le> date" and "date < 2 ^ 31" and "to_ymd tc date = Some (y, m, d)"
  shows "date_year date = y"
proof -
  have "year_start y \<le> date" "date < year_start (y + 1)"
    using to_ymdD [OF assms] civil_in_year [of y m d] by simp_all
  with days_to_year [OF assms(1,2)] show ?thesis unfolding date_year_def by (blast intro: year_unique)
qed

lemma doy_agrees:
  assumes "- (2 ^ 31) \<le> date" and "date < 2 ^ 31" and "to_ymd tc date = Some (y, m, d)"
  shows "\<exists>k. doy tc date = Some k \<and> date = year_start y + int k - 1"
proof -
  note v = to_ymdD [OF assms]
  then have "doy tc date = Some (d + days_before y m)"
    using assms(3) by (simp add: doy_def day_of_year_before valid_ymd_def)
  with v show ?thesis by (auto simp: civil_days_def)
qed

text \<open>The last day of a month is the day before the first of the next.\<close>

lemma civil_last:
  assumes "1 \<le> m" and "m \<le> 12"
  shows "civil_days y m (month_days y m) + 1 = (if m = 12 then civil_days (y + 1) 1 1 else civil_days y (m + 1) 1)"
proof (cases "m = 12")
  case True
  then show ?thesis
    using days_before_Suc [of 12 y] days_before_year [of y] year_start_step [of y]
    by (cases "is_leap_year y") (simp_all add: civil_days_def)
next
  case False
  with assms days_before_Suc [of m y] show ?thesis by (simp add: civil_days_def)
qed

lemma valid_first: "- 9999 \<le> y \<Longrightarrow> y \<le> 9999 \<Longrightarrow> 1 \<le> m \<Longrightarrow> m \<le> 12 \<Longrightarrow> valid_ymd y m 1"
  using month_days_pos [of m y] by (simp add: valid_ymd_def)

lemma days_in_month_correct:
  assumes "- 9999 \<le> y" and "y \<le> 9998" and "1 \<le> m" and "m \<le> 12"
  shows "days_in_month tc y m = month_days y m"
proof -
  obtain first where first: "from_calendar_date tc y m 1 = Some first"
    using from_cal_valid [OF valid_first] assms by fastforce
  let ?y = "if m = 12 then y + 1 else y" and ?m = "if m = 12 then 1 else m + 1"
  obtain nf where nf: "from_calendar_date tc ?y ?m 1 = Some nf"
    using from_cal_valid [OF valid_first, of ?y ?m] assms by fastforce
  have v: "valid_ymd y m (month_days y m)" using assms month_days_pos [of m y] by (simp add: valid_ymd_def)
  then obtain l where l: "from_calendar_date tc y m (month_days y m) = Some l" using from_cal_valid by blast
  have "to_julian_day tc l = to_julian_day tc nf - 1"
    using l nf from_cal julian [of l] julian [of nf] civil_last [OF assms(3,4), of y] by (auto split: if_splits)
  then have "previous_day tc nf = Some l" using prev [of nf l] l nf from_cal by auto
  moreover have "i32 (y + 1) = y + 1" using assms by (simp add: i32_id)
  moreover have "tc_day tc l = month_days y m" using l from_cal by blast
  ultimately show ?thesis
    using first nf assms by (cases "m = 12") (simp_all add: days_in_month_def month_from Let_def)
qed

text \<open>Adding an interval: the month moves by the interval's months with the year carrying, the day is
  clamped to the length of the new month, and the microseconds are added to its midnight.\<close>

lemma add_interval_correct:
  assumes "- (2 ^ 31) \<le> date" and "date < 2 ^ 31" and "to_ymd tc date = Some (y, m, d)"
    and "n = y * 12 + (int m - 1) + months iv" and "- 9999 \<le> n div 12" and "n div 12 \<le> 9998"
    and "ny = n div 12" and "nm = nat (n mod 12) + 1"
  shows "date_add_interval tc date iv =
    Some (i64 (civil_days ny nm (min d (month_days ny nm)) * 86400000000 + micros iv))"
proof -
  have v: "valid_ymd y m d" by (rule to_ymdD [OF assms(1-3)])
  then have d: "1 \<le> d" "d \<le> 31" "- 9999 \<le> y" "y \<le> 9999" "1 \<le> m" "m \<le> 12"
    using month_days_pos [of m y] by (auto simp: valid_ymd_def)
  have n: "- 119988 \<le> n" "n < 119988" using assms(5,6) by simp_all
  have w: "i32 (y * 12) = y * 12" "i32 (y * 12 + (int m - 1)) = y * 12 + (int m - 1)" "i32 n = n"
    using d n by (simp_all add: i32_id)
  have nm: "1 \<le> nm" "nm \<le> 12" using assms(8) by (simp_all add: nat_less_iff Suc_le_eq)
  have dim: "days_in_month tc ny nm = month_days ny nm"
    using assms(5-7) nm by (intro days_in_month_correct) simp_all
  have v': "valid_ymd ny nm (min d (month_days ny nm))"
    using assms(5-7) nm d month_days_pos [OF nm, of ny] by (simp add: valid_ymd_def)
  then have "from_ymd tc ny nm (min d (month_days ny nm)) = Inr (civil_days ny nm (min d (month_days ny nm)))"
    using from_ymd_iff [of nm "min d (month_days ny nm)" ny] nm d by simp
  then show ?thesis
    using assms(3) w dim d unfolding date_add_interval_def
    by (simp add: Let_def assms(4) [symmetric] assms(7) [symmetric] assms(8) [symmetric, simplified])
qed

end

section \<open>A calendar with the contract\<close>

text \<open>The Gregorian calendar on year, month and day, its Julian days inverted by a search of the year
  that the fast path finds.\<close>

definition greg_dates :: "int \<Rightarrow> (int \<times> nat \<times> nat) list" where
  "greg_dates y = concat (map (\<lambda>m. map (\<lambda>d. (y, m, d)) [1..<32]) [1..<13])"

definition greg_julian :: "int \<times> nat \<times> nat \<Rightarrow> int" where
  "greg_julian = (\<lambda>(y, m, d). civil_days y m d + 2440588)"

definition greg_ok :: "int \<times> nat \<times> nat \<Rightarrow> bool" where
  "greg_ok = (\<lambda>(y, m, d). valid_ymd y m d)"

definition greg_from_julian :: "int \<Rightarrow> (int \<times> nat \<times> nat) option" where
  "greg_from_julian j = find (\<lambda>x. greg_ok x \<and> greg_julian x = j) (greg_dates (days_since_epoch_to_year (j - 2440588)))"

definition gregorian :: "(int \<times> nat \<times> nat) time_crate" where
  "gregorian = \<lparr>month_try_from = \<lambda>n. if 1 \<le> n \<and> n \<le> 12 then Some n else None,
     from_calendar_date = \<lambda>y m d. if valid_ymd y m d then Some (y, m, d) else None,
     to_julian_day = greg_julian, from_julian_day = greg_from_julian,
     tc_year = fst, tc_month = fst \<circ> snd, tc_day = snd \<circ> snd,
     previous_day = \<lambda>x. greg_from_julian (greg_julian x - 1)\<rparr>"

lemma find_unique: "x \<in> set xs \<Longrightarrow> p x \<Longrightarrow> (\<And>y. y \<in> set xs \<Longrightarrow> p y \<Longrightarrow> y = x) \<Longrightarrow> find p xs = Some x"
proof (induction xs)
  case (Cons a xs)
  show ?case
  proof (cases "p a")
    case True
    then show ?thesis using Cons.prems(3) [of a] by simp
  next
    case False
    then have "x \<in> set xs" using Cons.prems(1,2) by auto
    then have "find p xs = Some x"
      by (rule Cons.IH [OF _ Cons.prems(2) Cons.prems(3) [OF list.set_intros(2)]])
    with False show ?thesis by simp
  qed
qed simp

lemma greg_from_julian: "greg_from_julian j = Some x \<longleftrightarrow> greg_ok x \<and> greg_julian x = j"
proof
  assume "greg_from_julian j = Some x"
  then show "greg_ok x \<and> greg_julian x = j" unfolding greg_from_julian_def by (auto simp: find_Some_iff)
next
  assume a: "greg_ok x \<and> greg_julian x = j"
  obtain y m d where x: "x = (y, m, d)" by (cases x)
  have v: "valid_ymd y m d" "j - 2440588 = civil_days y m d" using a x by (auto simp: greg_ok_def greg_julian_def)
  have "days_since_epoch_to_year (civil_days y m d) = y"
    using days_to_year [of "civil_days y m d"] civil_days_bounds [OF v(1)] civil_in_year [OF v(1)]
    by (intro year_unique [of _ "civil_days y m d"]) simp_all
  moreover have "x \<in> set (greg_dates y)"
    using v(1) x month_days_pos [of m y] by (auto simp: greg_dates_def valid_ymd_def image_iff)
  moreover have uniq: "z = x" if "greg_ok z \<and> greg_julian z = j" for z
    using that a x civil_days_inj [of _ _ _ y m d] by (auto simp: greg_ok_def greg_julian_def)
  ultimately have "x \<in> set (greg_dates (days_since_epoch_to_year (j - 2440588)))" using v(2) by simp
  then show "greg_from_julian j = Some x"
    unfolding greg_from_julian_def by (rule find_unique) (use a in simp, rule uniq)
qed

interpretation greg: calendar gregorian greg_ok
  by unfold_locales (auto simp: gregorian_def greg_ok_def greg_julian_def greg_from_julian split: if_splits)

section \<open>Properties\<close>

text \<open>C15: the fast path for the year. For every day an \<open>i32\<close> can hold, \<open>days_since_epoch_to_year\<close> is
  the year of the Gregorian calendar that contains it: with January 1 of 1970 at day 0 and years of
  365 days, or 366 when \<open>is_leap_year\<close> says so, the day lies between the start of that year and the
  start of the next.\<close>

theorem days_since_epoch_to_year_correct:
  assumes "- (2 ^ 31) \<le> d" and "d < 2 ^ 31"
  shows "year_start 1970 = 0 \<and> (\<forall>y. year_start (y + 1) = year_start y + (if is_leap_year y then 366 else 365))
    \<and> year_start (days_since_epoch_to_year d) \<le> d \<and> d < year_start (days_since_epoch_to_year d + 1)"
  using days_to_year [OF assms] year_start_1970 year_start_step by blast

theorem days_since_epoch_to_year_correct_witness:
  "year_start (days_since_epoch_to_year 20000) \<le> 20000 \<and> 20000 < year_start (days_since_epoch_to_year 20000 + 1)"
proof -
  have "- (2 ^ 31) \<le> (20000 :: int)" "(20000 :: int) < 2 ^ 31" by simp_all
  from days_since_epoch_to_year_correct [OF this] show ?thesis by blast
qed

text \<open>Calendar conversions. Over any calendar with the contract of the \<open>time\<close> crate, a date whose
  components \<open>to_ymd\<close> gives is made again from them by \<open>from_ymd\<close>, its fast-path year is the year
  component, and its day of the year counts from January 1 of that year.\<close>

theorem date_components_agree:
  assumes "calendar tc ok" and "- (2 ^ 31) \<le> date" and "date < 2 ^ 31" and "to_ymd tc date = Some (y, m, d)"
  shows "from_ymd tc y m d = Inr date \<and> date_year date = y
    \<and> (\<exists>k. doy tc date = Some k \<and> date = year_start y + int k - 1)"
proof -
  note v = calendar.to_ymdD [OF assms]
  have "m < 256 \<and> d < 256" using v(1) month_days_pos [of m y] by (auto simp: valid_ymd_def)
  then show ?thesis
    using calendar.from_ymd_iff [OF assms(1), of m d y date] v calendar.year_agrees [OF assms]
      calendar.doy_agrees [OF assms] by blast
qed

theorem date_components_agree_witness:
  "date_year 0 = 1970"
proof -
  have "to_ymd gregorian 0 = Some (1970, 1, 1)"
    using greg.to_ymd_iff [of 0 1970 1 1]
    by (simp add: valid_ymd_def month_days_def days_in_months_def civil_days_def year_start_1970)
  from date_components_agree [OF greg.calendar_axioms _ _ this] show ?thesis by simp
qed

text \<open>Adding an interval to a date moves the month by the interval's months, the year carrying,
  clamps the day to the length of the new month, and adds the microseconds to its midnight, as long
  as the new year is within the calendar.\<close>

theorem date_add_interval_correct:
  assumes "calendar tc ok" and "- (2 ^ 31) \<le> date" and "date < 2 ^ 31" and "to_ymd tc date = Some (y, m, d)"
    and "n = y * 12 + (int m - 1) + months iv" and "- 9999 \<le> n div 12" and "n div 12 \<le> 9998"
  shows "let ny = n div 12; nm = nat (n mod 12) + 1
    in date_add_interval tc date iv = Some (i64 (civil_days ny nm (min d (month_days ny nm)) * 86400000000 + micros iv))"
  unfolding Let_def by (rule calendar.add_interval_correct [OF assms refl refl])

theorem date_add_interval_correct_witness:
  "date_add_interval gregorian 30 \<lparr>months = 1, micros = 0\<rparr> = Some (i64 (civil_days 1970 2 28 * 86400000000 + 0))"
proof -
  have "to_ymd gregorian 30 = Some (1970, 1, 31)"
    using greg.to_ymd_iff [of 30 1970 1 31]
    by (simp add: valid_ymd_def month_days_def days_in_months_def civil_days_def year_start_1970)
  from date_add_interval_correct [OF greg.calendar_axioms _ _ this, of _ "\<lparr>months = 1, micros = 0\<rparr>"]
  show ?thesis by (simp add: month_days_def days_in_months_def is_leap_year_def trunc_rem_def trunc_div_def numeral_2_eq_2)
qed

lemma timestamp_split:
  assumes "- (2 ^ 63) \<le> ts" and "ts < 2 ^ 63"
  shows "to_date_time ts = (ts div 86400000000, nat (ts mod 86400000000))"
    and "from_date_time (fst (to_date_time ts)) (snd (to_date_time ts)) = ts"
    and "snd (to_date_time ts) < 86400000000"
proof -
  have "- (2 ^ 31) \<le> ts div 86400000000" "ts div 86400000000 < 2 ^ 31"
    using zdiv_mono1 [OF assms(1), of 86400000000] zdiv_mono1 [of ts "2 ^ 63" 86400000000] assms(2) by simp_all
  then show d: "to_date_time ts = (ts div 86400000000, nat (ts mod 86400000000))"
    by (simp add: to_date_time_def i32_id)
  have m: "0 \<le> ts mod 86400000000" "ts mod 86400000000 < 86400000000" by simp_all
  then show "snd (to_date_time ts) < 86400000000" by (simp add: d nat_less_iff)
  have "i64 (ts mod 86400000000) = ts mod 86400000000" using m by (simp add: i64_id)
  then show "from_date_time (fst (to_date_time ts)) (snd (to_date_time ts)) = ts"
    using assms m by (simp add: d from_date_time_def i64_id)
qed

lemma timestamp_join:
  assumes "- 106751990 \<le> date" and "date < 106751990" and "t < 86400000000"
  shows "to_date_time (from_date_time date t) = (date, t)"
proof -
  have "i64 (int t) = int t" "i64 (date * 86400000000 + int t) = date * 86400000000 + int t"
    using assms by (simp_all add: i64_id)
  moreover have "i32 date = date" using assms by (simp add: i32_id)
  moreover have "(date * 86400000000 + int t) div 86400000000 = date"
    using assms(3) by (intro int_div_pos_eq [of _ _ _ "int t"]) simp_all
  ultimately show ?thesis
    using assms(3) by (simp add: from_date_time_def to_date_time_def)
qed

lemma i32_u64: "sint (ucast (ucast (word_of_int n :: u32) :: u64) :: u32) = i32 n"
proof -
  have "ucast (ucast w :: u64) = w" for w :: u32 by (rule bit_word_eqI) (simp add: bit_ucast_iff)
  then show ?thesis by (simp add: i32_def)
qed

lemma i64_u64: "sint (word_of_int n :: u64) = i64 n"
  by (simp add: i64_def)

lemma hms_roundtrip:
  assumes "h < 24" and "mi < 60" and "s < 60" and "ns < 1000000000"
  shows "to_hms_micro (h * 3600000000 + mi * 60000000 + s * 1000000 + ns div 1000) = (h, mi, s, ns div 1000)"
proof -
  define us where "us = ns div 1000"
  have us: "us < 1000000" using assms(4) by (simp add: us_def less_mult_imp_div_less)
  let ?t = "h * 3600000000 + mi * 60000000 + s * 1000000 + us"
  have "?t = us + (h * 3600 + mi * 60 + s) * 1000000" by simp
  then have "?t div 1000000 = h * 3600 + mi * 60 + s" "?t mod 1000000 = us"
    using us by (simp_all only: div_mult_self1 mod_mult_self1 mod_less div_less)
  moreover have "?t div 60000000 = h * 60 + mi"
    using us assms(3) by (intro div_nat_eqI) simp_all
  moreover have "?t div 3600000000 = h"
    using us assms(2,3) by (intro div_nat_eqI) simp_all
  moreover have "(h * 3600 + mi * 60 + s) mod 60 = s"
    using assms(3) mod_mult_self1 [of s "h * 60 + mi" 60] by (simp add: ac_simps)
  ultimately show ?thesis using assms unfolding us_def [symmetric]
    by (simp add: to_hms_micro_def)
qed

text \<open>Encodings: a timestamp splits into a date and a time of day below 24 hours and is put together
  again from them, and conversely; dates and intervals survive their \<open>u64\<close> encodings; a time made
  from in-range hours, minutes, seconds and nanoseconds gives them back to the microsecond.\<close>

theorem datetime_roundtrips:
  assumes "- (2 ^ 63) \<le> ts" and "ts < 2 ^ 63"
    and "- 106751990 \<le> date" and "date < 106751990" and "t < 86400000000"
    and "- (2 ^ 31) \<le> months iv" and "months iv < 2 ^ 31" and "- (2 ^ 63) \<le> micros iv" and "micros iv < 2 ^ 63"
    and "h < 24" and "mi < 60" and "s < 60" and "ns < 1000000000" and "hms_ok h mi s ns"
  shows "from_date_time (fst (to_date_time ts)) (snd (to_date_time ts)) = ts
    \<and> snd (to_date_time ts) < 86400000000
    \<and> to_date_time (from_date_time date t) = (date, t)
    \<and> timestamp_from_u64 (timestamp_to_u64 ts) = ts
    \<and> date_from_u64 (date_to_u64 date) = date
    \<and> from_u64_pair (to_u64_pair iv) = iv
    \<and> map_sum id to_hms_micro (from_hms_nano hms_ok h mi s ns) = Inr (h, mi, s, ns div 1000)"
proof -
  have "from_u64_pair (to_u64_pair iv) = iv"
    using assms(6-9) by (simp add: from_u64_pair_def to_u64_pair_def i32_u64 i64_u64 i32_id i64_id)
  moreover have "date_from_u64 (date_to_u64 date) = date"
    using assms(3,4) by (simp add: date_from_u64_def date_to_u64_def i32_u64 i32_id)
  moreover have "timestamp_from_u64 (timestamp_to_u64 ts) = ts"
    using assms(1,2) by (simp add: timestamp_from_u64_def timestamp_to_u64_def i64_u64 i64_id)
  moreover have "from_hms_nano hms_ok h mi s ns = Inr (h * 3600000000 + mi * 60000000 + s * 1000000 + ns div 1000)"
    using assms(10-14) by (simp add: from_hms_nano_def)
  ultimately show ?thesis
    using timestamp_split [OF assms(1,2)] timestamp_join [OF assms(3-5)] hms_roundtrip [OF assms(10-13)] by simp
qed

theorem datetime_roundtrips_witness:
  "to_date_time (from_date_time 3 5) = (3, 5)"
  using datetime_roundtrips [of 0 3 5 "\<lparr>months = 0, micros = 0\<rparr>" 0 0 0 0 "\<lambda>_ _ _ _. True"] by simp

end
