(* ===== verification/Buffer_Pool.thy ===== *)
theory Buffer_Pool
  imports Page
begin

text \<open>
  The buffer pool of src/storage/buffer_pool.rs: frames, page table, clock eviction with
  write-back, pinning and flushing. Table files are byte lists, one per table id; a write past
  the end of a file fills the gap with zeros. Which system calls fail is the parameter
  \<open>pool_env\<close>; a panic (no evictable frame, an impossible cast) is \<open>None\<close>. The iteration order
  of the page table in the flush operations is an argument. The cache of file handles is not
  observable, since every access re-opens the file, and is left out.
\<close>

section \<open>State\<close>

record page_id =
  table_id :: u64
  page_num :: u32

definition page_id_new :: "u64 \<Rightarrow> u32 \<Rightarrow> page_id" where
  "page_id_new t n = \<lparr>table_id = t, page_num = n\<rparr>"

record frame =
  fpage :: page
  pin_count :: u32
  dirty :: bool
  referenced :: bool
  fpage_id :: "page_id option"

type_synonym table_files = "u64 \<Rightarrow> bytes"

record buffer_pool =
  data_dir :: string
  frames :: "frame list"
  page_table :: "page_id \<Rightarrow> nat option"
  clock_hand :: nat
  next_page_num :: "u64 \<Rightarrow> u32 option"
  tables :: table_files

text \<open>\<open>read_fails\<close>: opening, seeking or reading the page fails with an error other than end of
  file. \<open>write_fails\<close>: the write fails and leaves the given file content.\<close>

record pool_env =
  read_fails :: "table_files \<Rightarrow> page_id \<Rightarrow> bool"
  write_fails :: "table_files \<Rightarrow> page_id \<Rightarrow> bytes option"

type_synonym 'a pool_result = "('a result \<times> buffer_pool) option"

definition empty_frame :: frame where
  "empty_frame = \<lparr>fpage = page_new, pin_count = 0, dirty = False, referenced = False, fpage_id = None\<rparr>"

definition pool_new :: "bool \<Rightarrow> string \<Rightarrow> nat \<Rightarrow> table_files \<Rightarrow> buffer_pool result" where
  "pool_new dir_ok dir cap fs =
     (if dir_ok then
        Inr \<lparr>data_dir = dir, frames = replicate cap empty_frame, page_table = Map.empty,
             clock_hand = 0, next_page_num = Map.empty, tables = fs\<rparr>
      else Inl Io)"

section \<open>Disk access\<close>

definition page_offset_of :: "page_id \<Rightarrow> nat" where
  "page_offset_of pid = unat (page_num pid) * PAGE_SIZE"

text \<open>\<open>pwrite f off bs\<close> is a seek to \<open>off\<close> followed by a write of \<open>bs\<close>.\<close>

definition pwrite :: "bytes \<Rightarrow> nat \<Rightarrow> bytes \<Rightarrow> bytes" where
  "pwrite f off bs = take off (f @ replicate (off - length f) 0) @ bs @ drop (off + length bs) f"

definition read_page_from_disk ::
  "pool_env \<Rightarrow> (bytes \<Rightarrow> page_header option) \<Rightarrow> table_files \<Rightarrow> page_id \<Rightarrow> page result option" where
  "read_page_from_disk env fb fs pid =
     (let f = fs (table_id pid); offset = page_offset_of pid
      in if read_fails env fs pid then Some (Inl Io)
         else if length f < offset + PAGE_SIZE then Some (Inr page_new)
         else case from_bytes fb (window f offset PAGE_SIZE) of
                None \<Rightarrow> None
              | Some (Inl _) \<Rightarrow> Some (Inl Io)
              | Some (Inr p) \<Rightarrow> Some (Inr p))"

definition write_page_to_disk ::
  "pool_env \<Rightarrow> (page_header \<Rightarrow> bytes) \<Rightarrow> table_files \<Rightarrow> page_id \<Rightarrow> page \<Rightarrow> unit result \<times> table_files" where
  "write_page_to_disk env bo fs pid p =
     (case write_fails env fs pid of
        Some f \<Rightarrow> (Inl Io, fs(table_id pid := f))
      | None \<Rightarrow> (Inr (), fs(table_id pid := pwrite (fs (table_id pid)) (page_offset_of pid) (to_bytes bo p))))"

section \<open>Operations\<close>

text \<open>The loop of \<open>find_victim\<close>, with the remaining iterations as the first argument.\<close>

primrec victim_loop :: "nat \<Rightarrow> buffer_pool \<Rightarrow> (nat \<times> buffer_pool) option" where
  "victim_loop 0 p = None"
| "victim_loop (Suc k) p =
     (let idx = clock_hand p;
          p1 = p\<lparr>clock_hand := (clock_hand p + 1) mod length (frames p)\<rparr>;
          fr = frames p ! idx
      in if pin_count fr = 0 then
           if referenced fr then
             victim_loop k (p1\<lparr>frames := (frames p1)[idx := fr\<lparr>referenced := False\<rparr>]\<rparr>)
           else Some (idx, p1)
         else victim_loop k p1)"

definition find_victim :: "buffer_pool \<Rightarrow> (nat \<times> buffer_pool) option" where
  "find_victim p = victim_loop (2 * length (frames p)) p"

definition fetch_page ::
  "pool_env \<Rightarrow> (page_header \<Rightarrow> bytes) \<Rightarrow> (bytes \<Rightarrow> page_header option) \<Rightarrow> buffer_pool \<Rightarrow> page_id \<Rightarrow> nat pool_result" where
  "fetch_page env bo fb p pid =
     (case page_table p pid of
        Some idx \<Rightarrow>
          let fr = frames p ! idx
          in Some (Inr idx, p\<lparr>frames := (frames p)[idx := fr\<lparr>pin_count := pin_count fr + 1, referenced := True\<rparr>]\<rparr>)
      | None \<Rightarrow>
          (case find_victim p of
             None \<Rightarrow> None
           | Some (idx, p) \<Rightarrow>
               let fr = frames p ! idx;
                   (r, fs) = (case fpage_id fr of
                       Some vpid \<Rightarrow> if dirty fr then write_page_to_disk env bo (tables p) vpid (fpage fr)
                                   else (Inr (), tables p)
                     | None \<Rightarrow> (Inr (), tables p));
                   p = p\<lparr>tables := fs\<rparr>
               in case r of
                    Inl e \<Rightarrow> Some (Inl e, p)
                  | Inr _ \<Rightarrow>
                      let p = (case fpage_id fr of
                            Some vpid \<Rightarrow> p\<lparr>page_table := (page_table p)(vpid := None)\<rparr>
                          | None \<Rightarrow> p)
                      in case read_page_from_disk env fb (tables p) pid of
                           None \<Rightarrow> None
                         | Some (Inl e) \<Rightarrow> Some (Inl e, p)
                         | Some (Inr pg) \<Rightarrow>
                             Some (Inr idx,
                               p\<lparr>frames := (frames p)[idx := \<lparr>fpage = pg, pin_count = 1, dirty = False,
                                     referenced = True, fpage_id = Some pid\<rparr>],
                                 page_table := (page_table p)(pid := Some idx)\<rparr>)))"

definition new_page ::
  "pool_env \<Rightarrow> (page_header \<Rightarrow> bytes) \<Rightarrow> (bytes \<Rightarrow> page_header option) \<Rightarrow> buffer_pool \<Rightarrow> u64 \<Rightarrow> page_id pool_result" where
  "new_page env bo fb p tid =
     (let num = (case next_page_num p tid of None \<Rightarrow> 0 | Some n \<Rightarrow> n);
          pid = page_id_new tid num;
          p = p\<lparr>next_page_num := (next_page_num p)(tid := Some (num + 1))\<rparr>
      in case fetch_page env bo fb p pid of
           None \<Rightarrow> None
         | Some (Inl e, p) \<Rightarrow> Some (Inl e, p)
         | Some (Inr idx, p) \<Rightarrow>
             Some (Inr pid, p\<lparr>frames := (frames p)[idx := (frames p ! idx)\<lparr>dirty := True\<rparr>]\<rparr>))"

definition unpin_page :: "buffer_pool \<Rightarrow> page_id \<Rightarrow> bool \<Rightarrow> buffer_pool" where
  "unpin_page p pid d =
     (case page_table p pid of
        None \<Rightarrow> p
      | Some idx \<Rightarrow>
          let fr = frames p ! idx;
              fr = (if pin_count fr > 0 then fr\<lparr>pin_count := pin_count fr - 1\<rparr> else fr);
              fr = (if d then fr\<lparr>dirty := True\<rparr> else fr)
          in p\<lparr>frames := (frames p)[idx := fr]\<rparr>)"

definition get_page :: "buffer_pool \<Rightarrow> nat \<Rightarrow> page option" where
  "get_page p idx = (if idx < length (frames p) then Some (fpage (frames p ! idx)) else None)"

text \<open>A write through the reference returned by \<open>get_page_mut\<close>.\<close>

definition put_page :: "buffer_pool \<Rightarrow> nat \<Rightarrow> page \<Rightarrow> buffer_pool option" where
  "put_page p idx pg =
     (if idx < length (frames p)
      then Some (p\<lparr>frames := (frames p)[idx := (frames p ! idx)\<lparr>fpage := pg\<rparr>]\<rparr>) else None)"

text \<open>The flush loops over the keys of the page table; \<open>sel\<close> is the table filter of
  \<open>flush_table\<close>.\<close>

primrec flush_keys ::
  "pool_env \<Rightarrow> (page_header \<Rightarrow> bytes) \<Rightarrow> (page_id \<Rightarrow> bool) \<Rightarrow> page_id list \<Rightarrow> buffer_pool \<Rightarrow> unit result \<times> buffer_pool" where
  "flush_keys env bo sel [] p = (Inr (), p)"
| "flush_keys env bo sel (pid # pids) p =
     (case page_table p pid of
        None \<Rightarrow> flush_keys env bo sel pids p
      | Some idx \<Rightarrow>
          let fr = frames p ! idx
          in if sel pid \<and> dirty fr then
               (case write_page_to_disk env bo (tables p) pid (fpage fr) of
                  (Inl e, fs) \<Rightarrow> (Inl e, p\<lparr>tables := fs\<rparr>)
                | (Inr _, fs) \<Rightarrow>
                    flush_keys env bo sel pids
                      (p\<lparr>tables := fs, frames := (frames p)[idx := fr\<lparr>dirty := False\<rparr>]\<rparr>))
             else flush_keys env bo sel pids p)"

definition flush_table ::
  "pool_env \<Rightarrow> (page_header \<Rightarrow> bytes) \<Rightarrow> page_id list \<Rightarrow> u64 \<Rightarrow> buffer_pool \<Rightarrow> unit result \<times> buffer_pool" where
  "flush_table env bo keys tid p = flush_keys env bo (\<lambda>pid. table_id pid = tid) keys p"

definition flush_all ::
  "pool_env \<Rightarrow> (page_header \<Rightarrow> bytes) \<Rightarrow> page_id list \<Rightarrow> buffer_pool \<Rightarrow> unit result \<times> buffer_pool" where
  "flush_all env bo keys p = flush_keys env bo (\<lambda>_. True) keys p"

definition page_count :: "buffer_pool \<Rightarrow> u64 \<Rightarrow> u32" where
  "page_count p tid = of_nat (length (tables p tid) div PAGE_SIZE)"

section \<open>Files as sequences of pages\<close>

definition file_page :: "(bytes \<Rightarrow> page_header option) \<Rightarrow> bytes \<Rightarrow> nat \<Rightarrow> page" where
  "file_page fb f k =
     (if 4096 * k + 4096 \<le> length f
      then (case from_bytes fb (window f (4096 * k) 4096) of Some (Inr p) \<Rightarrow> p | _ \<Rightarrow> page_new)
      else page_new)"

definition disk_page :: "(bytes \<Rightarrow> page_header option) \<Rightarrow> table_files \<Rightarrow> page_id \<Rightarrow> page" where
  "disk_page fb fs pid = file_page fb (fs (table_id pid)) (unat (page_num pid))"

text \<open>
  What page files need of the header codec beyond the round trip: every 64 bytes decode (the
  struct is plain old data), and the default header is all zeros.
\<close>

locale pod_file = pod_codec +
  assumes bo_default: "bo default_header = replicate HEADER_SIZE 0"
    and fb_total: "length bs = HEADER_SIZE \<Longrightarrow> fb bs \<noteq> None"
begin

lemma from_bytes_total:
  assumes "length bs = 4096"
  obtains p where "from_bytes fb bs = Some (Inr p)" and "wf_page p"
proof -
  from assms fb_total [of "take HEADER_SIZE bs"] obtain h where "fb (take HEADER_SIZE bs) = Some h"
    by (auto simp: HEADER_SIZE_def)
  with assms have "from_bytes fb bs = Some (Inr \<lparr>header = h, cells = window bs HEADER_SIZE (PAGE_SIZE - HEADER_SIZE)\<rparr>)"
    by (simp add: from_bytes_def PAGE_SIZE_def)
  with that show thesis using assms by (simp add: wf_page_def page_consts)
qed

lemma to_bytes_page_new: "to_bytes bo page_new = replicate 4096 0"
  by (simp add: to_bytes_def page_new_def bo_default page_consts flip: replicate_add)

lemma from_bytes_zeros: "from_bytes fb (replicate 4096 0) = Some (Inr page_new)"
  using from_bytes_to_bytes [OF wf_page_new, of "[]"] by (simp add: to_bytes_page_new)

lemma file_page_wf [simp]: "wf_page (file_page fb f k)"
proof (cases "4096 * k + 4096 \<le> length f")
  case True
  then have "length (window f (4096 * k) 4096) = 4096" by simp
  then obtain p where "from_bytes fb (window f (4096 * k) 4096) = Some (Inr p)" "wf_page p"
    by (rule from_bytes_total)
  with True show ?thesis by (simp add: file_page_def)
qed (simp add: file_page_def)

lemma read_page_from_disk_ok:
  assumes "\<not> read_fails env fs pid"
  shows "read_page_from_disk env fb fs pid = Some (Inr (disk_page fb fs pid))"
proof (cases "length (fs (table_id pid)) < page_offset_of pid + PAGE_SIZE")
  case True
  with assms show ?thesis
    by (simp add: read_page_from_disk_def disk_page_def file_page_def page_offset_of_def PAGE_SIZE_def mult.commute)
next
  case False
  let ?w = "window (fs (table_id pid)) (page_offset_of pid) PAGE_SIZE"
  have "length ?w = 4096" using False by (simp add: PAGE_SIZE_def)
  then obtain p where "from_bytes fb ?w = Some (Inr p)" by (rule from_bytes_total)
  with assms False show ?thesis
    by (simp add: read_page_from_disk_def disk_page_def file_page_def page_offset_of_def PAGE_SIZE_def mult.commute)
qed

lemma pwrite_inside:
  "off + length bs \<le> length f \<Longrightarrow> pwrite f off bs = patch f off bs"
  by (simp add: pwrite_def patch_def)

lemma pwrite_outside:
  "length f \<le> off \<Longrightarrow> pwrite f off bs = f @ replicate (off - length f) 0 @ bs"
  by (simp add: pwrite_def)

lemma file_page_pwrite:
  assumes "4096 dvd length f" and "wf_page p"
  shows "file_page fb (pwrite f (4096 * k) (to_bytes bo p)) j = (if j = k then p else file_page fb f j)"
    and "4096 dvd length (pwrite f (4096 * k) (to_bytes bo p))"
proof -
  let ?b = "to_bytes bo p" and ?f = "pwrite f (4096 * k) (to_bytes bo p)"
  from assms(1) obtain n where n: "length f = 4096 * n" by (rule dvdE)
  have b: "length ?b = 4096" using length_to_bytes [OF assms(2)] by (simp add: PAGE_SIZE_def)
  have rt: "from_bytes fb ?b = Some (Inr p)" using from_bytes_to_bytes [OF assms(2), of "[]"] by simp
  show "4096 dvd length ?f"
    using n b by (cases "k < n") (simp_all add: pwrite_inside pwrite_outside)
  show "file_page fb ?f j = (if j = k then p else file_page fb f j)"
  proof (cases "k < n")
    case True
    then have f: "?f = patch f (4096 * k) ?b" and l: "length ?f = length f"
      using n b by (simp_all add: pwrite_inside)
    have "window ?f (4096 * j) 4096 = (if j = k then ?b else window f (4096 * j) 4096)" if "j < n"
    proof (cases "j = k")
      case True
      then show ?thesis using \<open>k < n\<close> n b by (simp add: f)
    next
      case False
      then have "4096 * j + 4096 \<le> 4096 * k \<or> 4096 * k + 4096 \<le> 4096 * j" by linarith
      with False that \<open>k < n\<close> n b show ?thesis
        unfolding f by (simp, intro window_patch_other) simp_all
    qed
    then show ?thesis using n rt True by (auto simp: file_page_def l)
  next
    case False
    then have f: "?f = f @ replicate (4096 * (k - n)) 0 @ ?b" and l: "length ?f = 4096 * (k + 1)"
      using n b by (simp_all add: pwrite_outside diff_mult_distrib2)
    have "window ?f (4096 * j) 4096 = (if j < n then window f (4096 * j) 4096
        else if j < k then replicate 4096 0 else ?b)" if "j \<le> k"
      using that False n b
      by (auto simp: f window_def diff_mult_distrib2 [symmetric] min_def not_le)
    then show ?thesis
      using n rt False from_bytes_zeros by (auto simp: file_page_def l)
  qed
qed

end

interpretation le_file: pod_file le_bytes_of le_from_bytes
proof
  have "to_le 8 (0 :: u64) = replicate 8 0" by (rule nth_equalityI) (simp_all add: nth_to_le)
  then show "le_bytes_of default_header = replicate HEADER_SIZE 0"
    by (simp add: le_bytes_of_def default_header_def HEADER_SIZE_def flip: replicate_add)
qed (simp add: le_from_bytes_def)

section \<open>Eviction\<close>

text \<open>\<open>find_victim\<close> only moves the hand and clears reference bits.\<close>

definition same_content :: "buffer_pool \<Rightarrow> buffer_pool \<Rightarrow> bool" where
  "same_content p p' \<longleftrightarrow> length (frames p') = length (frames p) \<and> page_table p' = page_table p \<and>
     tables p' = tables p \<and> next_page_num p' = next_page_num p \<and>
     (\<forall>i<length (frames p). fpage (frames p' ! i) = fpage (frames p ! i) \<and>
        pin_count (frames p' ! i) = pin_count (frames p ! i) \<and> dirty (frames p' ! i) = dirty (frames p ! i) \<and>
        fpage_id (frames p' ! i) = fpage_id (frames p ! i))"

lemma same_content_trans: "same_content p q \<Longrightarrow> same_content q r \<Longrightarrow> same_content p r"
  by (simp add: same_content_def)

lemma nth_upd: "j < length xs \<Longrightarrow> xs[i := x] ! j = (if i = j then x else xs ! j)"
  by (cases "i < length xs") (simp_all add: nth_list_update)

lemma same_content_step:
  "same_content p (p\<lparr>clock_hand := h\<rparr>)"
  "same_content p (p\<lparr>clock_hand := h, frames := (frames p)[i := (frames p ! i)\<lparr>referenced := b\<rparr>]\<rparr>)"
  by (simp_all add: same_content_def nth_upd)

lemma victim_loop_sound:
  assumes "victim_loop k p = Some (i, p')" and "clock_hand p < length (frames p)"
  shows "same_content p p' \<and> i < length (frames p) \<and> pin_count (frames p ! i) = 0 \<and>
    clock_hand p' < length (frames p)"
  using assms
proof (induction k arbitrary: p)
  case (Suc k)
  let ?h = "clock_hand p" and ?n = "length (frames p)"
  let ?p1 = "p\<lparr>clock_hand := (?h + 1) mod ?n\<rparr>"
  let ?p2 = "p\<lparr>clock_hand := (?h + 1) mod ?n, frames := (frames p)[?h := (frames p ! ?h)\<lparr>referenced := False\<rparr>]\<rparr>"
  have h: "(?h + 1) mod ?n < ?n" using Suc.prems(2) by (intro mod_less_divisor) linarith
  show ?case
  proof (cases "pin_count (frames p ! ?h) = 0")
    case pin: True
    show ?thesis
    proof (cases "referenced (frames p ! ?h)")
      case True
      with pin Suc.prems(1) have "victim_loop k ?p2 = Some (i, p')" by (simp add: Let_def)
      from Suc.IH [OF this] h have "same_content ?p2 p'" "i < ?n" "pin_count (frames ?p2 ! i) = 0"
        "clock_hand p' < ?n" by simp_all
      moreover have "same_content p ?p2" by (rule same_content_step)
      moreover have "pin_count (frames ?p2 ! i) = pin_count (frames p ! i)"
        using \<open>i < ?n\<close> by (simp add: nth_upd)
      ultimately show ?thesis using same_content_trans [of p ?p2 p'] by simp
    next
      case False
      with pin Suc.prems(1) have "i = ?h" "p' = ?p1" by (auto simp: Let_def)
      then show ?thesis using pin h Suc.prems(2) by (simp add: same_content_step)
    qed
  next
    case False
    with Suc.prems(1) have "victim_loop k ?p1 = Some (i, p')" by (simp add: Let_def)
    from Suc.IH [OF this] h have "same_content ?p1 p'" "i < ?n" "pin_count (frames p ! i) = 0"
      "clock_hand p' < ?n" by simp_all
    moreover have "same_content p ?p1" by (rule same_content_step)
    ultimately show ?thesis using same_content_trans [of p ?p1 p'] by simp
  qed
qed simp

text \<open>The number of steps of the hand until it points at frame \<open>j\<close>.\<close>

definition hand_distance :: "buffer_pool \<Rightarrow> nat \<Rightarrow> nat" where
  "hand_distance p j = (if clock_hand p \<le> j then j - clock_hand p else j + length (frames p) - clock_hand p)"

lemma hand_distance_step:
  assumes "clock_hand p < length (frames p)" and "j < length (frames p)" and "clock_hand p \<noteq> j"
    and "clock_hand q = (clock_hand p + 1) mod length (frames p)" and "length (frames q) = length (frames p)"
  shows "hand_distance p j = Suc (hand_distance q j)"
  using assms by (cases "clock_hand p + 1 = length (frames p)") (auto simp: hand_distance_def)

lemma victim_loop_unreferenced:
  assumes "clock_hand p < length (frames p)" and "j < length (frames p)"
    and "pin_count (frames p ! j) = 0" and "\<not> referenced (frames p ! j)" and "hand_distance p j < k"
  shows "victim_loop k p \<noteq> None"
  using assms
proof (induction k arbitrary: p)
  case (Suc k)
  let ?h = "clock_hand p"
  show ?case
  proof (cases "?h = j")
    case False
    have h: "(?h + 1) mod length (frames p) < length (frames p)"
      using Suc.prems(1) by (intro mod_less_divisor) linarith
    let ?p1 = "p\<lparr>clock_hand := (?h + 1) mod length (frames p)\<rparr>"
    let ?p2 = "p\<lparr>clock_hand := (?h + 1) mod length (frames p),
        frames := (frames p)[?h := (frames p ! ?h)\<lparr>referenced := False\<rparr>]\<rparr>"
    have "victim_loop k ?p1 \<noteq> None" "victim_loop k ?p2 \<noteq> None"
      using Suc.prems False h hand_distance_step [of p j ?p1] hand_distance_step [of p j ?p2]
      by (intro Suc.IH; simp)+
    then show ?thesis by (simp add: Let_def)
  qed (use Suc.prems in \<open>simp add: Let_def\<close>)
qed simp

lemma victim_loop_unpinned:
  assumes "clock_hand p < length (frames p)" and "j < length (frames p)"
    and "pin_count (frames p ! j) = 0" and "hand_distance p j + length (frames p) < k"
  shows "victim_loop k p \<noteq> None"
  using assms
proof (induction k arbitrary: p)
  case (Suc k)
  let ?h = "clock_hand p"
  have h: "(?h + 1) mod length (frames p) < length (frames p)"
    using Suc.prems(1) by (intro mod_less_divisor) linarith
  let ?p1 = "p\<lparr>clock_hand := (?h + 1) mod length (frames p)\<rparr>"
  let ?p2 = "p\<lparr>clock_hand := (?h + 1) mod length (frames p),
      frames := (frames p)[?h := (frames p ! ?h)\<lparr>referenced := False\<rparr>]\<rparr>"
  show ?case
  proof (cases "?h = j")
    case True
    have "hand_distance ?p2 j < length (frames p)" using h Suc.prems(2) by (auto simp: hand_distance_def)
    then have "victim_loop k ?p2 \<noteq> None"
      using Suc.prems True h by (intro victim_loop_unreferenced [of _ j]) simp_all
    then show ?thesis using True Suc.prems by (simp add: Let_def)
  next
    case False
    have "victim_loop k ?p1 \<noteq> None" "victim_loop k ?p2 \<noteq> None"
      using Suc.prems False h hand_distance_step [of p j ?p1] hand_distance_step [of p j ?p2]
      by (intro Suc.IH; simp)+
    then show ?thesis by (simp add: Let_def)
  qed
qed simp

lemma find_victim_None_iff:
  assumes "frames p \<noteq> [] \<longrightarrow> clock_hand p < length (frames p)"
  shows "find_victim p = None \<longleftrightarrow> (\<forall>fr\<in>set (frames p). pin_count fr \<noteq> 0)"
proof
  assume none: "find_victim p = None"
  show "\<forall>fr\<in>set (frames p). pin_count fr \<noteq> 0"
  proof (intro ballI notI)
    fix fr assume "fr \<in> set (frames p)" and z: "pin_count fr = 0"
    then obtain j where j: "j < length (frames p)" "frames p ! j = fr" by (auto simp: in_set_conv_nth)
    have hd: "clock_hand p < length (frames p)" using assms j(1) by auto
    show False
    proof (cases "hand_distance p j + length (frames p) < 2 * length (frames p)")
      case True
      from victim_loop_unpinned [OF hd j(1) _ True] none z j show False by (simp add: find_victim_def)
    qed (use j hd in \<open>auto simp: hand_distance_def split: if_splits\<close>)
  qed
next
  assume pinned: "\<forall>fr\<in>set (frames p). pin_count fr \<noteq> 0"
  show "find_victim p = None"
  proof (cases "find_victim p")
    case (Some r)
    then have "clock_hand p < length (frames p)" using assms by (cases "frames p") (auto simp: find_victim_def)
    with Some victim_loop_sound [of _ p "fst r" "snd r"] pinned show ?thesis
      by (force simp: find_victim_def)
  qed
qed

section \<open>The logical page store\<close>

text \<open>
  What a client of the pool sees: the resident copy if there is one, else the page on disk.
  \<open>M\<close> is the set of pages changed through \<open>get_page_mut\<close> and not yet unpinned as dirty; the
  pool's contract is that such pages stay pinned.
\<close>

definition pool_view :: "(bytes \<Rightarrow> page_header option) \<Rightarrow> buffer_pool \<Rightarrow> page_id \<Rightarrow> page" where
  "pool_view fb p pid =
     (case page_table p pid of Some i \<Rightarrow> fpage (frames p ! i) | None \<Rightarrow> disk_page fb (tables p) pid)"

definition pool_inv :: "(bytes \<Rightarrow> page_header option) \<Rightarrow> buffer_pool \<Rightarrow> page_id set \<Rightarrow> bool" where
  "pool_inv fb p M \<longleftrightarrow>
     (\<forall>t. 4096 dvd length (tables p t)) \<and>
     (\<forall>i<length (frames p). wf_page (fpage (frames p ! i))) \<and>
     (frames p \<noteq> [] \<longrightarrow> clock_hand p < length (frames p)) \<and>
     (\<forall>pid i. page_table p pid = Some i \<longleftrightarrow> i < length (frames p) \<and> fpage_id (frames p ! i) = Some pid) \<and>
     (\<forall>pid i. page_table p pid = Some i \<longrightarrow>
        dirty (frames p ! i) \<or> pid \<in> M \<or> fpage (frames p ! i) = disk_page fb (tables p) pid) \<and>
     (\<forall>pid\<in>M. \<exists>i. page_table p pid = Some i \<and> pin_count (frames p ! i) \<noteq> 0)"

lemma pool_invD:
  assumes "pool_inv fb p M"
  shows "4096 dvd length (tables p t)"
    and "i < length (frames p) \<Longrightarrow> wf_page (fpage (frames p ! i))"
    and "frames p \<noteq> [] \<Longrightarrow> clock_hand p < length (frames p)"
    and "page_table p pid = Some i \<longleftrightarrow> i < length (frames p) \<and> fpage_id (frames p ! i) = Some pid"
    and "page_table p pid = Some i \<Longrightarrow>
        dirty (frames p ! i) \<or> pid \<in> M \<or> fpage (frames p ! i) = disk_page fb (tables p) pid"
    and "pid \<in> M \<Longrightarrow> \<exists>i. page_table p pid = Some i \<and> pin_count (frames p ! i) \<noteq> 0"
  using assms unfolding pool_inv_def by blast+

lemma pool_invI:
  assumes "\<And>t. 4096 dvd length (tables p t)"
    and "\<And>i. i < length (frames p) \<Longrightarrow> wf_page (fpage (frames p ! i))"
    and "frames p \<noteq> [] \<Longrightarrow> clock_hand p < length (frames p)"
    and "\<And>pid i. page_table p pid = Some i \<longleftrightarrow> i < length (frames p) \<and> fpage_id (frames p ! i) = Some pid"
    and "\<And>pid i. page_table p pid = Some i \<Longrightarrow>
        dirty (frames p ! i) \<or> pid \<in> M \<or> fpage (frames p ! i) = disk_page fb (tables p) pid"
    and "\<And>pid. pid \<in> M \<Longrightarrow> \<exists>i. page_table p pid = Some i \<and> pin_count (frames p ! i) \<noteq> 0"
  shows "pool_inv fb p M"
  using assms unfolding pool_inv_def by blast

lemma same_content_inv:
  assumes "pool_inv fb p M" and "same_content p p'" and "clock_hand p' < length (frames p)"
  shows "pool_inv fb p' M" and "pool_view fb p' = pool_view fb p"
proof -
  have lt: "page_table p pid = Some i \<Longrightarrow> i < length (frames p)" for pid i
    using pool_invD(4) [OF assms(1)] by blast
  note D = pool_invD [OF assms(1)] and S = assms(2) [unfolded same_content_def]
  show "pool_inv fb p' M"
  proof (rule pool_invI)
    show "page_table p' pid = Some i \<longleftrightarrow> i < length (frames p') \<and> fpage_id (frames p' ! i) = Some pid" for pid i
      using S D(4) [of pid i] by auto
    show "dirty (frames p' ! i) \<or> pid \<in> M \<or> fpage (frames p' ! i) = disk_page fb (tables p') pid"
      if "page_table p' pid = Some i" for pid i
      using that S D(5) [of pid i] lt [of pid i] by simp
    show "\<exists>i. page_table p' pid = Some i \<and> pin_count (frames p' ! i) \<noteq> 0" if "pid \<in> M" for pid
      using S D(6) [OF that] lt [of pid] by fastforce
  qed (use S D assms(3) in simp_all)
  show "pool_view fb p' = pool_view fb p"
    using assms(2) lt by (auto simp: pool_view_def same_content_def split: option.splits)
qed

lemma page_id_eq_iff: "a = (b :: page_id) \<longleftrightarrow> table_id a = table_id b \<and> unat (page_num a) = unat (page_num b)"
  by (cases a; cases b) (simp add: word_unat_eq_iff)

context pod_file
begin

lemma disk_page_write:
  assumes "\<And>t. 4096 dvd length (fs t)" and "wf_page pg"
    and "write_page_to_disk env bo fs pid pg = (Inr u, fs')"
  shows "disk_page fb fs' q = (if q = pid then pg else disk_page fb fs q)"
    and "4096 dvd length (fs' t)"
proof -
  let ?k = "unat (page_num pid)" and ?f = "fs (table_id pid)"
  have fs': "fs' = fs(table_id pid := pwrite ?f (4096 * ?k) (to_bytes bo pg))"
    using assms(3) by (auto simp: write_page_to_disk_def page_offset_of_def PAGE_SIZE_def mult.commute
      split: option.splits)
  show "disk_page fb fs' q = (if q = pid then pg else disk_page fb fs q)"
    using file_page_pwrite(1) [OF assms(1,2)]
    by (auto simp: disk_page_def fs' page_id_eq_iff)
  show "4096 dvd length (fs' t)"
    using assms(1) file_page_pwrite(2) [OF assms(1,2)] by (simp add: fs')
qed

lemma pool_write_back:
  assumes "pool_inv fb p M" and "page_table p pid = Some i"
    and "write_page_to_disk env bo (tables p) pid (fpage (frames p ! i)) = (Inr u, fs')"
  shows "pool_inv fb (p\<lparr>tables := fs'\<rparr>) M"
    and "pool_view fb (p\<lparr>tables := fs'\<rparr>) = pool_view fb p"
    and "disk_page fb fs' pid = fpage (frames p ! i)"
proof -
  have i: "i < length (frames p)" using pool_invD(4) [OF assms(1)] assms(2) by blast
  note W = disk_page_write [OF pool_invD(1) [OF assms(1)] pool_invD(2) [OF assms(1) i] assms(3)]
  show "disk_page fb fs' pid = fpage (frames p ! i)" by (simp add: W(1))
  show "pool_view fb (p\<lparr>tables := fs'\<rparr>) = pool_view fb p"
    using assms(2) by (auto simp: pool_view_def W(1) fun_eq_iff split: option.splits)
  have "dirty (frames p ! k) \<or> q \<in> M \<or> fpage (frames p ! k) = disk_page fb fs' q"
    if "page_table p q = Some k" for q k
    using that assms(2) pool_invD(5) [OF assms(1) that] by (cases "q = pid") (auto simp: W(1))
  then show "pool_inv fb (p\<lparr>tables := fs'\<rparr>) M"
    using pool_invD(2-4,6) [OF assms(1)] W(2) by (intro pool_invI) simp_all
qed

text \<open>Replacing the content of an evictable frame by a page that is not resident.\<close>

lemma pool_replace:
  assumes inv: "pool_inv fb p M" and i: "i < length (frames p)" and pin: "pin_count (frames p ! i) = 0"
    and clean: "\<And>v. fpage_id (frames p ! i) = Some v \<Longrightarrow> fpage (frames p ! i) = disk_page fb (tables p) v"
    and fresh: "page_table p pid = None"
    and fr: "fpage fr = disk_page fb (tables p) pid" "fpage_id fr = Some pid"
    and pt: "pt = (case fpage_id (frames p ! i) of Some v \<Rightarrow> (page_table p)(v := None) | None \<Rightarrow> page_table p)"
    and p': "p' = p\<lparr>frames := (frames p)[i := fr], page_table := pt(pid := Some i)\<rparr>"
  shows "pool_inv fb p' M" and "pool_view fb p' = pool_view fb p"
proof -
  note D = pool_invD [OF inv]
  have pt': "page_table p' q = (if q = pid then Some i else if fpage_id (frames p ! i) = Some q then None
      else page_table p q)" for q
    by (auto simp: p' pt split: option.splits)
  have fr': "frames p' ! k = (if k = i then fr else frames p ! k)" if "k < length (frames p)" for k
    using that by (simp add: p' nth_upd)
  have rest: "tables p' = tables p" "length (frames p') = length (frames p)" "clock_hand p' = clock_hand p"
    by (simp_all add: p')
  have ne: "k \<noteq> i" if "page_table p q = Some k" "fpage_id (frames p ! i) \<noteq> Some q" for q k
    using that D(4) by auto
  have notM: "v \<notin> M" if "fpage_id (frames p ! i) = Some v" for v
    using that D(4,6) i pin by (metis option.inject)
  have pidM: "pid \<notin> M" using D(6) [of pid] fresh by auto
  show "pool_view fb p' = pool_view fb p"
  proof
    fix q
    consider "q = pid" | "q \<noteq> pid" "fpage_id (frames p ! i) = Some q"
      | "q \<noteq> pid" "fpage_id (frames p ! i) \<noteq> Some q" by blast
    then show "pool_view fb p' q = pool_view fb p q"
    proof cases
      case 1
      then show ?thesis using fresh fr i by (simp add: pool_view_def pt' fr')
    next
      case 2
      then have "page_table p q = Some i" using D(4) i by blast
      with 2 clean show ?thesis by (simp add: pool_view_def pt' rest)
    next
      case 3
      show ?thesis
      proof (cases "page_table p q")
        case None
        with 3 show ?thesis by (simp add: pool_view_def pt' rest)
      next
        case (Some k)
        with 3 ne D(4) have "k \<noteq> i" "k < length (frames p)" by blast+
        with 3 Some show ?thesis by (simp add: pool_view_def pt' fr')
      qed
    qed
  qed
  have pt_iff: "page_table p' q = Some k \<longleftrightarrow> k < length (frames p') \<and> fpage_id (frames p' ! k) = Some q" for q k
  proof (cases "k = i")
    case True
    then show ?thesis using fr i D(4) [of q i] by (auto simp: pt' fr' rest)
  next
    case False
    have "fpage_id (frames p ! k) \<noteq> Some pid" if "k < length (frames p)"
      using D(4) [of pid k] fresh that by auto
    moreover have "fpage_id (frames p ! k) \<noteq> Some q" if "k < length (frames p)" "fpage_id (frames p ! i) = Some q"
      using D(4) [of q k] D(4) [of q i] that i False by auto
    ultimately show ?thesis using False D(4) [of q k] by (auto simp: pt' fr' rest)
  qed
  show "pool_inv fb p' M"
  proof (rule pool_invI)
    show "4096 dvd length (tables p' t)" for t using D(1) by (simp add: rest)
    show "wf_page (fpage (frames p' ! k))" if "k < length (frames p')" for k
      using that D(2) fr by (auto simp: fr' rest disk_page_def)
    show "clock_hand p' < length (frames p')" if "frames p' \<noteq> []"
      using D(3) i by (cases "frames p") (auto simp: rest)
    show "page_table p' q = Some k \<longleftrightarrow> k < length (frames p') \<and> fpage_id (frames p' ! k) = Some q" for q k
      by (rule pt_iff)
    show "dirty (frames p' ! k) \<or> q \<in> M \<or> fpage (frames p' ! k) = disk_page fb (tables p') q"
      if pk: "page_table p' q = Some k" for q k
    proof (cases "k = i")
      case True
      then have "q = pid" using pk fr i by (simp add: pt_iff fr' rest)
      with True fr i show ?thesis by (simp add: fr' rest)
    next
      case False
      have k: "k < length (frames p)" "page_table p q = Some k"
        using pk False by (auto simp: pt_iff fr' rest D(4))
      with D(5) [OF k(2)] False show ?thesis by (simp add: fr' rest)
    qed
    show "\<exists>k. page_table p' q = Some k \<and> pin_count (frames p' ! k) \<noteq> 0" if q: "q \<in> M" for q
    proof -
      from D(6) [OF q] obtain k where k: "page_table p q = Some k" "pin_count (frames p ! k) \<noteq> 0" by blast
      moreover have "q \<noteq> pid" "fpage_id (frames p ! i) \<noteq> Some q" using q pidM notM by auto
      moreover have "k \<noteq> i" "k < length (frames p)" using k pin D(4) by auto
      ultimately show ?thesis by (simp add: pt' fr')
    qed
  qed
qed

text \<open>Changing a resident frame in place.\<close>

lemma pool_update_frame:
  assumes inv: "pool_inv fb p M" and pid: "page_table p pid = Some i"
    and fr: "fpage_id fr = Some pid" "wf_page (fpage fr)"
    and M: "M' - {pid} = M - {pid}" "pid \<in> M' \<Longrightarrow> pin_count fr \<noteq> 0"
    and cl: "dirty fr \<or> pid \<in> M' \<or> fpage fr = disk_page fb (tables p) pid"
    and p': "p' = p\<lparr>frames := (frames p)[i := fr]\<rparr>"
  shows "pool_inv fb p' M'" and "pool_view fb p' = (pool_view fb p)(pid := fpage fr)"
proof -
  note D = pool_invD [OF inv]
  have i: "i < length (frames p)" "fpage_id (frames p ! i) = Some pid" using D(4) pid by blast+
  have fr': "frames p' ! k = (if k = i then fr else frames p ! k)" if "k < length (frames p)" for k
    using that by (simp add: p' nth_upd)
  have rest: "tables p' = tables p" "length (frames p') = length (frames p)" "clock_hand p' = clock_hand p"
    "page_table p' = page_table p"
    by (simp_all add: p')
  have ne: "k \<noteq> i" if "page_table p q = Some k" "q \<noteq> pid" for q k
    using that i D(4) by auto
  have inM: "q \<in> M' \<longleftrightarrow> q \<in> M" if "q \<noteq> pid" for q using that M(1) by blast
  have lt: "k < length (frames p)" if "page_table p q = Some k" for q k using that D(4) by blast
  show "pool_view fb p' = (pool_view fb p)(pid := fpage fr)"
  proof
    fix q
    show "pool_view fb p' q = ((pool_view fb p)(pid := fpage fr)) q"
      using pid i ne lt by (cases "page_table p q") (auto simp: pool_view_def rest fr')
  qed
  show "pool_inv fb p' M'"
  proof (rule pool_invI)
    show "4096 dvd length (tables p' t)" for t using D(1) by (simp add: rest)
    show "wf_page (fpage (frames p' ! k))" if "k < length (frames p')" for k
      using that D(2) fr by (simp add: fr' rest)
    show "clock_hand p' < length (frames p')" if "frames p' \<noteq> []"
      using D(3) i by (cases "frames p") (auto simp: rest)
    show "page_table p' q = Some k \<longleftrightarrow> k < length (frames p') \<and> fpage_id (frames p' ! k) = Some q" for q k
      using D(4) [of q k] i fr by (auto simp: rest fr' split: if_splits)
    show "dirty (frames p' ! k) \<or> q \<in> M' \<or> fpage (frames p' ! k) = disk_page fb (tables p') q"
      if qk: "page_table p' q = Some k" for q k
    proof (cases "q = pid")
      case True
      with qk pid cl i show ?thesis by (simp add: rest fr')
    next
      case False
      with qk ne [of q k] lt [of q k] D(5) [of q k] inM [OF False] show ?thesis by (simp add: rest fr')
    qed
    show "\<exists>k. page_table p' q = Some k \<and> pin_count (frames p' ! k) \<noteq> 0" if q: "q \<in> M'" for q
    proof (cases "q = pid")
      case True
      with q M(2) pid i show ?thesis by (simp add: rest fr')
    next
      case False
      with q inM D(6) [of q] obtain k where "page_table p q = Some k" "pin_count (frames p ! k) \<noteq> 0" by blast
      with False ne lt show ?thesis by (simp add: rest fr')
    qed
  qed
qed

section \<open>Operations preserve the store\<close>

lemma fetch_page_correct:
  assumes inv: "pool_inv fb p M" and f: "fetch_page env bo fb p pid = Some (Inr i, p')"
    and pin: "\<And>k. page_table p pid = Some k \<Longrightarrow> pin_count (frames p ! k) \<noteq> - 1"
  shows "pool_inv fb p' M" and "pool_view fb p' = pool_view fb p" and "page_table p' pid = Some i"
    and "get_page p' i = Some (pool_view fb p pid)" and "pin_count (frames p' ! i) \<noteq> 0"
proof -
  have "pool_inv fb p' M \<and> pool_view fb p' = pool_view fb p \<and> page_table p' pid = Some i \<and>
      pin_count (frames p' ! i) \<noteq> 0"
  proof (cases "page_table p pid")
    case (Some k)
    let ?fr = "(frames p ! k)\<lparr>pin_count := pin_count (frames p ! k) + 1, referenced := True\<rparr>"
    from f Some have i: "i = k" and p': "p' = p\<lparr>frames := (frames p)[k := ?fr]\<rparr>"
      by (auto simp: fetch_page_def Let_def)
    have k: "k < length (frames p)" "fpage_id (frames p ! k) = Some pid"
      using pool_invD(4) [OF inv] Some by blast+
    have nz: "pin_count ?fr \<noteq> 0" using pin [OF Some] by (simp add: eq_neg_iff_add_eq_0)
    have "pool_inv fb p' M" "pool_view fb p' = (pool_view fb p)(pid := fpage ?fr)"
      by (rule pool_update_frame [OF inv Some _ _ _ _ _ p'];
          use k nz pool_invD(2,5) [OF inv] Some in simp)+
    moreover have "fpage ?fr = pool_view fb p pid" using Some by (simp add: pool_view_def)
    ultimately show ?thesis using i Some nz k by (simp add: p')
  next
    case None
    from f None obtain q where v: "find_victim p = Some (i, q)"
      by (auto simp: fetch_page_def Let_def split: option.splits prod.splits sum.splits)
    then have hand: "clock_hand p < length (frames p)"
      using pool_invD(3) [OF inv] by (cases "frames p") (auto simp: find_victim_def)
    note V = victim_loop_sound [OF v [unfolded find_victim_def] hand]
    have Q: "pool_inv fb q M" "pool_view fb q = pool_view fb p"
      using same_content_inv [OF inv] V by blast+
    have q: "i < length (frames q)" "pin_count (frames q ! i) = 0" "page_table q = page_table p"
      using V by (auto simp: same_content_def)
    let ?fr = "frames q ! i"
    let ?w = "case fpage_id ?fr of
        Some vpid \<Rightarrow> if dirty ?fr then write_page_to_disk env bo (tables q) vpid (fpage ?fr) else (Inr (), tables q)
      | None \<Rightarrow> (Inr (), tables q)"
    let ?pt = "case fpage_id ?fr of Some v \<Rightarrow> (page_table q)(v := None) | None \<Rightarrow> page_table q"
    let ?new = "\<lambda>pg. \<lparr>fpage = pg, pin_count = 1, dirty = False, referenced = True, fpage_id = Some pid\<rparr>"
    obtain u fs where w: "?w = (Inr u, fs)"
      using f None v by (cases ?w, cases "fst ?w") (simp_all add: fetch_page_def Let_def)
    obtain pg where rd: "read_page_from_disk env fb fs pid = Some (Inr pg)"
      and p': "p' = q\<lparr>tables := fs, frames := (frames q)[i := ?new pg], page_table := ?pt(pid := Some i)\<rparr>"
      using f None v w by (cases "fpage_id ?fr")
        (auto simp: fetch_page_def Let_def split: option.splits sum.splits)
    have pg: "pg = disk_page fb fs pid"
      using rd read_page_from_disk_ok [of env fs pid] by (cases "read_fails env fs pid")
        (simp_all add: read_page_from_disk_def)
    let ?q = "q\<lparr>tables := fs\<rparr>"
    have W: "pool_inv fb ?q M \<and> pool_view fb ?q = pool_view fb q \<and>
        (\<forall>vp. fpage_id ?fr = Some vp \<longrightarrow> fpage ?fr = disk_page fb fs vp)"
    proof (cases "\<exists>vp. fpage_id ?fr = Some vp")
      case False
      with w Q show ?thesis by auto
    next
      case True
      then obtain vp where vp: "fpage_id ?fr = Some vp" by blast
      then have pt: "page_table q vp = Some i" using pool_invD(4) [OF Q(1)] q(1) by blast
      show ?thesis
      proof (cases "dirty ?fr")
        case True
        with w vp have "write_page_to_disk env bo (tables q) vp (fpage ?fr) = (Inr u, fs)" by simp
        from pool_write_back [OF Q(1) pt this] vp show ?thesis by simp
      next
        case False
        with w vp have "fs = tables q" by simp
        moreover have "vp \<notin> M" using pool_invD(6) [OF Q(1), of vp] pt q(2) by auto
        ultimately show ?thesis using pool_invD(5) [OF Q(1) pt] False vp Q by simp
      qed
    qed
    have R: "pool_inv fb p' M" "pool_view fb p' = pool_view fb ?q"
      by (rule pool_replace [of ?q M i pid "?new pg" ?pt]; use W q None pg p' in \<open>simp cong: option.case_cong\<close>)+
    with W Q(2) q(1) show ?thesis by (simp add: p')
  qed
  then show "pool_inv fb p' M" "pool_view fb p' = pool_view fb p" "page_table p' pid = Some i"
    "pin_count (frames p' ! i) \<noteq> 0" by blast+
  then show "get_page p' i = Some (pool_view fb p pid)"
    using pool_invD(4) [of fb p' M pid i]
    by (metis get_page_def option.simps(5) pool_view_def)
qed

lemma pool_next_page_num:
  "pool_inv fb (p\<lparr>next_page_num := n\<rparr>) M = pool_inv fb p M"
  "pool_view fb (p\<lparr>next_page_num := n\<rparr>) = pool_view fb p"
  by (simp add: pool_inv_def) (simp add: pool_view_def fun_eq_iff cong: option.case_cong)

lemma new_page_correct:
  assumes inv: "pool_inv fb p M" and n: "new_page env bo fb p tid = Some (Inr pid, p')"
    and pin: "\<And>k. page_table p pid = Some k \<Longrightarrow> pin_count (frames p ! k) \<noteq> - 1"
  shows "pool_inv fb p' M" and "pool_view fb p' = pool_view fb p"
    and "table_id pid = tid" and "\<exists>i. page_table p' pid = Some i \<and> pin_count (frames p' ! i) \<noteq> 0 \<and> dirty (frames p' ! i)"
proof -
  let ?num = "case next_page_num p tid of None \<Rightarrow> 0 | Some n \<Rightarrow> n"
  let ?p0 = "p\<lparr>next_page_num := (next_page_num p)(tid := Some (?num + 1))\<rparr>"
  from n obtain i q where f: "fetch_page env bo fb ?p0 pid = Some (Inr i, q)"
    and pid: "pid = page_id_new tid ?num"
    and p': "p' = q\<lparr>frames := (frames q)[i := (frames q ! i)\<lparr>dirty := True\<rparr>]\<rparr>"
    by (auto simp: new_page_def Let_def split: option.splits prod.splits sum.splits)
  have inv0: "pool_inv fb ?p0 M" and view0: "pool_view fb ?p0 = pool_view fb p"
    using inv by (simp_all add: pool_next_page_num)
  note F = fetch_page_correct [OF inv0 f]
  have F': "pool_inv fb q M" "pool_view fb q = pool_view fb ?p0" "page_table q pid = Some i"
    "pin_count (frames q ! i) \<noteq> 0"
    using F pin by simp_all
  have i: "i < length (frames q)" "fpage_id (frames q ! i) = Some pid"
    using pool_invD(4) [OF F'(1)] F'(3) by blast+
  have "pool_inv fb p' M \<and> pool_view fb p' = (pool_view fb q)(pid := fpage (frames q ! i))"
    using pool_update_frame [OF F'(1,3) _ _ _ _ _ p', of M] i pool_invD(2) [OF F'(1) i(1)] F'(4) by simp
  moreover have "(pool_view fb q)(pid := fpage (frames q ! i)) = pool_view fb q"
    using F'(3) by (simp add: fun_eq_iff pool_view_def)
  ultimately show "pool_inv fb p' M" "pool_view fb p' = pool_view fb p"
    using F'(2) view0 by simp_all
  show "table_id pid = tid" by (simp add: pid page_id_new_def)
  show "\<exists>i. page_table p' pid = Some i \<and> pin_count (frames p' ! i) \<noteq> 0 \<and> dirty (frames p' ! i)"
    using F'(3,4) i by (simp add: p')
qed

lemma unpin_page_correct:
  assumes inv: "pool_inv fb p M" and d: "pid \<in> M \<Longrightarrow> d"
  shows "pool_inv fb (unpin_page p pid d) (if d then M - {pid} else M)"
    and "pool_view fb (unpin_page p pid d) = pool_view fb p"
proof -
  have "pool_inv fb (unpin_page p pid d) (if d then M - {pid} else M) \<and>
    pool_view fb (unpin_page p pid d) = pool_view fb p"
  proof (cases "page_table p pid")
    case None
    then have "pid \<notin> M" using pool_invD(6) [OF inv, of pid] by auto
    with None inv show ?thesis by (simp add: unpin_page_def)
  next
    case (Some i)
    obtain fr where u: "unpin_page p pid d = p\<lparr>frames := (frames p)[i := fr]\<rparr>"
      and fr: "fpage fr = fpage (frames p ! i)" "fpage_id fr = fpage_id (frames p ! i)"
        "dirty fr = (dirty (frames p ! i) \<or> d)"
      using Some by (force simp: unpin_page_def Let_def)
    have i: "i < length (frames p)" "fpage_id (frames p ! i) = Some pid"
      using pool_invD(4) [OF inv] Some by blast+
    have M: "(if d then M - {pid} else M) = M - {pid}" using d by auto
    have cl: "dirty fr \<or> fpage fr = disk_page fb (tables p) pid"
      using fr d pool_invD(5) [OF inv Some] by auto
    have "(pool_view fb p)(pid := fpage fr) = pool_view fb p"
      using Some fr by (simp add: fun_eq_iff pool_view_def)
    with pool_update_frame [OF inv Some _ _ _ _ _ u, of "M - {pid}"] i fr cl pool_invD(2) [OF inv i(1)]
    show ?thesis unfolding M by simp
  qed
  then show "pool_inv fb (unpin_page p pid d) (if d then M - {pid} else M)"
    and "pool_view fb (unpin_page p pid d) = pool_view fb p" by blast+
qed

lemma put_page_correct:
  assumes inv: "pool_inv fb p M" and pid: "page_table p pid = Some i"
    and pin: "pin_count (frames p ! i) \<noteq> 0" and wf: "wf_page pg" and put: "put_page p i pg = Some p'"
  shows "pool_inv fb p' (insert pid M)" and "pool_view fb p' = (pool_view fb p)(pid := pg)"
proof -
  have i: "i < length (frames p)" "fpage_id (frames p ! i) = Some pid"
    using pool_invD(4) [OF inv] pid by blast+
  have p': "p' = p\<lparr>frames := (frames p)[i := (frames p ! i)\<lparr>fpage := pg\<rparr>]\<rparr>"
    using put i by (simp add: put_page_def)
  show "pool_inv fb p' (insert pid M)" "pool_view fb p' = (pool_view fb p)(pid := pg)"
    using pool_update_frame [OF inv pid _ _ _ _ _ p', of "insert pid M"] i pin wf by auto
qed

lemma flush_keys_correct:
  assumes "pool_inv fb p M" and "flush_keys env bo sel keys p = (Inr u, p')"
  shows "pool_inv fb p' M \<and> pool_view fb p' = pool_view fb p \<and> page_table p' = page_table p \<and>
    (\<forall>i<length (frames p). dirty (frames p' ! i) \<longrightarrow> dirty (frames p ! i)) \<and> length (frames p') = length (frames p) \<and>
    (\<forall>pid\<in>set keys. \<forall>i. sel pid \<longrightarrow> page_table p pid = Some i \<longrightarrow> \<not> dirty (frames p' ! i))"
  using assms
proof (induction keys arbitrary: p)
  case (Cons pid keys)
  note inv = Cons.prems(1)
  show ?case
  proof (cases "\<exists>i. page_table p pid = Some i \<and> sel pid \<and> dirty (frames p ! i)")
    case False
    with Cons.prems(2) have "flush_keys env bo sel keys p = (Inr u, p')"
      by (auto simp: Let_def split: option.splits if_splits)
    from Cons.IH [OF inv this] False pool_invD(4) [OF inv, of pid] show ?thesis by auto
  next
    case True
    then obtain i where i: "page_table p pid = Some i" "sel pid" "dirty (frames p ! i)" by blast
    have i': "i < length (frames p)" "fpage_id (frames p ! i) = Some pid"
      using pool_invD(4) [OF inv] i(1) by blast+
    let ?fr = "(frames p ! i)\<lparr>dirty := False\<rparr>"
    obtain fs where w: "write_page_to_disk env bo (tables p) pid (fpage (frames p ! i)) = (Inr (), fs)"
      and k: "flush_keys env bo sel keys (p\<lparr>tables := fs, frames := (frames p)[i := ?fr]\<rparr>) = (Inr u, p')"
      using Cons.prems(2) i by (auto simp: Let_def split: prod.splits sum.splits)
    note W = pool_write_back [OF inv i(1) w]
    let ?p1 = "p\<lparr>tables := fs\<rparr>" and ?p2 = "p\<lparr>tables := fs, frames := (frames p)[i := ?fr]\<rparr>"
    have pin: "pid \<in> M \<Longrightarrow> pin_count (frames p ! i) \<noteq> 0"
      using pool_invD(6) [OF inv, of pid] i(1) by auto
    have U: "pool_inv fb ?p2 M" "pool_view fb ?p2 = (pool_view fb ?p1)(pid := fpage ?fr)"
      using pool_update_frame [OF W(1), of pid i ?fr M ?p2] i i' W(3) pool_invD(2) [OF inv i'(1)] pin
      by simp_all
    have v: "pool_view fb ?p2 = pool_view fb p"
      using U(2) W(2) i(1) by (auto simp: fun_eq_iff pool_view_def)
    from Cons.IH [OF U(1) k] v i' i(1) show ?thesis
      by (auto simp: nth_upd split: if_splits)
  qed
qed simp

end

section \<open>Runs of the pool\<close>

text \<open>
  The states a pool reaches from \<open>BufferPool::new\<close> by operations that return: the pool, the page
  store it stands for, and the pages that were written through \<open>get_page_mut\<close> and not yet unpinned
  as dirty. A page is written only while pinned, and its pin count never wraps.
\<close>

inductive pool_run ::
  "(page_header \<Rightarrow> bytes) \<Rightarrow> (bytes \<Rightarrow> page_header option) \<Rightarrow> buffer_pool \<Rightarrow> (page_id \<Rightarrow> page) \<Rightarrow> page_id set \<Rightarrow> bool"
  for bo fb where
  run_new: "pool_new dir_ok dir cap fs = Inr p \<Longrightarrow> (\<And>t. PAGE_SIZE dvd length (fs t)) \<Longrightarrow>
    pool_run bo fb p (disk_page fb fs) {}"
| run_fetch: "pool_run bo fb p S M \<Longrightarrow> fetch_page env bo fb p pid = Some (Inr i, p') \<Longrightarrow>
    (\<And>k. page_table p pid = Some k \<Longrightarrow> pin_count (frames p ! k) \<noteq> - 1) \<Longrightarrow> pool_run bo fb p' S M"
| run_new_page: "pool_run bo fb p S M \<Longrightarrow> new_page env bo fb p tid = Some (Inr pid, p') \<Longrightarrow>
    (\<And>k. page_table p pid = Some k \<Longrightarrow> pin_count (frames p ! k) \<noteq> - 1) \<Longrightarrow> pool_run bo fb p' S M"
| run_put: "pool_run bo fb p S M \<Longrightarrow> page_table p pid = Some i \<Longrightarrow> pin_count (frames p ! i) \<noteq> 0 \<Longrightarrow>
    wf_page pg \<Longrightarrow> put_page p i pg = Some p' \<Longrightarrow> pool_run bo fb p' (S(pid := pg)) (insert pid M)"
| run_unpin: "pool_run bo fb p S M \<Longrightarrow> (pid \<in> M \<Longrightarrow> d) \<Longrightarrow>
    pool_run bo fb (unpin_page p pid d) S (if d then M - {pid} else M)"
| run_flush_table: "pool_run bo fb p S M \<Longrightarrow> flush_table env bo keys tid p = (Inr (), p') \<Longrightarrow> pool_run bo fb p' S M"
| run_flush_all: "pool_run bo fb p S M \<Longrightarrow> flush_all env bo keys p = (Inr (), p') \<Longrightarrow> pool_run bo fb p' S M"

context pod_file
begin

lemma pool_run_inv: "pool_run bo fb p S M \<Longrightarrow> pool_inv fb p M \<and> pool_view fb p = S"
proof (induction rule: pool_run.induct)
  case (run_new dir_ok dir cap fs p)
  then have p: "p = \<lparr>data_dir = dir, frames = replicate cap empty_frame, page_table = Map.empty,
    clock_hand = 0, next_page_num = Map.empty, tables = fs\<rparr>"
    by (simp add: pool_new_def split: if_splits)
  have "pool_inv fb p {}"
    using run_new(2) by (intro pool_invI) (simp_all add: p empty_frame_def wf_page_new PAGE_SIZE_def)
  then show ?case by (simp add: pool_view_def p fun_eq_iff)
next
  case (run_fetch p S M env pid i p')
  then show ?case using fetch_page_correct(1,2) [of p M env pid i p'] by simp
next
  case (run_new_page p S M env tid pid p')
  then show ?case using new_page_correct(1,2) [of p M env tid pid p'] by simp
next
  case (run_put p S M pid i pg p')
  then show ?case using put_page_correct [of p M pid i pg p'] by simp
next
  case (run_unpin p S M pid d)
  then show ?case using unpin_page_correct [of p M pid d] by simp
next
  case (run_flush_table p S M env keys tid p')
  then show ?case using flush_keys_correct [of p M env _ keys "()" p'] unfolding flush_table_def by metis
next
  case (run_flush_all p S M env keys p')
  then show ?case using flush_keys_correct [of p M env _ keys "()" p'] unfolding flush_all_def by metis
qed

lemma flush_all_disk:
  assumes inv: "pool_inv fb p {}" and f: "flush_all env bo keys p = (Inr u, p')"
    and keys: "dom (page_table p) \<subseteq> set keys"
  shows "disk_page fb (tables p') pid = pool_view fb p pid"
proof -
  note F = flush_keys_correct [OF inv f [unfolded flush_all_def]]
  show ?thesis
  proof (cases "page_table p pid")
    case None
    with F show ?thesis by (metis option.simps(4) pool_view_def)
  next
    case (Some i)
    then have "pid \<in> set keys" using keys by blast
    with Some have "\<not> dirty (frames p' ! i)" "page_table p' pid = Some i" using F by simp_all
    then have "fpage (frames p' ! i) = disk_page fb (tables p') pid"
      using pool_invD(5) [of fb p' "{}" pid i] F by auto
    moreover have "pool_view fb p pid = fpage (frames p' ! i)"
      using F \<open>page_table p' pid = Some i\<close> by (metis option.simps(5) pool_view_def)
    ultimately show ?thesis by simp
  qed
qed

end

text \<open>
  The error path of \<open>fetch_page\<close> is not in these runs: when reading the new page fails, the victim has
  already lost its page table entry, but its frame keeps the page number and the dirty flag. A later
  eviction of that frame writes the old content over whatever was written to the page meanwhile.
\<close>

lemma fetch_page_read_error_leaves_stale_frame:
  assumes "page_table p pid = None" and "find_victim p = Some (i, q)"
    and "fpage_id (frames q ! i) = Some v" and "dirty (frames q ! i)"
    and "write_fails env (tables q) v = None" and "\<And>fs. read_fails env fs pid"
  shows "\<exists>p'. fetch_page env bo fb p pid = Some (Inl Io, p') \<and> page_table p' v = None \<and>
    fpage_id (frames p' ! i) = Some v \<and> dirty (frames p' ! i)"
  using assms by (simp add: fetch_page_def Let_def write_page_to_disk_def read_page_from_disk_def)

section \<open>Properties\<close>

definition quiet_pool :: pool_env where
  "quiet_pool = \<lparr>read_fails = \<lambda>_ _. False, write_fails = \<lambda>_ _. None\<rparr>"

definition demo_pool :: buffer_pool where
  "demo_pool = \<lparr>data_dir = ''d'', frames = [empty_frame], page_table = Map.empty, clock_hand = 0,
     next_page_num = Map.empty, tables = \<lambda>_. []\<rparr>"

lemma demo_pool_run:
  "pool_run bo fb demo_pool (disk_page fb (\<lambda>_. [])) {}"
  by (rule run_new [of True "''d''" 1]) (simp_all add: pool_new_def demo_pool_def)

lemma demo_pool_victim: "find_victim demo_pool = Some (0, demo_pool)"
  by (simp add: find_victim_def demo_pool_def empty_frame_def Let_def numeral_2_eq_2)

lemma demo_pool_fetch:
  "fetch_page quiet_pool bo fb demo_pool (page_id_new 7 0) =
     Some (Inr 0, demo_pool\<lparr>frames := [empty_frame\<lparr>pin_count := 1, referenced := True, fpage_id := Some (page_id_new 7 0)\<rparr>],
       page_table := [page_id_new 7 0 \<mapsto> 0]\<rparr>)"
  unfolding fetch_page_def demo_pool_victim
  by (simp add: demo_pool_def empty_frame_def quiet_pool_def Let_def
      read_page_from_disk_def page_offset_of_def page_id_new_def PAGE_SIZE_def)

text \<open>C8: the pool refines a page store. Whatever sequence of fetches, allocations, writes through
  pinned frames, unpins and flushes led to a pool, with evictions under way at any point, fetching
  a page returns the last content written to it (initially that of its file), and the fetch itself
  changes no page of the store.\<close>

theorem buffer_pool_refines_store:
  assumes "pod_file bo fb" and "pool_run bo fb p S M"
    and "fetch_page env bo fb p pid = Some (Inr i, p')"
    and "\<And>k. page_table p pid = Some k \<Longrightarrow> pin_count (frames p ! k) \<noteq> - 1"
  shows "get_page p' i = Some (S pid) \<and> page_table p' pid = Some i \<and> pool_view fb p' = S"
  using pod_file.fetch_page_correct [OF assms(1) _ assms(3,4), of M]
    pod_file.pool_run_inv [OF assms(1,2)] by auto

theorem buffer_pool_refines_store_witness:
  "get_page (demo_pool\<lparr>frames := [empty_frame\<lparr>pin_count := 1, referenced := True, fpage_id := Some (page_id_new 7 0)\<rparr>],
       page_table := [page_id_new 7 0 \<mapsto> 0]\<rparr>) 0 = Some page_new"
  using buffer_pool_refines_store
    [OF le_file.pod_file_axioms demo_pool_run demo_pool_fetch]
  by (simp add: demo_pool_def disk_page_def file_page_def)

text \<open>A successful \<open>flush_all\<close>, with no write still waiting for its unpin, makes the files
  hold exactly the page store: every page, resident or evicted, reads back from disk with its last
  content, and the store is unchanged.\<close>

theorem flush_all_persists:
  assumes "pod_file bo fb" and "pool_run bo fb p S {}"
    and "flush_all env bo keys p = (Inr (), p')" and "dom (page_table p) \<subseteq> set keys"
  shows "disk_page fb (tables p') = S \<and> pool_view fb p' = S"
  using pod_file.flush_all_disk [OF assms(1) _ assms(3,4)] pod_file.pool_run_inv [OF assms(1,2)]
    pod_file.pool_run_inv [OF assms(1) run_flush_all [OF assms(2,3)]] by auto

theorem flush_all_persists_witness:
  "disk_page le_from_bytes (tables demo_pool) = disk_page le_from_bytes (\<lambda>_. []) \<and>
   pool_view le_from_bytes demo_pool = disk_page le_from_bytes (\<lambda>_. [])"
  by (rule flush_all_persists [OF le_file.pod_file_axioms demo_pool_run, where keys = "[]" and env = quiet_pool])
    (simp_all add: flush_all_def demo_pool_def)

text \<open>C40: the clock sweep. On a pool with frames, \<open>find_victim\<close> panics exactly when every frame is
  pinned; otherwise it stops within its two sweeps at an unpinned frame, having changed nothing but
  reference bits and the hand.\<close>

theorem find_victim_correct:
  assumes "frames p \<noteq> []" and "clock_hand p < length (frames p)"
  shows "case find_victim p of
      None \<Rightarrow> \<forall>fr\<in>set (frames p). pin_count fr \<noteq> 0
    | Some (i, q) \<Rightarrow> i < length (frames p) \<and> pin_count (frames p ! i) = 0
        \<and> same_content p q \<and> clock_hand q < length (frames q)"
proof (cases "find_victim p")
  case None
  then show ?thesis using find_victim_None_iff [of p] assms by simp
next
  case (Some r)
  moreover obtain i q where "r = (i, q)" by fastforce
  ultimately show ?thesis
    using victim_loop_sound [of "2 * length (frames p)" p i q] assms(2)
    by (simp add: find_victim_def same_content_def)
qed

theorem find_victim_correct_witness:
  "case find_victim demo_pool of
      None \<Rightarrow> \<forall>fr\<in>set (frames demo_pool). pin_count fr \<noteq> 0
    | Some (i, q) \<Rightarrow> i < length (frames demo_pool) \<and> pin_count (frames demo_pool ! i) = 0
        \<and> same_content demo_pool q \<and> clock_hand q < length (frames q)"
  by (rule find_victim_correct) (simp_all add: demo_pool_def)

end
