(* ===== verification/Tables.thy ===== *)
theory Tables
  imports TV_Prelude
begin

text \<open>
  In-memory tables and their catalog: the NULL bitmap of src/src/types/null_bitmap.rs, the table of
  src/src/datasource/table.rs with the loader output it is made from (src/src/datasource/parquet.rs),
  and the catalog of src/src/catalog/mod.rs. The types of the string sidecars (\<open>'s\<close>) and of the table
  schema (\<open>'h\<close>), which none of this code looks into, are type parameters. The catalog's hash map is a
  partial map; where the source iterates over it, the order is an argument.
\<close>

section \<open>NULL bitmaps\<close>

record null_bitmap =
  nulls :: "bool list"

definition nb_new :: "nat \<Rightarrow> null_bitmap" where
  "nb_new n = \<lparr>nulls = replicate n False\<rparr>"

definition nb_all_null :: "nat \<Rightarrow> null_bitmap" where
  "nb_all_null n = \<lparr>nulls = replicate n True\<rparr>"

definition nb_all_non_null :: "nat \<Rightarrow> null_bitmap" where
  "nb_all_non_null n = \<lparr>nulls = replicate n False\<rparr>"

definition is_null :: "null_bitmap \<Rightarrow> nat \<Rightarrow> bool" where
  "is_null bm idx = (if idx < length (nulls bm) then nulls bm ! idx else False)"

definition set_null :: "null_bitmap \<Rightarrow> nat \<Rightarrow> null_bitmap" where
  "set_null bm idx = (if idx < length (nulls bm) then bm\<lparr>nulls := (nulls bm)[idx := True]\<rparr> else bm)"

definition set_non_null :: "null_bitmap \<Rightarrow> nat \<Rightarrow> null_bitmap" where
  "set_non_null bm idx = (if idx < length (nulls bm) then bm\<lparr>nulls := (nulls bm)[idx := False]\<rparr> else bm)"

definition null_count :: "null_bitmap \<Rightarrow> nat" where
  "null_count bm = length (filter (\<lambda>b. b) (nulls bm))"

definition non_null_count :: "null_bitmap \<Rightarrow> nat" where
  "non_null_count bm = length (filter Not (nulls bm))"

definition has_nulls :: "null_bitmap \<Rightarrow> bool" where
  "has_nulls bm \<longleftrightarrow> list_ex (\<lambda>b. b) (nulls bm)"

definition non_null_mask :: "null_bitmap \<Rightarrow> bool list" where
  "non_null_mask bm = nulls bm"

definition push_null :: "null_bitmap \<Rightarrow> null_bitmap" where
  "push_null bm = bm\<lparr>nulls := nulls bm @ [True]\<rparr>"

definition push_non_null :: "null_bitmap \<Rightarrow> null_bitmap" where
  "push_non_null bm = bm\<lparr>nulls := nulls bm @ [False]\<rparr>"

definition nb_truncate :: "null_bitmap \<Rightarrow> nat \<Rightarrow> null_bitmap" where
  "nb_truncate bm n = bm\<lparr>nulls := take n (nulls bm)\<rparr>"

section \<open>Tables\<close>

record 's loaded_column =
  lc_name :: string
  cells :: "u64 list"
  lc_row_count :: nat
  string_search :: "'s option"
  lc_null_bitmap :: "bool list option"

record 's loaded_table =
  lt_name :: string
  lt_columns :: "'s loaded_column list"
  lt_row_count :: nat

record ('s, 'h) table =
  tname :: string
  columns :: "u64 list list"
  column_names :: "string list"
  row_count :: nat
  string_columns :: "'s option list"
  null_bitmaps :: "null_bitmap option list"
  schema :: "'h option"

text \<open>The loop that copies the loader's NULL flags.\<close>

primrec copy_nulls :: "bool list \<Rightarrow> nat \<Rightarrow> null_bitmap \<Rightarrow> null_bitmap" where
  "copy_nulls [] i bm = bm"
| "copy_nulls (b # bs) i bm = copy_nulls bs (i + 1) (if b then set_null bm i else bm)"

definition from_loaded :: "'s loaded_table \<Rightarrow> ('s, 'h) table" where
  "from_loaded loaded =
     (let cols = map cells (lt_columns loaded);
          actual_min = (if cols = [] then 0 else Min (set (map length cols)))
      in \<lparr>tname = lt_name loaded, columns = cols, column_names = map lc_name (lt_columns loaded),
          row_count = min (lt_row_count loaded) actual_min,
          string_columns = map string_search (lt_columns loaded),
          null_bitmaps = map (\<lambda>c. map_option (\<lambda>bs. copy_nulls bs 0 (nb_new (length bs))) (lc_null_bitmap c))
            (lt_columns loaded),
          schema = None\<rparr>)"

primrec position :: "('a \<Rightarrow> bool) \<Rightarrow> 'a list \<Rightarrow> nat option" where
  "position p [] = None"
| "position p (x # xs) = (if p x then Some 0 else map_option Suc (position p xs))"

definition column_idx :: "('s, 'h) table \<Rightarrow> string \<Rightarrow> nat option" where
  "column_idx t name = position (\<lambda>n. n = name) (column_names t)"

text \<open>The outer option is the index panic.\<close>

definition table_column :: "('s, 'h) table \<Rightarrow> string \<Rightarrow> u64 list option option" where
  "table_column t name =
     (case column_idx t name of
        None \<Rightarrow> Some None
      | Some idx \<Rightarrow> if idx < length (columns t) then Some (Some (columns t ! idx)) else None)"

definition column_count :: "('s, 'h) table \<Rightarrow> nat" where
  "column_count t = length (columns t)"

section \<open>The catalog\<close>

record ('s, 'h) catalog =
  cat_tables :: "string \<Rightarrow> ('s, 'h) table option"

definition cat_new :: "('s, 'h) catalog" where
  "cat_new = \<lparr>cat_tables = Map.empty\<rparr>"

definition register :: "('s, 'h) catalog \<Rightarrow> ('s, 'h) table \<Rightarrow> ('s, 'h) catalog" where
  "register cat t = cat\<lparr>cat_tables := (cat_tables cat)(tname t \<mapsto> t)\<rparr>"

definition cat_get :: "('s, 'h) catalog \<Rightarrow> string \<Rightarrow> ('s, 'h) table option" where
  "cat_get cat name = cat_tables cat name"

definition cat_drop :: "('s, 'h) catalog \<Rightarrow> string \<Rightarrow> bool \<times> ('s, 'h) catalog" where
  "cat_drop cat name = (cat_tables cat name \<noteq> None, cat\<lparr>cat_tables := (cat_tables cat)(name := None)\<rparr>)"

definition get_column :: "('s, 'h) catalog \<Rightarrow> string \<Rightarrow> string \<Rightarrow> u64 list option option" where
  "get_column cat table column =
     (case cat_get cat table of None \<Rightarrow> Some None | Some t \<Rightarrow> table_column t column)"

text \<open>\<open>clone_catalog\<close> of src/src/txn/mod.rs; \<open>names\<close> is the order in which the hash map is enumerated.\<close>

primrec clone_loop :: "('s, 'h) catalog \<Rightarrow> string list \<Rightarrow> ('s, 'h) catalog \<Rightarrow> ('s, 'h) catalog" where
  "clone_loop cat [] new_cat = new_cat"
| "clone_loop cat (name # names) new_cat =
     clone_loop cat names (case cat_get cat name of None \<Rightarrow> new_cat | Some t \<Rightarrow> register new_cat t)"

definition clone_catalog :: "string list \<Rightarrow> ('s, 'h) catalog \<Rightarrow> ('s, 'h) catalog" where
  "clone_catalog names cat = clone_loop cat names cat_new"

section \<open>Lemmas\<close>

lemma copy_nulls_id: "i + length bs = length (nulls bm) \<Longrightarrow> drop i (nulls bm) = replicate (length bs) False \<Longrightarrow>
    nulls (copy_nulls bs i bm) = take i (nulls bm) @ bs"
proof (induction bs arbitrary: i bm)
  case (Cons b bs)
  let ?bm = "if b then set_null bm i else bm"
  have i: "i < length (nulls bm)" using Cons.prems(1) by simp
  have n: "nulls ?bm = (nulls bm)[i := b]"
  proof (cases b)
    case False
    have "nulls bm ! i = drop i (nulls bm) ! 0" using i by simp
    also have "\<dots> = False" unfolding Cons.prems(2) by simp
    finally have "(nulls bm)[i := False] = nulls bm" using list_update_id [of "nulls bm" i] by simp
    with False show ?thesis by simp
  qed (simp add: set_null_def i)
  have "drop (i + 1) (nulls ?bm) = drop 1 (drop i (nulls bm))" by (simp add: n)
  also have "\<dots> = replicate (length bs) False" unfolding Cons.prems(2) by simp
  finally have "nulls (copy_nulls bs (i + 1) ?bm) = take (i + 1) (nulls ?bm) @ bs"
    using Cons.prems(1) by (intro Cons.IH) (simp_all add: n)
  with i show ?case by (simp add: n take_Suc_conv_app_nth)
qed simp

lemma copy_nulls_new: "copy_nulls bs 0 (nb_new (length bs)) = \<lparr>nulls = bs\<rparr>"
  using copy_nulls_id [of 0 bs "nb_new (length bs)"] by (simp add: nb_new_def)

lemma position_Some: "position p xs = Some i \<Longrightarrow> i < length xs \<and> p (xs ! i) \<and> (\<forall>j<i. \<not> p (xs ! j))"
proof (induction xs arbitrary: i)
  case (Cons x xs)
  then show ?case by (cases i) (auto split: if_splits simp: less_Suc_eq_0_disj)
qed simp

lemma position_None: "position p xs = None \<longleftrightarrow> (\<forall>x\<in>set xs. \<not> p x)"
  by (induction xs) auto

text \<open>A table as the executor relies on it: every column and name list in step, and every column with
  at least \<open>row_count\<close> cells.\<close>

definition table_ok :: "('s, 'h) table \<Rightarrow> bool" where
  "table_ok t \<longleftrightarrow> length (column_names t) = length (columns t) \<and> length (string_columns t) = length (columns t)
     \<and> length (null_bitmaps t) = length (columns t) \<and> (\<forall>c\<in>set (columns t). row_count t \<le> length c)"

lemma from_loaded_ok: "table_ok (from_loaded loaded)"
proof -
  let ?cols = "map cells (lt_columns loaded)"
  have "Min (set (map length ?cols)) \<le> length c" if "c \<in> set ?cols" for c
    using that by (intro Min_le) auto
  then show ?thesis by (auto simp: table_ok_def from_loaded_def Let_def intro: le_trans [OF min.cobounded2])
qed

text \<open>Every table of the catalog is registered under its own name.\<close>

definition cat_ok :: "('s, 'h) catalog \<Rightarrow> bool" where
  "cat_ok cat \<longleftrightarrow> (\<forall>n t. cat_tables cat n = Some t \<longrightarrow> tname t = n)"

lemma cat_ok_ops:
  "cat_ok cat_new" "cat_ok cat \<Longrightarrow> cat_ok (register cat t)" "cat_ok cat \<Longrightarrow> cat_ok (snd (cat_drop cat name))"
  by (simp_all add: cat_ok_def cat_new_def register_def cat_drop_def)

lemma clone_loop_tables:
  assumes "cat_ok cat"
  shows "cat_tables (clone_loop cat names new_cat) n =
    (if n \<in> set names \<and> cat_tables cat n \<noteq> None then cat_tables cat n else cat_tables new_cat n)"
proof (induction names arbitrary: new_cat)
  case (Cons name names)
  show ?case
  proof (cases "cat_tables cat name")
    case None
    then show ?thesis using Cons.IH by (auto simp: cat_get_def)
  next
    case (Some t)
    then have "tname t = name" using assms by (simp add: cat_ok_def)
    with Some Cons.IH show ?thesis by (auto simp: cat_get_def register_def)
  qed
qed simp

text \<open>A clone is the catalog itself, whatever the order of the enumeration.\<close>

lemma clone_catalog_id:
  fixes cat :: "('s, 'h) catalog"
  assumes "cat_ok cat" and "dom (cat_tables cat) \<subseteq> set names"
  shows "clone_catalog names cat = cat"
proof -
  have "cat_tables (clone_catalog names cat) n = cat_tables cat n" for n
    unfolding clone_catalog_def clone_loop_tables [OF assms(1)]
    using subsetD [OF assms(2), of n] by (cases "cat_tables cat n") (auto simp: cat_new_def)
  then show ?thesis by (cases "clone_catalog names cat"; cases cat) (auto simp: fun_eq_iff)
qed

section \<open>Properties\<close>

text \<open>Building a table from loader output establishes the invariant of the executor: as many names,
  string sidecars and NULL bitmaps as columns, and every column with at least \<open>row_count\<close> cells, also
  for loader output whose counts disagree. Looking up a column by name never panics and returns the
  cells of the first column of that name, and the NULL flags are those of the loader.\<close>

theorem table_from_loaded_correct:
  fixes t :: "('s, 'h) table"
  assumes "t = from_loaded loaded"
  shows "table_ok t
    \<and> (\<forall>name. table_column t name = Some (map_option cells (find (\<lambda>c. lc_name c = name) (lt_columns loaded))))
    \<and> (\<forall>i<length (lt_columns loaded).
         map_option nulls (null_bitmaps t ! i) = lc_null_bitmap (lt_columns loaded ! i))"
proof -
  have pos: "position (\<lambda>n. n = name) (map lc_name cs) = (case find (\<lambda>c. lc_name c = name) cs of
      None \<Rightarrow> None | Some _ \<Rightarrow> position (\<lambda>c. lc_name c = name) cs)" for name and cs :: "'s loaded_column list"
    by (induction cs) (auto split: option.splits)
  have look: "find p cs = map_option (\<lambda>i. cs ! i) (position p cs)" for p and cs :: "'s loaded_column list"
    by (induction cs) (auto simp: option.map_comp comp_def)
  have "table_column t name = Some (map_option cells (find (\<lambda>c. lc_name c = name) (lt_columns loaded)))" for name
    using position_Some [of "\<lambda>c. lc_name c = name" "lt_columns loaded"]
    by (auto simp: assms table_column_def column_idx_def from_loaded_def Let_def pos look split: option.splits)
  moreover have "map_option nulls (null_bitmaps t ! i) = lc_null_bitmap (lt_columns loaded ! i)"
    if "i < length (lt_columns loaded)" for i
    using that by (simp add: assms from_loaded_def Let_def option.map_comp comp_def copy_nulls_new option.map_ident)
  ultimately show ?thesis using from_loaded_ok [of loaded] by (simp add: assms)
qed

definition demo_loaded :: "nat loaded_table" where
  "demo_loaded = \<lparr>lt_name = ''t'', lt_columns = [\<lparr>lc_name = ''a'', cells = [1, 2, 3], lc_row_count = 3,
     string_search = None, lc_null_bitmap = Some [False, True, False]\<rparr>], lt_row_count = 5\<rparr>"

theorem table_from_loaded_correct_witness:
  "table_column (from_loaded demo_loaded :: (nat, nat) table) ''a'' = Some (Some [1, 2, 3])"
proof -
  have "table_column (from_loaded demo_loaded :: (nat, nat) table) ''a'' =
      Some (map_option cells (find (\<lambda>c. lc_name c = ''a'') (lt_columns demo_loaded)))"
    using table_from_loaded_correct [OF refl, of demo_loaded] by blast
  also have "find (\<lambda>c. lc_name c = ''a'') (lt_columns demo_loaded) = Some (hd (lt_columns demo_loaded))"
    by (simp add: demo_loaded_def)
  finally show ?thesis by (simp add: demo_loaded_def)
qed

end
