(* ===== verification/Txn.thy ===== *)
theory Txn
  imports Tables "HOL-Library.AList"
begin

text \<open>
  The transaction managers: the snapshot manager of src/src/txn/mod.rs and the multi-version manager of
  src/src/txn/mvcc.rs. The global transaction counter \<open>NEXT_TXN_ID\<close> is part of the state that is passed
  along; the commit-state hash map is an association list with distinct keys. String errors are
  \<open>Other\<close>.
\<close>

section \<open>Snapshot transactions\<close>

record 'c transaction =
  txn_id :: u64
  txn_snapshot :: 'c
  txn_active :: bool

record 'c txn_manager =
  next_id :: u64
  active_txn :: "'c transaction option"

definition txn_new :: "'c txn_manager" where
  "txn_new = \<lparr>next_id = 1, active_txn = None\<rparr>"

definition txn_begin ::
  "string list \<Rightarrow> ('s, 'h) catalog txn_manager \<Rightarrow> ('s, 'h) catalog \<Rightarrow> u64 result \<times> ('s, 'h) catalog txn_manager" where
  "txn_begin names mgr cat =
     (if active_txn mgr \<noteq> None then (Inl Other, mgr)
      else let i = next_id mgr; snap = clone_catalog names cat
           in (Inr i, mgr\<lparr>next_id := next_id mgr + 1,
                 active_txn := Some \<lparr>txn_id = i, txn_snapshot = snap, txn_active = True\<rparr>\<rparr>))"

definition txn_commit :: "'c txn_manager \<Rightarrow> 'c result \<times> 'c txn_manager" where
  "txn_commit mgr =
     (case active_txn mgr of
        None \<Rightarrow> (Inl Other, mgr)
      | Some txn \<Rightarrow> (Inr (txn_snapshot txn), mgr\<lparr>active_txn := None\<rparr>))"

definition txn_rollback :: "'c txn_manager \<Rightarrow> unit result \<times> 'c txn_manager" where
  "txn_rollback mgr =
     (case active_txn mgr of
        None \<Rightarrow> (Inl Other, mgr)
      | Some txn \<Rightarrow> (Inr (), mgr\<lparr>active_txn := None\<rparr>))"

definition txn_is_active :: "'c txn_manager \<Rightarrow> bool" where
  "txn_is_active mgr \<longleftrightarrow> active_txn mgr \<noteq> None"

section \<open>Row versions\<close>

datatype txn_state = InProgress | Committed | Aborted

type_synonym commit_map = "(u64 \<times> txn_state) list"

record row_version =
  xmin :: u64
  xmax :: u64

definition version_new :: "u64 \<Rightarrow> row_version" where
  "version_new t = \<lparr>xmin = t, xmax = 0\<rparr>"

definition version_delete :: "row_version \<Rightarrow> u64 \<Rightarrow> row_version" where
  "version_delete v t = v\<lparr>xmax := t\<rparr>"

definition state_of :: "commit_map \<Rightarrow> u64 \<Rightarrow> txn_state" where
  "state_of cs t = (case map_of cs t of None \<Rightarrow> InProgress | Some s \<Rightarrow> s)"

definition version_visible :: "row_version \<Rightarrow> u64 \<Rightarrow> commit_map \<Rightarrow> bool" where
  "version_visible v viewer cs =
     (let xmin_visible = (xmin v = viewer \<or> state_of cs (xmin v) = Committed)
      in if \<not> xmin_visible then False
         else if xmax v = 0 then True
         else let xmax_visible = (xmax v = viewer \<or> state_of cs (xmax v) = Committed)
              in \<not> xmax_visible)"

section \<open>The multi-version manager\<close>

record mvcc_transaction =
  mt_id :: u64
  mt_snapshot :: "u64 set"

record mvcc_manager =
  commit_state :: commit_map
  mt_active :: "mvcc_transaction option"

definition mvcc_new :: mvcc_manager where
  "mvcc_new = \<lparr>commit_state = [], mt_active = None\<rparr>"

text \<open>The counter is passed in and out.\<close>

definition mvcc_begin :: "u64 \<Rightarrow> mvcc_manager \<Rightarrow> u64 result \<times> u64 \<times> mvcc_manager" where
  "mvcc_begin next_txn_id m =
     (if mt_active m \<noteq> None then (Inl Other, next_txn_id, m)
      else let i = next_txn_id;
               snap = set (map fst (filter (\<lambda>(_, s). s = Committed) (commit_state m)))
           in (Inr i, next_txn_id + 1,
               m\<lparr>commit_state := AList.update i InProgress (commit_state m),
                 mt_active := Some \<lparr>mt_id = i, mt_snapshot = snap\<rparr>\<rparr>))"

definition mvcc_commit :: "mvcc_manager \<Rightarrow> u64 result \<times> mvcc_manager" where
  "mvcc_commit m =
     (case mt_active m of
        None \<Rightarrow> (Inl Other, m)
      | Some txn \<Rightarrow>
          (Inr (mt_id txn), m\<lparr>commit_state := AList.update (mt_id txn) Committed (commit_state m), mt_active := None\<rparr>))"

definition mvcc_rollback :: "mvcc_manager \<Rightarrow> u64 result \<times> mvcc_manager" where
  "mvcc_rollback m =
     (case mt_active m of
        None \<Rightarrow> (Inl Other, m)
      | Some txn \<Rightarrow>
          (Inr (mt_id txn), m\<lparr>commit_state := AList.update (mt_id txn) Aborted (commit_state m), mt_active := None\<rparr>))"

definition mvcc_is_visible :: "mvcc_manager \<Rightarrow> u64 \<Rightarrow> bool" where
  "mvcc_is_visible m t =
     (if (\<exists>a. mt_active m = Some a \<and> mt_id a = t) then True
      else case map_of (commit_state m) t of
             Some Committed \<Rightarrow> (case mt_active m of Some a \<Rightarrow> t \<in> mt_snapshot a | None \<Rightarrow> True)
           | _ \<Rightarrow> False)"

definition mvcc_is_row_visible :: "mvcc_manager \<Rightarrow> row_version \<Rightarrow> bool" where
  "mvcc_is_row_visible m v =
     (let viewer = (case mt_active m of Some t \<Rightarrow> mt_id t | None \<Rightarrow> 0)
      in version_visible v viewer (commit_state m))"

definition mvcc_is_active :: "mvcc_manager \<Rightarrow> bool" where
  "mvcc_is_active m \<longleftrightarrow> mt_active m \<noteq> None"

definition mvcc_active_id :: "mvcc_manager \<Rightarrow> u64 option" where
  "mvcc_active_id m = map_option mt_id (mt_active m)"

definition cleanup_aborted :: "mvcc_manager \<Rightarrow> nat \<times> mvcc_manager" where
  "cleanup_aborted m =
     (let cs = filter (\<lambda>(_, s). s \<noteq> Aborted) (commit_state m)
      in (length (commit_state m) - length cs, m\<lparr>commit_state := cs\<rparr>))"

section \<open>Reachable states\<close>

text \<open>The counter and the manager under successful calls; \<open>mv_other\<close> is a \<open>begin\<close> of another manager,
  which advances the shared counter. The counter does not wrap.\<close>

inductive mvcc_run :: "u64 \<Rightarrow> mvcc_manager \<Rightarrow> bool" where
  mv_new: "0 < n \<Longrightarrow> mvcc_run n mvcc_new"
| mv_begin: "mvcc_run n m \<Longrightarrow> n < - 1 \<Longrightarrow> mvcc_begin n m = (Inr t, n', m') \<Longrightarrow> mvcc_run n' m'"
| mv_commit: "mvcc_run n m \<Longrightarrow> mvcc_commit m = (Inr t, m') \<Longrightarrow> mvcc_run n m'"
| mv_rollback: "mvcc_run n m \<Longrightarrow> mvcc_rollback m = (Inr t, m') \<Longrightarrow> mvcc_run n m'"
| mv_cleanup: "mvcc_run n m \<Longrightarrow> mvcc_run n (snd (cleanup_aborted m))"
| mv_other: "mvcc_run n m \<Longrightarrow> n < - 1 \<Longrightarrow> mvcc_run (n + 1) m"

text \<open>Every transaction known to the manager has a number below the counter and above 0, only the active
  one is in progress, and its snapshot is exactly the set of committed transactions: the manager has
  one active transaction at a time, so none commits while it runs.\<close>

definition mvcc_inv :: "u64 \<Rightarrow> mvcc_manager \<Rightarrow> bool" where
  "mvcc_inv n m \<longleftrightarrow> 0 < n \<and> distinct (map fst (commit_state m)) \<and>
     (\<forall>t. map_of (commit_state m) t \<noteq> None \<longrightarrow> 0 < t \<and> t < n) \<and>
     (case mt_active m of
        None \<Rightarrow> \<forall>t. map_of (commit_state m) t \<noteq> Some InProgress
      | Some a \<Rightarrow> 0 < mt_id a \<and> mt_id a < n
          \<and> (\<forall>t. map_of (commit_state m) t = Some InProgress \<longleftrightarrow> t = mt_id a)
          \<and> mt_snapshot a = {t. map_of (commit_state m) t = Some Committed})"

lemma committed_set:
  "distinct (map fst cs) \<Longrightarrow> set (map fst (filter (\<lambda>(_, s). s = Committed) cs)) = {t. map_of cs t = Some Committed}"
  by (force simp: map_of_eq_Some_iff)

lemma map_of_without:
  "distinct (map fst cs) \<Longrightarrow> map_of (filter (\<lambda>(_, s). s \<noteq> x) cs) t =
     (if map_of cs t = Some x then None else map_of cs t)"
proof (induction cs)
  case (Cons c cs)
  obtain k s where c: "c = (k, s)" by (cases c)
  then have "map_of cs k = None" and "distinct (map fst cs)" using Cons.prems by (simp_all add: map_of_eq_None_iff)
  with Cons.IH c show ?case by (cases "k = t"; cases "s = x") simp_all
qed simp

lemma word_less_Suc: "(n :: u64) < - 1 \<Longrightarrow> t \<le> n \<Longrightarrow> t < n + 1"
  using inc_less_eq_iff [of n t] by (auto simp: not_le [symmetric])

lemma mvcc_run_inv: "mvcc_run n m \<Longrightarrow> mvcc_inv n m"
proof (induction rule: mvcc_run.induct)
  case (mv_new n)
  then show ?case by (simp add: mvcc_inv_def mvcc_new_def)
next
  case (mv_begin n m t n' m')
  have idle: "mt_active m = None" using mv_begin(3) by (auto simp: mvcc_begin_def split: if_splits)
  then have m': "n' = n + 1" "m' = m\<lparr>commit_state := AList.update n InProgress (commit_state m),
      mt_active := Some \<lparr>mt_id = n, mt_snapshot = {t. map_of (commit_state m) t = Some Committed}\<rparr>\<rparr>"
    using mv_begin(3) mv_begin.IH committed_set [of "commit_state m"] by (auto simp: mvcc_begin_def mvcc_inv_def)
  have lt: "t \<le> n \<Longrightarrow> t < n + 1" for t using mv_begin(2) by (rule word_less_Suc)
  have "map_of (commit_state m) n = None" using mv_begin.IH unfolding mvcc_inv_def by (metis less_irrefl)
  then show ?case
    using mv_begin.IH idle lt order_less_trans [OF _ lt [OF order_refl]] order_less_imp_le [THEN lt]
    by (auto simp: mvcc_inv_def m' distinct_update update_conv' split: if_splits simp del: map_of_eq_Some_iff)
next
  case (mv_commit n m t m')
  then obtain a where a: "mt_active m = Some a" by (auto simp: mvcc_commit_def split: option.splits)
  with mv_commit show ?case
    by (auto simp: mvcc_inv_def mvcc_commit_def distinct_update update_conv' split: if_splits simp del: map_of_eq_Some_iff)
next
  case (mv_rollback n m t m')
  then obtain a where a: "mt_active m = Some a" by (auto simp: mvcc_rollback_def split: option.splits)
  with mv_rollback show ?case
    by (auto simp: mvcc_inv_def mvcc_rollback_def distinct_update update_conv' split: if_splits simp del: map_of_eq_Some_iff)
next
  case (mv_cleanup n m)
  let ?cs = "filter (\<lambda>(_, s). s \<noteq> Aborted) (commit_state m)"
  have d: "distinct (map fst (commit_state m))" using mv_cleanup.IH by (simp add: mvcc_inv_def)
  have same: "map_of ?cs t = Some s \<longleftrightarrow> map_of (commit_state m) t = Some s" if "s \<noteq> Aborted" for t s
    using that d by (auto simp: map_of_without simp del: map_of_eq_Some_iff)
  have sub: "map_of ?cs t \<noteq> None \<Longrightarrow> map_of (commit_state m) t \<noteq> None" for t 
    using map_of_without [OF d, of Aborted t] by (simp split: if_splits del: map_of_eq_Some_iff)
  show ?case
    using mv_cleanup.IH sub unfolding mvcc_inv_def cleanup_aborted_def Let_def
    by (simp add: same distinct_map_filter split: option.splits del: map_of_eq_Some_iff)
next
  case (mv_other n m)
  then have "t < n \<Longrightarrow> t < n + 1" for t using word_less_Suc [of n t] by simp
  with mv_other show ?case using word_less_Suc [of n 0] by (auto simp: mvcc_inv_def split: option.splits)
qed

text \<open>The snapshot rule: a version is visible when its creator is visible and its deleter, if any, is not.\<close>

lemma row_visible_snapshot:
  assumes "mvcc_inv n m" and "xmin v \<noteq> 0"
  shows "mvcc_is_row_visible m v \<longleftrightarrow>
    mvcc_is_visible m (xmin v) \<and> (xmax v = 0 \<or> \<not> mvcc_is_visible m (xmax v))"
proof -
  have vis: "mvcc_is_visible m t \<longleftrightarrow>
      t = (case mt_active m of Some a \<Rightarrow> mt_id a | None \<Rightarrow> 0) \<or> state_of (commit_state m) t = Committed" if "t \<noteq> 0" for t
    using assms(1) that
    by (cases "mt_active m"; cases "map_of (commit_state m) t"; cases "the (map_of (commit_state m) t)")
      (auto simp: mvcc_is_visible_def mvcc_inv_def state_of_def)
  show ?thesis
    using vis [OF assms(2)] vis [of "xmax v"]
    by (cases "xmax v = 0") (auto simp: mvcc_is_row_visible_def version_visible_def Let_def)
qed

section \<open>Properties\<close>

text \<open>C25: visibility follows the snapshot. In every reachable state of the manager a row version is
  visible exactly when the transaction that created it is visible (it is the active one, or it had
  committed when the active one began) and the one that deleted it, if any, is not, although the
  check itself looks only at the current commit states. Forgetting aborted transactions changes no
  visibility.\<close>

theorem mvcc_snapshot_visibility:
  assumes "mvcc_run n m" and "xmin v \<noteq> 0"
  shows "(mvcc_is_row_visible m v \<longleftrightarrow>
      mvcc_is_visible m (xmin v) \<and> (xmax v = 0 \<or> \<not> mvcc_is_visible m (xmax v)))
    \<and> mvcc_is_row_visible (snd (cleanup_aborted m)) v = mvcc_is_row_visible m v"
proof -
  have inv: "mvcc_inv n m" by (rule mvcc_run_inv [OF assms(1)])
  have "state_of (filter (\<lambda>(_, s). s \<noteq> Aborted) (commit_state m)) t = Committed \<longleftrightarrow>
      state_of (commit_state m) t = Committed" for t
    using inv by (auto simp: state_of_def mvcc_inv_def map_of_without split: option.splits)
  then have "mvcc_is_row_visible (snd (cleanup_aborted m)) v = mvcc_is_row_visible m v"
    by (simp add: mvcc_is_row_visible_def cleanup_aborted_def version_visible_def Let_def)
  with row_visible_snapshot [OF inv assms(2)] show ?thesis by (rule conjI)
qed

theorem mvcc_snapshot_visibility_witness:
  "mvcc_is_row_visible (snd (cleanup_aborted mvcc_new)) (version_new 1) = mvcc_is_row_visible mvcc_new (version_new 1)"
  using mvcc_snapshot_visibility [OF mv_new [of 1], of "version_new 1"] by (simp add: version_new_def)



end
