(* ===== verification/Recovery.thy ===== *)
theory Recovery
  imports Text
begin

text \<open>
  The statement log of src/src/storage/recovery.rs: its records, their text format with the writer and
  the reader, the decoders kept for old logs, and \<open>replay_wal\<close>. Text is a list of characters; the
  base64 and JSON crates are the functions of a codec, with their documented behaviour in the locale
  \<open>text_codec\<close>.
\<close>

section \<open>Records\<close>

datatype physical_change =
    PageAlloc (change_table: u64) (change_page: u32)
  | CellUpdate (change_table: u64) (change_page: u32) (cell_index: nat) (old_value: u64) (new_value: u64)
  | RowInsert (change_table: u64) (change_page: u32) (row_offset: nat) (row_values: "u64 list")
  | RowDelete (change_table: u64) (change_page: u32) (row_offset: nat)

record sql_record =
  r_txn :: u64
  r_sql :: string
  r_commit :: bool
  r_rollback :: bool
  r_change :: "physical_change option"

definition rec_autocommit :: "string \<Rightarrow> sql_record" where
  "rec_autocommit sql = \<lparr>r_txn = 0, r_sql = sql, r_commit = False, r_rollback = False, r_change = None\<rparr>"

definition rec_begin :: "u64 \<Rightarrow> sql_record" where
  "rec_begin t = \<lparr>r_txn = t, r_sql = [], r_commit = False, r_rollback = False, r_change = None\<rparr>"

definition rec_commit :: "u64 \<Rightarrow> sql_record" where
  "rec_commit t = \<lparr>r_txn = t, r_sql = [], r_commit = True, r_rollback = False, r_change = None\<rparr>"

definition rec_rollback :: "u64 \<Rightarrow> sql_record" where
  "rec_rollback t = \<lparr>r_txn = t, r_sql = [], r_commit = False, r_rollback = True, r_change = None\<rparr>"

definition rec_txn_dml :: "u64 \<Rightarrow> string \<Rightarrow> sql_record" where
  "rec_txn_dml t sql = \<lparr>r_txn = t, r_sql = sql, r_commit = False, r_rollback = False, r_change = None\<rparr>"

definition rec_physical :: "u64 \<Rightarrow> physical_change \<Rightarrow> sql_record" where
  "rec_physical t change = \<lparr>r_txn = t, r_sql = [], r_commit = False, r_rollback = False, r_change = Some change\<rparr>"

section \<open>Old logs\<close>

definition decode_legacy_sql :: "string \<Rightarrow> string" where
  "decode_legacy_sql s =
     replace2 (CHR 0x5C) (CHR ''n'') [CHR 0x0A] (replace2 (CHR 0x5C) (CHR ''|'') ''|'' s)"

section \<open>The log\<close>

text \<open>The crates: \<open>b64_decode\<close> includes the lossy conversion to text, \<open>to_json\<close> may fail.\<close>

record codec =
  b64_encode :: "string \<Rightarrow> string"
  b64_decode :: "string \<Rightarrow> string option"
  to_json :: "physical_change \<Rightarrow> string option"
  from_json :: "string \<Rightarrow> physical_change option"

record text_wal =
  log_text :: string
  log_open :: bool

definition bit_text :: "bool \<Rightarrow> string" where
  "bit_text b = (if b then ''1'' else ''0'')"

definition record_line :: "codec \<Rightarrow> sql_record \<Rightarrow> string" where
  "record_line cd r =
     (let sql_b64 = b64_encode cd (r_sql r);
          physical_json = (case r_change r of
              Some change \<Rightarrow> (case to_json cd change of Some j \<Rightarrow> j | None \<Rightarrow> [])
            | None \<Rightarrow> [])
      in show_nat (unat (r_txn r)) @ ''|'' @ bit_text (r_commit r) @ ''|'' @ bit_text (r_rollback r) @ ''|'' @
           sql_b64 @ ''|'' @ physical_json @ [CHR 0x0A])"

text \<open>\<open>io\<close> is the outcome of \<open>write_all\<close>: \<open>None\<close> when it succeeds, otherwise what of the line was
  written before the error.\<close>

definition log_append :: "codec \<Rightarrow> string option \<Rightarrow> text_wal \<Rightarrow> sql_record \<Rightarrow> unit result \<times> text_wal" where
  "log_append cd io w r =
     (if log_open w then
        (case io of
           None \<Rightarrow> (Inr (), w\<lparr>log_text := log_text w @ record_line cd r\<rparr>)
         | Some part \<Rightarrow> (Inl Io, w\<lparr>log_text := log_text w @ part\<rparr>))
      else (Inr (), w))"

definition parse_legacy_record :: "string \<Rightarrow> sql_record" where
  "parse_legacy_record line =
     (let parts = splitn 4 (CHR ''|'') line
      in \<lparr>r_txn = (case parse_u64 (hd parts) of Some t \<Rightarrow> t | None \<Rightarrow> 0),
          r_sql = (if 3 < length parts then decode_legacy_sql (parts ! 3) else []),
          r_commit = (1 < length parts \<and> parts ! 1 = ''1''),
          r_rollback = (2 < length parts \<and> parts ! 2 = ''1''),
          r_change = None\<rparr>)"

definition parse_line :: "codec \<Rightarrow> string \<Rightarrow> sql_record option" where
  "parse_line cd line =
     (if list_all is_ws line then None
      else let parts = splitn 5 (CHR ''|'') line
           in if length parts < 4 then Some (parse_legacy_record line)
              else Some \<lparr>r_txn = (case parse_u64 (parts ! 0) of Some t \<Rightarrow> t | None \<Rightarrow> 0),
                r_sql = (case b64_decode cd (parts ! 3) of Some s \<Rightarrow> s | None \<Rightarrow> decode_legacy_sql (parts ! 3)),
                r_commit = (parts ! 1 = ''1''), r_rollback = (parts ! 2 = ''1''),
                r_change = (if 5 \<le> length parts \<and> parts ! 4 \<noteq> [] then from_json cd (parts ! 4) else None)\<rparr>)"

definition read_all :: "codec \<Rightarrow> text_wal \<Rightarrow> sql_record list" where
  "read_all cd w = List.map_filter (parse_line cd) (text_lines (log_text w))"

text \<open>\<open>io\<close>: the two reopenings succeed.\<close>

definition log_truncate :: "bool \<Rightarrow> text_wal \<Rightarrow> unit result \<times> text_wal" where
  "log_truncate io w = (if io then (Inr (), w\<lparr>log_text := [], log_open := True\<rparr>) else (Inl Io, w\<lparr>log_open := False\<rparr>))"

definition log_close :: "text_wal \<Rightarrow> text_wal" where
  "log_close w = w\<lparr>log_open := False\<rparr>"

section \<open>Replay\<close>

record replay_stats =
  replayed :: nat
  skipped :: nat
  errors :: nat

text \<open>\<open>execute e sql\<close> is \<open>engine.execute(sql)\<close>: whether it succeeded, and the engine after it.\<close>

primrec replay_records ::
  "('e \<Rightarrow> string \<Rightarrow> bool \<times> 'e) \<Rightarrow> sql_record list \<Rightarrow> 'e \<times> replay_stats \<Rightarrow> 'e \<times> replay_stats" where
  "replay_records execute [] es = es"
| "replay_records execute (r # rs) es =
     (if r_commit r \<or> r_rollback r \<or> list_all is_ws (r_sql r) then replay_records execute rs es
      else let (e, st) = es; (good, e) = execute e (r_sql r)
           in replay_records execute rs
                (e, if good then st\<lparr>replayed := replayed st + 1\<rparr> else st\<lparr>errors := errors st + 1\<rparr>))"

text \<open>The transactions, in the order the hash map is enumerated.\<close>

primrec replay_txns ::
  "('e \<Rightarrow> string \<Rightarrow> bool \<times> 'e) \<Rightarrow> sql_record list \<Rightarrow> u64 list \<Rightarrow> 'e \<times> replay_stats \<Rightarrow> 'e \<times> replay_stats" where
  "replay_txns execute records [] es = es"
| "replay_txns execute records (t # ts) es =
     (let rs = filter (\<lambda>r. r_txn r = t) records;
          committed = list_ex r_commit rs; rolled_back = list_ex r_rollback rs
      in if \<not> committed \<or> rolled_back
         then replay_txns execute records ts (fst es, (snd es)\<lparr>skipped := skipped (snd es) + 1\<rparr>)
         else let e = snd (execute (fst es) ''BEGIN'');
                  (e, st) = replay_records execute rs (e, snd es)
              in replay_txns execute records ts (snd (execute e ''COMMIT''), st))"

definition replay_wal ::
  "('e \<Rightarrow> string \<Rightarrow> bool \<times> 'e) \<Rightarrow> u64 list \<Rightarrow> 'e \<Rightarrow> sql_record list \<Rightarrow> 'e \<times> replay_stats" where
  "replay_wal execute order e records =
     (let es = replay_records execute (filter (\<lambda>r. r_txn r = 0) records)
                 (e, \<lparr>replayed = 0, skipped = 0, errors = 0\<rparr>)
      in replay_txns execute records order es)"

section \<open>The codec contract\<close>

locale text_codec =
  fixes cd :: codec
  assumes b64: "b64_decode cd (b64_encode cd s) = Some s"
    and alphabet: "c \<in> set (b64_encode cd s) \<Longrightarrow> c \<noteq> CHR ''|'' \<and> c \<noteq> CHR 0x0A \<and> c \<noteq> CHR 0x0D"
    and json: "\<exists>j. to_json cd ch = Some j \<and> from_json cd j = Some ch \<and> j \<noteq> [] \<and> CHR 0x0A \<notin> set j \<and> last j \<noteq> CHR 0x0D"
begin

lemma parse_record_line:
  obtains l where "record_line cd r = l @ [CHR 0x0A]" and "CHR 0x0A \<notin> set l" and "strip_cr l = l"
    and "parse_line cd l = Some r"
proof -
  obtain j where j: "(case r_change r of Some change \<Rightarrow> (case to_json cd change of Some j \<Rightarrow> j | None \<Rightarrow> []) | None \<Rightarrow> []) = j"
    "CHR 0x0A \<notin> set j" "j = [] \<or> last j \<noteq> CHR 0x0D" "(if j \<noteq> [] then from_json cd j else None) = r_change r"
  proof (cases "r_change r")
    case (Some ch)
    with json [of ch] that show thesis by auto
  qed (use that [of "[]"] in simp)
  let ?n = "show_nat (unat (r_txn r))" and ?b = "b64_encode cd (r_sql r)"
  let ?l = "?n @ CHR ''|'' # bit_text (r_commit r) @ CHR ''|'' # bit_text (r_rollback r) @ CHR ''|'' # ?b @ CHR ''|'' # j"
  have line: "record_line cd r = ?l @ [CHR 0x0A]" by (simp add: record_line_def Let_def j(1))
  have bit: "CHR ''|'' \<notin> set (bit_text b)" "CHR 0x0A \<notin> set (bit_text b)" "bit_text b = ''1'' \<longleftrightarrow> b" for b
    by (simp_all add: bit_text_def)
  have n: "CHR ''|'' \<notin> set ?n" "CHR 0x0A \<notin> set ?n" using show_nat_chars is_digit_not by blast+
  have b: "CHR ''|'' \<notin> set ?b" "CHR 0x0A \<notin> set ?b" using alphabet by blast+
  have nl: "CHR 0x0A \<notin> set ?l" using n bit b j(2) by simp
  have cr: "strip_cr ?l = ?l" using j(3) by (auto simp: strip_cr_def)
  have split: "splitn 5 (CHR ''|'') ?l = [?n, bit_text (r_commit r), bit_text (r_rollback r), ?b, j]"
    using splitn_field [OF n(1), of 3] splitn_field [OF bit(1), of 2] splitn_field [OF bit(1), of 1]
      splitn_field [OF b(1), of 0] by (simp add: eval_nat_numeral)
  have "hd ?n \<in> set ?l" "\<not> is_ws (hd ?n)"
    using show_nat_digits [of "unat (r_txn r)"] show_nat_chars [of "hd ?n" "unat (r_txn r)"] is_digit_not by auto
  then have ws: "\<not> list_all is_ws ?l" by (auto simp only: list_all_iff)
  have "parse_line cd ?l = Some r"
    using ws split parse_show [of "r_txn r"] b64 [of "r_sql r"] bit(3) j(4)
    unfolding parse_line_def Let_def by (cases r; cases "j = []") simp_all
  with line nl cr show thesis by (rule that)
qed

lemma read_appended: "read_all cd \<lparr>log_text = concat (map (record_line cd) rs) @ rest, log_open = b\<rparr> =
    rs @ read_all cd \<lparr>log_text = rest, log_open = b\<rparr>"
proof (induction rs)
  case (Cons r rs)
  obtain l where l: "record_line cd r = l @ [CHR 0x0A]" "CHR 0x0A \<notin> set l" "strip_cr l = l" "parse_line cd l = Some r"
    by (rule parse_record_line)
  have "read_all cd \<lparr>log_text = l @ CHR 0x0A # s, log_open = b\<rparr> = r # read_all cd \<lparr>log_text = s, log_open = b\<rparr>" for s
    using text_lines_line [OF l(2)] l(3,4) by (simp add: read_all_def List.map_filter_simps)
  with Cons l(1) show ?case by simp
qed (simp add: read_all_def)

end

section \<open>A codec with the contract\<close>

text \<open>Two hexadecimal digits per character, and the numbers of a change with a comma after each.\<close>

definition hex_encode :: "string \<Rightarrow> string" where
  "hex_encode s = concat (map (\<lambda>c. let n = of_char c :: nat in [char_of (65 + n div 16), char_of (65 + n mod 16)]) s)"

fun hex_decode :: "string \<Rightarrow> string option" where
  "hex_decode [] = Some []"
| "hex_decode [_] = None"
| "hex_decode (a # b # s) =
     map_option (\<lambda>t. char_of (16 * (of_char a - 65) + (of_char b - 65) :: nat) # t) (hex_decode s)"

definition show_nats :: "nat list \<Rightarrow> string" where
  "show_nats ns = concat (map (\<lambda>n. show_nat n @ '','') ns)"

function read_nats :: "string \<Rightarrow> nat list" where
  "read_nats s =
     (case dropWhile (\<lambda>x. x \<noteq> CHR '','') s of
        [] \<Rightarrow> []
      | _ # rest \<Rightarrow> digits_val (takeWhile (\<lambda>x. x \<noteq> CHR '','') s) # read_nats rest)"
  by pat_completeness auto
termination
proof (relation "measure length")
  fix s :: string and x rest
  assume "dropWhile (\<lambda>x. x \<noteq> CHR '','') s = x # rest"
  then show "(rest, s) \<in> measure length"
    using length_dropWhile_le [of "\<lambda>x. x \<noteq> CHR '',''" s] by simp
qed simp

declare read_nats.simps [simp del]

primrec change_nats :: "physical_change \<Rightarrow> nat list" where
  "change_nats (PageAlloc t p) = [0, unat t, unat p]"
| "change_nats (CellUpdate t p i old new) = [1, unat t, unat p, i, unat old, unat new]"
| "change_nats (RowInsert t p i vs) = [2, unat t, unat p, i] @ map unat vs"
| "change_nats (RowDelete t p i) = [3, unat t, unat p, i]"

definition change_of_nats :: "nat list \<Rightarrow> physical_change option" where
  "change_of_nats ns =
     (let t = of_nat (ns ! 1); p = of_nat (ns ! 2)
      in if hd ns = 0 then Some (PageAlloc t p)
         else if hd ns = 1 then Some (CellUpdate t p (ns ! 3) (of_nat (ns ! 4)) (of_nat (ns ! 5)))
         else if hd ns = 2 then Some (RowInsert t p (ns ! 3) (map of_nat (drop 4 ns)))
         else Some (RowDelete t p (ns ! 3)))"

definition plain_codec :: codec where
  "plain_codec = \<lparr>b64_encode = hex_encode, b64_decode = hex_decode,
     to_json = \<lambda>c. Some (show_nats (change_nats c)), from_json = \<lambda>s. change_of_nats (read_nats s)\<rparr>"

lemma hex_digit: "(of_char c :: nat) div 16 < 16"
proof -
  have "(of_char c :: nat) < 256" by simp
  then show ?thesis by linarith
qed

lemma hex_roundtrip: "hex_decode (hex_encode s) = Some s"
proof (induction s)
  case (Cons c s)
  from hex_digit [of c] have "(of_char (char_of (65 + (of_char c :: nat) div 16)) :: nat) = 65 + of_char c div 16"
    "(of_char (char_of (65 + (of_char c :: nat) mod 16)) :: nat) = 65 + of_char c mod 16"
    by (simp_all add: of_char_of)
  with Cons show ?case by (simp add: hex_encode_def Let_def)
qed (simp add: hex_encode_def)

lemma read_show_nats: "read_nats (show_nats ns) = ns"
proof (induction ns)
  case Nil
  show ?case by (simp add: show_nats_def read_nats.simps [of "[]"])
next
  case (Cons n ns)
  have "CHR '','' \<notin> set (show_nat n)" using show_nat_chars is_digit_not by blast
  from takeWhile_until [OF this, of "show_nats ns"] Cons show_nat_digits [of n]
  show ?case by (simp add: show_nats_def read_nats.simps [of "show_nat n @ _"])
qed

lemma change_roundtrip: "change_of_nats (change_nats c) = Some c"
  by (cases c) (simp_all add: change_of_nats_def Let_def comp_def)

interpretation plain: text_codec plain_codec
proof
  fix s c ch
  show "b64_decode plain_codec (b64_encode plain_codec s) = Some s" by (simp add: plain_codec_def hex_roundtrip)
  show "c \<noteq> CHR ''|'' \<and> c \<noteq> CHR 0x0A \<and> c \<noteq> CHR 0x0D" if "c \<in> set (b64_encode plain_codec s)"
  proof -
    from that obtain d :: char where "c = char_of (65 + (of_char d :: nat) div 16) \<or> c = char_of (65 + (of_char d :: nat) mod 16)"
      by (auto simp: plain_codec_def hex_encode_def Let_def)
    moreover have "(of_char d :: nat) div 16 < 16" using hex_digit [of d] .
    ultimately obtain n :: nat where n: "n < 16" "c = char_of (65 + n)"
      by (metis mod_less_divisor zero_less_numeral)
    then have "(of_char c :: nat) = 65 + n" by (simp add: of_char_of)
    with n(1) show ?thesis by auto
  qed
  have "show_nats ns \<noteq> [] \<and> CHR 0x0A \<notin> set (show_nats ns) \<and> last (show_nats ns) = CHR '',''" if "ns \<noteq> []" for ns
    using that
  proof (induction ns)
    case (Cons n ns)
    have "CHR 0x0A \<notin> set (show_nat n)" using show_nat_chars is_digit_not by blast
    with Cons show ?case by (cases "ns = []") (simp_all add: show_nats_def)
  qed simp
  moreover have "change_nats ch \<noteq> []" by (cases ch) simp_all
  ultimately show "\<exists>j. to_json plain_codec ch = Some j \<and> from_json plain_codec j = Some ch \<and> j \<noteq> [] \<and> CHR 0x0A \<notin> set j \<and> last j \<noteq> CHR 0x0D"
    by (simp add: plain_codec_def read_show_nats change_roundtrip)
qed

section \<open>Properties\<close>

text \<open>C5: the statement log reads back. Over any base64 and JSON codec with the contract of the crates,
  reading a log made of appended records returns exactly those records, statements with any
  characters and physical changes included, followed by whatever the rest of the file parses to.\<close>

theorem statement_log_roundtrip:
  assumes "text_codec cd"
  shows "read_all cd \<lparr>log_text = concat (map (record_line cd) rs) @ rest, log_open = b\<rparr> =
    rs @ read_all cd \<lparr>log_text = rest, log_open = b\<rparr>"
  by (rule text_codec.read_appended [OF assms])

theorem statement_log_roundtrip_witness:
  "read_all plain_codec \<lparr>log_text = concat (map (record_line plain_codec) [rec_autocommit ''a|b'', rec_commit 7]) @ [], log_open = True\<rparr> =
    [rec_autocommit ''a|b'', rec_commit 7] @ read_all plain_codec \<lparr>log_text = [], log_open = True\<rparr>"
  by (rule statement_log_roundtrip [OF plain.text_codec_axioms])

end
