(* ===== verification/Engine.thy ===== *)
theory Engine
  imports Buffer_Pool Txn Recovery
begin

text \<open>
  The statement level of the query engine of src/src/engine/mod.rs: transaction control, routing of a
  statement to the transaction's snapshot, savepoints, logging, physical changes, replay and opening.
  What a DDL, DML, SELECT or EXEC statement does to the catalog is the parameter \<open>env_inner\<close>, with the
  registries of views, procedures and indexes fixed; EXPLAIN and COPY are \<open>env_explain\<close> and
  \<open>env_copy\<close>. Query results
  are left out. \<open>None\<close> is a panic, or a procedure that calls itself deeper than the fuel.
\<close>

section \<open>State and parameters\<close>

record ('s, 'h) engine =
  e_catalog :: "('s, 'h) catalog"
  e_txn :: "('s, 'h) catalog txn_manager"
  e_wal :: "text_wal option"
  e_pool :: "buffer_pool option"
  e_savepoints :: "(string \<times> ('s, 'h) catalog) list"

text \<open>The outcome of a statement: a DDL or DML statement that succeeded; any other statement, or a
  failed one; or a procedure call, with the statements of the body.\<close>

datatype ('s, 'h) stmt_outcome =
    Logged "('s, 'h) catalog"
  | Unlogged "unit result" "('s, 'h) catalog"
  | Exec_body "string list"

text \<open>\<open>env_write\<close> is the outcome of writing a log line, as in \<open>log_append\<close>; \<open>env_names\<close> and \<open>env_keys\<close>
  are the enumeration orders of the catalog and of the page table.\<close>

record ('s, 'h) engine_env =
  env_codec :: codec
  env_write :: "text_wal \<Rightarrow> sql_record \<Rightarrow> string option"
  env_names :: "('s, 'h) catalog \<Rightarrow> string list"
  env_inner :: "('s, 'h) catalog \<Rightarrow> string \<Rightarrow> ('s, 'h) stmt_outcome"
  env_explain :: "('s, 'h) catalog \<Rightarrow> string \<Rightarrow> unit result"
  env_copy :: "('s, 'h) catalog \<Rightarrow> string \<Rightarrow> unit result \<times> ('s, 'h) catalog"
  env_io :: pool_env
  env_bo :: "page_header \<Rightarrow> bytes"
  env_fb :: "bytes \<Rightarrow> page_header option"
  env_keys :: "buffer_pool \<Rightarrow> page_id list"
  env_sync :: bool
  env_truncate :: bool

type_synonym ('s, 'h) engine_result = "(unit result \<times> ('s, 'h) engine) option"

definition dummy_table :: "('s, 'h) table" where
  "dummy_table = \<lparr>tname = ''__dummy__'', columns = [[0]], column_names = [''__dummy_col__''], row_count = 1,
     string_columns = [None], null_bitmaps = [None], schema = None\<rparr>"

definition engine_new :: "('s, 'h) engine" where
  "engine_new = \<lparr>e_catalog = register cat_new dummy_table, e_txn = txn_new, e_wal = None, e_pool = None, e_savepoints = []\<rparr>"

section \<open>The log and the buffer pool\<close>

definition wal_append_record :: "('s, 'h) engine_env \<Rightarrow> ('s, 'h) engine \<Rightarrow> sql_record \<Rightarrow> ('s, 'h) engine" where
  "wal_append_record env e r =
     (case e_wal e of
        None \<Rightarrow> e
      | Some w \<Rightarrow> e\<lparr>e_wal := Some (snd (log_append (env_codec env) (env_write env w r) w r))\<rparr>)"

definition wal_append_txn :: "('s, 'h) engine_env \<Rightarrow> ('s, 'h) engine \<Rightarrow> string \<Rightarrow> u64 option \<Rightarrow> ('s, 'h) engine" where
  "wal_append_txn env e sql t =
     wal_append_record env e (case t of Some i \<Rightarrow> rec_txn_dml i sql | None \<Rightarrow> rec_autocommit sql)"

text \<open>The loop over the values of an inserted row.\<close>

primrec set_row :: "page \<Rightarrow> nat \<Rightarrow> u64 list \<Rightarrow> page option" where
  "set_row pg cell_idx [] = Some pg"
| "set_row pg cell_idx (v # vs) =
     (if cell_idx < PAGE_CELLS
      then (case set_cell pg cell_idx v of None \<Rightarrow> None | Some pg \<Rightarrow> set_row pg (cell_idx + 1) vs)
      else set_row pg (cell_idx + 1) vs)"

text \<open>Fetch a page, change it in place, unpin it as dirty.\<close>

definition change_page_at ::
  "('s, 'h) engine_env \<Rightarrow> buffer_pool \<Rightarrow> page_id \<Rightarrow> (page \<Rightarrow> page option) \<Rightarrow> unit pool_result" where
  "change_page_at env bp pid f =
     (case fetch_page (env_io env) (env_bo env) (env_fb env) bp pid of
        None \<Rightarrow> None
      | Some (Inl _, bp) \<Rightarrow> Some (Inl Other, bp)
      | Some (Inr idx, bp) \<Rightarrow>
          (case get_page bp idx of
             None \<Rightarrow> None
           | Some pg \<Rightarrow>
               (case f pg of
                  None \<Rightarrow> None
                | Some pg \<Rightarrow> map_option (\<lambda>bp. (Inr (), unpin_page bp pid True)) (put_page bp idx pg))))"

definition apply_physical_change ::
  "('s, 'h) engine_env \<Rightarrow> ('s, 'h) engine \<Rightarrow> physical_change \<Rightarrow> ('s, 'h) engine_result" where
  "apply_physical_change env e change =
     (case e_pool e of
        None \<Rightarrow> Some (Inr (), e)
      | Some bp \<Rightarrow>
          map_option (\<lambda>(r, bp). (r, e\<lparr>e_pool := Some bp\<rparr>))
            (case change of
               PageAlloc tid num \<Rightarrow>
                 map_option (\<lambda>(_, bp). (Inr (), bp))
                   (fetch_page (env_io env) (env_bo env) (env_fb env) bp (page_id_new tid num))
             | CellUpdate tid num i _ new \<Rightarrow> change_page_at env bp (page_id_new tid num) (\<lambda>pg. set_cell pg i new)
             | RowInsert tid num off vs \<Rightarrow> change_page_at env bp (page_id_new tid num) (\<lambda>pg. set_row pg off vs)
             | RowDelete _ _ _ \<Rightarrow> Some (Inr (), bp)))"

definition engine_flush :: "('s, 'h) engine_env \<Rightarrow> ('s, 'h) engine \<Rightarrow> unit result \<times> ('s, 'h) engine" where
  "engine_flush env e =
     (let (r, e) = (case e_pool e of
            None \<Rightarrow> (Inr (), e)
          | Some bp \<Rightarrow> (let (r, bp) = flush_all (env_io env) (env_bo env) (env_keys env bp) bp
                       in (r, e\<lparr>e_pool := Some bp\<rparr>)))
      in case r of
           Inl _ \<Rightarrow> (Inl Other, e)
         | Inr _ \<Rightarrow> (if e_wal e = None \<or> env_sync env then Inr () else Inl Other, e))"

section \<open>Savepoints\<close>

text \<open>\<open>Iterator::rposition\<close>.\<close>

definition rposition :: "('a \<Rightarrow> bool) \<Rightarrow> 'a list \<Rightarrow> nat option" where
  "rposition p xs = map_option (\<lambda>i. length xs - 1 - i) (position p (rev xs))"

definition execute_savepoint :: "('s, 'h) engine_env \<Rightarrow> ('s, 'h) engine \<Rightarrow> string \<Rightarrow> ('s, 'h) engine" where
  "execute_savepoint env e name =
     e\<lparr>e_savepoints := e_savepoints e @ [(name, clone_catalog (env_names env (e_catalog e)) (e_catalog e))]\<rparr>"

definition execute_rollback_to ::
  "('s, 'h) engine_env \<Rightarrow> ('s, 'h) engine \<Rightarrow> string \<Rightarrow> unit result \<times> ('s, 'h) engine" where
  "execute_rollback_to env e name =
     (case rposition (\<lambda>(n, _). n = name) (e_savepoints e) of
        None \<Rightarrow> (Inl NotFound, e)
      | Some pos \<Rightarrow>
          let snap = snd (e_savepoints e ! pos)
          in (Inr (), e\<lparr>e_catalog := clone_catalog (env_names env snap) snap, e_savepoints := take (pos + 1) (e_savepoints e)\<rparr>))"

definition execute_release_savepoint :: "('s, 'h) engine \<Rightarrow> string \<Rightarrow> unit result \<times> ('s, 'h) engine" where
  "execute_release_savepoint e name =
     (case rposition (\<lambda>(n, _). n = name) (e_savepoints e) of
        None \<Rightarrow> (Inl NotFound, e)
      | Some pos \<Rightarrow> (Inr (), e\<lparr>e_savepoints := take pos (e_savepoints e)\<rparr>))"

section \<open>Executing a statement\<close>

text \<open>The statements of a procedure body, each through \<open>execute\<close>, until one fails.\<close>

primrec run_body ::
  "(('s, 'h) engine \<Rightarrow> string \<Rightarrow> ('s, 'h) engine_result) \<Rightarrow> ('s, 'h) engine \<Rightarrow> string list \<Rightarrow> ('s, 'h) engine_result" where
  "run_body exec e [] = Some (Inr (), e)"
| "run_body exec e (s # ss) =
     (case exec e s of
        None \<Rightarrow> None
      | Some (Inl err, e) \<Rightarrow> Some (Inl err, e)
      | Some (Inr _, e) \<Rightarrow> run_body exec e ss)"

definition execute_inner ::
  "('s, 'h) engine_env \<Rightarrow> (('s, 'h) engine \<Rightarrow> string \<Rightarrow> ('s, 'h) engine_result) \<Rightarrow>
   ('s, 'h) engine \<Rightarrow> string \<Rightarrow> u64 option \<Rightarrow> ('s, 'h) engine_result" where
  "execute_inner env exec e sql t =
     (let trimmed = str_trim sql; low = to_lowercase trimmed
      in if starts_with low ''savepoint '' then Some (Inr (), execute_savepoint env e (str_trim (drop 10 trimmed)))
         else if starts_with low ''rollback to '' then Some (execute_rollback_to env e (str_trim (drop 12 trimmed)))
         else if starts_with low ''release '' then Some (execute_release_savepoint e (str_trim (drop 8 trimmed)))
         else case env_inner env (e_catalog e) sql of
                Logged cat \<Rightarrow> Some (Inr (), wal_append_txn env (e\<lparr>e_catalog := cat\<rparr>) sql t)
              | Unlogged r cat \<Rightarrow> Some (r, e\<lparr>e_catalog := cat\<rparr>)
              | Exec_body stmts \<Rightarrow> run_body exec e stmts)"

definition execute_vacuum :: "('s, 'h) engine_env \<Rightarrow> ('s, 'h) engine \<Rightarrow> unit result \<times> ('s, 'h) engine" where
  "execute_vacuum env e =
     (case engine_flush env e of
        (Inl err, e) \<Rightarrow> (Inl err, e)
      | (Inr _, e) \<Rightarrow>
          (case e_wal e of
             None \<Rightarrow> (Inr (), e)
           | Some w \<Rightarrow>
               let (r, w) = log_truncate (env_truncate env) w
               in (case r of Inl _ \<Rightarrow> Inl Other | Inr _ \<Rightarrow> Inr (), e\<lparr>e_wal := Some w\<rparr>)))"

text \<open>BEGIN, COMMIT and ROLLBACK.\<close>

definition execute_begin :: "('s, 'h) engine_env \<Rightarrow> ('s, 'h) engine \<Rightarrow> unit result \<times> ('s, 'h) engine" where
  "execute_begin env e =
     (case txn_begin (env_names env (e_catalog e)) (e_txn e) (e_catalog e) of
        (Inl err, _) \<Rightarrow> (Inl err, e)
      | (Inr i, mgr) \<Rightarrow> (Inr (), wal_append_record env (e\<lparr>e_txn := mgr\<rparr>) (rec_begin i)))"

definition active_id :: "('s, 'h) engine \<Rightarrow> u64" where
  "active_id e = (case active_txn (e_txn e) of Some txn \<Rightarrow> txn_id txn | None \<Rightarrow> 0)"

definition execute_commit :: "('s, 'h) engine_env \<Rightarrow> ('s, 'h) engine \<Rightarrow> unit result \<times> ('s, 'h) engine" where
  "execute_commit env e =
     (case txn_commit (e_txn e) of
        (Inl err, _) \<Rightarrow> (Inl err, e)
      | (Inr committed, mgr) \<Rightarrow>
          (Inr (), wal_append_record env (e\<lparr>e_txn := mgr, e_catalog := committed, e_savepoints := []\<rparr>) (rec_commit (active_id e))))"

definition execute_rollback :: "('s, 'h) engine_env \<Rightarrow> ('s, 'h) engine \<Rightarrow> unit result \<times> ('s, 'h) engine" where
  "execute_rollback env e =
     (case txn_rollback (e_txn e) of
        (Inl err, _) \<Rightarrow> (Inl err, e)
      | (Inr _, mgr) \<Rightarrow>
          (Inr (), wal_append_record env (e\<lparr>e_txn := mgr, e_savepoints := []\<rparr>) (rec_rollback (active_id e))))"

text \<open>With a transaction active the statement runs on the transaction's snapshot, with the
  transaction taken out of the manager.\<close>

definition execute_routed ::
  "('s, 'h) engine_env \<Rightarrow> (('s, 'h) engine \<Rightarrow> string \<Rightarrow> ('s, 'h) engine_result) \<Rightarrow>
   ('s, 'h) engine \<Rightarrow> string \<Rightarrow> ('s, 'h) engine_result" where
  "execute_routed env exec e sql =
     (case active_txn (e_txn e) of
        None \<Rightarrow> execute_inner env exec e sql None
      | Some txn \<Rightarrow>
          map_option (\<lambda>(r, e'). (r, e'\<lparr>e_catalog := e_catalog e,
              e_txn := (e_txn e')\<lparr>active_txn := Some (txn\<lparr>txn_snapshot := e_catalog e'\<rparr>)\<rparr>\<rparr>))
            (execute_inner env exec (e\<lparr>e_catalog := txn_snapshot txn, e_txn := (e_txn e)\<lparr>active_txn := None\<rparr>\<rparr>)
               sql (Some (txn_id txn))))"

definition execute_step ::
  "('s, 'h) engine_env \<Rightarrow> (('s, 'h) engine \<Rightarrow> string \<Rightarrow> ('s, 'h) engine_result) \<Rightarrow>
   ('s, 'h) engine \<Rightarrow> string \<Rightarrow> ('s, 'h) engine_result" where
  "execute_step env exec e sql =
     (let trimmed = str_trim sql; low = to_lowercase trimmed
      in if starts_with low ''explain '' then Some (env_explain env (e_catalog e) (drop 8 trimmed), e)
         else if starts_with low ''analyze '' then execute_inner env exec e (drop 8 trimmed) None
         else if starts_with low ''vacuum'' then Some (execute_vacuum env e)
         else if starts_with low ''copy '' then
           (let (r, cat) = env_copy env (e_catalog e) trimmed in Some (r, e\<lparr>e_catalog := cat\<rparr>))
         else if starts_with low ''checkpoint'' then Some (engine_flush env e)
         else if starts_with low ''begin'' \<or> starts_with low ''start transaction'' then Some (execute_begin env e)
         else if starts_with low ''commit'' then Some (execute_commit env e)
         else if starts_with low ''rollback'' \<and> \<not> starts_with low ''rollback to '' then Some (execute_rollback env e)
         else execute_routed env exec e sql)"

primrec execute ::
  "('s, 'h) engine_env \<Rightarrow> nat \<Rightarrow> ('s, 'h) engine \<Rightarrow> string \<Rightarrow> ('s, 'h) engine_result" where
  "execute env 0 = (\<lambda>e sql. None)"
| "execute env (Suc n) = execute_step env (execute env n)"

section \<open>Replay and opening\<close>

definition execute_inner_no_wal ::
  "('s, 'h) engine_env \<Rightarrow> nat \<Rightarrow> ('s, 'h) engine \<Rightarrow> string \<Rightarrow> u64 option \<Rightarrow> ('s, 'h) engine_result" where
  "execute_inner_no_wal env n e sql t =
     map_option (\<lambda>(r, e'). (r, e'\<lparr>e_wal := e_wal e\<rparr>)) (execute_inner env (execute env n) (e\<lparr>e_wal := None\<rparr>) sql t)"

definition committed_txns :: "sql_record list \<Rightarrow> u64 set" where
  "committed_txns records = set (map r_txn (filter (\<lambda>r. r_commit r \<and> r_txn r \<noteq> 0) records))"

primrec replay_loop ::
  "('s, 'h) engine_env \<Rightarrow> nat \<Rightarrow> u64 set \<Rightarrow> sql_record list \<Rightarrow> ('s, 'h) engine \<Rightarrow> ('s, 'h) engine_result" where
  "replay_loop env n committed [] e = Some (Inr (), e)"
| "replay_loop env n committed (r # rs) e =
     (if r_rollback r then replay_loop env n committed rs e
      else if r_txn r \<noteq> 0 \<and> r_txn r \<notin> committed then replay_loop env n committed rs e
      else if r_sql r = [] then
        (case r_change r of
           None \<Rightarrow> replay_loop env n committed rs e
         | Some change \<Rightarrow>
             (case apply_physical_change env e change of
                None \<Rightarrow> None
              | Some (Inl err, e) \<Rightarrow> Some (Inl err, e)
              | Some (Inr _, e) \<Rightarrow> replay_loop env n committed rs e))
      else case execute_inner_no_wal env n e (r_sql r) (Some (r_txn r)) of
             None \<Rightarrow> None
           | Some (_, e) \<Rightarrow> replay_loop env n committed rs e)"

definition engine_replay_wal :: "('s, 'h) engine_env \<Rightarrow> nat \<Rightarrow> ('s, 'h) engine \<Rightarrow> ('s, 'h) engine_result" where
  "engine_replay_wal env n e =
     (case e_wal e of
        None \<Rightarrow> Some (Inr (), e)
      | Some w \<Rightarrow> let records = read_all (env_codec env) w in replay_loop env n (committed_txns records) records e)"

text \<open>\<open>dir_ok\<close> and \<open>wal_ok\<close>: creating the directory and opening the log succeed; \<open>fs\<close> and \<open>txt\<close> are what
  the disk holds.\<close>

definition with_data_dir ::
  "('s, 'h) engine_env \<Rightarrow> nat \<Rightarrow> bool \<Rightarrow> bool \<Rightarrow> string \<Rightarrow> table_files \<Rightarrow> string \<Rightarrow> ('s, 'h) engine result option" where
  "with_data_dir env n dir_ok wal_ok dir fs txt =
     (case pool_new dir_ok dir 256 fs of
        Inl err \<Rightarrow> Some (Inl err)
      | Inr bp \<Rightarrow>
          if wal_ok then
            (case engine_replay_wal env n
                    (engine_new\<lparr>e_pool := Some bp, e_wal := Some \<lparr>log_text = txt, log_open = True\<rparr>\<rparr>) of
               None \<Rightarrow> None
             | Some (Inl err, _) \<Rightarrow> Some (Inl err)
             | Some (Inr _, e) \<Rightarrow> Some (Inr e))
          else Some (Inl Io))"

text \<open>\<open>QueryEngine::open\<close>, which replays with the function of src/src/storage/recovery.rs; \<open>order\<close> is the
  enumeration order of its transactions.\<close>

definition engine_open ::
  "('s, 'h) engine_env \<Rightarrow> nat \<Rightarrow> u64 list \<Rightarrow> bool \<Rightarrow> string \<Rightarrow> ('s, 'h) engine result option" where
  "engine_open env n order wal_ok txt =
     (if wal_ok then
        let w = \<lparr>log_text = txt, log_open = True\<rparr>;
            exec = (\<lambda>st sql. case st of
                None \<Rightarrow> (False, None)
              | Some e \<Rightarrow> (case execute env n e sql of None \<Rightarrow> (False, None) | Some (r, e) \<Rightarrow> (r = Inr (), Some e)));
            (st, stats) = replay_wal exec order (Some engine_new) (read_all (env_codec env) w)
        in map_option (\<lambda>e. Inr (e\<lparr>e_wal := Some w\<rparr>)) st
      else Some (Inl Io))"

section \<open>Replay of a log of plain statements\<close>

text \<open>A statement that reaches \<open>env_inner\<close>.\<close>

definition plain_text :: "string \<Rightarrow> bool" where
  "plain_text sql \<longleftrightarrow>
     (let low = to_lowercase (str_trim sql)
      in \<not> list_ex (starts_with low)
           [''savepoint '', ''rollback to '', ''release '', ''explain '', ''analyze '', ''vacuum'', ''copy '',
            ''checkpoint'', ''begin'', ''start transaction'', ''commit'', ''rollback''])"

text \<open>The catalog after the records that replay does not skip.\<close>

primrec replay_path ::
  "('s, 'h) engine_env \<Rightarrow> u64 set \<Rightarrow> sql_record list \<Rightarrow> ('s, 'h) catalog \<Rightarrow> ('s, 'h) catalog option" where
  "replay_path env C [] cat = Some cat"
| "replay_path env C (r # rs) cat =
     (if r_rollback r \<or> (r_txn r \<noteq> 0 \<and> r_txn r \<notin> C) then replay_path env C rs cat
      else if r_sql r = [] then (if r_change r = None then replay_path env C rs cat else None)
      else if plain_text (r_sql r) then
        (case env_inner env cat (r_sql r) of Logged cat' \<Rightarrow> replay_path env C rs cat' | _ \<Rightarrow> None)
      else None)"

lemma replay_path_append:
  "replay_path env C (rs @ rs') cat = Option.bind (replay_path env C rs cat) (replay_path env C rs')"
  by (induction rs arbitrary: cat) (simp_all split: stmt_outcome.splits)

lemma replay_path_cong:
  "(\<And>r. r \<in> set rs \<Longrightarrow> r_txn r \<in> C \<longleftrightarrow> r_txn r \<in> D) \<Longrightarrow> replay_path env C rs cat = replay_path env D rs cat"
proof (induction rs arbitrary: cat)
  case (Cons r rs)
  then have IH: "replay_path env C rs = replay_path env D rs" by (intro ext) simp
  have mem: "r_txn r \<in> C \<longleftrightarrow> r_txn r \<in> D" using Cons.prems by simp
  show ?case unfolding replay_path.simps IH mem ..
qed simp

lemma execute_inner_plain:
  assumes "plain_text sql"
  shows "execute_inner env exec e sql t =
    (case env_inner env (e_catalog e) sql of
       Logged cat \<Rightarrow> Some (Inr (), wal_append_txn env (e\<lparr>e_catalog := cat\<rparr>) sql t)
     | Unlogged r cat \<Rightarrow> Some (r, e\<lparr>e_catalog := cat\<rparr>)
     | Exec_body stmts \<Rightarrow> run_body exec e stmts)"
  using assms by (simp add: execute_inner_def plain_text_def Let_def)

lemma execute_step_plain: "plain_text sql \<Longrightarrow> execute_step env exec e sql = execute_routed env exec e sql"
  by (simp add: execute_step_def plain_text_def Let_def)

lemma wal_append_None [simp]: "e_wal e = None \<Longrightarrow> wal_append_txn env e sql t = e"
  by (simp add: wal_append_txn_def wal_append_record_def)

lemma replay_loop_path:
  "replay_path env C rs (e_catalog e) = Some cat \<Longrightarrow>
    replay_loop env n C rs e = Some (Inr (), e\<lparr>e_catalog := cat\<rparr>)"
proof (induction rs arbitrary: e)
  case (Cons r rs)
  show ?case
  proof (cases "r_rollback r \<or> (r_txn r \<noteq> 0 \<and> r_txn r \<notin> C) \<or> r_sql r = []")
    case True
    with Cons show ?thesis by (auto split: if_splits)
  next
    case False
    with Cons.prems obtain cat' where p: "plain_text (r_sql r)" "env_inner env (e_catalog e) (r_sql r) = Logged cat'"
      "replay_path env C rs cat' = Some cat"
      by (auto split: if_splits stmt_outcome.splits)
    have "execute_inner_no_wal env n e (r_sql r) (Some (r_txn r)) = Some (Inr (), e\<lparr>e_catalog := cat'\<rparr>)"
      using p(2) by (simp add: execute_inner_no_wal_def execute_inner_plain [OF p(1)])
    with Cons.IH [of "e\<lparr>e_catalog := cat'\<rparr>"] p(3) False show ?thesis by auto
  qed
qed simp

section \<open>Runs\<close>

text \<open>A run from an empty log, with every write of the log reaching the disk: transaction control with
  any spelling, and statements that either succeed and are logged or leave the catalog as it is. The
  transaction counter does not wrap, and a catalog is cloned with all of its tables.\<close>

definition stmt_ok :: "('s, 'h) engine_env \<Rightarrow> ('s, 'h) engine \<Rightarrow> string \<Rightarrow> bool" where
  "stmt_ok env e sql \<longleftrightarrow> plain_text sql \<and> sql \<noteq> [] \<and>
     (let cat = (case active_txn (e_txn e) of None \<Rightarrow> e_catalog e | Some txn \<Rightarrow> txn_snapshot txn)
      in case env_inner env cat sql of
           Logged cat' \<Rightarrow> cat_ok cat'
         | Unlogged r cat' \<Rightarrow> cat' = cat
         | Exec_body stmts \<Rightarrow> False)"

definition control :: "string \<Rightarrow> bool" where
  "control sql \<longleftrightarrow>
     (let low = to_lowercase (str_trim sql)
      in \<not> list_ex (starts_with low) [''explain '', ''analyze '', ''vacuum'', ''copy ''] \<and>
         (list_ex (starts_with low) [''checkpoint'', ''begin'', ''start transaction'', ''commit''] \<or>
          starts_with low ''rollback'' \<and> \<not> starts_with low ''rollback to ''))"

inductive engine_run :: "('s, 'h) engine_env \<Rightarrow> nat \<Rightarrow> ('s, 'h) engine \<Rightarrow> bool" for env n where
  start: "with_data_dir env n True True dir fs [] = Some (Inr e) \<Longrightarrow> engine_run env n e"
| control: "engine_run env n e \<Longrightarrow> control sql \<Longrightarrow> next_id (e_txn e) \<noteq> - 1 \<Longrightarrow>
    dom (cat_tables (e_catalog e)) \<subseteq> set (env_names env (e_catalog e)) \<Longrightarrow>
    execute env (Suc n) e sql = Some (r, e') \<Longrightarrow> engine_run env n e'"
| stmt: "engine_run env n e \<Longrightarrow> stmt_ok env e sql \<Longrightarrow> execute env (Suc n) e sql = Some (r, e') \<Longrightarrow> engine_run env n e'"

definition base_catalog :: "('s, 'h) catalog" where
  "base_catalog = e_catalog engine_new"

definition log_inv :: "('s, 'h) engine_env \<Rightarrow> ('s, 'h) engine \<Rightarrow> sql_record list \<Rightarrow> bool" where
  "log_inv env e rs \<longleftrightarrow>
     e_wal e = Some \<lparr>log_text = concat (map (record_line (env_codec env)) rs), log_open = True\<rparr> \<and>
     replay_path env (committed_txns rs) rs base_catalog = Some (e_catalog e) \<and> cat_ok (e_catalog e) \<and>
     0 < next_id (e_txn e) \<and> (\<forall>r\<in>set rs. r_txn r < next_id (e_txn e)) \<and>
     (case active_txn (e_txn e) of
        None \<Rightarrow> True
      | Some txn \<Rightarrow> txn_id txn \<noteq> 0 \<and> txn_id txn < next_id (e_txn e) \<and> txn_id txn \<notin> committed_txns rs \<and>
          cat_ok (txn_snapshot txn) \<and>
          replay_path env (insert (txn_id txn) (committed_txns rs)) rs base_catalog = Some (txn_snapshot txn))"

lemma committed_snoc: "committed_txns (rs @ [r]) = (if r_commit r \<and> r_txn r \<noteq> 0 then insert (r_txn r) (committed_txns rs) else committed_txns rs)"
  by (auto simp: committed_txns_def)

lemma committed_le: "t \<in> committed_txns rs \<Longrightarrow> \<exists>r\<in>set rs. r_txn r = t"
  by (auto simp: committed_txns_def)

lemma wal_append_written:
  assumes "\<And>w r. env_write env w r = None"
    and "e_wal e = Some \<lparr>log_text = concat (map (record_line (env_codec env)) rs), log_open = True\<rparr>"
  shows "wal_append_record env e r =
    e\<lparr>e_wal := Some \<lparr>log_text = concat (map (record_line (env_codec env)) (rs @ [r])), log_open = True\<rparr>\<rparr>"
  using assms by (simp add: wal_append_record_def log_append_def)

lemmas record_defs = rec_autocommit_def rec_begin_def rec_commit_def rec_rollback_def rec_txn_dml_def

lemma begin_log_inv:
  assumes w: "\<And>w r. env_write env w r = None" and inv: "log_inv env e rs" and id: "next_id (e_txn e) \<noteq> - 1"
    and names: "dom (cat_tables (e_catalog e)) \<subseteq> set (env_names env (e_catalog e))"
    and ex: "execute_begin env e = (r, e')"
  shows "\<exists>rs. log_inv env e' rs"
proof (cases "active_txn (e_txn e)")
  case (Some txn)
  with ex have "e' = e" by (simp add: execute_begin_def txn_begin_def)
  with inv show ?thesis by blast
next
  case None
  let ?t = "next_id (e_txn e)"
  have "\<not> ?t + 1 \<le> ?t" using id by (simp add: inc_less_eq_iff)
  then have t: "?t < ?t + 1" "0 < ?t + 1" by (simp_all add: word_gt_0) (auto simp: not_le)
  have lt: "r_txn r \<noteq> ?t" if "r \<in> set rs" for r using inv that by (force simp: log_inv_def)
  have path: "replay_path env (insert ?t (committed_txns rs)) rs base_catalog = replay_path env (committed_txns rs) rs base_catalog"
    using lt by (intro replay_path_cong) auto
  have "clone_catalog (env_names env (e_catalog e)) (e_catalog e) = e_catalog e"
    using inv names by (intro clone_catalog_id) (simp_all add: log_inv_def)
  moreover have "?t \<notin> committed_txns rs" using lt committed_le by blast
  ultimately have "log_inv env e' (rs @ [rec_begin ?t])"
    using None ex inv path t
    by (auto simp: execute_begin_def txn_begin_def Let_def wal_append_written [OF w] log_inv_def committed_snoc
        replay_path_append record_defs intro: order.strict_trans)
  then show ?thesis by blast
qed

lemma commit_log_inv:
  assumes w: "\<And>w r. env_write env w r = None" and inv: "log_inv env e rs" and ex: "execute_commit env e = (r, e')"
  shows "\<exists>rs. log_inv env e' rs"
proof (cases "active_txn (e_txn e)")
  case None
  with ex have "e' = e" by (simp add: execute_commit_def txn_commit_def)
  with inv show ?thesis by blast
next
  case (Some txn)
  with ex inv have "log_inv env e' (rs @ [rec_commit (txn_id txn)])"
    by (auto simp: execute_commit_def txn_commit_def active_id_def wal_append_written [OF w] log_inv_def committed_snoc
        replay_path_append record_defs)
  then show ?thesis by blast
qed

lemma rollback_log_inv:
  assumes w: "\<And>w r. env_write env w r = None" and inv: "log_inv env e rs" and ex: "execute_rollback env e = (r, e')"
  shows "\<exists>rs. log_inv env e' rs"
proof (cases "active_txn (e_txn e)")
  case None
  with ex have "e' = e" by (simp add: execute_rollback_def txn_rollback_def)
  with inv show ?thesis by blast
next
  case (Some txn)
  with ex inv have "log_inv env e' (rs @ [rec_rollback (txn_id txn)])"
    by (auto simp: execute_rollback_def txn_rollback_def active_id_def wal_append_written [OF w] log_inv_def committed_snoc
        replay_path_append record_defs)
  then show ?thesis by blast
qed

lemma flush_same:
  "engine_flush env e = (r, e') \<Longrightarrow>
    e_catalog e' = e_catalog e \<and> e_txn e' = e_txn e \<and> e_wal e' = e_wal e \<and> e_savepoints e' = e_savepoints e"
  by (auto simp: engine_flush_def Let_def split: option.splits sum.splits prod.splits)

lemma flush_log_inv: "log_inv env e rs \<Longrightarrow> engine_flush env e = (r, e') \<Longrightarrow> log_inv env e' rs"
  using flush_same [of env e r e'] by (simp add: log_inv_def cong: option.case_cong)

lemma stmt_log_inv:
  assumes w: "\<And>w r. env_write env w r = None" and inv: "log_inv env e rs" and ok: "stmt_ok env e sql"
    and ex: "execute_routed env exec e sql = Some (r, e')"
  shows "\<exists>rs. log_inv env e' rs"
proof (cases "active_txn (e_txn e)")
  case None
  have p: "plain_text sql" "sql \<noteq> []" using ok by (simp_all add: stmt_ok_def)
  show ?thesis
  proof (cases "env_inner env (e_catalog e) sql")
    case (Logged cat)
    then have "log_inv env e' (rs @ [rec_autocommit sql])"
      using None ok ex inv p
      by (auto simp: stmt_ok_def execute_routed_def execute_inner_plain wal_append_txn_def wal_append_written [OF w] log_inv_def
          committed_snoc replay_path_append record_defs)
    then show ?thesis by blast
  next
    case (Unlogged r' cat)
    then have "e' = e" using None ok ex by (auto simp: stmt_ok_def execute_routed_def execute_inner_plain)
    with inv show ?thesis by blast
  qed (use None ok in \<open>simp add: stmt_ok_def\<close>)
next
  case (Some txn)
  have p: "plain_text sql" "sql \<noteq> []" using ok by (simp_all add: stmt_ok_def)
  show ?thesis
  proof (cases "env_inner env (txn_snapshot txn) sql")
    case (Logged cat)
    then have "log_inv env e' (rs @ [rec_txn_dml (txn_id txn) sql])"
      using Some ok ex inv p
      by (auto simp: stmt_ok_def execute_routed_def execute_inner_plain wal_append_txn_def wal_append_written [OF w] log_inv_def
          committed_snoc replay_path_append record_defs)
    then show ?thesis by blast
  next
    case (Unlogged r' cat)
    then have "e' = e" using Some ok ex by (auto simp: stmt_ok_def execute_routed_def execute_inner_plain)
    with inv show ?thesis by blast
  qed (use Some ok in \<open>simp add: stmt_ok_def\<close>)
qed

lemma control_step:
  "control sql \<Longrightarrow> execute env (Suc n) e sql = Some (r, e') \<Longrightarrow>
    execute_begin env e = (r, e') \<or> execute_commit env e = (r, e') \<or> execute_rollback env e = (r, e') \<or> engine_flush env e = (r, e')"
  by (simp add: control_def execute_step_def Let_def split: if_splits)

lemma run_log_inv:
  assumes "engine_run env n e" and w: "\<And>w r. env_write env w r = None"
  shows "\<exists>rs. log_inv env e rs"
  using assms(1)
proof induction
  case (start dir fs e)
  then have "log_inv env e []"
    by (auto simp: with_data_dir_def pool_new_def engine_replay_wal_def read_all_def text_lines.simps [of "[]"] List.map_filter_simps
        Let_def log_inv_def base_catalog_def committed_txns_def engine_new_def txn_new_def cat_ok_ops)
  then show ?case by blast
next
  case (control e sql r e')
  then obtain rs where "log_inv env e rs" by blast
  with control_step [OF control(2,5)] control(3,4) w show ?case
    using begin_log_inv commit_log_inv rollback_log_inv flush_log_inv by metis
next
  case (stmt e sql r e')
  then obtain rs where "log_inv env e rs" by blast
  moreover have "execute_routed env (execute env n) e sql = Some (r, e')"
    using stmt by (simp add: stmt_ok_def execute_step_plain)
  ultimately show ?case using stmt_log_inv [OF w] stmt(2) by blast
qed

section \<open>Physical changes\<close>

text \<open>The value a change gives to a cell of the page store, if it changes that cell.\<close>

definition change_target :: "physical_change \<Rightarrow> page_id" where
  "change_target ch = page_id_new (change_table ch) (change_page ch)"

primrec redo_value :: "physical_change \<Rightarrow> nat \<Rightarrow> u64 option" where
  "redo_value (PageAlloc t n) j = None"
| "redo_value (CellUpdate t n i old new) j = (if j = i then Some new else None)"
| "redo_value (RowInsert t n off vs) j = (if off \<le> j \<and> j < off + length vs then Some (vs ! (j - off)) else None)"
| "redo_value (RowDelete t n off) j = None"

lemma set_row_correct:
  "wf_page pg \<Longrightarrow> set_row pg off vs = Some pg' \<Longrightarrow> wf_page pg' \<and>
    (\<forall>j<PAGE_CELLS. get_cell pg' j = (if off \<le> j \<and> j < off + length vs then Some (vs ! (j - off)) else get_cell pg j))"
proof (induction vs arbitrary: pg off)
  case (Cons v vs)
  show ?case
  proof (cases "off < PAGE_CELLS")
    case False
    with Cons.IH [of pg "off + 1"] Cons.prems show ?thesis by auto
  next
    case True
    with Cons.prems obtain p1 where p1: "set_cell pg off v = Some p1" "set_row p1 (off + 1) vs = Some pg'"
      by (auto split: option.splits)
    note IH = Cons.IH [OF set_cell_wf [OF Cons.prems(1) p1(1)] p1(2)]
    have "get_cell pg' j = (if off \<le> j \<and> j < off + length (v # vs) then Some ((v # vs) ! (j - off)) else get_cell pg j)"
      if "j < PAGE_CELLS" for j
    proof (cases "j = off")
      case True
      with IH that get_set_cell [OF Cons.prems(1) p1(1), of j] show ?thesis by simp
    next
      case False
      with IH that get_set_cell [OF Cons.prems(1) p1(1), of j] show ?thesis by (auto simp: nth_Cons')
    qed
    with IH show ?thesis by blast
  qed
qed auto

context pod_file
begin

lemma change_page_at_correct:
  assumes inv: "pool_inv fb p M" and env: "env_bo env = bo" "env_fb env = fb"
    and c: "change_page_at env p pid f = Some (Inr (), p')"
    and pin: "\<And>k. page_table p pid = Some k \<Longrightarrow> pin_count (frames p ! k) \<noteq> - 1"
    and wf: "\<And>pg pg'. wf_page pg \<Longrightarrow> f pg = Some pg' \<Longrightarrow> wf_page pg'"
  shows "\<exists>pg'. f (pool_view fb p pid) = Some pg' \<and> wf_page (pool_view fb p pid) \<and>
    pool_inv fb p' (M - {pid}) \<and> pool_view fb p' = (pool_view fb p)(pid := pg')"
proof -
  from c env obtain i p1 pg pg' p2 where f: "fetch_page (env_io env) bo fb p pid = Some (Inr i, p1)"
    and g: "get_page p1 i = Some pg" "f pg = Some pg'" "put_page p1 i pg' = Some p2" and p': "p' = unpin_page p2 pid True"
    by (auto simp: change_page_at_def split: option.splits sum.splits prod.splits)
  note F = fetch_page_correct [OF inv f pin]
  have pg: "pg = pool_view fb p pid" using F(4) g(1) by simp
  have "wf_page pg" using g(1) pool_invD(2) [OF F(1), of i] by (auto simp: get_page_def split: if_splits)
  then have wf': "wf_page pg'" using g(2) by (rule wf)
  note P = put_page_correct [OF F(1,3,5) wf' g(3)]
  note U = unpin_page_correct [OF P(1), of pid True]
  have "insert pid M - {pid} = M - {pid}" by blast
  with U P F(2) pg g(2) \<open>wf_page pg\<close> show ?thesis by (simp add: p')
qed

end

section \<open>A small instance\<close>

text \<open>Statements that each register one table, a procedure \<open>call\<close> with the body \<open>b\<close>, and the log codec of
  the statement log.\<close>

definition demo_table :: "string \<Rightarrow> (unit, unit) table" where
  "demo_table name = dummy_table\<lparr>tname := name\<rparr>"

definition demo_env :: "(unit, unit) engine_env" where
  "demo_env =
     \<lparr>env_codec = plain_codec, env_write = \<lambda>_ _. None,
      env_names = \<lambda>cat. filter (\<lambda>n. cat_tables cat n \<noteq> None) [''__dummy__'', ''a'', ''b''],
      env_inner = \<lambda>cat sql. if sql = ''call'' then Exec_body [''b''] else Logged (register cat (demo_table sql)),
      env_explain = \<lambda>_ _. Inr (), env_copy = \<lambda>cat _. (Inr (), cat),
      env_io = quiet_pool, env_bo = le_bytes_of, env_fb = le_from_bytes,
      env_keys = \<lambda>_. [], env_sync = True, env_truncate = True\<rparr>"

primrec run_script :: "('s, 'h) engine_env \<Rightarrow> ('s, 'h) engine result option \<Rightarrow> string list \<Rightarrow> ('s, 'h) engine result option" where
  "run_script env st [] = st"
| "run_script env st (s # ss) =
     run_script env
       (case st of
          Some (Inr e) \<Rightarrow> (case execute env 3 e s of None \<Rightarrow> None | Some (_, e) \<Rightarrow> Some (Inr e))
        | _ \<Rightarrow> st) ss"

definition disk_log :: "('s, 'h) engine result option \<Rightarrow> string" where
  "disk_log st = (case st of Some (Inr e) \<Rightarrow> (case e_wal e of Some w \<Rightarrow> log_text w | None \<Rightarrow> []) | _ \<Rightarrow> [])"

text \<open>Opening without a buffer pool: the log is replayed into a new engine.\<close>

definition demo_reopen :: "string \<Rightarrow> (unit, unit) engine result option" where
  "demo_reopen txt =
     (case engine_replay_wal demo_env 3 (engine_new\<lparr>e_wal := Some \<lparr>log_text = txt, log_open = True\<rparr>\<rparr>) of
        Some (Inr _, e) \<Rightarrow> Some (Inr e)
      | _ \<Rightarrow> None)"

definition has_table :: "('s, 'h) engine result option \<Rightarrow> string \<Rightarrow> bool" where
  "has_table st name = (case st of Some (Inr e) \<Rightarrow> \<not> Option.is_none (cat_get (e_catalog e) name) | _ \<Rightarrow> False)"

text \<open>ROLLBACK TO is not logged: the undone statement comes back.\<close>

lemma savepoint_rollback_is_lost:
  "let st = run_script demo_env (demo_reopen []) [''BEGIN'', ''SAVEPOINT s'', ''a'', ''ROLLBACK TO s'', ''COMMIT'']
   in \<not> has_table st ''a'' \<and> has_table (demo_reopen (disk_log st)) ''a''"
  by code_simp

text \<open>A procedure called inside a transaction logs its statements outside of it: they survive the
  rollback of the transaction.\<close>

lemma procedure_survives_rollback:
  "let st = run_script demo_env (demo_reopen []) [''BEGIN'', ''call'', ''ROLLBACK'']
   in \<not> has_table st ''b'' \<and> has_table (demo_reopen (disk_log st)) ''b''"
  by code_simp

text \<open>Transaction identifiers restart when the engine is opened again, so an unfinished transaction
  takes over the commit marker of an earlier one.\<close>

lemma reused_id_commits_unfinished:
  "let st = run_script demo_env (demo_reopen []) [''BEGIN'', ''a'', ''COMMIT''];
       st' = run_script demo_env (demo_reopen (disk_log st)) [''BEGIN'', ''b'']
   in \<not> has_table st' ''b'' \<and> has_table (demo_reopen (disk_log st')) ''b''"
  by code_simp

text \<open>VACUUM empties the log although the catalog is nowhere else on disk: opening the directory again
  gives an empty database.\<close>

lemma vacuum_discards_database:
  assumes "e_wal e = Some w" and "execute_vacuum env e = (Inr (), e')"
  shows "e_catalog e' = e_catalog e \<and>
    (\<exists>w' e''. e_wal e' = Some w' \<and> with_data_dir env m True True dir fs (log_text w') = Some (Inr e'') \<and>
      e_catalog e'' = base_catalog)"
proof -
  obtain r e1 where f: "engine_flush env e = (r, e1)" by (cases "engine_flush env e")
  from flush_same [OF f] assms have "e_wal e1 = Some w" "e_catalog e1 = e_catalog e" by simp_all
  with assms(2) f have "e' = e1\<lparr>e_wal := Some (w\<lparr>log_text := [], log_open := True\<rparr>)\<rparr>"
    by (auto simp: execute_vacuum_def log_truncate_def Let_def split: sum.splits if_splits)
  with \<open>e_catalog e1 = e_catalog e\<close> show ?thesis
    by (simp add: with_data_dir_def pool_new_def engine_replay_wal_def read_all_def text_lines.simps [of "[]"]
        List.map_filter_simps base_catalog_def)
qed

text \<open>The other entry point, \<open>QueryEngine::open\<close>, replays statements outside transactions before
  all transactions: a table dropped and created again can end up as it was in between.\<close>

lemma open_reorders:
  "fst (replay_wal (\<lambda>(tr :: string list) sql. (True, tr @ [sql])) [1] []
     [rec_begin 1, rec_txn_dml 1 ''first'', rec_commit 1, rec_autocommit ''second'']) =
   [''second'', ''BEGIN'', ''first'', ''COMMIT'']"
  by code_simp

section \<open>Properties\<close>


definition demo_start :: "(unit, unit) engine" where
  "demo_start = engine_new\<lparr>e_pool := (case pool_new True [] 256 (\<lambda>_. []) of Inr bp \<Rightarrow> Some bp | Inl _ \<Rightarrow> None),
     e_wal := Some \<lparr>log_text = [], log_open = True\<rparr>\<rparr>"




end
