(* ===== verification/Lexer.thy ===== *)
theory Lexer
  imports Text
begin

text \<open>
  The SQL tokenizer of src/src/sql/lexer.rs. A scanner takes the characters that are left and returns
  what it read with the rest. A float token holds the bits of the \<open>f64\<close>; the conversion of decimal text
  to \<open>f64\<close> is the parameter \<open>pf\<close>. Characters are ASCII.
\<close>

section \<open>Tokens\<close>

definition KEYWORDS :: "string list" where
  "KEYWORDS = [
    ''SELECT'', ''FROM'', ''WHERE'', ''GROUP'', ''BY'', ''ORDER'', ''JOIN'', ''ON'', ''LIKE'', ''DATE'',
    ''TIMESTAMP'', ''INTERVAL'', ''EXTRACT'', ''CASE'', ''WHEN'', ''THEN'', ''ELSE'', ''END'', ''DISTINCT'',
    ''INSERT'', ''UPDATE'', ''DELETE'', ''BEGIN'', ''TRANSACTION'', ''COMMIT'', ''AND'', ''OR'', ''NOT'', ''AS'',
    ''APPROXIMATE'', ''WITHIN'', ''CONFIDENCE'', ''TIER'', ''SIMILAR'', ''TO'', ''HAMMING'', ''DISTANCE'',
    ''CONSISTENCY'', ''SCOPE'', ''RACK'', ''GLOBAL'', ''ASYNC'', ''USING'', ''MEMORY'', ''BUDGET'', ''ENERGY'',
    ''JOULES'', ''CONTINUOUS'', ''HAVING'', ''OUTER'', ''LEFT'', ''INNER'', ''QUERY'', ''CREATE'', ''TABLE'',
    ''DROP'', ''IF'', ''EXISTS'', ''INT'', ''INTEGER'', ''BIGINT'', ''SMALLINT'', ''TINYINT'', ''VARCHAR'',
    ''NVARCHAR'', ''TEXT'', ''FLOAT'', ''REAL'', ''DECIMAL'', ''NUMERIC'', ''BIT'', ''BOOLEAN'', ''JSON'', ''UUID'',
    ''BYTEA'', ''ENUM'', ''NULL'', ''DEFAULT'', ''PRIMARY'', ''KEY'', ''REFERENCES'', ''IDENTITY'', ''NOT'',
    ''SCHEMA'', ''ALTER'', ''ROLLBACK'', ''ADD'', ''COLUMN'', ''TYPE'', ''INDEX'', ''CAST'', ''YEAR'', ''MONTH'',
    ''DAY'', ''HOUR'', ''MINUTE'', ''SECOND'', ''VALUES'', ''SET'', ''INTO'', ''OUTPUT'', ''WITH'', ''UNION'',
    ''RECURSIVE'', ''ALL'', ''OPTION'', ''MAXRECURSION'', ''OVER'', ''PARTITION'', ''ROWS'', ''RANGE'',
    ''PRECEDING'', ''FOLLOWING'', ''CURRENT'', ''ROW'', ''NUMBER'', ''BETWEEN'', ''IN'', ''IS'']"

datatype token =
    Keyword string | Ident string | Int_lit int | Float_lit u64 | String_lit string | Hex_lit bytes | Op string
  | LParen | RParen | Comma | Semicolon | EOF

datatype lex_error =
    Unterminated_string | Unterminated_hex | Odd_hex nat | Invalid_hex char | Lone_bang
  | Invalid_int string | Invalid_float string | Unexpected char

section \<open>Scanners\<close>

definition is_alpha :: "char \<Rightarrow> bool" where
  "is_alpha c \<longleftrightarrow> (let n = of_char c :: nat in 65 \<le> n \<and> n \<le> 90 \<or> 97 \<le> n \<and> n \<le> 122)"

definition is_ident :: "char \<Rightarrow> bool" where
  "is_ident c \<longleftrightarrow> is_alpha c \<or> is_digit c \<or> c = CHR ''_''"

definition read_identifier :: "string \<Rightarrow> string \<times> string" where
  "read_identifier cs = (takeWhile is_ident cs, dropWhile is_ident cs)"

definition word_token :: "string \<Rightarrow> token" where
  "word_token w = (let upper = to_uppercase w in if upper \<in> set KEYWORDS then Keyword upper else Ident w)"

fun read_string_literal :: "string \<Rightarrow> lex_error + string \<times> string" where
  "read_string_literal [] = Inl Unterminated_string"
| "read_string_literal (c # cs) =
     (if c = CHR 0x27 then
        (case cs of
           [] \<Rightarrow> Inr ([], cs)
         | d # ds \<Rightarrow>
             if d = CHR 0x27 then
               (case read_string_literal ds of Inl e \<Rightarrow> Inl e | Inr (s, rest) \<Rightarrow> Inr (CHR 0x27 # s, rest))
             else Inr ([], cs))
      else case read_string_literal cs of Inl e \<Rightarrow> Inl e | Inr (s, rest) \<Rightarrow> Inr (c # s, rest))"

definition hex_value :: "char \<Rightarrow> nat option" where
  "hex_value c =
     (let n = of_char c :: nat
      in if 48 \<le> n \<and> n \<le> 57 then Some (n - 48)
         else if 97 \<le> n \<and> n \<le> 102 then Some (n - 87)
         else if 65 \<le> n \<and> n \<le> 70 then Some (n - 55)
         else None)"

primrec hex_body :: "string \<Rightarrow> lex_error + nat list \<times> string" where
  "hex_body [] = Inl Unterminated_hex"
| "hex_body (c # cs) =
     (if c = CHR 0x27 then Inr ([], cs)
      else case hex_value c of
             None \<Rightarrow> Inl (Invalid_hex c)
           | Some h \<Rightarrow> (case hex_body cs of Inl e \<Rightarrow> Inl e | Inr (hs, rest) \<Rightarrow> Inr (h # hs, rest)))"

fun hex_bytes :: "nat list \<Rightarrow> bytes" where
  "hex_bytes (a # b # hs) = of_nat (16 * a + b) # hex_bytes hs"
| "hex_bytes _ = []"

definition read_hex_literal :: "string \<Rightarrow> lex_error + bytes \<times> string" where
  "read_hex_literal cs =
     (case hex_body cs of
        Inl e \<Rightarrow> Inl e
      | Inr (hs, rest) \<Rightarrow> if odd (length hs) then Inl (Odd_hex (length hs)) else Inr (hex_bytes hs, rest))"

text \<open>\<open>str::parse::<i64>\<close> on a run of digits.\<close>

definition parse_i64 :: "string \<Rightarrow> int option" where
  "parse_i64 s = (if s \<noteq> [] \<and> list_all is_digit s \<and> digits_val s < 2 ^ 63 then Some (int (digits_val s)) else None)"

definition num_char :: "char \<Rightarrow> bool" where
  "num_char c \<longleftrightarrow> is_digit c \<or> c = CHR ''.''"

text \<open>The exponent, if there is one: its text, the characters after it, and whether it was there.\<close>

definition read_exponent :: "string \<Rightarrow> string \<times> string \<times> bool" where
  "read_exponent cs =
     (case cs of
        [] \<Rightarrow> ([], cs, False)
      | e # cs' \<Rightarrow>
          if e = CHR ''e'' \<or> e = CHR ''E'' then
            (let (sign, cs'') = (case cs' of
                   [] \<Rightarrow> ([], cs')
                 | g # ds \<Rightarrow> if g = CHR ''+'' \<or> g = CHR ''-'' then ([g], ds) else ([], cs'))
             in ([e] @ sign @ takeWhile is_digit cs'', dropWhile is_digit cs'', True))
          else ([], cs, False))"

definition read_number :: "(string \<Rightarrow> u64 option) \<Rightarrow> string \<Rightarrow> lex_error + token \<times> string" where
  "read_number pf cs =
     (let s = takeWhile num_char cs;
          (ex, rest, has_ex) = read_exponent (dropWhile num_char cs);
          is_float = (CHR ''.'' \<in> set s \<or> has_ex); s = s @ ex
      in if is_float then (case pf s of None \<Rightarrow> Inl (Invalid_float s) | Some f \<Rightarrow> Inr (Float_lit f, rest))
         else (case parse_i64 s of None \<Rightarrow> Inl (Invalid_int s) | Some i \<Rightarrow> Inr (Int_lit i, rest)))"

section \<open>The tokenizer\<close>

text \<open>One turn of the loop, on the character \<open>c\<close> and the characters \<open>cs\<close> after it; no token for white
  space.\<close>

definition lex_one :: "(string \<Rightarrow> u64 option) \<Rightarrow> char \<Rightarrow> string \<Rightarrow> lex_error + token option \<times> string" where
  "lex_one pf c cs =
     (let tok = (\<lambda>t rest. Inr (Some t, rest));
          peek = (\<lambda>d. cs \<noteq> [] \<and> hd cs = d)
      in if c \<in> set [CHR '' '', CHR 0x09, CHR 0x0A, CHR 0x0D] then Inr (None, cs)
         else if c = CHR ''('' then tok LParen cs
         else if c = CHR '')'' then tok RParen cs
         else if c = CHR '','' then tok Comma cs
         else if c = CHR '';'' then tok Semicolon cs
         else if c = CHR ''='' then tok (Op ''='') cs
         else if c = CHR ''!'' then (if peek (CHR ''='') then tok (Op ''!='') (tl cs) else Inl Lone_bang)
         else if c = CHR ''<'' then
           (if peek (CHR ''='') then tok (Op ''<='') (tl cs)
            else if peek (CHR ''>'') then tok (Op ''<>'') (tl cs) else tok (Op ''<'') cs)
         else if c = CHR ''>'' then (if peek (CHR ''='') then tok (Op ''>='') (tl cs) else tok (Op ''>'') cs)
         else if c \<in> set ''+-*/'' then tok (Op [c]) cs
         else if c = CHR 0x27 then
           (case read_string_literal cs of Inl e \<Rightarrow> Inl e | Inr (s, rest) \<Rightarrow> tok (String_lit s) rest)
         else if is_digit c then (case read_number pf (c # cs) of Inl e \<Rightarrow> Inl e | Inr (t, rest) \<Rightarrow> tok t rest)
         else if c = CHR ''.'' then
           (if cs \<noteq> [] \<and> is_digit (hd cs)
            then (case read_number pf (c # cs) of Inl e \<Rightarrow> Inl e | Inr (t, rest) \<Rightarrow> tok t rest)
            else tok (Op ''.'') cs)
         else if (c = CHR ''x'' \<or> c = CHR ''X'') \<and> peek (CHR 0x27) then
           (case read_hex_literal (tl cs) of Inl e \<Rightarrow> Inl e | Inr (bs, rest) \<Rightarrow> tok (Hex_lit bs) rest)
         else if is_alpha c \<or> c = CHR ''_'' then
           (let (w, rest) = read_identifier (c # cs) in tok (word_token w) rest)
         else Inl (Unexpected c))"

lemma read_string_shorter: "read_string_literal cs = Inr (s, rest) \<Longrightarrow> length rest < length cs"
  by (induction cs arbitrary: s rest rule: read_string_literal.induct)
    (auto split: if_splits list.splits sum.splits prod.splits simp: less_Suc_eq)

lemma hex_body_shorter: "hex_body cs = Inr (hs, rest) \<Longrightarrow> length rest < length cs"
  by (induction cs arbitrary: hs) (auto split: if_splits option.splits sum.splits prod.splits simp: less_Suc_eq)

lemma read_exponent_le: "length (fst (snd (read_exponent cs))) \<le> length cs"
proof -
  have d: "length (dropWhile is_digit ds) \<le> length ds" for ds by (rule length_dropWhile_le)
  show ?thesis
  proof (cases cs)
    case (Cons e cs')
    show ?thesis
    proof (cases cs')
      case (Cons g ds)
      with \<open>cs = e # cs'\<close> d [of ds] d [of "g # ds"] show ?thesis
        by (auto simp: read_exponent_def)
    qed (simp add: Cons read_exponent_def)
  qed (simp add: read_exponent_def)
qed

lemma read_number_shorter:
  assumes "read_number pf (c # cs) = Inr (t, rest)" and "num_char c"
  shows "length rest < length (c # cs)"
proof -
  have "rest = fst (snd (read_exponent (dropWhile num_char (c # cs))))"
    using assms(1) by (auto simp: read_number_def Let_def split: prod.splits if_splits option.splits)
  also have "length \<dots> \<le> length (dropWhile num_char (c # cs))" by (rule read_exponent_le)
  also have "\<dots> \<le> length cs" using assms(2) by (simp add: length_dropWhile_le)
  finally show ?thesis by simp
qed

text \<open>A scanner that consumes at least one character when it succeeds.\<close>

definition consumes :: "string \<Rightarrow> 'e + 'a \<times> string \<Rightarrow> bool" where
  "consumes cs r \<longleftrightarrow> (case r of Inl e \<Rightarrow> True | Inr (x, rest) \<Rightarrow> length rest < length cs)"

lemma consumes_simps [simp]: "consumes cs (Inl e)" "consumes cs (Inr (x, rest)) \<longleftrightarrow> length rest < length cs"
  by (simp_all add: consumes_def)

lemma consumes_if: "(P \<Longrightarrow> consumes cs a) \<Longrightarrow> (\<not> P \<Longrightarrow> consumes cs b) \<Longrightarrow> consumes cs (if P then a else b)"
  by simp

lemma consumes_case: "consumes cs r \<Longrightarrow> consumes cs (case r of Inl e \<Rightarrow> Inl e | Inr (x, rest) \<Rightarrow> Inr (f x, rest))"
  by (auto simp: consumes_def split: sum.splits)

lemma consumes_scanners:
  "consumes (c # cs) (read_string_literal cs)" "consumes (c # cs) (read_hex_literal (tl cs))"
  "is_digit c \<or> c = CHR ''.'' \<Longrightarrow> consumes (c # cs) (read_number pf (c # cs))"
proof -
  show "consumes (c # cs) (read_string_literal cs)"
    using read_string_shorter [of cs] by (fastforce simp: consumes_def split: sum.splits)
  have "length r < Suc (length cs)" if "hex_body (tl cs) = Inr (x, r)" for x r
    using hex_body_shorter [OF that] by simp
  then show "consumes (c # cs) (read_hex_literal (tl cs))"
    by (auto simp: consumes_def read_hex_literal_def split: sum.splits if_splits prod.splits)
  assume "is_digit c \<or> c = CHR ''.''"
  then show "consumes (c # cs) (read_number pf (c # cs))"
    using read_number_shorter [of pf c cs] by (auto simp: consumes_def num_char_def split: sum.splits)
qed

lemma lex_one_consumes: "consumes (c # cs) (lex_one pf c cs)"
proof -
  have "length (snd (read_identifier (c # cs))) < length (c # cs)" if "is_alpha c \<or> c = CHR ''_''"
    using that length_dropWhile_le [of is_ident cs] by (auto simp: read_identifier_def is_ident_def)
  then have word: "consumes (c # cs) (let (w, rest) = read_identifier (c # cs) in Inr (Some (word_token w), rest))"
    if "is_alpha c \<or> c = CHR ''_''" using that by (simp add: case_prod_beta Let_def)
  show ?thesis
    unfolding lex_one_def Let_def
    by (intro consumes_if consumes_case consumes_scanners word [unfolded Let_def]) (simp_all; fail)+
qed

lemma lex_one_shorter: "lex_one pf c cs = Inr (t, rest) \<Longrightarrow> length rest < length (c # cs)"
  using lex_one_consumes [of c cs pf] by simp

function tokenize :: "(string \<Rightarrow> u64 option) \<Rightarrow> string \<Rightarrow> lex_error + token list" where
  "tokenize pf [] = Inr [EOF]"
| "tokenize pf (c # cs) =
     (case lex_one pf c cs of
        Inl e \<Rightarrow> Inl e
      | Inr (t, rest) \<Rightarrow>
          (case tokenize pf rest of
             Inl e \<Rightarrow> Inl e
           | Inr ts \<Rightarrow> Inr (case t of None \<Rightarrow> ts | Some t \<Rightarrow> t # ts)))"
  by pat_completeness auto
termination
  by (relation "measure (\<lambda>(pf, cs). length cs)") (auto dest: lex_one_shorter)

section \<open>Printing tokens\<close>

definition escape :: "string \<Rightarrow> string" where
  "escape s = concat (map (\<lambda>c. if c = CHR 0x27 then [c, c] else [c]) s)"

definition hex_char :: "nat \<Rightarrow> char" where
  "hex_char h = (if h < 10 then char_of (48 + h) else char_of (87 + h))"

definition show_byte :: "u8 \<Rightarrow> string" where
  "show_byte b = [hex_char (unat b div 16), hex_char (unat b mod 16)]"

definition OPERATORS :: "string list" where
  "OPERATORS = [''='', ''!='', ''<'', ''<='', ''<>'', ''>'', ''>='', ''+'', ''-'', ''*'', ''/'', ''.'']"

primrec show_token :: "(u64 \<Rightarrow> string) \<Rightarrow> token \<Rightarrow> string" where
  "show_token sf (Keyword k) = k"
| "show_token sf (Ident w) = w"
| "show_token sf (Int_lit i) = show_nat (nat i)"
| "show_token sf (Float_lit f) = sf f"
| "show_token sf (String_lit s) = CHR 0x27 # escape s @ [CHR 0x27]"
| "show_token sf (Hex_lit bs) = ''x'' @ CHR 0x27 # concat (map show_byte bs) @ [CHR 0x27]"
| "show_token sf (Op o') = o'"
| "show_token sf LParen = ''(''"
| "show_token sf RParen = '')''"
| "show_token sf Comma = '',''"
| "show_token sf Semicolon = '';''"
| "show_token sf EOF = []"

definition print_tokens :: "(u64 \<Rightarrow> string) \<Rightarrow> token list \<Rightarrow> string" where
  "print_tokens sf ts = concat (map (\<lambda>t. show_token sf t @ '' '') ts)"

text \<open>The tokens the lexer can produce before the end of the input.\<close>

primrec valid_token :: "(string \<Rightarrow> u64 option) \<Rightarrow> token \<Rightarrow> bool" where
  "valid_token pf (Keyword k) \<longleftrightarrow> k \<in> set KEYWORDS"
| "valid_token pf (Ident w) \<longleftrightarrow> w \<noteq> [] \<and> (is_alpha (hd w) \<or> hd w = CHR ''_'') \<and> list_all is_ident w \<and> to_uppercase w \<notin> set KEYWORDS"
| "valid_token pf (Int_lit i) \<longleftrightarrow> 0 \<le> i \<and> i < 2 ^ 63"
| "valid_token pf (Float_lit f) \<longleftrightarrow> (\<exists>s. pf s = Some f)"
| "valid_token pf (String_lit s) \<longleftrightarrow> True"
| "valid_token pf (Hex_lit bs) \<longleftrightarrow> True"
| "valid_token pf (Op o') \<longleftrightarrow> o' \<in> set OPERATORS"
| "valid_token pf LParen \<longleftrightarrow> True"
| "valid_token pf RParen \<longleftrightarrow> True"
| "valid_token pf Comma \<longleftrightarrow> True"
| "valid_token pf Semicolon \<longleftrightarrow> True"
| "valid_token pf EOF \<longleftrightarrow> False"

section \<open>Lemmas\<close>

lemma word_start:
  "is_alpha c \<or> c = CHR ''_'' \<Longrightarrow>
    c \<notin> set [CHR '' '', CHR 0x09, CHR 0x0A, CHR 0x0D] \<and> c \<notin> set ''(),;=!<>'' \<and> c \<notin> set ''+-*/'' \<and>
    c \<noteq> CHR 0x27 \<and> c \<noteq> CHR ''.'' \<and> \<not> is_digit c \<and> is_ident c"
  by (auto simp: is_alpha_def is_digit_def is_ident_def Let_def)

lemma digit_start:
  "is_digit c \<Longrightarrow>
    c \<notin> set [CHR '' '', CHR 0x09, CHR 0x0A, CHR 0x0D] \<and> c \<notin> set ''(),;=!<>'' \<and> c \<notin> set ''+-*/'' \<and>
    c \<noteq> CHR 0x27 \<and> c \<noteq> CHR ''.''"
  by (auto simp: is_digit_def)

lemma keyword_chars: "k \<in> set KEYWORDS \<Longrightarrow> k \<noteq> [] \<and> list_all is_alpha k \<and> to_uppercase k = k"
proof -
  have "list_all (\<lambda>k. k \<noteq> [] \<and> list_all is_alpha k \<and> to_uppercase k = k) KEYWORDS" by code_simp
  then show "k \<in> set KEYWORDS \<Longrightarrow> ?thesis" by (auto simp: list_all_iff)
qed

lemma takeWhile_stop: "list_all P a \<Longrightarrow> \<not> P c \<Longrightarrow> takeWhile P (a @ c # s) = a \<and> dropWhile P (a @ c # s) = c # s"
  by (induction a) auto

lemma lex_word:
  assumes "is_alpha c \<or> c = CHR ''_''" and "list_all is_ident w"
  shows "lex_one pf c (w @ CHR '' '' # s) = Inr (Some (word_token (c # w)), CHR '' '' # s)"
proof -
  have "\<not> is_ident (CHR '' '')" by code_simp
  then have "read_identifier (c # w @ CHR '' '' # s) = (c # w, CHR '' '' # s)"
    using takeWhile_stop [of is_ident "c # w" "CHR '' ''" s] assms word_start [OF assms(1)] by (simp add: read_identifier_def)
  moreover have "hd (w @ CHR '' '' # s) \<noteq> CHR 0x27"
    using assms(2) by (cases w) (auto simp: is_ident_def is_alpha_def is_digit_def Let_def)
  ultimately show ?thesis using word_start [OF assms(1)] assms(1) by (simp add: lex_one_def Let_def)
qed

lemma read_escape: "read_string_literal (escape s @ CHR 0x27 # CHR '' '' # r) = Inr (s, CHR '' '' # r)"
  by (induction s) (simp_all add: escape_def)

lemma hex_value_char: "h < 16 \<Longrightarrow> hex_value (hex_char h) = Some h \<and> hex_char h \<noteq> CHR 0x27"
proof -
  have "list_all (\<lambda>h. hex_value (hex_char h) = Some h \<and> hex_char h \<noteq> CHR 0x27) [0..<16]" by code_simp
  then show "h < 16 \<Longrightarrow> ?thesis" by (simp add: list_all_iff)
qed

lemma hex_body_bytes:
  "\<exists>hs. hex_body (concat (map show_byte bs) @ CHR 0x27 # r) = Inr (hs, r) \<and> even (length hs) \<and> hex_bytes hs = bs"
proof (induction bs)
  case (Cons b bs)
  have u: "unat b < 256" using unsigned_less [of b, where 'a = nat] by simp
  then have "unat b div 16 < 16" by linarith
  from hex_value_char [OF this] hex_value_char [of "unat b mod 16"] Cons
  show ?case by (auto simp: show_byte_def)
qed simp

lemma read_number_text:
  assumes "s \<noteq> []" and "list_all num_char s"
  shows "read_number pf (s @ CHR '' '' # r) =
    (if CHR ''.'' \<in> set s then (case pf s of None \<Rightarrow> Inl (Invalid_float s) | Some f \<Rightarrow> Inr (Float_lit f, CHR '' '' # r))
     else (case parse_i64 s of None \<Rightarrow> Inl (Invalid_int s) | Some i \<Rightarrow> Inr (Int_lit i, CHR '' '' # r)))"
proof -
  have "\<not> num_char (CHR '' '')" by code_simp
  from takeWhile_stop [OF assms(2) this] show ?thesis
    by (simp add: read_number_def read_exponent_def Let_def cong: option.case_cong)
qed

lemma lex_number:
  assumes "is_digit c" and "read_number pf (c # cs) = Inr (t, rest)"
  shows "lex_one pf c cs = Inr (Some t, rest)"
  using digit_start [OF assms(1)] assms by (simp add: lex_one_def Let_def)

lemma lex_operator:
  assumes "x \<in> set OPERATORS"
  shows "x \<noteq> [] \<and> lex_one pf (hd x) (tl x @ CHR '' '' # s) = Inr (Some (Op x), CHR '' '' # s)"
proof -
  have "list_all (\<lambda>x. x \<noteq> [] \<and> lex_one pf (hd x) (tl x @ CHR '' '' # s) = Inr (Some (Op x), CHR '' '' # s)) OPERATORS"
    by (simp add: OPERATORS_def lex_one_def Let_def is_digit_def)
  with assms show ?thesis by (auto simp: list_all_iff)
qed

section \<open>What the tokenizer produces\<close>

definition yields :: "('a \<Rightarrow> bool) \<Rightarrow> 'e + 'a \<times> string \<Rightarrow> bool" where
  "yields Q r \<longleftrightarrow> (case r of Inl e \<Rightarrow> True | Inr (x, rest) \<Rightarrow> Q x)"

lemma yields_simps [simp]: "yields Q (Inl e)" "yields Q (Inr (x, rest)) \<longleftrightarrow> Q x"
  by (simp_all add: yields_def)

lemma yields_if: "(P \<Longrightarrow> yields Q a) \<Longrightarrow> (\<not> P \<Longrightarrow> yields Q b) \<Longrightarrow> yields Q (if P then a else b)"
  by simp

lemma yields_case:
  "yields (\<lambda>x. Q (f x)) r \<Longrightarrow> yields Q (case r of Inl e \<Rightarrow> Inl e | Inr (x, rest) \<Rightarrow> Inr (f x, rest))"
  by (auto simp: yields_def split: sum.splits)

definition valid_option :: "(string \<Rightarrow> u64 option) \<Rightarrow> token option \<Rightarrow> bool" where
  "valid_option pf t \<longleftrightarrow> (case t of None \<Rightarrow> True | Some t \<Rightarrow> valid_token pf t)"

lemma valid_option_simps [simp]: "valid_option pf None" "valid_option pf (Some t) \<longleftrightarrow> valid_token pf t"
  by (simp_all add: valid_option_def)

lemma read_number_valid: "yields (valid_token pf) (read_number pf cs)"
  by (auto simp: yields_def read_number_def parse_i64_def Let_def split: sum.splits prod.splits if_splits option.splits)

lemma word_token_valid: "is_alpha c \<or> c = CHR ''_'' \<Longrightarrow> list_all is_ident w \<Longrightarrow> valid_token pf (word_token (c # w))"
  using word_start [of c] by (simp add: word_token_def Let_def)

lemma lex_one_valid: "yields (valid_option pf) (lex_one pf c cs)"
proof -
  have word: "yields (valid_option pf) (case read_identifier (c # cs) of (w, rest) \<Rightarrow> Inr (Some (word_token w), rest))"
    if "is_alpha c \<or> c = CHR ''_''"
  proof -
    have "list_all is_ident (takeWhile is_ident cs)" by (auto simp: list_all_iff dest: set_takeWhileD)
    from word_token_valid [OF that this, of pf] word_start [OF that] show ?thesis by (simp add: read_identifier_def)
  qed
  have op: "yields (valid_option pf) (Inr (Some (Op [c]), cs))" if "c \<in> set ''+-*/''"
    using that by (auto simp: OPERATORS_def)
  have lit: "yields (\<lambda>x. valid_option pf (Some (String_lit x))) q" "yields (\<lambda>x. valid_option pf (Some (Hex_lit x))) r"
    for q :: "lex_error + string \<times> string" and r :: "lex_error + bytes \<times> string"
    by (simp_all add: yields_def split: sum.splits)
  have num: "yields (\<lambda>t. valid_option pf (Some t)) (read_number pf (c # cs))"
    using read_number_valid by simp
  show ?thesis
    unfolding lex_one_def Let_def
    by (intro yields_if yields_case num word op lit) (simp_all add: OPERATORS_def; fail)+
qed

lemma tokenize_valid: "tokenize pf cs = Inr ts \<Longrightarrow> \<exists>ts'. ts = ts' @ [EOF] \<and> list_all (valid_token pf) ts'"
proof (induction pf cs arbitrary: ts rule: tokenize.induct)
  case (2 pf c cs)
  then obtain t rest ts1 where l: "lex_one pf c cs = Inr (t, rest)" "tokenize pf rest = Inr ts1"
    and ts: "ts = (case t of None \<Rightarrow> ts1 | Some t \<Rightarrow> t # ts1)"
    by (auto split: sum.splits prod.splits)
  from "2.IH" [OF l(1) refl l(2)] obtain ts' where ts': "ts1 = ts' @ [EOF]" "list_all (valid_token pf) ts'" by blast
  have "valid_option pf t" using lex_one_valid [of pf c cs] l(1) by simp
  then show ?case
  proof (cases t)
    case (Some u)
    with ts' ts \<open>valid_option pf t\<close> show ?thesis by (intro exI [of _ "u # ts'"]) simp
  qed (use ts ts' in simp)
qed simp

section \<open>Float text\<close>

text \<open>A printer for the floats that the conversion can return: decimal digits with a point that are
  read back as the same float.\<close>

locale float_text =
  fixes pf :: "string \<Rightarrow> u64 option" and sf :: "u64 \<Rightarrow> string"
  assumes start: "pf s = Some f \<Longrightarrow> sf f \<noteq> [] \<and> is_digit (hd (sf f))"
    and shape: "pf s = Some f \<Longrightarrow> list_all num_char (sf f) \<and> CHR ''.'' \<in> set (sf f)"
    and reread: "pf s = Some f \<Longrightarrow> pf (sf f) = Some f"
begin

lemma lex_show:
  assumes "valid_token pf t"
  obtains c p where "show_token sf t = c # p" and "lex_one pf c (p @ CHR '' '' # s) = Inr (Some t, CHR '' '' # s)"
proof (cases t)
  case (Keyword k)
  with assms obtain c w where k: "k = c # w" "list_all is_alpha (c # w)" "to_uppercase k = k" "k \<in> set KEYWORDS"
    using keyword_chars [of k] by (cases k) auto
  then have "list_all is_ident w" by (auto simp: list_all_iff is_ident_def)
  with lex_word [of c w pf s] k Keyword that show thesis by (simp add: word_token_def Let_def)
next
  case (Ident w)
  with assms obtain c w' where w: "w = c # w'" "is_alpha c \<or> c = CHR ''_''" "list_all is_ident w'" "to_uppercase w \<notin> set KEYWORDS"
    by (cases w) auto
  with lex_word [of c w' pf s] Ident that show thesis by (simp add: word_token_def Let_def)
next
  case (Int_lit i)
  let ?s = "show_nat (nat i)"
  have d: "?s \<noteq> []" "list_all is_digit ?s" "digits_val ?s = nat i" using show_nat_digits by auto
  have i: "0 \<le> i" "i < 2 ^ 63" using assms Int_lit by simp_all
  then have "nat i < 2 ^ 63" by (simp add: nat_less_iff)
  with d i have "parse_i64 ?s = Some i" by (simp add: parse_i64_def)
  moreover have "list_all num_char ?s" "CHR ''.'' \<notin> set ?s"
    using d(2) by (auto simp: list_all_iff num_char_def is_digit_def)
  ultimately have n: "read_number pf (?s @ CHR '' '' # s) = Inr (Int_lit i, CHR '' '' # s)"
    using read_number_text [OF d(1)] by simp
  obtain c p where "?s = c # p" "is_digit c" using d(1,2) by (cases ?s) auto
  with lex_number [of c pf "p @ CHR '' '' # s"] n Int_lit that show thesis by simp
next
  case (Float_lit f)
  with assms obtain q where q: "pf q = Some f" by auto
  note f = start [OF q] shape [OF q] reread [OF q]
  from f have n: "read_number pf (sf f @ CHR '' '' # s) = Inr (Float_lit f, CHR '' '' # s)"
    by (simp add: read_number_text)
  obtain c p where "sf f = c # p" "is_digit c" using f by (cases "sf f") auto
  with lex_number [of c pf "p @ CHR '' '' # s"] n Float_lit that show thesis by simp
next
  case (String_lit x)
  with read_escape [of x s] that show thesis by (simp add: lex_one_def Let_def is_digit_def)
next
  case (Hex_lit bs)
  obtain hs where "hex_body (concat (map show_byte bs) @ CHR 0x27 # CHR '' '' # s) = Inr (hs, CHR '' '' # s)"
    "even (length hs)" "hex_bytes hs = bs" using hex_body_bytes by blast
  with Hex_lit that show thesis by (simp add: lex_one_def Let_def read_hex_literal_def is_digit_def)
next
  case (Op x)
  with assms have "x \<in> set OPERATORS" by simp
  from lex_operator [OF this, of pf s] Op that [of "hd x" "tl x"] show thesis by simp
qed (use assms that in \<open>simp_all add: lex_one_def Let_def\<close>)

lemma tokenize_print: "list_all (valid_token pf) ts \<Longrightarrow> tokenize pf (print_tokens sf ts) = Inr (ts @ [EOF])"
proof (induction ts)
  case (Cons t ts)
  obtain c p where "show_token sf t = c # p"
    "lex_one pf c (p @ CHR '' '' # print_tokens sf ts) = Inr (Some t, CHR '' '' # print_tokens sf ts)"
    using lex_show [of t "print_tokens sf ts"] Cons.prems by auto
  moreover have "lex_one pf (CHR '' '') r = Inr (None, r)" for r by (simp add: lex_one_def Let_def)
  ultimately show ?case using Cons by (simp add: print_tokens_def)
qed (simp add: print_tokens_def)

end

text \<open>The conversion that accepts digits, a point and a zero, as an instance of the contract.\<close>

definition whole_pf :: "string \<Rightarrow> u64 option" where
  "whole_pf s = (if drop (length s - 2) s = ''.0'' then parse_u64 (take (length s - 2) s) else None)"

definition whole_sf :: "u64 \<Rightarrow> string" where
  "whole_sf f = show_nat (unat f) @ ''.0''"

interpretation whole: float_text whole_pf whole_sf
proof
  fix s :: string and f :: u64
  have d: "show_nat (unat f) \<noteq> []" "list_all is_digit (show_nat (unat f))" using show_nat_digits by auto
  then show "whole_sf f \<noteq> [] \<and> is_digit (hd (whole_sf f))" by (cases "show_nat (unat f)") (simp_all add: whole_sf_def)
  show "list_all num_char (whole_sf f) \<and> CHR ''.'' \<in> set (whole_sf f)"
    using d by (auto simp: whole_sf_def list_all_iff num_char_def is_digit_def)
  show "whole_pf (whole_sf f) = Some f" by (simp add: whole_pf_def whole_sf_def parse_show)
qed

section \<open>Properties\<close>

text \<open>C19: the tokenizer and the printer are inverse. Every list of tokens that the lexer can produce, printed
  with a space after each, is tokenized to itself, strings with quotes and hex literals included; and
  whatever text the tokenizer accepts, its tokens are of that kind and end in \<open>EOF\<close>, so printing
  them and tokenizing again gives the same tokens. The tokenizer ends on every input.\<close>

theorem tokenize_roundtrip:
  assumes "float_text pf sf"
  shows "(list_all (valid_token pf) ts \<longrightarrow> tokenize pf (print_tokens sf ts) = Inr (ts @ [EOF])) \<and>
    (tokenize pf input = Inr us \<longrightarrow>
       (\<exists>vs. us = vs @ [EOF] \<and> list_all (valid_token pf) vs \<and> tokenize pf (print_tokens sf vs) = Inr us))"
  using float_text.tokenize_print [OF assms] tokenize_valid [of pf input us] by blast

theorem tokenize_roundtrip_witness:
  "tokenize whole_pf (print_tokens whole_sf [Keyword ''SELECT'', Int_lit 42, String_lit ''it'', Comma]) =
     Inr ([Keyword ''SELECT'', Int_lit 42, String_lit ''it'', Comma] @ [EOF])"
proof -
  have "list_all (valid_token whole_pf) [Keyword ''SELECT'', Int_lit 42, String_lit ''it'', Comma]"
    by (simp add: KEYWORDS_def)
  then show ?thesis using tokenize_roundtrip [OF whole.float_text_axioms] by blast
qed

end
