(* ===== verification/Sql_Parser.thy ===== *)
theory Sql_Parser
  imports Lexer
begin

text \<open>
  The recursive-descent parser of src/src/sql/parser.rs. The parser state is the list of tokens that are
  left, which the tokenizer ends in \<open>EOF\<close>; putting a token back is continuing with the list before it.
  A loop runs at most once per token that is left, and nested expressions are parsed with one unit of
  fuel less each; \<open>Fuel\<close> is returned when that runs out. Three functions outside the file are
  parameters: the date parser of the time crate, the text of a float and the debug text of a token.
\<close>

section \<open>Syntax trees\<close>

datatype sql_value = VInt int | VFloat u64 | VString string | VHex bytes

datatype expr =
    Column string
  | Literal sql_value
  | Binary expr string expr
  | Case_when "(expr \<times> expr) list" "expr option"
  | Function string string
  | Extract string expr
  | Cast expr string

datatype select_item =
    Item_column string
  | Item_aggregate string string "string option"
  | Item_star
  | Item_literal u64
  | Item_window string string string "string option"
  | Item_expression expr "string option"

record join_clause =
  join_table :: string
  join_on :: expr
  join_type :: string

record select_query =
  q_select :: "select_item list"
  q_from :: string
  q_joins :: "join_clause list"
  q_where :: "expr option"
  q_group_by :: "string list"
  q_having :: "expr option"
  q_order_by :: "(string \<times> bool) list"
  q_limit :: "nat option"
  q_distinct :: bool

datatype parse_error = Expected string token | Message string | Fuel

type_synonym 'a parsed = "parse_error + 'a \<times> token list"

record parse_env =
  date_of :: "string \<Rightarrow> int option"
  float_str :: "u64 \<Rightarrow> string"
  debug_text :: "token \<Rightarrow> string"

section \<open>The token cursor\<close>

definition peek :: "token list \<Rightarrow> token" where
  "peek ts = (case ts of [] \<Rightarrow> EOF | t # _ \<Rightarrow> t)"

definition advance :: "token list \<Rightarrow> token list" where
  "advance ts = (if peek ts = EOF then ts else tl ts)"

definition match_keyword :: "string \<Rightarrow> token list \<Rightarrow> token list option" where
  "match_keyword kw ts = (if peek ts = Keyword kw then Some (tl ts) else None)"

definition expect_keyword :: "string \<Rightarrow> token list \<Rightarrow> unit parsed" where
  "expect_keyword kw ts = (case match_keyword kw ts of Some ts \<Rightarrow> Inr ((), ts) | None \<Rightarrow> Inl (Expected kw (peek ts)))"

definition match_op :: "string \<Rightarrow> token list \<Rightarrow> token list option" where
  "match_op x ts = (if peek ts = Op x then Some (tl ts) else None)"

definition is_word :: "string \<Rightarrow> token \<Rightarrow> bool" where
  "is_word name t =
     (case t of
        Ident s \<Rightarrow> to_lowercase s = to_lowercase name
      | Keyword k \<Rightarrow> to_lowercase k = to_lowercase name
      | _ \<Rightarrow> False)"

definition match_ident :: "string \<Rightarrow> token list \<Rightarrow> token list option" where
  "match_ident name ts = (if is_word name (peek ts) then Some (tl ts) else None)"

text \<open>A punctuation token that must come next.\<close>

definition expect :: "token \<Rightarrow> token list \<Rightarrow> unit parsed" where
  "expect t ts = (if peek ts = t then Inr ((), tl ts) else Inl (Expected (show_token (\<lambda>_. []) t) (peek ts)))"

definition andthen :: "'a parsed \<Rightarrow> ('a \<Rightarrow> token list \<Rightarrow> 'b parsed) \<Rightarrow> 'b parsed" where
  "andthen r k = (case r of Inl e \<Rightarrow> Inl e | Inr (x, ts) \<Rightarrow> k x ts)"

section \<open>Arguments, aliases and names\<close>

definition show_int :: "int \<Rightarrow> string" where
  "show_int i = (if i < 0 then ''-'' @ show_nat (nat (- i)) else show_nat (nat i))"

fun join_words :: "string list \<Rightarrow> string" where
  "join_words [] = []"
| "join_words [w] = w"
| "join_words (w # ws) = w @ '' '' @ join_words ws"

text \<open>The words of an argument up to the parenthesis that closes it.\<close>

fun agg_parts :: "parse_env \<Rightarrow> nat \<Rightarrow> token list \<Rightarrow> string list \<times> token list" where
  "agg_parts env d [] = ([], [])"
| "agg_parts env d (t # ts) =
     (let push = (\<lambda>w d. let (ws, rest) = agg_parts env d ts in (w # ws, rest)); stop = ([], t # ts)
      in case t of
           RParen \<Rightarrow> if d = 0 then stop else push '')'' (d - 1)
         | LParen \<Rightarrow> push ''('' (d + 1)
         | Keyword k \<Rightarrow>
             if k \<in> set [''FROM'', ''WHERE'', ''GROUP'', ''ORDER'', ''HAVING'', ''LIMIT''] then stop else push k d
         | Ident name \<Rightarrow> push name d
         | Int_lit i \<Rightarrow> push (show_int i) d
         | Float_lit f \<Rightarrow> push (float_str env f) d
         | Op x \<Rightarrow> push x d
         | _ \<Rightarrow> stop)"

definition parse_agg_arg :: "parse_env \<Rightarrow> token list \<Rightarrow> string parsed" where
  "parse_agg_arg env ts =
     (case match_op ''*'' ts of
        Some ts \<Rightarrow> Inr (''*'', ts)
      | None \<Rightarrow> let (parts, ts) = agg_parts env 0 ts in Inr (join_words parts, ts))"

definition parse_optional_alias :: "token list \<Rightarrow> string option parsed" where
  "parse_optional_alias ts =
     (case match_keyword ''AS'' ts of
        None \<Rightarrow> Inr (None, ts)
      | Some ts \<Rightarrow> (case peek ts of Ident name \<Rightarrow> Inr (Some name, tl ts) | t \<Rightarrow> Inl (Expected ''alias after AS'' t)))"

definition RESERVED :: "string list" where
  "RESERVED = [''WHERE'', ''GROUP'', ''ORDER'', ''HAVING'', ''LIMIT'', ''JOIN'', ''ON'',
     ''LEFT'', ''RIGHT'', ''INNER'', ''OUTER'', ''UNION'', ''EXCEPT'', ''INTERSECT'']"

definition parse_table_name :: "token list \<Rightarrow> string parsed" where
  "parse_table_name ts =
     andthen
       (case peek ts of
          Ident name \<Rightarrow> Inr (name, advance ts)
        | Keyword k \<Rightarrow> if k \<in> set RESERVED then Inl (Expected ''table name'' (Keyword k)) else Inr (k, advance ts)
        | t \<Rightarrow> Inl (Expected ''table name'' t))
       (\<lambda>first ts.
          case match_op ''.'' ts of
            None \<Rightarrow> Inr (first, ts)
          | Some ts \<Rightarrow>
              (case peek ts of
                 Ident name \<Rightarrow> Inr (first @ ''.'' @ name, advance ts)
               | Keyword k \<Rightarrow> Inr (first @ ''.'' @ k, advance ts)
               | t \<Rightarrow> Inl (Expected ''name after .'' t)))"

section \<open>Expressions\<close>

text \<open>\<open>pe\<close> is \<open>parse_expr\<close> for nested expressions. The loops take the left operand read so far.\<close>

primrec case_loop ::
  "(token list \<Rightarrow> expr parsed) \<Rightarrow> nat \<Rightarrow> (expr \<times> expr) list \<Rightarrow> token list \<Rightarrow> (expr \<times> expr) list parsed" where
  "case_loop pe 0 ws ts = Inl Fuel"
| "case_loop pe (Suc k) ws ts =
     (case match_keyword ''WHEN'' ts of
        None \<Rightarrow> Inr (ws, ts)
      | Some ts \<Rightarrow>
          andthen (pe ts) (\<lambda>cond ts.
          andthen (expect_keyword ''THEN'' ts) (\<lambda>_ ts.
          andthen (pe ts) (\<lambda>res ts. case_loop pe k (ws @ [(cond, res)]) ts))))"

definition parse_case :: "(token list \<Rightarrow> expr parsed) \<Rightarrow> token list \<Rightarrow> expr parsed" where
  "parse_case pe ts =
     andthen (expect_keyword ''CASE'' ts) (\<lambda>_ ts.
     andthen (case_loop pe (Suc (length ts)) [] ts) (\<lambda>ws ts.
       if ws = [] then Inl (Message ''CASE expression must have at least one WHEN clause'')
       else
         andthen
           (case match_keyword ''ELSE'' ts of
              Some ts \<Rightarrow> andthen (pe ts) (\<lambda>e ts. Inr (Some e, ts))
            | None \<Rightarrow> Inr (None, ts)) (\<lambda>els ts.
         andthen (expect_keyword ''END'' ts) (\<lambda>_ ts. Inr (Case_when ws els, ts)))))"

definition field_name :: "string \<Rightarrow> token list \<Rightarrow> string parsed" where
  "field_name what ts =
     (case peek ts of
        Keyword k \<Rightarrow> Inr (to_uppercase k, advance ts)
      | Ident s \<Rightarrow> Inr (to_uppercase s, advance ts)
      | t \<Rightarrow> Inl (Expected what t))"

definition parse_extract :: "(token list \<Rightarrow> expr parsed) \<Rightarrow> token list \<Rightarrow> expr parsed" where
  "parse_extract pe ts =
     andthen (expect_keyword ''EXTRACT'' ts) (\<lambda>_ ts.
     andthen (expect LParen ts) (\<lambda>_ ts.
     andthen (field_name ''field name in EXTRACT'' ts) (\<lambda>field ts.
     andthen (expect_keyword ''FROM'' ts) (\<lambda>_ ts.
     andthen (pe ts) (\<lambda>e ts.
     andthen (expect RParen ts) (\<lambda>_ ts. Inr (Extract field e, ts)))))))"

text \<open>The optional length of the target type: everything up to the next closing parenthesis.\<close>

definition skip_length :: "token list \<Rightarrow> token list" where
  "skip_length ts =
     (if peek ts = LParen then
        (let ts = dropWhile (\<lambda>t. t \<noteq> RParen \<and> t \<noteq> EOF) (tl ts) in if peek ts = RParen then tl ts else ts)
      else ts)"

definition parse_cast :: "(token list \<Rightarrow> expr parsed) \<Rightarrow> token list \<Rightarrow> expr parsed" where
  "parse_cast pe ts =
     andthen (expect_keyword ''CAST'' ts) (\<lambda>_ ts.
     andthen (expect LParen ts) (\<lambda>_ ts.
     andthen (pe ts) (\<lambda>e ts.
     andthen (expect_keyword ''AS'' ts) (\<lambda>_ ts.
     andthen (field_name ''target type in CAST'' ts) (\<lambda>ty ts.
     andthen (expect RParen (skip_length ts)) (\<lambda>_ ts. Inr (Cast e ty, ts)))))))"

definition parse_primary :: "parse_env \<Rightarrow> (token list \<Rightarrow> expr parsed) \<Rightarrow> token list \<Rightarrow> expr parsed" where
  "parse_primary env pe ts =
     (case peek ts of
        Int_lit i \<Rightarrow> Inr (Literal (VInt i), tl ts)
      | Float_lit f \<Rightarrow> Inr (Literal (VFloat f), tl ts)
      | String_lit s \<Rightarrow> Inr (Literal (VString s), tl ts)
      | Hex_lit h \<Rightarrow> Inr (Literal (VHex h), tl ts)
      | Keyword kw \<Rightarrow>
          if to_uppercase kw = ''DATE'' then
            (case peek (tl ts) of
               String_lit s \<Rightarrow>
                 (case date_of env s of
                    Some d \<Rightarrow> Inr (Literal (VInt d), tl (tl ts))
                  | None \<Rightarrow> Inr (Literal (VString s), tl (tl ts)))
             | _ \<Rightarrow> Inr (Column kw, tl ts))
          else if to_uppercase kw = ''CASE'' then parse_case pe ts
          else if to_uppercase kw = ''EXTRACT'' then parse_extract pe ts
          else if to_uppercase kw = ''CAST'' then parse_cast pe ts
          else Inr (Column kw, tl ts)
      | Ident name \<Rightarrow>
          if peek (tl ts) = LParen then
            andthen (parse_agg_arg env (tl (tl ts))) (\<lambda>arg ts.
            andthen (expect RParen ts) (\<lambda>_ ts. Inr (Function (to_uppercase name) arg, ts)))
          else Inr (Column name, tl ts)
      | LParen \<Rightarrow> andthen (pe (tl ts)) (\<lambda>e ts. andthen (expect RParen ts) (\<lambda>_ ts. Inr (e, ts)))
      | t \<Rightarrow> Inl (Expected ''expression'' t))"

text \<open>The operator at the cursor, if it is one of the given ones.\<close>

definition op_in :: "string list \<Rightarrow> token list \<Rightarrow> string option" where
  "op_in ops ts = (case peek ts of Op x \<Rightarrow> if x \<in> set ops then Some x else None | _ \<Rightarrow> None)"

primrec mul_loop :: "parse_env \<Rightarrow> (token list \<Rightarrow> expr parsed) \<Rightarrow> nat \<Rightarrow> expr \<Rightarrow> token list \<Rightarrow> expr parsed" where
  "mul_loop env pe 0 left ts = Inl Fuel"
| "mul_loop env pe (Suc k) left ts =
     (case op_in [''*'', ''/''] ts of
        None \<Rightarrow> Inr (left, ts)
      | Some x \<Rightarrow> andthen (parse_primary env pe (tl ts)) (\<lambda>right ts. mul_loop env pe k (Binary left x right) ts))"

definition parse_multiplicative_expr :: "parse_env \<Rightarrow> (token list \<Rightarrow> expr parsed) \<Rightarrow> token list \<Rightarrow> expr parsed" where
  "parse_multiplicative_expr env pe ts =
     andthen (parse_primary env pe ts) (\<lambda>left ts. mul_loop env pe (Suc (length ts)) left ts)"

primrec add_loop :: "parse_env \<Rightarrow> (token list \<Rightarrow> expr parsed) \<Rightarrow> nat \<Rightarrow> expr \<Rightarrow> token list \<Rightarrow> expr parsed" where
  "add_loop env pe 0 left ts = Inl Fuel"
| "add_loop env pe (Suc k) left ts =
     (case op_in [''+'', ''-''] ts of
        None \<Rightarrow> Inr (left, ts)
      | Some x \<Rightarrow>
          andthen (parse_multiplicative_expr env pe (tl ts)) (\<lambda>right ts. add_loop env pe k (Binary left x right) ts))"

definition parse_additive_expr :: "parse_env \<Rightarrow> (token list \<Rightarrow> expr parsed) \<Rightarrow> token list \<Rightarrow> expr parsed" where
  "parse_additive_expr env pe ts =
     andthen (parse_multiplicative_expr env pe ts) (\<lambda>left ts. add_loop env pe (Suc (length ts)) left ts)"

text \<open>The list of \<open>IN\<close> and \<open>NOT IN\<close>: one comparison per value, joined with \<open>conn\<close>.\<close>

primrec in_loop ::
  "parse_env \<Rightarrow> (token list \<Rightarrow> expr parsed) \<Rightarrow> string \<Rightarrow> string \<Rightarrow> expr \<Rightarrow> nat \<Rightarrow> expr option \<Rightarrow> token list \<Rightarrow> expr parsed" where
  "in_loop env pe cmp conn left 0 acc ts = Inl Fuel"
| "in_loop env pe cmp conn left (Suc k) acc ts =
     andthen (parse_additive_expr env pe ts) (\<lambda>val ts.
       let test = Binary left cmp val;
           acc' = (case acc of None \<Rightarrow> test | Some e \<Rightarrow> Binary e conn test)
       in case peek ts of
            Comma \<Rightarrow> in_loop env pe cmp conn left k (Some acc') (tl ts)
          | RParen \<Rightarrow> Inr (acc', tl ts)
          | t \<Rightarrow> Inl (Expected '', or ) in IN list'' t))"

definition parse_between ::
  "parse_env \<Rightarrow> (token list \<Rightarrow> expr parsed) \<Rightarrow> (expr \<Rightarrow> expr \<Rightarrow> expr) \<Rightarrow> token list \<Rightarrow> expr parsed" where
  "parse_between env pe mk ts =
     andthen (parse_additive_expr env pe ts) (\<lambda>low ts.
       case match_keyword ''AND'' ts of
         None \<Rightarrow> Inl (Message ''expected AND after BETWEEN low'')
       | Some ts \<Rightarrow> andthen (parse_additive_expr env pe ts) (\<lambda>high ts. Inr (mk low high, ts)))"

definition COMPARISONS :: "string list" where
  "COMPARISONS = [''='', ''!='', ''<>'', ''<'', ''>'', ''<='', ''>='']"

text \<open>What may follow the left operand of a comparison, from LIKE on; \<open>NOT\<close> is consumed only with the word
  after it.\<close>

definition match_not :: "(token list \<Rightarrow> token list option) \<Rightarrow> token list \<Rightarrow> token list option" where
  "match_not m ts = (case match_keyword ''NOT'' ts of None \<Rightarrow> None | Some ts \<Rightarrow> m ts)"

definition parse_in_list ::
  "parse_env \<Rightarrow> (token list \<Rightarrow> expr parsed) \<Rightarrow> string \<Rightarrow> string \<Rightarrow> expr \<Rightarrow> token list \<Rightarrow> expr parsed" where
  "parse_in_list env pe cmp conn left ts =
     (if peek ts \<noteq> LParen then Inl (Message ''expected ( after IN'')
      else in_loop env pe cmp conn left (length ts) None (tl ts))"

definition parse_comparison_expr :: "parse_env \<Rightarrow> (token list \<Rightarrow> expr parsed) \<Rightarrow> token list \<Rightarrow> expr parsed" where
  "parse_comparison_expr env pe ts =
     andthen (parse_additive_expr env pe ts) (\<lambda>left ts.
       let binary = (\<lambda>x ts. andthen (parse_additive_expr env pe ts) (\<lambda>right ts. Inr (Binary left x right, ts)))
       in case op_in COMPARISONS ts of
            Some x \<Rightarrow> binary (if x = ''<>'' then ''!='' else x) (tl ts)
          | None \<Rightarrow>
          (case match_ident ''LIKE'' ts of
             Some ts \<Rightarrow> binary ''LIKE'' ts
           | None \<Rightarrow>
          (case match_not (match_ident ''LIKE'') ts of
             Some ts \<Rightarrow> binary ''NOT LIKE'' ts
           | None \<Rightarrow>
          (case match_keyword ''BETWEEN'' ts of
             Some ts \<Rightarrow> parse_between env pe
               (\<lambda>low high. Binary (Binary left ''>='' low) ''AND'' (Binary left ''<='' high)) ts
           | None \<Rightarrow>
          (case match_not (match_keyword ''BETWEEN'') ts of
             Some ts \<Rightarrow> parse_between env pe
               (\<lambda>low high. Binary (Binary left ''<'' low) ''OR'' (Binary left ''>'' high)) ts
           | None \<Rightarrow>
          (case match_keyword ''IN'' ts of
             Some ts \<Rightarrow> parse_in_list env pe ''='' ''OR'' left ts
           | None \<Rightarrow>
          (case match_not (match_keyword ''IN'') ts of
             Some ts \<Rightarrow> parse_in_list env pe ''!='' ''AND'' left ts
           | None \<Rightarrow> Inr (left, ts))))))))"

primrec and_loop :: "parse_env \<Rightarrow> (token list \<Rightarrow> expr parsed) \<Rightarrow> nat \<Rightarrow> expr \<Rightarrow> token list \<Rightarrow> expr parsed" where
  "and_loop env pe 0 left ts = Inl Fuel"
| "and_loop env pe (Suc k) left ts =
     (case match_keyword ''AND'' ts of
        None \<Rightarrow> Inr (left, ts)
      | Some ts \<Rightarrow>
          andthen (parse_comparison_expr env pe ts) (\<lambda>right ts. and_loop env pe k (Binary left ''AND'' right) ts))"

definition parse_and_expr :: "parse_env \<Rightarrow> (token list \<Rightarrow> expr parsed) \<Rightarrow> token list \<Rightarrow> expr parsed" where
  "parse_and_expr env pe ts =
     andthen (parse_comparison_expr env pe ts) (\<lambda>left ts. and_loop env pe (Suc (length ts)) left ts)"

primrec or_loop :: "parse_env \<Rightarrow> (token list \<Rightarrow> expr parsed) \<Rightarrow> nat \<Rightarrow> expr \<Rightarrow> token list \<Rightarrow> expr parsed" where
  "or_loop env pe 0 left ts = Inl Fuel"
| "or_loop env pe (Suc k) left ts =
     (case match_keyword ''OR'' ts of
        None \<Rightarrow> Inr (left, ts)
      | Some ts \<Rightarrow> andthen (parse_and_expr env pe ts) (\<lambda>right ts. or_loop env pe k (Binary left ''OR'' right) ts))"

definition parse_or_expr :: "parse_env \<Rightarrow> (token list \<Rightarrow> expr parsed) \<Rightarrow> token list \<Rightarrow> expr parsed" where
  "parse_or_expr env pe ts =
     andthen (parse_and_expr env pe ts) (\<lambda>left ts. or_loop env pe (Suc (length ts)) left ts)"

primrec parse_expr :: "parse_env \<Rightarrow> nat \<Rightarrow> token list \<Rightarrow> expr parsed" where
  "parse_expr env 0 ts = Inl Fuel"
| "parse_expr env (Suc n) ts = parse_or_expr env (parse_expr env n) ts"

section \<open>The SELECT statement\<close>

text \<open>The window specification: the words up to the parenthesis that closes it.\<close>

definition trim_char :: "char \<Rightarrow> string \<Rightarrow> string" where
  "trim_char c s = rev (dropWhile (\<lambda>x. x = c) (rev (dropWhile (\<lambda>x. x = c) s)))"

fun over_parts :: "parse_env \<Rightarrow> nat \<Rightarrow> token list \<Rightarrow> string list parsed" where
  "over_parts env 0 ts = Inr ([], ts)"
| "over_parts env (Suc d) [] = Inl (Message ''unterminated OVER (...)'')"
| "over_parts env (Suc d) (t # ts) =
     (let push = (\<lambda>w d. andthen (over_parts env d ts) (\<lambda>ws ts. Inr (w # ws, ts)))
      in case t of
           LParen \<Rightarrow> push ''('' (Suc (Suc d))
         | RParen \<Rightarrow> if 0 < d then push '')'' d else over_parts env d ts
         | EOF \<Rightarrow> Inl (Message ''unterminated OVER (...)'')
         | t \<Rightarrow> push (trim_char (CHR 0x27) (trim_char (CHR 0x22) (debug_text env t))) (Suc d))"

definition parse_call :: "parse_env \<Rightarrow> string \<Rightarrow> token list \<Rightarrow> select_item parsed" where
  "parse_call env name ts =
     andthen
       (case match_ident ''DISTINCT'' ts of
          Some ts \<Rightarrow>
            (case peek ts of
               Ident col \<Rightarrow> Inr ((to_uppercase name @ ''_DISTINCT'', col), tl ts)
             | t \<Rightarrow> Inl (Expected ''column name after DISTINCT'' t))
        | None \<Rightarrow> andthen (parse_agg_arg env ts) (\<lambda>arg ts. Inr ((to_uppercase name, arg), ts))) (\<lambda>(func, arg) ts.
     andthen (expect RParen ts) (\<lambda>_ ts.
       case match_keyword ''OVER'' ts of
         Some ts \<Rightarrow>
           if peek ts \<noteq> LParen then Inl (Message ''expected ( after OVER'')
           else
             andthen (over_parts env 1 (tl ts)) (\<lambda>parts ts.
             andthen (parse_optional_alias ts) (\<lambda>alias ts. Inr (Item_window func arg (join_words parts) alias, ts)))
       | None \<Rightarrow> andthen (parse_optional_alias ts) (\<lambda>alias ts. Inr (Item_aggregate func arg alias, ts))))"

definition parse_select_item :: "parse_env \<Rightarrow> (token list \<Rightarrow> expr parsed) \<Rightarrow> token list \<Rightarrow> select_item parsed" where
  "parse_select_item env pe ts =
     (case match_op ''*'' ts of
        Some ts \<Rightarrow> Inr (Item_star, ts)
      | None \<Rightarrow>
          if peek ts \<in> Keyword ` set [''CASE'', ''EXTRACT'', ''CAST''] then
            andthen (pe ts) (\<lambda>e ts. andthen (parse_optional_alias ts) (\<lambda>alias ts. Inr (Item_expression e alias, ts)))
          else case peek ts of
                 Int_lit i \<Rightarrow>
                   if i < 0 then Inl (Message ''negative integer literal in SELECT list'')
                   else andthen (parse_optional_alias (tl ts)) (\<lambda>_ ts. Inr (Item_literal (of_int i), ts))
               | Ident name \<Rightarrow>
                   if peek (tl ts) = LParen then parse_call env name (tl (tl ts))
                   else andthen (parse_optional_alias (tl ts)) (\<lambda>_ ts. Inr (Item_column name, ts))
               | t \<Rightarrow> Inl (Expected ''select item'' t))"

primrec parse_select_list ::
  "parse_env \<Rightarrow> (token list \<Rightarrow> expr parsed) \<Rightarrow> nat \<Rightarrow> token list \<Rightarrow> select_item list parsed" where
  "parse_select_list env pe 0 ts = Inl Fuel"
| "parse_select_list env pe (Suc k) ts =
     andthen (parse_select_item env pe ts) (\<lambda>item ts.
       if peek ts = Comma then andthen (parse_select_list env pe k (tl ts)) (\<lambda>items ts. Inr (item # items, ts))
       else Inr ([item], ts))"

definition join_on_clause :: "(token list \<Rightarrow> expr parsed) \<Rightarrow> string \<Rightarrow> token list \<Rightarrow> join_clause parsed" where
  "join_on_clause pe kind ts =
     andthen (parse_table_name ts) (\<lambda>table ts.
     andthen (expect_keyword ''ON'' ts) (\<lambda>_ ts.
     andthen (pe ts) (\<lambda>on ts. Inr (\<lparr>join_table = table, join_on = on, join_type = kind\<rparr>, ts))))"

definition skip_keyword :: "string \<Rightarrow> token list \<Rightarrow> token list" where
  "skip_keyword kw ts = (case match_keyword kw ts of Some ts \<Rightarrow> ts | None \<Rightarrow> ts)"

text \<open>One join clause, if there is one.\<close>

definition parse_join :: "(token list \<Rightarrow> expr parsed) \<Rightarrow> token list \<Rightarrow> join_clause option parsed" where
  "parse_join pe ts =
     (let some = (\<lambda>r. andthen r (\<lambda>j ts. Inr (Some j, ts)));
          outer = (\<lambda>kind ts. andthen (expect_keyword ''JOIN'' (skip_keyword ''OUTER'' ts)) (\<lambda>_ ts. some (join_on_clause pe kind ts)))
      in case match_keyword ''JOIN'' ts of
           Some ts \<Rightarrow> some (join_on_clause pe ''INNER'' ts)
         | None \<Rightarrow>
         (case match_keyword ''INNER'' ts of
            Some ts \<Rightarrow> andthen (expect_keyword ''JOIN'' ts) (\<lambda>_ ts. some (join_on_clause pe ''INNER'' ts))
          | None \<Rightarrow>
         (case match_keyword ''LEFT'' ts of
            Some ts \<Rightarrow> outer ''LEFT'' ts
          | None \<Rightarrow>
         (case match_keyword ''RIGHT'' ts of
            Some ts \<Rightarrow> outer ''RIGHT'' ts
          | None \<Rightarrow>
         (case match_keyword ''FULL'' ts of
            Some ts \<Rightarrow> outer ''FULL'' ts
          | None \<Rightarrow>
         (case match_keyword ''CROSS'' ts of
            Some ts \<Rightarrow>
              andthen (expect_keyword ''JOIN'' ts) (\<lambda>_ ts.
              andthen (parse_table_name ts) (\<lambda>table ts.
                Inr (Some \<lparr>join_table = table, join_on = Literal (VInt 1), join_type = ''CROSS''\<rparr>, ts)))
          | None \<Rightarrow> Inr (None, ts)))))))"

primrec parse_joins :: "(token list \<Rightarrow> expr parsed) \<Rightarrow> nat \<Rightarrow> token list \<Rightarrow> join_clause list parsed" where
  "parse_joins pe 0 ts = Inl Fuel"
| "parse_joins pe (Suc k) ts =
     andthen (parse_join pe ts) (\<lambda>j ts.
       case j of
         None \<Rightarrow> Inr ([], ts)
       | Some j \<Rightarrow> andthen (parse_joins pe k ts) (\<lambda>js ts. Inr (j # js, ts)))"

primrec parse_column_list :: "nat \<Rightarrow> token list \<Rightarrow> string list parsed" where
  "parse_column_list 0 ts = Inl Fuel"
| "parse_column_list (Suc k) ts =
     andthen
       (case peek ts of
          Ident name \<Rightarrow> Inr ([name], tl ts)
        | Int_lit _ \<Rightarrow> Inr ([], tl ts)
        | t \<Rightarrow> Inl (Expected ''column name in GROUP BY'' t)) (\<lambda>cs ts.
       if peek ts = Comma then andthen (parse_column_list k (tl ts)) (\<lambda>cols ts. Inr (cs @ cols, ts))
       else Inr (cs, ts))"

primrec parse_order_list :: "nat \<Rightarrow> token list \<Rightarrow> (string \<times> bool) list parsed" where
  "parse_order_list 0 ts = Inl Fuel"
| "parse_order_list (Suc k) ts =
     andthen
       (case peek ts of
          Ident name \<Rightarrow>
            (case match_ident ''DESC'' (tl ts) of
               Some ts \<Rightarrow> Inr ((name, False), ts)
             | None \<Rightarrow> Inr ((name, True), case match_ident ''ASC'' (tl ts) of Some ts \<Rightarrow> ts | None \<Rightarrow> tl ts))
        | t \<Rightarrow> Inl (Expected ''column name in ORDER BY'' t)) (\<lambda>item ts.
       if peek ts = Comma then andthen (parse_order_list k (tl ts)) (\<lambda>items ts. Inr (item # items, ts))
       else Inr ([item], ts))"

definition parse_usize :: "token list \<Rightarrow> nat parsed" where
  "parse_usize ts =
     (case peek ts of
        Int_lit i \<Rightarrow> if i < 0 then Inl (Message ''expected non-negative integer'') else Inr (nat i, tl ts)
      | t \<Rightarrow> Inl (Expected ''integer'' t))"

text \<open>A clause behind a keyword, or a default.\<close>

definition clause :: "token list option \<Rightarrow> 'a \<Rightarrow> (token list \<Rightarrow> 'a parsed) \<Rightarrow> token list \<Rightarrow> 'a parsed" where
  "clause m d p ts = (case m of Some ts \<Rightarrow> p ts | None \<Rightarrow> Inr (d, ts))"

definition some_of :: "'a parsed \<Rightarrow> 'a option parsed" where
  "some_of r = andthen r (\<lambda>x ts. Inr (Some x, ts))"

definition parse_select :: "parse_env \<Rightarrow> nat \<Rightarrow> token list \<Rightarrow> select_query parsed" where
  "parse_select env n ts =
     (let pe = parse_expr env n
      in andthen (expect_keyword ''SELECT'' ts) (\<lambda>_ ts.
         andthen (clause (match_keyword ''DISTINCT'' ts) False (\<lambda>ts. Inr (True, ts)) ts) (\<lambda>distinct ts.
         andthen (parse_select_list env pe (Suc (length ts)) ts) (\<lambda>sel ts.
         andthen (clause (match_keyword ''FROM'' ts) ''__dummy__'' parse_table_name ts) (\<lambda>from ts.
         andthen (parse_joins pe (Suc (length ts)) ts) (\<lambda>joins ts.
         andthen (clause (match_keyword ''WHERE'' ts) None (\<lambda>ts. some_of (pe ts)) ts) (\<lambda>where_clause ts.
         andthen (clause (match_keyword ''GROUP'' ts) []
           (\<lambda>ts. andthen (expect_keyword ''BY'' ts) (\<lambda>_ ts. parse_column_list (Suc (length ts)) ts)) ts) (\<lambda>group_by ts.
         andthen (clause (match_keyword ''HAVING'' ts) None (\<lambda>ts. some_of (pe ts)) ts) (\<lambda>having ts.
         andthen (clause (match_keyword ''ORDER'' ts) []
           (\<lambda>ts. andthen (expect_keyword ''BY'' ts) (\<lambda>_ ts. parse_order_list (Suc (length ts)) ts)) ts) (\<lambda>order_by ts.
         andthen (clause (match_ident ''LIMIT'' ts) None (\<lambda>ts. some_of (parse_usize ts)) ts) (\<lambda>limit ts.
           Inr (\<lparr>q_select = sel, q_from = from, q_joins = joins, q_where = where_clause, q_group_by = group_by,
                 q_having = having, q_order_by = order_by, q_limit = limit, q_distinct = distinct\<rparr>, ts))))))))))))"

definition parse :: "parse_env \<Rightarrow> token list \<Rightarrow> parse_error + select_query" where
  "parse env ts =
     (case parse_select env (Suc (length ts)) ts of
        Inl e \<Rightarrow> Inl e
      | Inr (q, rest) \<Rightarrow>
          if peek rest \<in> {Semicolon, EOF} then Inr q else Inl (Expected ''end of query'' (peek rest)))"

section \<open>Progress\<close>

text \<open>A result that is not out of fuel and leaves at least \<open>b\<close> tokens fewer than \<open>ts\<close>.\<close>

definition shrinks :: "nat \<Rightarrow> token list \<Rightarrow> 'a parsed \<Rightarrow> bool" where
  "shrinks b ts r \<longleftrightarrow> (case r of Inl e \<Rightarrow> e \<noteq> Fuel | Inr (x, ts') \<Rightarrow> length ts' + b \<le> length ts)"

lemma shrinks_simps [simp]:
  "shrinks b ts (Inl e) \<longleftrightarrow> e \<noteq> Fuel" "shrinks b ts (Inr (x, ts')) \<longleftrightarrow> length ts' + b \<le> length ts"
  by (simp_all add: shrinks_def)

lemma andthen_simps [simp]: "andthen (Inl e) k = Inl e" "andthen (Inr (x, ts)) k = k x ts"
  by (simp_all add: andthen_def)

lemma shrinks_andthen:
  assumes "shrinks a us r" and "\<And>x ts'. length ts' + a \<le> length us \<Longrightarrow> shrinks b ts (k x ts')"
  shows "shrinks b ts (andthen r k)"
proof (cases r)
  case (Inr p)
  then obtain x ts' where "r = Inr (x, ts')" by (cases p) auto
  with assms show ?thesis by simp
qed (use assms in simp)

lemma shrinks_mono: "shrinks a us r \<Longrightarrow> length us + b \<le> length ts + a \<Longrightarrow> shrinks b ts r"
  by (auto simp: shrinks_def split: sum.splits)

lemma peek_length: "peek ts = t \<Longrightarrow> t \<noteq> EOF \<Longrightarrow> length (tl ts) + 1 \<le> length ts"
  by (cases ts) (auto simp: peek_def)

lemma match_length:
  "match_keyword kw ts = Some us \<Longrightarrow> length us + 1 \<le> length ts"
  "match_op x ts = Some us \<Longrightarrow> length us + 1 \<le> length ts"
  "match_ident w ts = Some us \<Longrightarrow> length us + 1 \<le> length ts"
  by (cases ts; force simp: match_keyword_def match_op_def match_ident_def peek_def is_word_def split: if_splits)+

lemma shrinks_expect:
  "shrinks 1 ts (expect_keyword kw ts)" "t \<noteq> EOF \<Longrightarrow> shrinks 1 ts (expect t ts)"
  using peek_length [of ts t] by (auto simp: expect_keyword_def expect_def dest: match_length split: option.splits)

lemma shrinks_option:
  "(\<And>us. m = Some us \<Longrightarrow> shrinks b ts (f us)) \<Longrightarrow> (m = None \<Longrightarrow> shrinks b ts g) \<Longrightarrow>
    shrinks b ts (case m of Some us \<Rightarrow> f us | None \<Rightarrow> g)"
  by (cases m) simp_all

lemma agg_parts_length: "length (snd (agg_parts env d ts)) \<le> length ts"
  by (induction env d ts rule: agg_parts.induct) (auto simp: Let_def case_prod_beta split: token.splits if_splits intro: le_SucI)

lemma shrinks_agg_arg: "shrinks 0 ts (parse_agg_arg env ts)"
  using agg_parts_length [of env 0 ts]
  by (auto simp: parse_agg_arg_def case_prod_beta dest: match_length split: option.splits)

lemma shrinks_alias: "shrinks 0 ts (parse_optional_alias ts)"
proof -
  have "shrinks 0 ts (case peek us of Ident name \<Rightarrow> Inr (Some name, tl us) | t \<Rightarrow> Inl (Expected w t))"
    if "length us + 1 \<le> length ts" for us w
    using that by (auto split: token.splits)
  then show ?thesis
    unfolding parse_optional_alias_def using match_length(1) by (auto split: option.splits)
qed

lemma advance_length: "peek ts \<noteq> EOF \<Longrightarrow> length (advance ts) + 1 \<le> length ts" "length (advance ts) \<le> length ts"
  using peek_length [of ts "peek ts"] by (auto simp: advance_def)

lemma shrinks_table_name: "shrinks 1 ts (parse_table_name ts)"
  unfolding parse_table_name_def
proof (rule shrinks_andthen)
  show "shrinks 1 ts (case peek ts of
          Ident name \<Rightarrow> Inr (name, advance ts)
        | Keyword k \<Rightarrow> if k \<in> set RESERVED then Inl (Expected ''table name'' (Keyword k)) else Inr (k, advance ts)
        | t \<Rightarrow> Inl (Expected ''table name'' t))"
    using advance_length(1) [of ts] by (simp split: token.splits)
  fix first :: string and us :: "token list"
  assume "length us + 1 \<le> length ts"
  then have "shrinks 1 ts (case peek vs of
                 Ident name \<Rightarrow> Inr (first @ ''.'' @ name, advance vs)
               | Keyword k \<Rightarrow> Inr (first @ ''.'' @ k, advance vs)
               | t \<Rightarrow> Inl (Expected ''name after .'' t))" if "length vs + 1 \<le> length us" for vs :: "token list"
    using advance_length(2) [of vs] that by (simp split: token.splits)
  with \<open>length us + 1 \<le> length ts\<close> show "shrinks 1 ts (case match_op ''.'' us of
            None \<Rightarrow> Inr (first, us)
          | Some ts \<Rightarrow>
              (case peek ts of
                 Ident name \<Rightarrow> Inr (first @ ''.'' @ name, advance ts)
               | Keyword k \<Rightarrow> Inr (first @ ''.'' @ k, advance ts)
               | t \<Rightarrow> Inl (Expected ''name after .'' t)))"
    using match_length(2) by (intro shrinks_option) simp_all
qed

section \<open>Expressions make progress\<close>

text \<open>A parser that is not out of fuel and consumes a token on fewer than \<open>n\<close> tokens.\<close>

definition progress :: "nat \<Rightarrow> (token list \<Rightarrow> 'a parsed) \<Rightarrow> bool" where
  "progress n p \<longleftrightarrow> (\<forall>ts. length ts < n \<longrightarrow> shrinks 1 ts (p ts))"

lemma progressD: "progress n p \<Longrightarrow> length ts < n \<Longrightarrow> shrinks 1 ts (p ts)"
  by (simp add: progress_def)

lemma shrinks_field: "shrinks 1 ts (field_name w ts)"
  using advance_length(1) [of ts] by (simp add: field_name_def split: token.splits)

lemma skip_length_le: "length (skip_length ts) \<le> length ts"
proof -
  let ?us = "dropWhile (\<lambda>t. t \<noteq> RParen \<and> t \<noteq> EOF) (tl ts)"
  have "length ?us \<le> length (tl ts)" by (rule length_dropWhile_le)
  then show ?thesis by (auto simp: skip_length_def Let_def)
qed

lemma case_loop_shrinks:
  "progress n pe \<Longrightarrow> length ts < n \<Longrightarrow> length ts < k \<Longrightarrow> shrinks 0 ts (case_loop pe k ws ts)"
proof (induction k arbitrary: ws ts)
  case (Suc k)
  show ?case
    unfolding case_loop.simps
  proof (rule shrinks_option)
    fix us assume "match_keyword ''WHEN'' ts = Some us"
    then have us: "length us + 1 \<le> length ts" by (rule match_length)
    show "shrinks 0 ts (andthen (pe us) (\<lambda>cond ts. andthen (expect_keyword ''THEN'' ts) (\<lambda>_ ts.
          andthen (pe ts) (\<lambda>res ts. case_loop pe k (ws @ [(cond, res)]) ts))))"
      using us Suc.prems
      by (intro shrinks_andthen [OF progressD [OF Suc.prems(1)]] shrinks_andthen [OF shrinks_expect(1)]
          shrinks_mono [OF Suc.IH]) simp_all
  qed simp
qed simp

lemma shrinks_if: "(P \<Longrightarrow> shrinks b ts r) \<Longrightarrow> (\<not> P \<Longrightarrow> shrinks b ts q) \<Longrightarrow> shrinks b ts (if P then r else q)"
  by simp

lemma parse_case_shrinks:
  assumes "progress n pe" and "length ts \<le> n"
  shows "shrinks 1 ts (parse_case pe ts)"
  unfolding parse_case_def
proof (rule shrinks_andthen [OF shrinks_expect(1)])
  fix us :: "token list"
  assume us: "length us + 1 \<le> length ts"
  show "shrinks 1 ts (andthen (case_loop pe (Suc (length us)) [] us) (\<lambda>ws ts.
       if ws = [] then Inl (Message ''CASE expression must have at least one WHEN clause'')
       else andthen (case match_keyword ''ELSE'' ts of
              Some ts \<Rightarrow> andthen (pe ts) (\<lambda>e ts. Inr (Some e, ts))
            | None \<Rightarrow> Inr (None, ts)) (\<lambda>els ts.
         andthen (expect_keyword ''END'' ts) (\<lambda>_ ts. Inr (Case_when ws els, ts)))))"
  proof (rule shrinks_andthen [OF case_loop_shrinks [OF assms(1)]])
    fix ws and vs :: "token list"
    assume vs: "length vs + 0 \<le> length us"
    have E: "shrinks 0 vs (case match_keyword ''ELSE'' vs of
        Some ts \<Rightarrow> andthen (pe ts) (\<lambda>e ts. Inr (Some e, ts)) | None \<Rightarrow> Inr (None, vs))"
    proof (rule shrinks_option)
      fix ws assume "match_keyword ''ELSE'' vs = Some ws"
      then have "length ws + 1 \<le> length vs" by (rule match_length)
      then show "shrinks 0 vs (andthen (pe ws) (\<lambda>e ts. Inr (Some e, ts)))"
        using us vs assms(2) by (intro shrinks_andthen [OF progressD [OF assms(1)]]) simp_all
    qed simp
    from us vs show "shrinks 1 ts (if ws = [] then Inl (Message ''CASE expression must have at least one WHEN clause'')
       else andthen (case match_keyword ''ELSE'' vs of
              Some ts \<Rightarrow> andthen (pe ts) (\<lambda>e ts. Inr (Some e, ts))
            | None \<Rightarrow> Inr (None, vs)) (\<lambda>els ts.
         andthen (expect_keyword ''END'' ts) (\<lambda>_ ts. Inr (Case_when ws els, ts))))"
      by (intro shrinks_if shrinks_andthen [OF E] shrinks_andthen [OF shrinks_expect(1)]) simp_all
  qed (use us assms(2) in simp_all)
qed

lemma parse_extract_shrinks: "progress n pe \<Longrightarrow> length ts \<le> n \<Longrightarrow> shrinks 1 ts (parse_extract pe ts)"
  unfolding parse_extract_def
  by (rule shrinks_andthen [OF shrinks_expect(1)] shrinks_andthen [OF shrinks_expect(2)] shrinks_andthen [OF shrinks_field]
      shrinks_andthen [OF progressD] | assumption | simp)+

lemma parse_cast_shrinks: "progress n pe \<Longrightarrow> length ts \<le> n \<Longrightarrow> shrinks 1 ts (parse_cast pe ts)"
  unfolding parse_cast_def
  apply (rule shrinks_andthen [OF shrinks_expect(1)])
  apply (rule shrinks_andthen [OF shrinks_expect(2)], simp)
  apply (rule shrinks_andthen [OF progressD], assumption, simp)
  apply (rule shrinks_andthen [OF shrinks_expect(1)])
  apply (rule shrinks_andthen [OF shrinks_field])
  apply (rule shrinks_andthen [OF shrinks_expect(2)], simp)
  subgoal for x1 t1 x2 t2 x3 t3 x4 t4 x5 t5 x6 t6 using skip_length_le [of t5] by simp
  done

lemma parse_primary_shrinks:
  assumes "progress n pe" and "length ts \<le> n"
  shows "shrinks 1 ts (parse_primary env pe ts)"
proof (cases "peek ts")
  case (Keyword kw)
  from peek_length [OF Keyword] have l: "length (tl ts) + 1 \<le> length ts" by simp
  have d: "shrinks 1 ts (case peek (tl ts) of
      String_lit s \<Rightarrow> (case date_of env s of Some d \<Rightarrow> Inr (Literal (VInt d), tl (tl ts)) | None \<Rightarrow> Inr (Literal (VString s), tl (tl ts)))
    | _ \<Rightarrow> Inr (Column kw, tl ts))"
    using l by (cases "peek (tl ts)") (auto split: option.splits)
  then show ?thesis
    using Keyword l parse_case_shrinks [OF assms] parse_extract_shrinks [OF assms] parse_cast_shrinks [OF assms]
    by (auto simp: parse_primary_def)
next
  case (Ident name)
  from peek_length [OF Ident] have l: "length (tl ts) + 1 \<le> length ts" by simp
  have "shrinks 1 ts (andthen (parse_agg_arg env (tl (tl ts))) (\<lambda>arg ts.
            andthen (expect RParen ts) (\<lambda>_ ts. Inr (Function (to_uppercase name) arg, ts))))"
    using l by (intro shrinks_andthen [OF shrinks_agg_arg] shrinks_andthen [OF shrinks_expect(2)]) simp_all
  with Ident l show ?thesis by (simp add: parse_primary_def)
next
  case LParen
  from peek_length [OF LParen] have l: "length (tl ts) + 1 \<le> length ts" by simp
  have "shrinks 1 ts (andthen (pe (tl ts)) (\<lambda>e ts. andthen (expect RParen ts) (\<lambda>_ ts. Inr (e, ts))))"
    using l assms by (intro shrinks_andthen [OF progressD [OF assms(1)]] shrinks_andthen [OF shrinks_expect(2)]) simp_all
  with LParen show ?thesis by (simp add: parse_primary_def)
qed (use peek_length [of ts] in \<open>simp_all add: parse_primary_def\<close>)

lemma op_in_length: "op_in ops ts = Some x \<Longrightarrow> length (tl ts) + 1 \<le> length ts"
  using peek_length [of ts] by (auto simp: op_in_def split: token.splits if_splits)

lemma mul_loop_shrinks:
  "progress n pe \<Longrightarrow> length ts \<le> n \<Longrightarrow> length ts < k \<Longrightarrow> shrinks 0 ts (mul_loop env pe k left ts)"
proof (induction k arbitrary: left ts)
  case (Suc k)
  show ?case
    unfolding mul_loop.simps
  proof (rule shrinks_option)
    fix x assume "op_in [''*'', ''/''] ts = Some x"
    then have "length (tl ts) + 1 \<le> length ts" by (rule op_in_length)
    then show "shrinks 0 ts (andthen (parse_primary env pe (tl ts)) (\<lambda>right ts. mul_loop env pe k (Binary left x right) ts))"
      using Suc.prems
      by (intro shrinks_andthen [OF parse_primary_shrinks [OF Suc.prems(1)]] shrinks_mono [OF Suc.IH]) simp_all
  qed simp
qed simp

lemma parse_multiplicative_shrinks:
  "progress n pe \<Longrightarrow> length ts \<le> n \<Longrightarrow> shrinks 1 ts (parse_multiplicative_expr env pe ts)"
  unfolding parse_multiplicative_expr_def
  by (intro shrinks_andthen [OF parse_primary_shrinks] shrinks_mono [OF mul_loop_shrinks]) (assumption | linarith | simp)+

lemma add_loop_shrinks:
  "progress n pe \<Longrightarrow> length ts \<le> n \<Longrightarrow> length ts < k \<Longrightarrow> shrinks 0 ts (add_loop env pe k left ts)"
proof (induction k arbitrary: left ts)
  case (Suc k)
  show ?case
    unfolding add_loop.simps
  proof (rule shrinks_option)
    fix x assume "op_in [''+'', ''-''] ts = Some x"
    then have "length (tl ts) + 1 \<le> length ts" by (rule op_in_length)
    then show "shrinks 0 ts (andthen (parse_multiplicative_expr env pe (tl ts)) (\<lambda>right ts. add_loop env pe k (Binary left x right) ts))"
      using Suc.prems
      by (intro shrinks_andthen [OF parse_multiplicative_shrinks [OF Suc.prems(1)]] shrinks_mono [OF Suc.IH]) simp_all
  qed simp
qed simp

lemma parse_additive_shrinks:
  "progress n pe \<Longrightarrow> length ts \<le> n \<Longrightarrow> shrinks 1 ts (parse_additive_expr env pe ts)"
  unfolding parse_additive_expr_def
  by (intro shrinks_andthen [OF parse_multiplicative_shrinks] shrinks_mono [OF add_loop_shrinks]) (assumption | linarith | simp)+

lemma in_loop_shrinks:
  "progress n pe \<Longrightarrow> length ts \<le> n \<Longrightarrow> length ts < k \<Longrightarrow> shrinks 0 ts (in_loop env pe cmp conn left k acc ts)"
proof (induction k arbitrary: acc ts)
  case (Suc k)
  show ?case
    unfolding in_loop.simps Let_def
  proof (rule shrinks_andthen [OF parse_additive_shrinks [OF Suc.prems(1,2)]])
    fix val and us :: "token list"
    assume us: "length us + 1 \<le> length ts"
    then have "shrinks 0 ts (in_loop env pe cmp conn left k (Some e) (tl us))" for e
      using Suc.prems by (intro shrinks_mono [OF Suc.IH]) simp_all
    with us show "shrinks 0 ts (case peek us of
            Comma \<Rightarrow> in_loop env pe cmp conn left k (Some (case acc of None \<Rightarrow> Binary left cmp val | Some e \<Rightarrow> Binary e conn (Binary left cmp val))) (tl us)
          | RParen \<Rightarrow> Inr (case acc of None \<Rightarrow> Binary left cmp val | Some e \<Rightarrow> Binary e conn (Binary left cmp val), tl us)
          | t \<Rightarrow> Inl (Expected '', or ) in IN list'' t))"
      by (auto split: token.splits)
  qed
qed simp

lemma parse_in_list_shrinks:
  assumes "progress n pe" and "length ts \<le> n"
  shows "shrinks 1 ts (parse_in_list env pe cmp conn left ts)"
proof (cases "peek ts = LParen")
  case True
  from peek_length [OF this] have "length (tl ts) + 1 \<le> length ts" by simp
  with assms True show ?thesis
    by (simp add: parse_in_list_def) (rule shrinks_mono [OF in_loop_shrinks [OF assms(1), of "tl ts"]]; simp)
qed (simp add: parse_in_list_def)

lemma parse_between_shrinks:
  assumes "progress n pe" and "length ts \<le> n"
  shows "shrinks 1 ts (parse_between env pe mk ts)"
  unfolding parse_between_def
proof (rule shrinks_andthen [OF parse_additive_shrinks [OF assms]], rule shrinks_option)
  fix low and us vs :: "token list"
  assume us: "length us + 1 \<le> length ts" and "match_keyword ''AND'' us = Some vs"
  then have "length vs + 1 \<le> length us" by (intro match_length)
  with us assms(2) show "shrinks 1 ts (andthen (parse_additive_expr env pe vs) (\<lambda>high ts. Inr (mk low high, ts)))"
    by (intro shrinks_andthen [OF parse_additive_shrinks [OF assms(1)]]) simp_all
qed simp

lemma match_not_length:
  assumes "match_not m ts = Some us" and "\<And>vs us. m vs = Some us \<Longrightarrow> length us + 1 \<le> length vs"
  shows "length us + 1 \<le> length ts"
  using assms match_length(1) by (fastforce simp: match_not_def split: option.splits)

lemma parse_comparison_shrinks:
  assumes "progress n pe" and "length ts \<le> n"
  shows "shrinks 1 ts (parse_comparison_expr env pe ts)"
  unfolding parse_comparison_expr_def Let_def
proof (rule shrinks_andthen [OF parse_additive_shrinks [OF assms]])
  fix left and us :: "token list"
  assume us: "length us + 1 \<le> length ts"
  have bin: "shrinks 1 ts (andthen (parse_additive_expr env pe vs) (\<lambda>right ts. Inr (Binary left x right, ts)))"
    if "length vs + 1 \<le> length us" for x vs
    using us that assms(2) by (intro shrinks_andthen [OF parse_additive_shrinks [OF assms(1)]]) simp_all
  have btw: "shrinks 1 ts (parse_between env pe mk vs)" if "length vs + 1 \<le> length us" for mk vs
    using us that assms by (intro shrinks_mono [OF parse_between_shrinks [OF assms(1)]]) simp_all
  have inl: "shrinks 1 ts (parse_in_list env pe cmp conn left vs)" if "length vs + 1 \<le> length us" for cmp conn vs
    using us that assms by (intro shrinks_mono [OF parse_in_list_shrinks [OF assms(1)]]) simp_all
  note ml = op_in_length match_length match_not_length [OF _ match_length(1)] match_not_length [OF _ match_length(3)]
  show "shrinks 1 ts (case op_in COMPARISONS us of
            Some x \<Rightarrow> andthen (parse_additive_expr env pe (tl us)) (\<lambda>right ts. Inr (Binary left (if x = ''<>'' then ''!='' else x) right, ts))
          | None \<Rightarrow>
          (case match_ident ''LIKE'' us of
             Some ts \<Rightarrow> andthen (parse_additive_expr env pe ts) (\<lambda>right ts. Inr (Binary left ''LIKE'' right, ts))
           | None \<Rightarrow>
          (case match_not (match_ident ''LIKE'') us of
             Some ts \<Rightarrow> andthen (parse_additive_expr env pe ts) (\<lambda>right ts. Inr (Binary left ''NOT LIKE'' right, ts))
           | None \<Rightarrow>
          (case match_keyword ''BETWEEN'' us of
             Some ts \<Rightarrow> parse_between env pe
               (\<lambda>low high. Binary (Binary left ''>='' low) ''AND'' (Binary left ''<='' high)) ts
           | None \<Rightarrow>
          (case match_not (match_keyword ''BETWEEN'') us of
             Some ts \<Rightarrow> parse_between env pe
               (\<lambda>low high. Binary (Binary left ''<'' low) ''OR'' (Binary left ''>'' high)) ts
           | None \<Rightarrow>
          (case match_keyword ''IN'' us of
             Some ts \<Rightarrow> parse_in_list env pe ''='' ''OR'' left ts
           | None \<Rightarrow>
          (case match_not (match_keyword ''IN'') us of
             Some ts \<Rightarrow> parse_in_list env pe ''!='' ''AND'' left ts
           | None \<Rightarrow> Inr (left, us))))))))"
    using us by (intro shrinks_option) (erule bin [OF ml(1)] bin [OF ml(4)] bin [OF ml(6)] btw [OF ml(2)] btw [OF ml(5)] inl [OF ml(2)] inl [OF ml(5)] | simp)+
qed

lemma and_loop_shrinks:
  "progress n pe \<Longrightarrow> length ts \<le> n \<Longrightarrow> length ts < k \<Longrightarrow> shrinks 0 ts (and_loop env pe k left ts)"
proof (induction k arbitrary: left ts)
  case (Suc k)
  show ?case
    unfolding and_loop.simps
  proof (rule shrinks_option)
    fix us assume "match_keyword ''AND'' ts = Some us"
    then have "length us + 1 \<le> length ts" by (rule match_length)
    then show "shrinks 0 ts (andthen (parse_comparison_expr env pe us) (\<lambda>right ts. and_loop env pe k (Binary left ''AND'' right) ts))"
      using Suc.prems
      by (intro shrinks_andthen [OF parse_comparison_shrinks [OF Suc.prems(1)]] shrinks_mono [OF Suc.IH]) simp_all
  qed simp
qed simp

lemma parse_and_shrinks: "progress n pe \<Longrightarrow> length ts \<le> n \<Longrightarrow> shrinks 1 ts (parse_and_expr env pe ts)"
  unfolding parse_and_expr_def
  by (intro shrinks_andthen [OF parse_comparison_shrinks] shrinks_mono [OF and_loop_shrinks]) (assumption | linarith | simp)+

lemma or_loop_shrinks:
  "progress n pe \<Longrightarrow> length ts \<le> n \<Longrightarrow> length ts < k \<Longrightarrow> shrinks 0 ts (or_loop env pe k left ts)"
proof (induction k arbitrary: left ts)
  case (Suc k)
  show ?case
    unfolding or_loop.simps
  proof (rule shrinks_option)
    fix us assume "match_keyword ''OR'' ts = Some us"
    then have "length us + 1 \<le> length ts" by (rule match_length)
    then show "shrinks 0 ts (andthen (parse_and_expr env pe us) (\<lambda>right ts. or_loop env pe k (Binary left ''OR'' right) ts))"
      using Suc.prems
      by (intro shrinks_andthen [OF parse_and_shrinks [OF Suc.prems(1)]] shrinks_mono [OF Suc.IH]) simp_all
  qed simp
qed simp

lemma parse_or_shrinks: "progress n pe \<Longrightarrow> length ts \<le> n \<Longrightarrow> shrinks 1 ts (parse_or_expr env pe ts)"
  unfolding parse_or_expr_def
  by (intro shrinks_andthen [OF parse_and_shrinks] shrinks_mono [OF or_loop_shrinks]) (assumption | linarith | simp)+

text \<open>One unit of fuel per token is enough.\<close>

lemma parse_expr_progress: "progress n (parse_expr env n)"
proof (induction n)
  case (Suc n)
  then show ?case using parse_or_shrinks by (simp add: progress_def)
qed (simp add: progress_def)

section \<open>Statements make progress\<close>

lemma over_parts_shrinks: "shrinks 0 ts (over_parts env d ts)"
proof (induction env d ts rule: over_parts.induct)
  case (3 env d t ts)
  have push: "shrinks 0 (u # ts) (andthen (over_parts env d' ts) (\<lambda>ws ts. Inr (w # ws, ts)))"
    if "shrinks 0 ts (over_parts env d' ts)" for d' w and u :: token
    by (rule shrinks_andthen [OF that]) simp
  have skip: "shrinks 0 (u # ts) (over_parts env d ts)" if "shrinks 0 ts (over_parts env d ts)" for u
    by (rule shrinks_mono [OF that]) simp
  show ?case using 3 by (cases t) (auto simp: Let_def intro!: push skip)
qed simp_all

lemma parse_call_shrinks: "shrinks 0 ts (parse_call env name ts)"
  unfolding parse_call_def
proof (rule shrinks_andthen)
  show "shrinks 0 ts (case match_ident ''DISTINCT'' ts of
          Some ts \<Rightarrow>
            (case peek ts of
               Ident col \<Rightarrow> Inr ((to_uppercase name @ ''_DISTINCT'', col), tl ts)
             | t \<Rightarrow> Inl (Expected ''column name after DISTINCT'' t))
        | None \<Rightarrow> andthen (parse_agg_arg env ts) (\<lambda>arg ts. Inr ((to_uppercase name, arg), ts)))"
  proof (rule shrinks_option)
    fix us assume "match_ident ''DISTINCT'' ts = Some us"
    then have "length us + 1 \<le> length ts" by (rule match_length)
    then show "shrinks 0 ts (case peek us of
               Ident col \<Rightarrow> Inr ((to_uppercase name @ ''_DISTINCT'', col), tl us)
             | t \<Rightarrow> Inl (Expected ''column name after DISTINCT'' t))" by (cases "peek us") auto
  qed (rule shrinks_andthen [OF shrinks_agg_arg], simp)
  fix fa :: "string \<times> string" and us :: "token list"
  assume us: "length us + 0 \<le> length ts"
  obtain func arg where fa: "fa = (func, arg)" by (cases fa)
  show "shrinks 0 ts ((\<lambda>(func, arg) ts. andthen (expect RParen ts) (\<lambda>_ ts.
       case match_keyword ''OVER'' ts of
         Some ts \<Rightarrow>
           if peek ts \<noteq> LParen then Inl (Message ''expected ( after OVER'')
           else
             andthen (over_parts env 1 (tl ts)) (\<lambda>parts ts.
             andthen (parse_optional_alias ts) (\<lambda>alias ts. Inr (Item_window func arg (join_words parts) alias, ts)))
       | None \<Rightarrow> andthen (parse_optional_alias ts) (\<lambda>alias ts. Inr (Item_aggregate func arg alias, ts)))) fa us)"
    unfolding fa prod.case
  proof (rule shrinks_andthen [OF shrinks_expect(2)], simp, rule shrinks_option)
    fix vs ws :: "token list"
    assume vs: "length vs + 1 \<le> length us" and "match_keyword ''OVER'' vs = Some ws"
    then have "length ws + 1 \<le> length vs" by (intro match_length)
    with us vs show "shrinks 0 ts (if peek ws \<noteq> LParen then Inl (Message ''expected ( after OVER'')
           else
             andthen (over_parts env 1 (tl ws)) (\<lambda>parts ts.
             andthen (parse_optional_alias ts) (\<lambda>alias ts. Inr (Item_window func arg (join_words parts) alias, ts))))"
      by (intro shrinks_if shrinks_andthen [OF over_parts_shrinks] shrinks_andthen [OF shrinks_alias]) simp_all
  next
    fix vs :: "token list"
    assume "length vs + 1 \<le> length us"
    with us show "shrinks 0 ts (andthen (parse_optional_alias vs) (\<lambda>alias ts. Inr (Item_aggregate func arg alias, ts)))"
      by (intro shrinks_andthen [OF shrinks_alias]) simp_all
  qed
qed

lemma parse_select_item_shrinks:
  assumes "progress n pe" and "length ts < n"
  shows "shrinks 1 ts (parse_select_item env pe ts)"
  unfolding parse_select_item_def
proof (rule shrinks_option)
  fix us assume "match_op ''*'' ts = Some us"
  then show "shrinks 1 ts (Inr (Item_star, us))" using match_length(2) by simp
next
  have e: "shrinks 1 ts (andthen (pe ts) (\<lambda>e ts. andthen (parse_optional_alias ts) (\<lambda>alias ts. Inr (Item_expression e alias, ts))))"
    using assms by (intro shrinks_andthen [OF progressD] shrinks_andthen [OF shrinks_alias]) simp_all
  have a: "shrinks 1 ts (andthen (parse_optional_alias (tl ts)) (\<lambda>_ ts. Inr (x, ts)))"
    if "length (tl ts) + 1 \<le> length ts" for x :: select_item
    using that by (intro shrinks_andthen [OF shrinks_alias]) simp_all
  have c: "shrinks 1 ts (parse_call env name (tl (tl ts)))" if "length (tl ts) + 1 \<le> length ts" for name
    using that by (intro shrinks_mono [OF parse_call_shrinks]) simp
  show "shrinks 1 ts (if peek ts \<in> Keyword ` set [''CASE'', ''EXTRACT'', ''CAST''] then
            andthen (pe ts) (\<lambda>e ts. andthen (parse_optional_alias ts) (\<lambda>alias ts. Inr (Item_expression e alias, ts)))
          else case peek ts of
                 Int_lit i \<Rightarrow>
                   if i < 0 then Inl (Message ''negative integer literal in SELECT list'')
                   else andthen (parse_optional_alias (tl ts)) (\<lambda>_ ts. Inr (Item_literal (of_int i), ts))
               | Ident name \<Rightarrow>
                   if peek (tl ts) = LParen then parse_call env name (tl (tl ts))
                   else andthen (parse_optional_alias (tl ts)) (\<lambda>_ ts. Inr (Item_column name, ts))
               | t \<Rightarrow> Inl (Expected ''select item'' t))"
    using peek_length [of ts] by (intro shrinks_if e) (cases "peek ts"; simp add: a c del: One_nat_def)
qed

lemma parse_select_list_shrinks:
  "progress n pe \<Longrightarrow> length ts < n \<Longrightarrow> length ts < k \<Longrightarrow> shrinks 1 ts (parse_select_list env pe k ts)"
proof (induction k arbitrary: ts)
  case (Suc k)
  show ?case
    unfolding parse_select_list.simps
  proof (rule shrinks_andthen [OF parse_select_item_shrinks [OF Suc.prems(1,2)]], rule shrinks_if)
    fix item and us :: "token list"
    assume us: "length us + 1 \<le> length ts" and "peek us = Comma"
    then have "length (tl us) + 1 \<le> length us" using peek_length [of us] by simp
    with us Suc.prems show "shrinks 1 ts (andthen (parse_select_list env pe k (tl us)) (\<lambda>items ts. Inr (item # items, ts)))"
      by (intro shrinks_andthen [OF Suc.IH]) simp_all
  qed simp
qed simp

lemma join_on_shrinks: "progress n pe \<Longrightarrow> length ts < n \<Longrightarrow> shrinks 1 ts (join_on_clause pe kind ts)"
  unfolding join_on_clause_def
  by (intro shrinks_andthen [OF shrinks_table_name] shrinks_andthen [OF shrinks_expect(1)] shrinks_andthen [OF progressD])
    (assumption | linarith | simp)+

lemma skip_keyword_length: "length (skip_keyword kw ts) \<le> length ts"
  using match_length(1) by (force simp: skip_keyword_def split: option.splits)

text \<open>A join clause is consumed, or there is none.\<close>

lemma parse_join_shrinks:
  assumes "progress n pe" and "length ts < n"
  shows "shrinks 0 ts (parse_join pe ts)" and "parse_join pe ts = Inr (Some j, us) \<Longrightarrow> length us < length ts"
proof -
  let ?some = "\<lambda>r. andthen r (\<lambda>j ts. Inr (Some j, ts))"
  have on: "shrinks 1 ts (?some (join_on_clause pe kind vs))" if "length vs + 1 \<le> length ts" for kind vs
    using that assms by (intro shrinks_andthen [OF join_on_shrinks [OF assms(1)]]) simp_all
  have jn: "shrinks 1 ts (andthen (expect_keyword ''JOIN'' vs) (\<lambda>_ ts. ?some (join_on_clause pe kind ts)))"
    if "length vs + 1 \<le> length ts" for kind vs
    using that assms by (intro shrinks_andthen [OF shrinks_expect(1)] shrinks_andthen [OF join_on_shrinks [OF assms(1)]]) simp_all
  have out: "shrinks 1 ts (andthen (expect_keyword ''JOIN'' (skip_keyword ''OUTER'' vs)) (\<lambda>_ ts. ?some (join_on_clause pe kind ts)))"
    if "length vs + 1 \<le> length ts" for kind vs
    using that skip_keyword_length [of "''OUTER''" vs] by (intro jn) simp
  have cr: "shrinks 1 ts (andthen (expect_keyword ''JOIN'' vs) (\<lambda>_ ts. andthen (parse_table_name ts) (\<lambda>table ts.
      Inr (Some \<lparr>join_table = table, join_on = Literal (VInt 1), join_type = ''CROSS''\<rparr>, ts))))"
    if "length vs + 1 \<le> length ts" for vs
    using that by (intro shrinks_andthen [OF shrinks_expect(1)] shrinks_andthen [OF shrinks_table_name]) simp_all
  have "parse_join pe ts = Inr (None, ts) \<or> shrinks 1 ts (parse_join pe ts)"
    unfolding parse_join_def Let_def
    by (auto split: option.splits simp del: One_nat_def dest!: match_length(1) intro: on jn out cr)
  then show "shrinks 0 ts (parse_join pe ts)" "parse_join pe ts = Inr (Some j, us) \<Longrightarrow> length us < length ts"
    by (auto intro: shrinks_mono)
qed

lemma parse_joins_shrinks:
  "progress n pe \<Longrightarrow> length ts < n \<Longrightarrow> length ts < k \<Longrightarrow> shrinks 0 ts (parse_joins pe k ts)"
proof (induction k arbitrary: ts)
  case (Suc k)
  note P = parse_join_shrinks [OF Suc.prems(1,2)]
  show ?case
  proof (cases "parse_join pe ts")
    case (Inr r)
    then obtain j us where j: "parse_join pe ts = Inr (j, us)" by (cases r) simp
    have us: "length us \<le> length ts" using P(1) j by simp
    show ?thesis
    proof (cases j)
      case (Some j')
      have "length us < length ts" using P(2) j Some by simp
      then have "shrinks 0 ts (andthen (parse_joins pe k us) (\<lambda>js ts. Inr (j' # js, ts)))"
        using Suc.prems by (intro shrinks_andthen [OF Suc.IH]) simp_all
      with j Some show ?thesis by simp
    qed (use j us in simp)
  qed (use P(1) in simp)
qed simp

lemma column_list_shrinks: "length ts < k \<Longrightarrow> shrinks 1 ts (parse_column_list k ts)"
proof (induction k arbitrary: ts)
  case (Suc k)
  show ?case
    unfolding parse_column_list.simps
  proof (rule shrinks_andthen [where a = 1 and us = ts])
    show "shrinks 1 ts (case peek ts of Ident name \<Rightarrow> Inr ([name], tl ts) | Int_lit _ \<Rightarrow> Inr ([], tl ts)
        | t \<Rightarrow> Inl (Expected ''column name in GROUP BY'' t))"
      using peek_length [of ts] by (cases "peek ts") simp_all
    fix cs and us :: "token list"
    assume us: "length us + 1 \<le> length ts"
    show "shrinks 1 ts (if peek us = Comma then andthen (parse_column_list k (tl us)) (\<lambda>cols ts. Inr (cs @ cols, ts)) else Inr (cs, us))"
    proof (rule shrinks_if)
      assume "peek us = Comma"
      then have "length (tl us) + 1 \<le> length us" using peek_length [of us] by simp
      with us Suc.prems show "shrinks 1 ts (andthen (parse_column_list k (tl us)) (\<lambda>cols ts. Inr (cs @ cols, ts)))"
        by (intro shrinks_andthen [OF Suc.IH]) simp_all
    qed (use us in simp)
  qed
qed simp

lemma order_list_shrinks: "length ts < k \<Longrightarrow> shrinks 1 ts (parse_order_list k ts)"
proof (induction k arbitrary: ts)
  case (Suc k)
  show ?case
    unfolding parse_order_list.simps
  proof (rule shrinks_andthen [where a = 1 and us = ts])
    have "shrinks 1 ts (case match_ident ''DESC'' (tl ts) of
               Some ts \<Rightarrow> Inr ((name, False), ts)
             | None \<Rightarrow> Inr ((name, True), case match_ident ''ASC'' (tl ts) of Some ts \<Rightarrow> ts | None \<Rightarrow> tl ts))"
      if "length (tl ts) + 1 \<le> length ts" for name
      using that by (auto split: option.splits dest!: match_length(3))
    then show "shrinks 1 ts (case peek ts of
          Ident name \<Rightarrow>
            (case match_ident ''DESC'' (tl ts) of
               Some ts \<Rightarrow> Inr ((name, False), ts)
             | None \<Rightarrow> Inr ((name, True), case match_ident ''ASC'' (tl ts) of Some ts \<Rightarrow> ts | None \<Rightarrow> tl ts))
        | t \<Rightarrow> Inl (Expected ''column name in ORDER BY'' t))"
      using peek_length [of ts] by (cases "peek ts") simp_all
    fix item and us :: "token list"
    assume us: "length us + 1 \<le> length ts"
    show "shrinks 1 ts (if peek us = Comma then andthen (parse_order_list k (tl us)) (\<lambda>items ts. Inr (item # items, ts)) else Inr ([item], us))"
    proof (rule shrinks_if)
      assume "peek us = Comma"
      then have "length (tl us) + 1 \<le> length us" using peek_length [of us] by simp
      with us Suc.prems show "shrinks 1 ts (andthen (parse_order_list k (tl us)) (\<lambda>items ts. Inr (item # items, ts)))"
        by (intro shrinks_andthen [OF Suc.IH]) simp_all
    qed (use us in simp)
  qed
qed simp

lemma parse_usize_shrinks: "shrinks 1 ts (parse_usize ts)"
  using peek_length [of ts] by (cases "peek ts") (simp_all add: parse_usize_def)

lemma clause_shrinks:
  assumes "\<And>us. m = Some us \<Longrightarrow> length us + 1 \<le> length ts" and "\<And>us. length us + 1 \<le> length ts \<Longrightarrow> shrinks 0 us (p us)"
  shows "shrinks 0 ts (clause m d p ts)"
proof (cases m)
  case (Some us)
  with assms shrinks_mono [of 0 us "p us" 0 ts] show ?thesis by (simp add: clause_def)
qed (simp add: clause_def)

lemma some_of_shrinks: "shrinks 1 ts r \<Longrightarrow> shrinks 0 ts (some_of r)"
  unfolding some_of_def by (rule shrinks_andthen, assumption) simp

lemma by_clause_shrinks:
  assumes "\<And>ts. shrinks 1 ts (p ts)"
  shows "shrinks 0 us (andthen (expect_keyword ''BY'' us) (\<lambda>_ ts. p ts))"
  by (rule shrinks_andthen [OF shrinks_expect(1)], rule shrinks_mono [OF assms]) simp

lemma parse_select_shrinks:
  assumes "length ts < n"
  shows "shrinks 1 ts (parse_select env n ts)"
proof -
  have pe: "shrinks 0 us (some_of (parse_expr env n us))" if "length us + 1 \<le> length vs" "length vs \<le> length ts" for us vs :: "token list"
    using that assms by (intro some_of_shrinks progressD [OF parse_expr_progress]) simp
  have name: "shrinks 0 us (parse_table_name us)" for us by (rule shrinks_mono [OF shrinks_table_name]) simp
  have cols: "shrinks 1 us (parse_column_list (Suc (length us)) us)" for us by (rule column_list_shrinks) simp
  have ords: "shrinks 1 us (parse_order_list (Suc (length us)) us)" for us by (rule order_list_shrinks) simp
  have dist: "shrinks 0 us (Inr (True, us))" for us by simp
  show ?thesis
    unfolding parse_select_def Let_def
    apply (rule shrinks_andthen [OF shrinks_expect(1)])
    apply (rule shrinks_andthen [OF clause_shrinks [OF match_length(1) dist]], assumption)
    apply (rule shrinks_andthen [OF parse_select_list_shrinks [OF parse_expr_progress]])
      apply (use assms in linarith, simp)
    apply (rule shrinks_andthen [OF clause_shrinks [OF match_length(1) name]], assumption)
    apply (rule shrinks_andthen [OF parse_joins_shrinks [OF parse_expr_progress]])
      apply (use assms in linarith, simp)
    apply (rule shrinks_andthen [OF clause_shrinks [OF match_length(1) pe]], assumption, assumption, simp)
    apply (rule shrinks_andthen [OF clause_shrinks [OF match_length(1) by_clause_shrinks [OF cols]]], assumption)
    apply (rule shrinks_andthen [OF clause_shrinks [OF match_length(1) pe]], assumption, assumption, simp)
    apply (rule shrinks_andthen [OF clause_shrinks [OF match_length(1) by_clause_shrinks [OF ords]]], assumption)
    apply (rule shrinks_andthen [OF clause_shrinks [OF match_length(3) some_of_shrinks [OF parse_usize_shrinks]]], assumption)
    apply simp
    done
qed

end
