(* ===== verification/Sql_Print.thy ===== *)
theory Sql_Print
  imports Sql_Parser
begin

text \<open>
  A printer for the syntax trees of the SQL parser, with parentheses only where the precedence of the
  grammar asks for them, and the proof that the parser reads every printed tree back.
\<close>

section \<open>Printing expressions\<close>

text \<open>The levels of the grammar: OR, AND, comparison, sum, product, primary.\<close>

definition op_prec :: "string \<Rightarrow> nat" where
  "op_prec x =
     (if x = ''OR'' then 0 else if x = ''AND'' then 1
      else if x \<in> set [''+'', ''-''] then 3 else if x \<in> set [''*'', ''/''] then 4 else 2)"

definition binary_ops :: "string list" where
  "binary_ops = [''OR'', ''AND'', ''='', ''!='', ''<'', ''>'', ''<='', ''>='', ''LIKE'', ''NOT LIKE'', ''+'', ''-'', ''*'', ''/'']"

definition prec :: "expr \<Rightarrow> nat" where
  "prec e = (case e of Binary l x r \<Rightarrow> op_prec x | _ \<Rightarrow> 5)"

definition op_tokens :: "string \<Rightarrow> token list" where
  "op_tokens x =
     (if x \<in> set [''OR'', ''AND'', ''LIKE''] then [Keyword x]
      else if x = ''NOT LIKE'' then [Keyword ''NOT'', Keyword ''LIKE'']
      else [Op x])"

text \<open>Comparisons do not associate; the other operators associate to the left.\<close>

definition left_prec :: "string \<Rightarrow> nat" where
  "left_prec x = (if op_prec x = 2 then 3 else op_prec x)"

definition paren :: "bool \<Rightarrow> token list \<Rightarrow> token list" where
  "paren b ts = (if b then LParen # ts @ [RParen] else ts)"

primrec value_token :: "sql_value \<Rightarrow> token" where
  "value_token (VInt i) = Int_lit i"
| "value_token (VFloat f) = Float_lit f"
| "value_token (VString s) = String_lit s"
| "value_token (VHex h) = Hex_lit h"

definition arg_tokens :: "string \<Rightarrow> token list" where
  "arg_tokens arg = (if arg = ''*'' then [Op ''*''] else if arg = [] then [] else [Ident arg])"

fun body :: "expr \<Rightarrow> token list" where
  "body (Column c) = [Ident c]"
| "body (Literal v) = [value_token v]"
| "body (Binary l x r) =
     paren (prec l < left_prec x) (body l) @ op_tokens x @ paren (prec r < Suc (op_prec x)) (body r)"
| "body (Case_when ws els) =
     Keyword ''CASE'' # concat (map (\<lambda>(c, r). Keyword ''WHEN'' # body c @ Keyword ''THEN'' # body r) ws) @
     (case els of None \<Rightarrow> [] | Some e \<Rightarrow> Keyword ''ELSE'' # body e) @ [Keyword ''END'']"
| "body (Function f arg) = [Ident f, LParen] @ arg_tokens arg @ [RParen]"
| "body (Extract f e) = [Keyword ''EXTRACT'', LParen, Ident f, Keyword ''FROM''] @ body e @ [RParen]"
| "body (Cast e ty) = [Keyword ''CAST'', LParen] @ body e @ [Keyword ''AS'', Ident ty, RParen]"

definition print_at :: "nat \<Rightarrow> expr \<Rightarrow> token list" where
  "print_at p e = paren (prec e < p) (body e)"

text \<open>The trees the parser can return, up to names: known operators, at least one WHEN, names of functions,
  fields and types in upper case.\<close>

fun wf_expr :: "expr \<Rightarrow> bool" where
  "wf_expr (Column c) \<longleftrightarrow> True"
| "wf_expr (Literal v) \<longleftrightarrow> True"
| "wf_expr (Binary l x r) \<longleftrightarrow> wf_expr l \<and> x \<in> set binary_ops \<and> wf_expr r"
| "wf_expr (Case_when ws els) \<longleftrightarrow>
     ws \<noteq> [] \<and> list_all (\<lambda>(c, r). wf_expr c \<and> wf_expr r) ws \<and> (case els of None \<Rightarrow> True | Some e \<Rightarrow> wf_expr e)"
| "wf_expr (Function f arg) \<longleftrightarrow> to_uppercase f = f"
| "wf_expr (Extract f e) \<longleftrightarrow> to_uppercase f = f \<and> wf_expr e"
| "wf_expr (Cast e ty) \<longleftrightarrow> to_uppercase ty = ty \<and> wf_expr e"

text \<open>Tokens that end an expression of a level.\<close>

definition stops :: "nat \<Rightarrow> token \<Rightarrow> bool" where
  "stops p t \<longleftrightarrow> t \<noteq> LParen \<and> (p \<le> 4 \<longrightarrow> t \<notin> {Op ''*'', Op ''/''}) \<and> (p \<le> 3 \<longrightarrow> t \<notin> {Op ''+'', Op ''-''}) \<and>
     (p \<le> 2 \<longrightarrow> (\<forall>x\<in>set COMPARISONS. t \<noteq> Op x) \<and> \<not> is_word ''LIKE'' t \<and>
        t \<notin> {Keyword ''NOT'', Keyword ''BETWEEN'', Keyword ''IN''}) \<and>
     (p \<le> 1 \<longrightarrow> t \<noteq> Keyword ''AND'') \<and> (p = 0 \<longrightarrow> t \<noteq> Keyword ''OR'')"

section \<open>Reading one level\<close>

definition reads5 :: "parse_env \<Rightarrow> expr \<Rightarrow> bool" where
  "reads5 env e \<longleftrightarrow> (\<forall>n ts. length (print_at 5 e) \<le> n \<longrightarrow> stops 5 (peek ts) \<longrightarrow>
     parse_primary env (parse_expr env n) (print_at 5 e @ ts) = Inr (e, ts))"

definition reads4 :: "parse_env \<Rightarrow> expr \<Rightarrow> bool" where
  "reads4 env e \<longleftrightarrow> (\<forall>n ts. length (print_at 4 e) \<le> n \<longrightarrow> stops 5 (peek ts) \<longrightarrow> (\<exists>k>length ts.
     parse_multiplicative_expr env (parse_expr env n) (print_at 4 e @ ts) = mul_loop env (parse_expr env n) k e ts))"

definition reads3 :: "parse_env \<Rightarrow> expr \<Rightarrow> bool" where
  "reads3 env e \<longleftrightarrow> (\<forall>n ts. length (print_at 3 e) \<le> n \<longrightarrow> stops 4 (peek ts) \<longrightarrow> (\<exists>k>length ts.
     parse_additive_expr env (parse_expr env n) (print_at 3 e @ ts) = add_loop env (parse_expr env n) k e ts))"

definition reads2 :: "parse_env \<Rightarrow> expr \<Rightarrow> bool" where
  "reads2 env e \<longleftrightarrow> (\<forall>n ts. length (print_at 2 e) \<le> n \<longrightarrow> stops 2 (peek ts) \<longrightarrow>
     parse_comparison_expr env (parse_expr env n) (print_at 2 e @ ts) = Inr (e, ts))"

definition reads1 :: "parse_env \<Rightarrow> expr \<Rightarrow> bool" where
  "reads1 env e \<longleftrightarrow> (\<forall>n ts. length (print_at 1 e) \<le> n \<longrightarrow> stops 2 (peek ts) \<longrightarrow> (\<exists>k>length ts.
     parse_and_expr env (parse_expr env n) (print_at 1 e @ ts) = and_loop env (parse_expr env n) k e ts))"

definition reads0 :: "parse_env \<Rightarrow> expr \<Rightarrow> bool" where
  "reads0 env e \<longleftrightarrow> (\<forall>n ts. length (print_at 0 e) \<le> n \<longrightarrow> stops 1 (peek ts) \<longrightarrow> (\<exists>k>length ts.
     parse_or_expr env (parse_expr env n) (print_at 0 e @ ts) = or_loop env (parse_expr env n) k e ts))"

text \<open>All levels, and the nested expression.\<close>

definition reads :: "parse_env \<Rightarrow> expr \<Rightarrow> bool" where
  "reads env e \<longleftrightarrow> reads5 env e \<and> reads4 env e \<and> reads3 env e \<and> reads2 env e \<and> reads1 env e \<and> reads0 env e \<and>
     (\<forall>n ts. length (body e) < n \<longrightarrow> stops 0 (peek ts) \<longrightarrow> parse_expr env n (body e @ ts) = Inr (e, ts))"

lemma stops_mono: "stops p t \<Longrightarrow> p \<le> q \<Longrightarrow> stops q t"
  by (auto simp: stops_def)

text \<open>The loops stop at a token that ends their level.\<close>

lemma loops_stop:
  "stops 4 (peek ts) \<Longrightarrow> length ts < k \<Longrightarrow> mul_loop env pe k e ts = Inr (e, ts)"
  "stops 3 (peek ts) \<Longrightarrow> length ts < k \<Longrightarrow> add_loop env pe k e ts = Inr (e, ts)"
  "stops 1 (peek ts) \<Longrightarrow> length ts < k \<Longrightarrow> and_loop env pe k e ts = Inr (e, ts)"
  "stops 0 (peek ts) \<Longrightarrow> length ts < k \<Longrightarrow> or_loop env pe k e ts = Inr (e, ts)"
  by (cases k; auto simp: stops_def op_in_def match_keyword_def split: token.splits)+

lemma comparison_stops:
  assumes "parse_additive_expr env pe us = Inr (e, ts)" and "stops 2 (peek ts)"
  shows "parse_comparison_expr env pe us = Inr (e, ts)"
proof -
  have "op_in COMPARISONS ts = None" using assms(2) by (auto simp: stops_def op_in_def split: token.splits)
  with assms show ?thesis
    by (simp add: parse_comparison_expr_def stops_def match_ident_def match_not_def match_keyword_def)
qed

lemma print_at_eq: "prec e \<noteq> p \<Longrightarrow> print_at p e = print_at (Suc p) e"
  by (auto simp: print_at_def less_Suc_eq)

lemma level_down:
  "reads5 env e \<Longrightarrow> prec e \<noteq> 4 \<Longrightarrow> reads4 env e"
  "reads4 env e \<Longrightarrow> prec e \<noteq> 3 \<Longrightarrow> reads3 env e"
  "reads3 env e \<Longrightarrow> prec e \<noteq> 2 \<Longrightarrow> reads2 env e"
  "reads2 env e \<Longrightarrow> prec e \<noteq> 1 \<Longrightarrow> reads1 env e"
  "reads1 env e \<Longrightarrow> prec e \<noteq> 0 \<Longrightarrow> reads0 env e"
proof -
  assume r: "reads5 env e" and p: "prec e \<noteq> 4"
  from print_at_eq [OF p] have q: "print_at 4 e = print_at 5 e" by simp
  show "reads4 env e"
    unfolding reads4_def q using r by (auto simp: reads5_def parse_multiplicative_expr_def intro!: exI [of _ "Suc _"])
next
  assume r: "reads4 env e" and p: "prec e \<noteq> 3"
  from print_at_eq [OF p] have q: "print_at 3 e = print_at 4 e" by simp
  show "reads3 env e"
    unfolding reads3_def q
  proof (intro allI impI)
    fix n ts assume "length (print_at 4 e) \<le> n" and s: "stops 4 (peek ts)"
    with r stops_mono [OF s, of 5] obtain k where "k > length ts"
      "parse_multiplicative_expr env (parse_expr env n) (print_at 4 e @ ts) = mul_loop env (parse_expr env n) k e ts"
      by (auto simp: reads4_def)
    with loops_stop(1) [OF s] show "\<exists>k>length ts. parse_additive_expr env (parse_expr env n) (print_at 4 e @ ts) = add_loop env (parse_expr env n) k e ts"
      by (auto simp: parse_additive_expr_def simp del: add_loop.simps intro!: exI [of _ "Suc (length ts)"])
  qed
next
  assume r: "reads3 env e" and p: "prec e \<noteq> 2"
  from print_at_eq [OF p] have q: "print_at 2 e = print_at 3 e" by simp
  show "reads2 env e"
    unfolding reads2_def q
  proof (intro allI impI)
    fix n ts assume "length (print_at 3 e) \<le> n" and s: "stops 2 (peek ts)"
    with r stops_mono [OF s, of 4] obtain k where "k > length ts"
      "parse_additive_expr env (parse_expr env n) (print_at 3 e @ ts) = add_loop env (parse_expr env n) k e ts"
      by (auto simp: reads3_def)
    with loops_stop(2) [OF stops_mono [OF s, of 3]] comparison_stops [OF _ s]
    show "parse_comparison_expr env (parse_expr env n) (print_at 3 e @ ts) = Inr (e, ts)" by simp
  qed
next
  assume r: "reads2 env e" and p: "prec e \<noteq> 1"
  from print_at_eq [OF p] have q: "print_at 1 e = print_at 2 e" by (simp add: numeral_2_eq_2)
  show "reads1 env e"
    unfolding reads1_def q using r
    by (auto simp: reads2_def parse_and_expr_def simp del: and_loop.simps intro!: exI [of _ "Suc _"])
next
  assume r: "reads1 env e" and p: "prec e \<noteq> 0"
  from print_at_eq [OF p] have q: "print_at 0 e = print_at 1 e" by simp
  show "reads0 env e"
    unfolding reads0_def q
  proof (intro allI impI)
    fix n ts assume "length (print_at 1 e) \<le> n" and s: "stops 1 (peek ts)"
    with r stops_mono [OF s, of 2] obtain k where "k > length ts"
      "parse_and_expr env (parse_expr env n) (print_at 1 e @ ts) = and_loop env (parse_expr env n) k e ts"
      by (auto simp: reads1_def)
    with loops_stop(3) [OF s] show "\<exists>k>length ts. parse_or_expr env (parse_expr env n) (print_at 1 e @ ts) = or_loop env (parse_expr env n) k e ts"
      by (auto simp: parse_or_expr_def simp del: or_loop.simps intro!: exI [of _ "Suc (length ts)"])
  qed
qed

section \<open>Reading an expression\<close>

lemma peek_Cons [simp]: "peek (t # ts) = t"
  by (simp add: peek_def)

lemma binary_levels:
  "x \<in> set binary_ops \<Longrightarrow> op_prec x = 4 \<Longrightarrow> op_tokens x = [Op x] \<and> x \<in> set [''*'', ''/'']"
  "x \<in> set binary_ops \<Longrightarrow> op_prec x = 3 \<Longrightarrow> op_tokens x = [Op x] \<and> x \<in> set [''+'', ''-'']"
  "x \<in> set binary_ops \<Longrightarrow> op_prec x = 1 \<Longrightarrow> x = ''AND'' \<and> op_tokens x = [Keyword ''AND'']"
  "x \<in> set binary_ops \<Longrightarrow> op_prec x = 0 \<Longrightarrow> x = ''OR'' \<and> op_tokens x = [Keyword ''OR'']"
  by (auto simp: binary_ops_def op_prec_def op_tokens_def split: if_splits)

lemma comparison_tokens:
  assumes "x \<in> set binary_ops" and "op_prec x = 2"
  shows "op_tokens x \<noteq> []" and "stops 3 (hd (op_tokens x))"
    and "x \<in> set [''='', ''!='', ''<'', ''>'', ''<='', ''>=''] \<or> x = ''LIKE'' \<or> x = ''NOT LIKE''"
proof -
  have "list_all (\<lambda>x. op_prec x = 2 \<longrightarrow> op_tokens x \<noteq> [] \<and> stops 3 (hd (op_tokens x)) \<and>
      (x \<in> set [''='', ''!='', ''<'', ''>'', ''<='', ''>=''] \<or> x = ''LIKE'' \<or> x = ''NOT LIKE'')) binary_ops"
    by code_simp
  with assms show "op_tokens x \<noteq> []" "stops 3 (hd (op_tokens x))"
      "x \<in> set [''='', ''!='', ''<'', ''>'', ''<='', ''>=''] \<or> x = ''LIKE'' \<or> x = ''NOT LIKE''"
    unfolding list_all_iff by blast+
qed

lemma keyword_ops: "op_tokens ''AND'' = [Keyword ''AND'']" "op_tokens ''OR'' = [Keyword ''OR'']"
  by (simp_all add: op_tokens_def)

lemma body_Binary:
  "body (Binary l x r) = print_at (left_prec x) l @ op_tokens x @ print_at (Suc (op_prec x)) r"
  by (simp add: print_at_def)

lemma print_at_prec: "print_at (prec e) e = body e"
  by (simp add: print_at_def paren_def)

lemma reads4D:
  "reads4 env e \<Longrightarrow> length (print_at 4 e) \<le> n \<Longrightarrow> stops 5 (peek ts) \<Longrightarrow> \<exists>k>length ts.
     parse_multiplicative_expr env (parse_expr env n) (print_at 4 e @ ts) = mul_loop env (parse_expr env n) k e ts"
  by (simp add: reads4_def)

lemma reads3D:
  "reads3 env e \<Longrightarrow> length (print_at 3 e) \<le> n \<Longrightarrow> stops 4 (peek ts) \<Longrightarrow> \<exists>k>length ts.
     parse_additive_expr env (parse_expr env n) (print_at 3 e @ ts) = add_loop env (parse_expr env n) k e ts"
  by (simp add: reads3_def)

lemma reads1D:
  "reads1 env e \<Longrightarrow> length (print_at 1 e) \<le> n \<Longrightarrow> stops 2 (peek ts) \<Longrightarrow> \<exists>k>length ts.
     parse_and_expr env (parse_expr env n) (print_at 1 e @ ts) = and_loop env (parse_expr env n) k e ts"
  by (simp add: reads1_def)

lemma reads0D:
  "reads0 env e \<Longrightarrow> length (print_at 0 e) \<le> n \<Longrightarrow> stops 1 (peek ts) \<Longrightarrow> \<exists>k>length ts.
     parse_or_expr env (parse_expr env n) (print_at 0 e @ ts) = or_loop env (parse_expr env n) k e ts"
  by (simp add: reads0_def)

lemma binary_reads4:
  assumes "op_prec x = 4" and x: "x \<in> set binary_ops" and l: "reads4 env l" and r: "reads5 env r"
  shows "reads4 env (Binary l x r)"
  unfolding reads4_def
proof (intro allI impI)
  let ?e = "Binary l x r"
  fix n ts
  assume n: "length (print_at 4 ?e) \<le> n" and s: "stops 5 (peek ts)"
  have x: "op_tokens x = [Op x]" "op_in [''*'', ''/''] (Op x # us) = Some x" for us
    using binary_levels(1) [OF x assms(1)] by (auto simp: op_in_def)
  have b: "print_at 4 ?e = print_at 4 l @ Op x # print_at 5 r"
    using print_at_prec [of ?e] assms(1) x by (simp add: prec_def body_Binary left_prec_def del: body.simps)
  obtain k where k: "k > length (Op x # print_at 5 r @ ts)"
    "parse_multiplicative_expr env (parse_expr env n) (print_at 4 l @ Op x # print_at 5 r @ ts) =
       mul_loop env (parse_expr env n) k l (Op x # print_at 5 r @ ts)"
    using reads4D [OF l, of n "Op x # print_at 5 r @ ts"] n by (auto simp: b stops_def)
  then obtain k' where k': "k = Suc k'" "k' > length ts" by (cases k) auto
  have "parse_primary env (parse_expr env n) (print_at 5 r @ ts) = Inr (r, ts)"
    using r n s by (simp add: reads5_def b)
  with k k' x(2) show "\<exists>k>length ts. parse_multiplicative_expr env (parse_expr env n) (print_at 4 ?e @ ts) =
      mul_loop env (parse_expr env n) k ?e ts"
    by (intro exI [of _ k']) (simp add: b)
qed

lemma binary_reads3:
  assumes "op_prec x = 3" and x: "x \<in> set binary_ops" and l: "reads3 env l" and r: "reads4 env r"
  shows "reads3 env (Binary l x r)"
  unfolding reads3_def
proof (intro allI impI)
  let ?e = "Binary l x r"
  fix n ts
  assume n: "length (print_at 3 ?e) \<le> n" and s: "stops 4 (peek ts)"
  have x: "op_tokens x = [Op x]" "op_in [''+'', ''-''] (Op x # us) = Some x" "stops 4 (Op x)" for us
    using binary_levels(2) [OF x assms(1)] by (auto simp: op_in_def stops_def)
  have b: "print_at 3 ?e = print_at 3 l @ Op x # print_at 4 r"
    using print_at_prec [of ?e] assms(1) x by (simp add: prec_def body_Binary left_prec_def del: body.simps)
  obtain k where k: "k > length (Op x # print_at 4 r @ ts)"
    "parse_additive_expr env (parse_expr env n) (print_at 3 l @ Op x # print_at 4 r @ ts) =
       add_loop env (parse_expr env n) k l (Op x # print_at 4 r @ ts)"
    using reads3D [OF l, of n "Op x # print_at 4 r @ ts"] n x(3) by (auto simp: b)
  then obtain k' where k': "k = Suc k'" "k' > length ts" by (cases k) auto
  obtain j where "j > length ts"
    "parse_multiplicative_expr env (parse_expr env n) (print_at 4 r @ ts) = mul_loop env (parse_expr env n) j r ts"
    using reads4D [OF r, of n ts] n stops_mono [OF s, of 5] by (auto simp: b)
  with loops_stop(1) [OF s] k k' x(2) show "\<exists>k>length ts. parse_additive_expr env (parse_expr env n) (print_at 3 ?e @ ts) =
      add_loop env (parse_expr env n) k ?e ts"
    by (intro exI [of _ k']) (simp add: b)
qed

lemma reads3_add:
  assumes "reads3 env e" and "length (print_at 3 e) \<le> n" and "stops 3 (peek ts)"
  shows "parse_additive_expr env (parse_expr env n) (print_at 3 e @ ts) = Inr (e, ts)"
  using reads3D [OF assms(1,2) stops_mono [OF assms(3), of 4]] loops_stop(2) [OF assms(3)] by auto

lemma binary_reads2:
  assumes "op_prec x = 2" and x: "x \<in> set binary_ops" and l: "reads3 env l" and r: "reads3 env r"
  shows "reads2 env (Binary l x r)"
  unfolding reads2_def
proof (intro allI impI)
  let ?e = "Binary l x r"
  fix n ts
  assume n: "length (print_at 2 ?e) \<le> n" and s: "stops 2 (peek ts)"
  have b: "print_at 2 ?e = print_at 3 l @ op_tokens x @ print_at 3 r"
    using print_at_prec [of ?e] assms(1) by (simp add: prec_def body_Binary left_prec_def del: body.simps)
  have st: "stops 3 (peek (op_tokens x @ us))" for us
    using comparison_tokens(1,2) [OF x assms(1)] by (cases "op_tokens x") simp_all
  have L: "parse_additive_expr env (parse_expr env n) (print_at 3 l @ op_tokens x @ print_at 3 r @ ts) = Inr (l, op_tokens x @ print_at 3 r @ ts)"
    using n b st by (intro reads3_add [OF l]) simp_all
  have R: "parse_additive_expr env (parse_expr env n) (print_at 3 r @ ts) = Inr (r, ts)"
    using n b stops_mono [OF s, of 3] by (intro reads3_add [OF r]) simp_all
  have lk: "is_word ''LIKE'' (Keyword ''LIKE'')" "\<not> is_word ''LIKE'' (Keyword ''NOT'')"
    by (simp_all add: is_word_def to_lowercase_def)
  consider "x \<in> set [''='', ''!='', ''<'', ''>'', ''<='', ''>='']" | "x = ''LIKE''" | "x = ''NOT LIKE''"
    using comparison_tokens(3) [OF x assms(1)] by argo
  then show "parse_comparison_expr env (parse_expr env n) (print_at 2 ?e @ ts) = Inr (?e, ts)"
  proof cases
    case 1
    then have "op_tokens x = [Op x]" "op_in COMPARISONS (Op x # us) = Some x" "x \<noteq> ''<>''" for us
      by (auto simp: op_tokens_def op_in_def COMPARISONS_def)
    with L R show ?thesis by (simp add: b parse_comparison_expr_def)
  next
    case 2
    then have t: "op_tokens x = [Keyword ''LIKE'']" by (simp add: op_tokens_def)
    have "parse_comparison_expr env (parse_expr env n) (print_at 3 l @ op_tokens x @ print_at 3 r @ ts) = Inr (?e, ts)"
      unfolding parse_comparison_expr_def L andthen_simps unfolding t using R lk by (simp add: 2 op_in_def match_ident_def)
    then show ?thesis by (simp add: b)
  next
    case 3
    then have t: "op_tokens x = [Keyword ''NOT'', Keyword ''LIKE'']" by (simp add: op_tokens_def)
    have "parse_comparison_expr env (parse_expr env n) (print_at 3 l @ op_tokens x @ print_at 3 r @ ts) = Inr (?e, ts)"
      unfolding parse_comparison_expr_def L andthen_simps unfolding t using R lk
      by (simp add: 3 op_in_def match_ident_def match_not_def match_keyword_def)
    then show ?thesis by (simp add: b)
  qed
qed

lemma binary_reads1:
  assumes "op_prec x = 1" and x: "x \<in> set binary_ops" and l: "reads1 env l" and r: "reads2 env r"
  shows "reads1 env (Binary l x r)"
  unfolding reads1_def
proof (intro allI impI)
  let ?e = "Binary l x r"
  fix n ts
  assume n: "length (print_at 1 ?e) \<le> n" and s: "stops 2 (peek ts)"
  have x: "x = ''AND''" "op_tokens x = [Keyword ''AND'']" using binary_levels(3) [OF x assms(1)] by blast+
  have st: "stops 2 (Keyword ''AND'')" by (simp add: stops_def is_word_def to_lowercase_def)
  have b: "print_at 1 ?e = print_at 1 l @ Keyword ''AND'' # print_at 2 r"
    using print_at_prec [of ?e] assms(1) x by (simp add: prec_def body_Binary left_prec_def numeral_2_eq_2 del: body.simps)
  obtain k where k: "k > length (Keyword ''AND'' # print_at 2 r @ ts)"
    "parse_and_expr env (parse_expr env n) (print_at 1 l @ Keyword ''AND'' # print_at 2 r @ ts) =
       and_loop env (parse_expr env n) k l (Keyword ''AND'' # print_at 2 r @ ts)"
    using reads1D [OF l, of n "Keyword ''AND'' # print_at 2 r @ ts"] n st by (auto simp: b simp del: One_nat_def)
  then obtain k' where k': "k = Suc k'" "k' > length ts" by (cases k) auto
  have "parse_comparison_expr env (parse_expr env n) (print_at 2 r @ ts) = Inr (r, ts)"
    using r n s by (simp add: reads2_def b del: One_nat_def)
  with k k' show "\<exists>k>length ts. parse_and_expr env (parse_expr env n) (print_at 1 ?e @ ts) =
      and_loop env (parse_expr env n) k ?e ts"
    by (intro exI [of _ k']) (simp add: b [unfolded x(1)] x(1) match_keyword_def del: One_nat_def)
qed

lemma binary_reads0:
  assumes "op_prec x = 0" and x: "x \<in> set binary_ops" and l: "reads0 env l" and r: "reads1 env r"
  shows "reads0 env (Binary l x r)"
  unfolding reads0_def
proof (intro allI impI)
  let ?e = "Binary l x r"
  fix n ts
  assume n: "length (print_at 0 ?e) \<le> n" and s: "stops 1 (peek ts)"
  have x: "x = ''OR''" "op_tokens x = [Keyword ''OR'']" using binary_levels(4) [OF x assms(1)] by blast+
  have st: "stops 1 (Keyword ''OR'')" by (simp add: stops_def is_word_def to_lowercase_def)
  have b: "print_at 0 ?e = print_at 0 l @ Keyword ''OR'' # print_at 1 r"
    using print_at_prec [of ?e] assms(1) x by (simp add: prec_def body_Binary left_prec_def del: body.simps)
  obtain k where k: "k > length (Keyword ''OR'' # print_at 1 r @ ts)"
    "parse_or_expr env (parse_expr env n) (print_at 0 l @ Keyword ''OR'' # print_at 1 r @ ts) =
       or_loop env (parse_expr env n) k l (Keyword ''OR'' # print_at 1 r @ ts)"
    using reads0D [OF l, of n "Keyword ''OR'' # print_at 1 r @ ts"] n st by (auto simp: b simp del: One_nat_def)
  then obtain k' where k': "k = Suc k'" "k' > length ts" by (cases k) auto
  obtain j where "j > length ts"
    "parse_and_expr env (parse_expr env n) (print_at 1 r @ ts) = and_loop env (parse_expr env n) j r ts"
    using reads1D [OF r, of n ts] n stops_mono [OF s, of 2] by (auto simp: b simp del: One_nat_def)
  with loops_stop(3) [OF s] k k' show "\<exists>k>length ts. parse_or_expr env (parse_expr env n) (print_at 0 ?e @ ts) =
      or_loop env (parse_expr env n) k ?e ts"
    by (intro exI [of _ k']) (simp add: b [unfolded x(1)] x(1) match_keyword_def del: One_nat_def)
qed

text \<open>From the level of the operator down to OR, then the nested expression, the parentheses, and the
  levels above.\<close>

lemma reads_from_prec:
  assumes "prec e = 4 \<Longrightarrow> reads4 env e" and "prec e = 3 \<Longrightarrow> reads3 env e" and "prec e = 2 \<Longrightarrow> reads2 env e"
    and "prec e = 1 \<Longrightarrow> reads1 env e" and "prec e = 0 \<Longrightarrow> reads0 env e" and "prec e = 5 \<Longrightarrow> reads5 env e" and "prec e \<le> 5"
  shows "reads env e"
proof -
  have "prec e \<ge> 4 \<Longrightarrow> reads4 env e" using assms(1,6,7) level_down(1) by (cases "prec e = 4") simp_all
  then have "prec e \<ge> 3 \<Longrightarrow> reads3 env e" using assms(2) level_down(2) by (cases "prec e = 3") simp_all
  then have "prec e \<ge> 2 \<Longrightarrow> reads2 env e" using assms(3) level_down(3) by (cases "prec e = 2") simp_all
  then have "prec e \<ge> 1 \<Longrightarrow> reads1 env e" using assms(4) level_down(4) by (cases "prec e = 1") simp_all
  then have d: "reads0 env e" using assms(5) level_down(5) by (cases "prec e = 0") simp_all
  have t: "parse_expr env n (body e @ ts) = Inr (e, ts)" if "length (body e) < n" "stops 0 (peek ts)" for n ts
  proof -
    obtain m where m: "n = Suc m" "length (body e) \<le> m" using \<open>length (body e) < n\<close> by (cases n) auto
    have b: "print_at 0 e = body e" by (simp add: print_at_def paren_def)
    show ?thesis
      using reads0D [OF d, of m ts] m b loops_stop(4) [OF that(2)] stops_mono [OF that(2), of 1] by auto
  qed
  have r: "reads5 env e"
  proof (cases "prec e = 5")
    case False
    then have p: "print_at 5 e = LParen # body e @ [RParen]" using assms(7) by (simp add: print_at_def paren_def)
    have "stops 0 RParen" by (simp add: stops_def is_word_def)
    with t show ?thesis by (auto simp: reads5_def p parse_primary_def expect_def)
  qed (use assms in simp)
  have "reads4 env e" using r assms(1) level_down(1) by blast
  moreover from this have "reads3 env e" using assms(2) level_down(2) by blast
  moreover from this have "reads2 env e" using assms(3) level_down(3) by blast
  moreover from this have "reads1 env e" using assms(4) level_down(4) by blast
  ultimately show ?thesis using r d t by (simp add: reads_def)
qed

lemma readsD: "reads env e \<Longrightarrow> length (body e) < n \<Longrightarrow> stops 0 (peek ts) \<Longrightarrow> parse_expr env n (body e @ ts) = Inr (e, ts)"
  by (simp add: reads_def)

lemma keywords_stop: "list_all (stops 0) [RParen, Comma, Semicolon, EOF, Keyword ''WHEN'', Keyword ''THEN'', Keyword ''ELSE'',
    Keyword ''END'', Keyword ''AS'', Keyword ''FROM'', Keyword ''JOIN'', Keyword ''LEFT'', Keyword ''RIGHT'', Keyword ''FULL'',
    Keyword ''CROSS'', Keyword ''WHERE'', Keyword ''GROUP'', Keyword ''HAVING'', Keyword ''ORDER'', Ident ''LIMIT'']"
  by code_simp

lemma case_loop_print:
  assumes "\<And>c r. (c, r) \<in> set ws \<Longrightarrow> reads env c \<and> reads env r"
    and "length (concat (map (\<lambda>(c, r). Keyword ''WHEN'' # body c @ Keyword ''THEN'' # body r) ws)) \<le> n"
    and "peek ts \<in> {Keyword ''ELSE'', Keyword ''END''}" and "length ws < k"
  shows "case_loop (parse_expr env n) k acc (concat (map (\<lambda>(c, r). Keyword ''WHEN'' # body c @ Keyword ''THEN'' # body r) ws) @ ts) =
    Inr (acc @ ws, ts)"
  using assms
proof (induction ws arbitrary: acc k)
  case Nil
  then show ?case by (cases k) (auto simp: match_keyword_def)
next
  case (Cons w ws)
  obtain c r where w: "w = (c, r)" by (cases w)
  obtain k' where k': "k = Suc k'" "length ws < k'" using Cons.prems(4) by (cases k) auto
  let ?rest = "concat (map (\<lambda>(c, r). Keyword ''WHEN'' # body c @ Keyword ''THEN'' # body r) ws)"
  have "peek (?rest @ ts) \<in> {Keyword ''WHEN'', Keyword ''ELSE'', Keyword ''END''}"
    using Cons.prems(3) by (cases ws) (auto split: prod.splits)
  then have "stops 0 (peek (?rest @ ts))" using keywords_stop by auto
  moreover have cr: "reads env c" "reads env r" using Cons.prems(1) [of c r] w by simp_all
  ultimately have "parse_expr env n (body r @ ?rest @ ts) = Inr (r, ?rest @ ts)"
    using Cons.prems(2) w by (intro readsD) simp_all
  moreover have "parse_expr env n (body c @ Keyword ''THEN'' # body r @ ?rest @ ts) = Inr (c, Keyword ''THEN'' # body r @ ?rest @ ts)"
    using cr Cons.prems(2) w keywords_stop by (intro readsD) simp_all
  moreover have "case_loop (parse_expr env n) k' (acc @ [(c, r)]) (?rest @ ts) = Inr ((acc @ [(c, r)]) @ ws, ts)"
    using Cons.prems k' by (intro Cons.IH) (auto simp: w)
  ultimately show ?case
    using k'(1) by (simp add: w match_keyword_def expect_keyword_def)
qed

lemma prec_le: "prec e \<le> 5"
  by (simp add: prec_def op_prec_def split: expr.splits)

lemma primary_reads: "prec e = 5 \<Longrightarrow> reads5 env e \<Longrightarrow> reads env e"
  by (rule reads_from_prec) simp_all

lemma parse_agg_arg_print: "parse_agg_arg env (arg_tokens arg @ RParen # ts) = Inr (arg, RParen # ts)"
  by (simp add: parse_agg_arg_def arg_tokens_def match_op_def)

lemma case_size:
  "(c, r) \<in> set ws \<Longrightarrow> size c < size (Case_when ws els)" "(c, r) \<in> set ws \<Longrightarrow> size r < size (Case_when ws els)"
  by (induction ws) (auto simp: less_Suc_eq_le)

lemma print_reads: "wf_expr e \<Longrightarrow> reads env e"
proof (induction e rule: measure_induct_rule [where f = size])
  case (less e)
  show ?case
  proof (cases e)
    case (Column c)
    then show ?thesis by (intro primary_reads) (auto simp: prec_def reads5_def print_at_def paren_def parse_primary_def stops_def)
  next
    case (Literal v)
    then show ?thesis
      by (cases v; intro primary_reads) (auto simp: prec_def reads5_def print_at_def paren_def parse_primary_def)
  next
    case (Function f arg)
    then have "to_uppercase f = f" using less.prems by simp
    with Function parse_agg_arg_print show ?thesis
      by (intro primary_reads) (auto simp: prec_def reads5_def print_at_def paren_def parse_primary_def expect_def)
  next
    case (Extract f d)
    then have d: "reads env d" and f: "to_uppercase f = f" using less by simp_all
    have "parse_expr env n (body d @ RParen # ts) = Inr (d, RParen # ts)" if "length (body d) < n" for n ts
      using d that keywords_stop by (intro readsD) simp_all
    then have "reads5 env e" using Extract f
      by (auto simp: prec_def reads5_def print_at_def paren_def parse_primary_def parse_extract_def to_uppercase_def
          expect_keyword_def match_keyword_def expect_def field_name_def advance_def)
    with Extract show ?thesis by (intro primary_reads) (simp_all add: prec_def)
  next
    case (Cast d ty)
    then have d: "reads env d" and f: "to_uppercase ty = ty" using less by simp_all
    have "parse_expr env n (body d @ Keyword ''AS'' # ts) = Inr (d, Keyword ''AS'' # ts)" if "length (body d) < n" for n ts
      using d that keywords_stop by (intro readsD) simp_all
    then have "reads5 env e" using Cast f
      by (auto simp: prec_def reads5_def print_at_def paren_def parse_primary_def parse_cast_def to_uppercase_def skip_length_def
          expect_keyword_def match_keyword_def expect_def field_name_def advance_def)
    with Cast show ?thesis by (intro primary_reads) (simp_all add: prec_def)
  next
    case (Binary l x r)
    then have l: "reads env l" and r: "reads env r" and x: "x \<in> set binary_ops" using less by simp_all
    have p: "prec (Binary l x r) = op_prec x" "op_prec x \<le> 4" by (simp_all add: prec_def op_prec_def)
    show ?thesis
      unfolding Binary
      using l r x p(2) binary_reads4 [of x env l r] binary_reads3 [of x env l r] binary_reads2 [of x env l r]
        binary_reads1 [of x env l r] binary_reads0 [of x env l r]
      by (intro reads_from_prec) (simp_all add: reads_def p(1))
  next
    case (Case_when ws els)
    let ?ws = "concat (map (\<lambda>(c, r). Keyword ''WHEN'' # body c @ Keyword ''THEN'' # body r) ws)"
    let ?els = "case els of None \<Rightarrow> [] | Some e \<Rightarrow> Keyword ''ELSE'' # body e"
    have wf: "wf_expr c \<and> wf_expr r" if "(c, r) \<in> set ws" for c r
      using less.prems that by (auto simp: Case_when list_all_iff)
    have ws: "reads env c \<and> reads env r" if "(c, r) \<in> set ws" for c r
      using wf [OF that] case_size [OF that, of els] less.IH Case_when by blast
    have ne: "ws \<noteq> []" using less.prems by (simp add: Case_when)
    have "parse_case (parse_expr env n) (body e @ ts) = Inr (e, ts)" if n: "length (body e) \<le> n" for n ts
    proof -
      have "length ws \<le> length ?ws" by (induction ws) auto
      then have "case_loop (parse_expr env n) (Suc (length (?ws @ ?els @ Keyword ''END'' # ts))) [] (?ws @ ?els @ Keyword ''END'' # ts) =
          Inr ([] @ ws, ?els @ Keyword ''END'' # ts)"
        using n by (intro case_loop_print ws) (auto simp: Case_when split: option.splits)
      moreover have "parse_expr env n (body d @ Keyword ''END'' # ts) = Inr (d, Keyword ''END'' # ts)" if "els = Some d" for d
        using that less keywords_stop n by (intro readsD) (simp_all add: Case_when)
      ultimately show ?thesis
        using ne by (cases els) (simp_all add: Case_when parse_case_def expect_keyword_def match_keyword_def del: case_loop.simps)
    qed
    then have "reads5 env e"
      using print_at_prec [of e] by (auto simp: reads5_def parse_primary_def prec_def Case_when to_uppercase_def)
    then show ?thesis by (intro primary_reads) (simp_all add: prec_def Case_when)
  qed
qed

section \<open>Printing queries\<close>

fun commas :: "token list list \<Rightarrow> token list" where
  "commas [] = []"
| "commas [x] = x"
| "commas (x # xs) = x @ Comma # commas xs"

definition alias_tokens :: "string option \<Rightarrow> token list" where
  "alias_tokens alias = (case alias of None \<Rightarrow> [] | Some a \<Rightarrow> [Keyword ''AS'', Ident a])"

primrec print_item :: "select_item \<Rightarrow> token list" where
  "print_item (Item_column c) = [Ident c]"
| "print_item (Item_aggregate f arg alias) = [Ident f, LParen] @ arg_tokens arg @ [RParen] @ alias_tokens alias"
| "print_item Item_star = [Op ''*'']"
| "print_item (Item_literal v) = [Int_lit (uint v)]"
| "print_item (Item_window f arg spec alias) = []"
| "print_item (Item_expression e alias) = body e @ alias_tokens alias"

text \<open>All items but window functions, whose specification is kept as text. An expression item starts with CASE,
  EXTRACT or CAST.\<close>

primrec wf_item :: "select_item \<Rightarrow> bool" where
  "wf_item (Item_column c) \<longleftrightarrow> True"
| "wf_item (Item_aggregate f arg alias) \<longleftrightarrow> to_uppercase f = f \<and> to_lowercase arg \<noteq> ''distinct''"
| "wf_item Item_star \<longleftrightarrow> True"
| "wf_item (Item_literal v) \<longleftrightarrow> True"
| "wf_item (Item_window f arg spec alias) \<longleftrightarrow> False"
| "wf_item (Item_expression e alias) \<longleftrightarrow> wf_expr e \<and> hd (body e) \<in> {Keyword ''CASE'', Keyword ''EXTRACT'', Keyword ''CAST''}"

definition print_join :: "join_clause \<Rightarrow> token list" where
  "print_join j =
     (if join_type j = ''INNER'' then [] else [Keyword (join_type j)]) @ [Keyword ''JOIN'', Ident (join_table j)] @
     (if join_type j = ''CROSS'' then [] else Keyword ''ON'' # body (join_on j))"

definition wf_join :: "join_clause \<Rightarrow> bool" where
  "wf_join j \<longleftrightarrow>
     (join_type j \<in> {''INNER'', ''LEFT'', ''RIGHT'', ''FULL''} \<and> wf_expr (join_on j) \<or>
      join_type j = ''CROSS'' \<and> join_on j = Literal (VInt 1))"

definition print_order :: "string \<times> bool \<Rightarrow> token list" where
  "print_order o' = (if snd o' then [Ident (fst o')] else [Ident (fst o'), Ident ''DESC''])"

text \<open>The clauses from the last one back.\<close>

definition limit_tokens :: "select_query \<Rightarrow> token list" where
  "limit_tokens q = (case q_limit q of None \<Rightarrow> [] | Some k \<Rightarrow> [Ident ''LIMIT'', Int_lit (int k)])"

definition order_tokens :: "select_query \<Rightarrow> token list" where
  "order_tokens q =
     (if q_order_by q = [] then [] else [Keyword ''ORDER'', Keyword ''BY''] @ commas (map print_order (q_order_by q))) @ limit_tokens q"

definition having_tokens :: "select_query \<Rightarrow> token list" where
  "having_tokens q = (case q_having q of None \<Rightarrow> [] | Some e \<Rightarrow> Keyword ''HAVING'' # body e) @ order_tokens q"

definition group_tokens :: "select_query \<Rightarrow> token list" where
  "group_tokens q =
     (if q_group_by q = [] then [] else [Keyword ''GROUP'', Keyword ''BY''] @ commas (map (\<lambda>c. [Ident c]) (q_group_by q))) @
     having_tokens q"

definition where_tokens :: "select_query \<Rightarrow> token list" where
  "where_tokens q = (case q_where q of None \<Rightarrow> [] | Some e \<Rightarrow> Keyword ''WHERE'' # body e) @ group_tokens q"

definition print_query :: "select_query \<Rightarrow> token list" where
  "print_query q =
     Keyword ''SELECT'' # (if q_distinct q then [Keyword ''DISTINCT''] else []) @ commas (map print_item (q_select q)) @
     [Keyword ''FROM'', Ident (q_from q)] @ concat (map print_join (q_joins q)) @ where_tokens q"

definition wf_query :: "select_query \<Rightarrow> bool" where
  "wf_query q \<longleftrightarrow> q_select q \<noteq> [] \<and> list_all wf_item (q_select q) \<and> list_all wf_join (q_joins q) \<and>
     (case q_where q of None \<Rightarrow> True | Some e \<Rightarrow> wf_expr e) \<and> (case q_having q of None \<Rightarrow> True | Some e \<Rightarrow> wf_expr e)"

section \<open>Reading a query\<close>

lemma commas_Cons: "xs \<noteq> [] \<Longrightarrow> commas (x # xs) = x @ Comma # commas xs"
  by (cases xs) simp_all

lemma parse_alias_print:
  "peek ts \<noteq> Keyword ''AS'' \<Longrightarrow> parse_optional_alias (alias_tokens al @ ts) = Inr (al, ts)"
  by (cases al) (simp_all add: parse_optional_alias_def alias_tokens_def match_keyword_def)

lemma body_not_Nil: "body e \<noteq> []"
  by (induction e rule: body.induct) (auto simp: paren_def)

lemma peek_append: "xs \<noteq> [] \<Longrightarrow> peek (xs @ us) = hd xs"
  by (cases xs) simp_all

lemma distinct_lower: "to_lowercase ''DISTINCT'' = ''distinct''"
  by code_simp

lemma parse_item_print:
  assumes "wf_item it" and "peek ts \<in> {Comma, Keyword ''FROM''}" and n: "length (print_item it) < n"
  shows "parse_select_item env (parse_expr env n) (print_item it @ ts) = Inr (it, ts)"
proof -
  have AL: "parse_optional_alias (alias_tokens al @ ts) = Inr (al, ts)" for al
    using assms(2) by (intro parse_alias_print) auto
  have AL0: "parse_optional_alias ts = Inr (None, ts)" using AL [of None] by (simp add: alias_tokens_def)
  have ov: "match_keyword ''OVER'' (alias_tokens al @ ts) = None" for al
    using assms(2) by (cases al) (auto simp: alias_tokens_def match_keyword_def)
  show ?thesis
  proof (cases it)
    case (Item_aggregate f arg al)
    have "match_ident ''DISTINCT'' (arg_tokens arg @ RParen # us) = None" for us
      using assms(1) Item_aggregate by (simp add: match_ident_def arg_tokens_def is_word_def distinct_lower)
    with assms(1) Item_aggregate AL ov parse_agg_arg_print show ?thesis
      by (simp add: parse_select_item_def parse_call_def match_op_def image_iff expect_def)
  next
    case (Item_expression e al)
    then have e: "reads env e" "hd (body e) \<in> {Keyword ''CASE'', Keyword ''EXTRACT'', Keyword ''CAST''}"
      using assms(1) print_reads by auto
    have "stops 0 (peek (alias_tokens al @ ts))"
      using assms(2) keywords_stop by (cases al) (auto simp: alias_tokens_def)
    with e(1) n Item_expression have "parse_expr env n (body e @ alias_tokens al @ ts) = Inr (e, alias_tokens al @ ts)"
      by (intro readsD) simp_all
    moreover have "peek (body e @ us) = hd (body e)" for us
      by (simp add: peek_append body_not_Nil)
    ultimately show ?thesis using e(2) AL Item_expression by (auto simp: parse_select_item_def match_op_def)
  qed (use assms(1,2) AL0 in \<open>auto simp: parse_select_item_def match_op_def image_iff\<close>)
qed

lemma print_item_head:
  "wf_item it \<Longrightarrow> print_item it \<noteq> [] \<and> hd (print_item it) \<noteq> Keyword ''DISTINCT''"
  by (cases it) (auto simp: body_not_Nil)

lemma commas_head: "xs \<noteq> [] \<Longrightarrow> hd xs \<noteq> [] \<Longrightarrow> peek (commas xs @ ts) = hd (hd xs)"
  by (induction xs rule: commas.induct) (auto simp: peek_append)

lemma parse_select_list_print:
  assumes "its \<noteq> []" and "list_all wf_item its" and "peek ts = Keyword ''FROM''"
    and "length (commas (map print_item its)) < n" and "length its \<le> k"
  shows "parse_select_list env (parse_expr env n) k (commas (map print_item its) @ ts) = Inr (its, ts)"
  using assms
proof (induction its arbitrary: k)
  case (Cons it its)
  obtain k' where k: "k = Suc k'" using Cons.prems(5) by (cases k) simp_all
  show ?case
  proof (cases "its = []")
    case True
    with Cons.prems k show ?thesis by (simp add: parse_item_print)
  next
    case False
    with Cons.prems k Cons.IH [of k'] show ?thesis by (simp add: commas_Cons parse_item_print)
  qed
qed simp

lemma parse_table_name_print: "peek ts \<noteq> Op ''.'' \<Longrightarrow> parse_table_name (Ident t # ts) = Inr (t, ts)"
  by (simp add: parse_table_name_def advance_def match_op_def)

lemma parse_column_list_print:
  assumes "cs \<noteq> []" and "peek ts \<noteq> Comma" and "length cs \<le> k"
  shows "parse_column_list k (commas (map (\<lambda>c. [Ident c]) cs) @ ts) = Inr (cs, ts)"
  using assms
proof (induction cs arbitrary: k)
  case (Cons c cs)
  obtain k' where k: "k = Suc k'" using Cons.prems(3) by (cases k) simp_all
  show ?case using Cons k by (cases "cs = []") (simp_all add: commas_Cons)
qed simp

lemma order_words: "\<not> is_word ''DESC'' Comma" "\<not> is_word ''ASC'' Comma" "is_word ''DESC'' (Ident ''DESC'')"
  by (simp_all add: is_word_def)

lemma parse_order_list_print:
  assumes "os \<noteq> []" and "peek ts \<noteq> Comma" and "\<not> is_word ''DESC'' (peek ts)" and "\<not> is_word ''ASC'' (peek ts)"
    and "length os \<le> k"
  shows "parse_order_list k (commas (map print_order os) @ ts) = Inr (os, ts)"
  using assms
proof (induction os arbitrary: k)
  case (Cons x os)
  obtain k' where k: "k = Suc k'" using Cons.prems(5) by (cases k) simp_all
  show ?case using Cons k
    by (cases "os = []"; cases x) (simp_all add: commas_Cons print_order_def match_ident_def order_words)
qed simp

text \<open>What can follow a clause: the start of a later one, or the end of the query.\<close>

definition follow :: "token list" where
  "follow = [Keyword ''WHERE'', Keyword ''GROUP'', Keyword ''HAVING'', Keyword ''ORDER'', Ident ''LIMIT'', Semicolon, EOF]"

lemma limit_head: "peek ts \<in> {Semicolon, EOF} \<Longrightarrow> peek (limit_tokens q @ ts) \<in> set (drop 4 follow)"
  by (auto simp: follow_def limit_tokens_def split: option.splits)

lemma order_head: "peek ts \<in> {Semicolon, EOF} \<Longrightarrow> peek (order_tokens q @ ts) \<in> set (drop 3 follow)"
  using limit_head [of ts q] by (auto simp: follow_def order_tokens_def)

lemma having_head: "peek ts \<in> {Semicolon, EOF} \<Longrightarrow> peek (having_tokens q @ ts) \<in> set (drop 2 follow)"
  using order_head [of ts q] by (auto simp: follow_def having_tokens_def split: option.splits)

lemma group_head: "peek ts \<in> {Semicolon, EOF} \<Longrightarrow> peek (group_tokens q @ ts) \<in> set (drop 1 follow)"
  using having_head [of ts q] by (auto simp: follow_def group_tokens_def)

lemma where_head: "peek ts \<in> {Semicolon, EOF} \<Longrightarrow> peek (where_tokens q @ ts) \<in> set follow"
  using group_head [of ts q] by (auto simp: follow_def where_tokens_def split: option.splits)

lemma follow_stops:
  "list_all (\<lambda>t. stops 0 t \<and> t \<noteq> Comma \<and> t \<noteq> Op ''.'' \<and> \<not> is_word ''DESC'' t \<and> \<not> is_word ''ASC'' t \<and>
     t \<notin> {Keyword ''JOIN'', Keyword ''INNER'', Keyword ''LEFT'', Keyword ''RIGHT'', Keyword ''FULL'', Keyword ''CROSS''}) follow"
  by code_simp

lemma followD:
  assumes "t \<in> set (drop k follow)"
  shows "stops 0 t" "t \<noteq> Comma" "t \<noteq> Op ''.''" "\<not> is_word ''DESC'' t" "\<not> is_word ''ASC'' t"
    "t \<notin> {Keyword ''JOIN'', Keyword ''INNER'', Keyword ''LEFT'', Keyword ''RIGHT'', Keyword ''FULL'', Keyword ''CROSS''}"
  using follow_stops in_set_dropD [OF assms] by (fastforce simp: list_all_iff)+

definition join_starts :: "token list" where
  "join_starts = map Keyword [''JOIN'', ''LEFT'', ''RIGHT'', ''FULL'', ''CROSS'']"

lemma joins_stop: "list_all (\<lambda>t. stops 0 t \<and> t \<noteq> Op ''.'') (join_starts @ follow)"
  by code_simp

lemma joins_head:
  assumes "list_all wf_join js" and "peek ts \<in> set follow"
  shows "stops 0 (peek (concat (map print_join js) @ ts))" "peek (concat (map print_join js) @ ts) \<noteq> Op ''.''"
proof -
  have "peek (concat (map print_join js) @ ts) \<in> set (join_starts @ follow)"
  proof (cases js)
    case (Cons j js')
    then have "wf_join j" using assms(1) by simp
    then show ?thesis using Cons by (auto simp: print_join_def join_starts_def wf_join_def)
  qed (use assms(2) in simp)
  then show "stops 0 (peek (concat (map print_join js) @ ts))" "peek (concat (map print_join js) @ ts) \<noteq> Op ''.''"
    using joins_stop by (simp_all add: list_all_iff)
qed

lemma parse_join_print:
  assumes "wf_join j" and "stops 0 (peek ts)" and "peek ts \<noteq> Op ''.''" and "length (print_join j) < n"
  shows "parse_join (parse_expr env n) (print_join j @ ts) = Inr (Some j, ts)"
proof -
  have on: "join_on_clause (parse_expr env n) (join_type j) (Ident (join_table j) # Keyword ''ON'' # body (join_on j) @ ts) = Inr (j, ts)"
    if "wf_expr (join_on j)" "join_type j \<noteq> ''CROSS''"
  proof -
    have "length (body (join_on j)) < n" using assms(4) that(2) by (simp add: print_join_def)
    then have "parse_expr env n (body (join_on j) @ ts) = Inr (join_on j, ts)"
      using print_reads [OF that(1)] assms(2) by (intro readsD)
    then show ?thesis by (simp add: join_on_clause_def parse_table_name_print expect_keyword_def match_keyword_def)
  qed
  consider "join_type j = ''INNER''" | "join_type j = ''LEFT''" | "join_type j = ''RIGHT''" | "join_type j = ''FULL''"
    | "join_type j = ''CROSS''" using assms(1) unfolding wf_join_def by blast
  then show ?thesis
  proof cases
    case 5
    with assms(1) have "j = \<lparr>join_table = join_table j, join_on = Literal (VInt 1), join_type = ''CROSS''\<rparr>"
      unfolding wf_join_def by (cases j) auto
    with 5 assms(3) show ?thesis
      by (simp add: print_join_def parse_join_def match_keyword_def expect_keyword_def parse_table_name_print)
  qed (use assms(1) on in \<open>auto simp: wf_join_def print_join_def parse_join_def match_keyword_def expect_keyword_def
         skip_keyword_def Let_def\<close>)
qed

lemma parse_joins_print:
  assumes "list_all wf_join js" and "peek ts \<in> set follow" and "length (concat (map print_join js)) < n" and "length js < k"
  shows "parse_joins (parse_expr env n) k (concat (map print_join js) @ ts) = Inr (js, ts)"
  using assms
proof (induction js arbitrary: k)
  case Nil
  then obtain k' where "k = Suc k'" by (cases k) simp_all
  with followD(6) [of "peek ts" 0] Nil show ?case by (simp add: parse_join_def match_keyword_def Let_def)
next
  case (Cons j js)
  obtain k' where k: "k = Suc k'" using Cons.prems(4) by (cases k) simp_all
  with Cons joins_head [of js ts] parse_join_print [of j "concat (map print_join js) @ ts" n env]
  show ?case by simp
qed

lemma commas_length: "(\<And>x. x \<in> set xs \<Longrightarrow> f x \<noteq> []) \<Longrightarrow> length xs \<le> length (commas (map f xs))"
proof (induction xs)
  case (Cons x xs)
  then have "f x \<noteq> []" "length xs \<le> length (commas (map f xs))" by simp_all
  then show ?case by (cases "xs = []") (simp_all add: commas_Cons Suc_leI)
qed simp

lemma joins_length: "length js \<le> length (concat (map print_join js))"
  by (induction js) (simp_all add: print_join_def)

text \<open>One lemma per clause: the parser of the clause reads its tokens and stops at the next clause.\<close>

lemma limit_clause:
  "peek ts \<in> {Semicolon, EOF} \<Longrightarrow>
   clause (match_ident ''LIMIT'' (limit_tokens q @ ts)) None (\<lambda>ts. some_of (parse_usize ts)) (limit_tokens q @ ts) = Inr (q_limit q, ts)"
  by (cases "q_limit q") (auto simp: limit_tokens_def clause_def match_ident_def is_word_def some_of_def parse_usize_def)

lemma order_clause:
  assumes "peek ts \<in> {Semicolon, EOF}"
  shows "clause (match_keyword ''ORDER'' (order_tokens q @ ts)) []
     (\<lambda>ts. andthen (expect_keyword ''BY'' ts) (\<lambda>_ ts. parse_order_list (Suc (length ts)) ts)) (order_tokens q @ ts) =
     Inr (q_order_by q, limit_tokens q @ ts)"
proof (cases "q_order_by q = []")
  case True
  with limit_head [OF assms, of q] show ?thesis by (auto simp: order_tokens_def clause_def match_keyword_def follow_def)
next
  case False
  have "length (q_order_by q) \<le> length (commas (map print_order (q_order_by q)))"
    by (rule commas_length) (simp add: print_order_def)
  with False followD [OF limit_head [OF assms, of q]] show ?thesis
    by (simp add: order_tokens_def clause_def match_keyword_def expect_keyword_def parse_order_list_print del: parse_order_list.simps)
qed

lemma expr_clause:
  assumes "case c of None \<Rightarrow> True | Some e \<Rightarrow> wf_expr e" and "peek us \<in> set (drop k follow)" and "peek us \<noteq> Keyword kw"
    and ts: "ts = (case c of None \<Rightarrow> [] | Some e \<Rightarrow> Keyword kw # body e) @ us" and "length ts - length us < n"
  shows "clause (match_keyword kw ts) None (\<lambda>ts. some_of (parse_expr env n ts)) ts = Inr (c, us)"
proof (cases c)
  case (Some e)
  then have "parse_expr env n (body e @ us) = Inr (e, us)"
    using assms print_reads [of e] followD(1) [OF assms(2)] by (intro readsD) simp_all
  with Some ts show ?thesis by (simp add: clause_def match_keyword_def some_of_def)
qed (use assms in \<open>simp add: clause_def match_keyword_def\<close>)

lemma having_clause:
  assumes "wf_query q" and "peek ts \<in> {Semicolon, EOF}" and "length (print_query q) < n"
  shows "clause (match_keyword ''HAVING'' (having_tokens q @ ts)) None (\<lambda>ts. some_of (parse_expr env n ts)) (having_tokens q @ ts) =
     Inr (q_having q, order_tokens q @ ts)"
proof (rule expr_clause [OF _ order_head [OF assms(2)]])
  show "peek (order_tokens q @ ts) \<noteq> Keyword ''HAVING''" using order_head [OF assms(2), of q] by (auto simp: follow_def)
qed (use assms in \<open>auto simp: wf_query_def having_tokens_def print_query_def where_tokens_def group_tokens_def split: option.splits\<close>)

lemma group_clause:
  assumes "peek ts \<in> {Semicolon, EOF}"
  shows "clause (match_keyword ''GROUP'' (group_tokens q @ ts)) []
     (\<lambda>ts. andthen (expect_keyword ''BY'' ts) (\<lambda>_ ts. parse_column_list (Suc (length ts)) ts)) (group_tokens q @ ts) =
     Inr (q_group_by q, having_tokens q @ ts)"
proof (cases "q_group_by q = []")
  case True
  with having_head [OF assms, of q] show ?thesis by (auto simp: group_tokens_def clause_def match_keyword_def follow_def)
next
  case False
  have "length (q_group_by q) \<le> length (commas (map (\<lambda>c. [Ident c]) (q_group_by q)))"
    by (rule commas_length) simp
  with False followD(2) [OF having_head [OF assms, of q]] show ?thesis
    by (simp add: group_tokens_def clause_def match_keyword_def expect_keyword_def parse_column_list_print del: parse_column_list.simps)
qed

lemma where_clause:
  assumes "wf_query q" and "peek ts \<in> {Semicolon, EOF}" and "length (print_query q) < n"
  shows "clause (match_keyword ''WHERE'' (where_tokens q @ ts)) None (\<lambda>ts. some_of (parse_expr env n ts)) (where_tokens q @ ts) =
     Inr (q_where q, group_tokens q @ ts)"
proof (rule expr_clause [OF _ group_head [OF assms(2)]])
  show "peek (group_tokens q @ ts) \<noteq> Keyword ''WHERE''" using group_head [OF assms(2), of q] by (auto simp: follow_def)
qed (use assms in \<open>auto simp: wf_query_def print_query_def where_tokens_def split: option.splits\<close>)

lemmas query_clauses = limit_clause order_clause group_clause

lemma parse_select_print:
  assumes wf: "wf_query q" and ts: "peek ts \<in> {Semicolon, EOF}" and n: "length (print_query q) < n"
  shows "parse_select env n (print_query q @ ts) = Inr (q, ts)"
proof -
  let ?js = "concat (map print_join (q_joins q))" and ?its = "commas (map print_item (q_select q))"
  let ?w = "where_tokens q @ ts"
  let ?from = "Keyword ''FROM'' # Ident (q_from q) # ?js @ ?w"
  have items: "list_all wf_item (q_select q)" "q_select q \<noteq> []" and js: "list_all wf_join (q_joins q)" using wf by (simp_all add: wf_query_def)
  have len: "length (q_select q) \<le> length ?its"
    using items(1) print_item_head by (intro commas_length) (auto simp: list_all_iff)
  have sel: "parse_select_list env (parse_expr env n) (Suc (length (?its @ ?from))) (?its @ ?from) = Inr (q_select q, ?from)"
    using items len n by (intro parse_select_list_print) (simp_all add: print_query_def)
  have d: "peek (?its @ ?from) \<noteq> Keyword ''DISTINCT''"
    using items print_item_head [of "hd (q_select q)"] commas_head [of "map print_item (q_select q)"]
    by (cases "q_select q") auto
  have joins: "parse_joins (parse_expr env n) (Suc (length (?js @ ?w))) (?js @ ?w) = Inr (q_joins q, ?w)"
    using js n where_head [OF ts] joins_length [of "q_joins q"] by (intro parse_joins_print) (simp_all add: print_query_def)
  have table: "parse_table_name (Ident (q_from q) # ?js @ ?w) = Inr (q_from q, ?js @ ?w)"
    by (rule parse_table_name_print [OF joins_head(2) [OF js where_head [OF ts]]])
  have dist: "clause (match_keyword ''DISTINCT'' us) False (\<lambda>ts. Inr (True, ts)) us = Inr (q_distinct q, ?its @ ?from)"
    if "us = (if q_distinct q then [Keyword ''DISTINCT''] else []) @ ?its @ ?from" for us
    using that d by (simp add: clause_def match_keyword_def)
  have frm: "clause (match_keyword ''FROM'' ?from) ''__dummy__'' parse_table_name ?from = Inr (q_from q, ?js @ ?w)"
    using table by (simp add: clause_def match_keyword_def)
  have eq: "print_query q @ ts = Keyword ''SELECT'' # (if q_distinct q then [Keyword ''DISTINCT''] else []) @ ?its @ ?from"
    by (simp add: print_query_def)
  have start: "expect_keyword ''SELECT'' (Keyword ''SELECT'' # us) = Inr ((), us)" for us
    by (simp add: expect_keyword_def match_keyword_def)
  show ?thesis
    unfolding parse_select_def Let_def eq
    by (simp only: start andthen_simps dist [OF refl] sel frm joins query_clauses [OF ts] having_clause [OF wf ts n]
        where_clause [OF wf ts n]) simp
qed

section \<open>Properties\<close>

text \<open>\<open>RIGHT\<close>, \<open>FULL\<close> and \<open>CROSS\<close> are not in \<open>KEYWORDS\<close>, so the tokenizer never makes the keyword tokens
  that \<open>parse_joins\<close> looks for. A right join is rejected at the word \<open>RIGHT\<close>.\<close>

lemma outer_join_keywords_missing:
  assumes "tokenize pf input = Inr ts"
  shows "Keyword ''RIGHT'' \<notin> set ts \<and> Keyword ''FULL'' \<notin> set ts \<and> Keyword ''CROSS'' \<notin> set ts"
proof -
  obtain us where us: "ts = us @ [EOF]" "list_all (valid_token pf) us" using tokenize_valid [OF assms] by blast
  have "list_all (\<lambda>k. k \<notin> set KEYWORDS) [''RIGHT'', ''FULL'', ''CROSS'']" by code_simp
  then have "\<not> valid_token pf (Keyword k)" if "k \<in> {''RIGHT'', ''FULL'', ''CROSS''}" for k using that by auto
  with us show ?thesis by (auto simp: list_all_iff)
qed

definition demo_env :: parse_env where
  "demo_env = \<lparr>date_of = (\<lambda>_. None), float_str = whole_sf, debug_text = (\<lambda>_. [])\<rparr>"

lemma right_join_rejected:
  "tokenize whole_pf ''SELECT * FROM a RIGHT JOIN b ON x = y'' =
     Inr [Keyword ''SELECT'', Op ''*'', Keyword ''FROM'', Ident ''a'', Ident ''RIGHT'', Keyword ''JOIN'', Ident ''b'',
       Keyword ''ON'', Ident ''x'', Op ''='', Ident ''y'', EOF]"
  "parse demo_env [Keyword ''SELECT'', Op ''*'', Keyword ''FROM'', Ident ''a'', Ident ''RIGHT'', Keyword ''JOIN'', Ident ''b'',
       Keyword ''ON'', Ident ''x'', Op ''='', Ident ''y'', EOF] = Inl (Expected ''end of query'' (Ident ''RIGHT''))"
  by code_simp
    (simp add: parse_def parse_select_def Let_def expect_keyword_def match_keyword_def clause_def parse_select_item_def match_op_def
      parse_table_name_def advance_def parse_join_def match_ident_def is_word_def to_lowercase_def)



text \<open>C18: A query printed as SQL text is read back as the same query. The text is the tokens of the query, with
  parentheses where the precedence of the operators asks for them; \<open>tokenize\<close> and then \<open>parse\<close>
  return the query, with its select list, joins, clauses and the shape of every expression, also when a semicolon follows.
  The query is any that \<open>wf_query\<close> admits and whose names and literals can be written as tokens.\<close>

theorem parse_roundtrip:
  assumes "float_text pf sf" and "wf_query q" and "list_all (valid_token pf) (print_query q)" and "fin \<in> {[], [Semicolon]}"
  shows "\<exists>ts. tokenize pf (print_tokens sf (print_query q @ fin)) = Inr ts \<and> parse env ts = Inr q"
proof -
  have "list_all (valid_token pf) (print_query q @ fin)" using assms(3,4) by auto
  from float_text.tokenize_print [OF assms(1) this]
  have "tokenize pf (print_tokens sf (print_query q @ fin)) = Inr (print_query q @ fin @ [EOF])" by simp
  moreover have "parse env (print_query q @ fin @ [EOF]) = Inr q"
    using parse_select_print [OF assms(2), of "fin @ [EOF]" "Suc (length (print_query q @ fin @ [EOF]))" env] assms(4)
    unfolding parse_def by auto
  ultimately show ?thesis by blast
qed

definition demo_query :: select_query where
  "demo_query =
     \<lparr>q_select = [Item_column ''region'', Item_aggregate ''SUM'' ''price'' (Some ''total'')], q_from = ''orders'',
      q_joins = [\<lparr>join_table = ''lines'', join_on = Binary (Column ''id'') ''='' (Column ''order_id''), join_type = ''LEFT''\<rparr>],
      q_where = Some (Binary (Binary (Binary (Column ''a'') ''+'' (Literal (VInt 1))) ''*'' (Column ''b'')) ''<'' (Literal (VInt 9))),
      q_group_by = [''region''], q_having = None, q_order_by = [(''total'', False)], q_limit = Some 10, q_distinct = False\<rparr>"

theorem parse_roundtrip_witness:
  "\<exists>ts. tokenize whole_pf (print_tokens whole_sf (print_query demo_query @ [Semicolon])) = Inr ts \<and> parse demo_env ts = Inr demo_query"
proof -
  have eq: "print_query demo_query =
    [Keyword ''SELECT'', Ident ''region'', Comma, Ident ''SUM'', LParen, Ident ''price'', RParen, Keyword ''AS'', Ident ''total'',
     Keyword ''FROM'', Ident ''orders'', Keyword ''LEFT'', Keyword ''JOIN'', Ident ''lines'', Keyword ''ON'', Ident ''id'', Op ''='',
     Ident ''order_id'', Keyword ''WHERE'', LParen, Ident ''a'', Op ''+'', Int_lit 1, RParen, Op ''*'', Ident ''b'', Op ''<'', Int_lit 9,
     Keyword ''GROUP'', Keyword ''BY'', Ident ''region'', Keyword ''ORDER'', Keyword ''BY'', Ident ''total'', Ident ''DESC'',
     Ident ''LIMIT'', Int_lit 10]" by code_simp
  have "list_all (valid_token whole_pf) (print_query demo_query)"
    by (simp only: eq list.pred_inject valid_token.simps simp_thms) code_simp
  moreover have "wf_query demo_query" by code_simp
  ultimately show ?thesis using parse_roundtrip [OF whole.float_text_axioms, of demo_query "[Semicolon]"] by blast
qed

end
