(* ===== verification/Hash_Join.thy ===== *)
theory Hash_Join
  imports Tables Sql_Parser
begin

text \<open>
  The hash join of src/src/exec/join.rs, with the extraction of its keys from the parsed ON expression, and the
  join phase of \<open>execute_with_join\<close> and \<open>cross_join_into\<close> in src/src/engine/executor.rs. An index out of range,
  on which the source panics, is \<open>None\<close>. The hash map of the build phase is a partial map. Row counts are
  natural numbers; the product that \<open>cross_join_into\<close> checks is bounded by \<open>2 ^ 64\<close> as in the source.
\<close>

section \<open>Data\<close>

datatype join_type = Inner | LeftJ | RightJ | FullJ | Semi | Anti

record join_key =
  jk_left :: nat
  jk_right :: nat

record join_result =
  jr_columns :: "u64 list list"
  jr_column_names :: "string list"
  jr_row_count :: nat

definition into_table :: "join_result \<Rightarrow> string \<Rightarrow> ('s, 'h) table" where
  "into_table r name =
     \<lparr>tname = name, columns = jr_columns r, column_names = jr_column_names r, row_count = jr_row_count r,
      string_columns = [], null_bitmaps = [], schema = None\<rparr>"

section \<open>The joins\<close>

text \<open>Cells of one row: all columns of it, or the key columns.\<close>

definition row_at :: "u64 list list \<Rightarrow> nat \<Rightarrow> u64 list option" where
  "row_at cols i = those (map (\<lambda>col. if i < length col then Some (col ! i) else None) cols)"

definition key_at :: "u64 list list \<Rightarrow> nat list \<Rightarrow> nat \<Rightarrow> u64 list option" where
  "key_at cols ks i =
     those (map (\<lambda>k. if k < length cols \<and> i < length (cols ! k) then Some (cols ! k ! i) else None) ks)"

primrec build_loop ::
  "u64 list list \<Rightarrow> nat list \<Rightarrow> nat list \<Rightarrow> (u64 list \<rightharpoonup> nat list) \<Rightarrow> (u64 list \<rightharpoonup> nat list) option" where
  "build_loop cols ks [] m = Some m"
| "build_loop cols ks (i # is) m =
     (case key_at cols ks i of
        None \<Rightarrow> None
      | Some key \<Rightarrow> build_loop cols ks is (m(key \<mapsto> (case m key of None \<Rightarrow> [] | Some js \<Rightarrow> js) @ [i])))"

record join_state =
  out_cols :: "u64 list list"
  matched_right :: "bool list"
  out_rows :: nat

definition push_row :: "u64 list \<Rightarrow> join_state \<Rightarrow> join_state" where
  "push_row row st = st\<lparr>out_cols := map2 (\<lambda>col v. col @ [v]) (out_cols st) row, out_rows := out_rows st + 1\<rparr>"

text \<open>The output rows of one left row and the right rows that match it.\<close>

primrec match_loop ::
  "u64 list list \<Rightarrow> u64 list list \<Rightarrow> nat \<Rightarrow> nat list \<Rightarrow> join_state \<Rightarrow> join_state option" where
  "match_loop lcols rcols l [] st = Some st"
| "match_loop lcols rcols l (r # rs) st =
     (if length (matched_right st) \<le> r then None
      else case (row_at lcols l, row_at rcols r) of
             (Some lrow, Some rrow) \<Rightarrow>
               match_loop lcols rcols l rs (push_row (lrow @ rrow) (st\<lparr>matched_right := (matched_right st)[r := True]\<rparr>))
           | _ \<Rightarrow> None)"

primrec probe_loop ::
  "u64 list list \<Rightarrow> u64 list list \<Rightarrow> nat list \<Rightarrow> (u64 list \<rightharpoonup> nat list) \<Rightarrow> join_type \<Rightarrow> nat list \<Rightarrow> join_state \<Rightarrow> join_state option"
where
  "probe_loop lcols rcols ks m jt [] st = Some st"
| "probe_loop lcols rcols ks m jt (l # ls) st =
     (case key_at lcols ks l of
        None \<Rightarrow> None
      | Some key \<Rightarrow>
          (case (case m key of None \<Rightarrow> [] | Some rs \<Rightarrow> rs) of
             [] \<Rightarrow>
               if jt = LeftJ \<or> jt = FullJ then
                 (case row_at lcols l of
                    None \<Rightarrow> None
                  | Some lrow \<Rightarrow> probe_loop lcols rcols ks m jt ls (push_row (lrow @ replicate (length rcols) 0) st))
               else probe_loop lcols rcols ks m jt ls st
           | r # rs \<Rightarrow>
               (case match_loop lcols rcols l (r # rs) st of
                  None \<Rightarrow> None
                | Some st \<Rightarrow> probe_loop lcols rcols ks m jt ls st)))"

text \<open>The right rows without a match.\<close>

primrec rest_loop :: "u64 list list \<Rightarrow> u64 list list \<Rightarrow> nat list \<Rightarrow> join_state \<Rightarrow> join_state option" where
  "rest_loop lcols rcols [] st = Some st"
| "rest_loop lcols rcols (r # rs) st =
     (if length (matched_right st) \<le> r then None
      else if matched_right st ! r then rest_loop lcols rcols rs st
      else case row_at rcols r of
             None \<Rightarrow> None
           | Some rrow \<Rightarrow> rest_loop lcols rcols rs (push_row (replicate (length lcols) 0 @ rrow) st))"

definition hash_join :: "('s, 'h) table \<Rightarrow> ('s, 'h) table \<Rightarrow> join_key list \<Rightarrow> join_type \<Rightarrow> join_result result option" where
  "hash_join left right keys jt =
     (if keys = [] then Some (Inl InvalidArg)
      else case build_loop (columns right) (map jk_right keys) [0..<row_count right] Map.empty of
             None \<Rightarrow> None
           | Some m \<Rightarrow>
               let st = \<lparr>out_cols = replicate (length (columns left) + length (columns right)) [],
                         matched_right = replicate (row_count right) False, out_rows = 0\<rparr>
               in case probe_loop (columns left) (columns right) (map jk_left keys) m jt [0..<row_count left] st of
                    None \<Rightarrow> None
                  | Some st \<Rightarrow>
                      (case (if jt = RightJ \<or> jt = FullJ then rest_loop (columns left) (columns right) [0..<row_count right] st
                             else Some st) of
                         None \<Rightarrow> None
                       | Some st \<Rightarrow>
                           Some (Inr \<lparr>jr_columns = out_cols st, jr_column_names = column_names left @ column_names right,
                                      jr_row_count = out_rows st\<rparr>)))"

text \<open>Semi- and anti-join: the left rows whose key is (\<open>want\<close>) or is not among the right keys.\<close>

primrec key_set :: "u64 list list \<Rightarrow> nat list \<Rightarrow> nat list \<Rightarrow> u64 list set \<Rightarrow> u64 list set option" where
  "key_set cols ks [] s = Some s"
| "key_set cols ks (i # is) s =
     (case key_at cols ks i of None \<Rightarrow> None | Some key \<Rightarrow> key_set cols ks is (insert key s))"

primrec select_loop ::
  "u64 list list \<Rightarrow> nat list \<Rightarrow> u64 list set \<Rightarrow> bool \<Rightarrow> nat list \<Rightarrow> join_state \<Rightarrow> join_state option" where
  "select_loop lcols ks s want [] st = Some st"
| "select_loop lcols ks s want (l # ls) st =
     (case key_at lcols ks l of
        None \<Rightarrow> None
      | Some key \<Rightarrow>
          if (key \<in> s) = want then
            (case row_at lcols l of
               None \<Rightarrow> None
             | Some lrow \<Rightarrow> select_loop lcols ks s want ls (push_row lrow st))
          else select_loop lcols ks s want ls st)"

definition select_join :: "bool \<Rightarrow> ('s, 'h) table \<Rightarrow> ('s, 'h) table \<Rightarrow> join_key list \<Rightarrow> join_result result option" where
  "select_join want left right keys =
     (case key_set (columns right) (map jk_right keys) [0..<row_count right] {} of
        None \<Rightarrow> None
      | Some s \<Rightarrow>
          (case select_loop (columns left) (map jk_left keys) s want [0..<row_count left]
                  \<lparr>out_cols = replicate (length (columns left)) [], matched_right = [], out_rows = 0\<rparr> of
             None \<Rightarrow> None
           | Some st \<Rightarrow> Some (Inr \<lparr>jr_columns = out_cols st, jr_column_names = column_names left, jr_row_count = out_rows st\<rparr>)))"

definition semi_join :: "('s, 'h) table \<Rightarrow> ('s, 'h) table \<Rightarrow> join_key list \<Rightarrow> join_result result option" where
  "semi_join left right keys = select_join True left right keys"

definition anti_join :: "('s, 'h) table \<Rightarrow> ('s, 'h) table \<Rightarrow> join_key list \<Rightarrow> join_result result option" where
  "anti_join left right keys = select_join False left right keys"

section \<open>Keys from the ON expression\<close>

text \<open>\<open>name.split('.').nth(1)\<close>.\<close>

definition bare :: "string \<Rightarrow> string option" where
  "bare name =
     (case dropWhile (\<lambda>c. c \<noteq> CHR ''.'') name of
        [] \<Rightarrow> None
      | _ # rest \<Rightarrow> Some (takeWhile (\<lambda>c. c \<noteq> CHR ''.'') rest))"

definition ends_with :: "string \<Rightarrow> string \<Rightarrow> bool" where
  "ends_with s p \<longleftrightarrow> starts_with (rev s) (rev p)"

definition resolve_col :: "expr \<Rightarrow> ('s, 'h) table \<Rightarrow> nat option" where
  "resolve_col e t =
     (case e of
        Column name \<Rightarrow>
          (case column_idx t name of
             Some idx \<Rightarrow> Some idx
           | None \<Rightarrow>
               (case (case bare name of None \<Rightarrow> None | Some b \<Rightarrow> column_idx t b) of
                  Some idx \<Rightarrow> Some idx
                | None \<Rightarrow>
                    position (\<lambda>col. ends_with col (''.'' @ name) \<or> bare col = Some name) (column_names t)))
      | _ \<Rightarrow> None)"

fun collect_keys :: "expr \<Rightarrow> ('s, 'h) table \<Rightarrow> ('s, 'h) table \<Rightarrow> join_key list \<Rightarrow> join_key list result" where
  "collect_keys (Binary l x r) left right keys =
     (if to_uppercase x = ''AND'' then
        bind_result (collect_keys l left right keys) (\<lambda>keys. collect_keys r left right keys)
      else if x = ''='' then
        (case (resolve_col l left, resolve_col r right) of
           (Some lk, Some rk) \<Rightarrow> Inr (keys @ [\<lparr>jk_left = lk, jk_right = rk\<rparr>])
         | _ \<Rightarrow>
             (case (resolve_col l right, resolve_col r left) of
                (Some rk, Some lk) \<Rightarrow> Inr (keys @ [\<lparr>jk_left = lk, jk_right = rk\<rparr>])
              | _ \<Rightarrow> Inl Other))
      else Inl Other)"
| "collect_keys _ left right keys = Inl Other"

definition extract_join_keys :: "expr \<Rightarrow> ('s, 'h) table \<Rightarrow> ('s, 'h) table \<Rightarrow> join_key list result" where
  "extract_join_keys on left right =
     bind_result (collect_keys on left right []) (\<lambda>keys. if keys = [] then Inl Other else Inr keys)"

section \<open>The joins of a query\<close>

definition cross_join_into ::
  "('s, 'h) table \<Rightarrow> ('s, 'h) table \<Rightarrow> string \<Rightarrow> string \<Rightarrow> ('s, 'h) table result option" where
  "cross_join_into running right left_name right_name =
     (let left_rows = row_count running; right_rows = row_count right; total_rows = left_rows * right_rows
      in if 2 ^ 64 \<le> total_rows then Some (Inl Other)
         else
           case (those (map (\<lambda>col. if left_rows \<le> length col
                                   then Some (concat (map (\<lambda>l. replicate right_rows (col ! l)) [0..<left_rows])) else None)
                     (columns running)),
                 those (map (\<lambda>col. if right_rows \<le> length col \<or> left_rows = 0
                                   then Some (concat (map (\<lambda>_. map (\<lambda>r. col ! r) [0..<right_rows]) [0..<left_rows])) else None)
                     (columns right))) of
             (Some lcols, Some rcols) \<Rightarrow>
               Some (Inr \<lparr>tname = ''__cross_'' @ right_name, columns = lcols @ rcols,
                 column_names = map (\<lambda>n. if CHR ''.'' \<in> set n then n else left_name @ ''.'' @ n) (column_names running) @
                   map (\<lambda>n. right_name @ ''.'' @ n) (column_names right),
                 row_count = total_rows, string_columns = [], null_bitmaps = [], schema = None\<rparr>)
           | _ \<Rightarrow> None)"

definition join_kind :: "string \<Rightarrow> join_type" where
  "join_kind s = (if s = ''LEFT'' then LeftJ else if s = ''RIGHT'' then RightJ else if s = ''FULL'' then FullJ else Inner)"

text \<open>The columns of the right table become \<open>table.column\<close>, and columns of the left one without a dot get the name
  of the first table.\<close>

definition qualify_right :: "string \<Rightarrow> string list \<Rightarrow> nat \<Rightarrow> string list \<Rightarrow> string list" where
  "qualify_right table rnames n names =
     map (\<lambda>i. if n \<le> i \<and> i - n < length rnames then table @ ''.'' @ rnames ! (i - n) else names ! i) [0..<length names]"

definition qualify_left :: "string \<Rightarrow> nat \<Rightarrow> string list \<Rightarrow> string list option" where
  "qualify_left from n names =
     (if length names < n then None
      else Some (map (\<lambda>i. if i < n \<and> CHR ''.'' \<notin> set (names ! i) then from @ ''.'' @ names ! i else names ! i) [0..<length names]))"

definition join_step ::
  "('s, 'h) catalog \<Rightarrow> string \<Rightarrow> join_clause \<Rightarrow> ('s, 'h) table \<Rightarrow> ('s, 'h) table result option" where
  "join_step cat from j running =
     (case cat_get cat (join_table j) of
        None \<Rightarrow> Some (Inl NotFound)
      | Some right \<Rightarrow>
          let join_upper = to_uppercase (join_type j)
          in if join_upper = ''CROSS'' then cross_join_into running right from (join_table j)
             else case extract_join_keys (join_on j) running right of
                    Inl e \<Rightarrow> Some (Inl e)
                  | Inr keys \<Rightarrow>
                      (case hash_join running right keys (join_kind join_upper) of
                         None \<Rightarrow> None
                       | Some (Inl e) \<Rightarrow> Some (Inl e)
                       | Some (Inr r) \<Rightarrow>
                           let new_table = into_table r (''__join_'' @ join_table j);
                               n = length (columns running);
                               names = qualify_right (join_table j) (column_names right) n (column_names new_table)
                           in map_option (\<lambda>names. Inr (new_table\<lparr>column_names := names\<rparr>)) (qualify_left from n names)))"

primrec join_loop ::
  "('s, 'h) catalog \<Rightarrow> string \<Rightarrow> join_clause list \<Rightarrow> ('s, 'h) table \<Rightarrow> ('s, 'h) table result option" where
  "join_loop cat from [] running = Some (Inr running)"
| "join_loop cat from (j # js) running =
     (case join_step cat from j running of
        None \<Rightarrow> None
      | Some (Inl e) \<Rightarrow> Some (Inl e)
      | Some (Inr t) \<Rightarrow> join_loop cat from js t)"

text \<open>The join phase of \<open>execute_with_join\<close>: from the FROM table through the joins of the query.\<close>

definition join_phase :: "('s, 'h) catalog \<Rightarrow> select_query \<Rightarrow> ('s, 'h) table result option" where
  "join_phase cat q =
     (case cat_get cat (q_from q) of
        None \<Rightarrow> Some (Inl NotFound)
      | Some base \<Rightarrow> join_loop cat (q_from q) (q_joins q) base)"

section \<open>The reference join\<close>

definition table_row :: "('s, 'h) table \<Rightarrow> nat \<Rightarrow> u64 list" where
  "table_row t i = map (\<lambda>col. col ! i) (columns t)"

definition rows :: "('s, 'h) table \<Rightarrow> u64 list list" where
  "rows t = map (table_row t) [0..<row_count t]"

definition keys_match :: "join_key list \<Rightarrow> u64 list \<Rightarrow> u64 list \<Rightarrow> bool" where
  "keys_match keys l r \<longleftrightarrow> list_all (\<lambda>k. l ! jk_left k = r ! jk_right k) keys"

text \<open>A nested loop: every left row with the right rows that match it, in their order, or padded with zeros when
  nothing matches and the join keeps left rows; then the right rows nothing matched, if the join keeps them.\<close>

definition left_part :: "join_type \<Rightarrow> ('a list \<Rightarrow> 'a list \<Rightarrow> bool) \<Rightarrow> nat \<Rightarrow> 'a::zero list list \<Rightarrow> 'a list \<Rightarrow> 'a list list" where
  "left_part jt on rwidth rs l =
     (let ms = filter (on l) rs
      in if ms = [] then (if jt = LeftJ \<or> jt = FullJ then [l @ replicate rwidth 0] else []) else map (\<lambda>r. l @ r) ms)"

definition join_rows ::
  "join_type \<Rightarrow> ('a list \<Rightarrow> 'a list \<Rightarrow> bool) \<Rightarrow> nat \<Rightarrow> nat \<Rightarrow> 'a list list \<Rightarrow> 'a::zero list list \<Rightarrow> 'a list list" where
  "join_rows jt on lwidth rwidth ls rs =
     concat (map (left_part jt on rwidth rs) ls) @
     (if jt = RightJ \<or> jt = FullJ
      then map (\<lambda>r. replicate lwidth 0 @ r) (filter (\<lambda>r. \<not> list_ex (\<lambda>l. on l r) ls) rs) else [])"

text \<open>The ON condition on a left and a right row: equalities of columns joined with AND, a column being looked up
  first on the side where it is written.\<close>

fun on_holds :: "('s, 'h) table \<Rightarrow> ('s, 'h) table \<Rightarrow> expr \<Rightarrow> u64 list \<Rightarrow> u64 list \<Rightarrow> bool" where
  "on_holds left right (Binary a x b) l r =
     (if to_uppercase x = ''AND'' then on_holds left right a l r \<and> on_holds left right b l r
      else if x = ''='' then
        (case (resolve_col a left, resolve_col b right, resolve_col a right, resolve_col b left) of
           (Some i, Some j, _, _) \<Rightarrow> l ! i = r ! j
         | (_, _, Some j, Some i) \<Rightarrow> l ! i = r ! j
         | _ \<Rightarrow> False)
      else False)"
| "on_holds left right _ l r = False"

text \<open>What the joins rely on: names in step with the columns, and no column shorter than the row count.\<close>

definition shape_ok :: "('s, 'h) table \<Rightarrow> bool" where
  "shape_ok t \<longleftrightarrow> length (column_names t) = length (columns t) \<and> (\<forall>c\<in>set (columns t). row_count t \<le> length c)"

definition keys_ok :: "join_key list \<Rightarrow> ('s, 'h) table \<Rightarrow> ('s, 'h) table \<Rightarrow> bool" where
  "keys_ok keys left right \<longleftrightarrow> list_all (\<lambda>k. jk_left k < length (columns left) \<and> jk_right k < length (columns right)) keys"

section \<open>Lemmas\<close>

lemma those_map: "(\<And>x. x \<in> set xs \<Longrightarrow> f x = Some (g x)) \<Longrightarrow> those (map f xs) = Some (map g xs)"
  by (induction xs) simp_all

lemma length_table_row [simp, tv_len]: "length (table_row t i) = length (columns t)"
  by (simp add: table_row_def)

lemma length_table_rows [simp, tv_len]: "length (rows t) = row_count t"
  by (simp add: rows_def)

lemma row_at_ok: "shape_ok t \<Longrightarrow> i < row_count t \<Longrightarrow> row_at (columns t) i = Some (table_row t i)"
  unfolding row_at_def table_row_def shape_ok_def by (intro those_map) auto

lemma key_at_ok:
  assumes "shape_ok t" and "i < row_count t" and "list_all (\<lambda>k. k < length (columns t)) ks"
  shows "key_at (columns t) ks i = Some (map (\<lambda>k. table_row t i ! k) ks)"
  unfolding key_at_def
proof (rule those_map)
  fix k assume "k \<in> set ks"
  then have k: "k < length (columns t)" using assms(3) by (simp add: list_all_iff)
  then have "i < length (columns t ! k)" using assms(1,2) unfolding shape_ok_def by (meson le_less_trans less_le_trans nth_mem)
  with k show "(if k < length (columns t) \<and> i < length (columns t ! k) then Some (columns t ! k ! i) else None) = Some (table_row t i ! k)"
    by (simp add: table_row_def)
qed

definition bucket :: "(u64 list \<rightharpoonup> nat list) \<Rightarrow> u64 list \<Rightarrow> nat list" where
  "bucket m key = (case m key of None \<Rightarrow> [] | Some js \<Rightarrow> js)"

lemma bucket_upd: "bucket (m(k \<mapsto> v)) key = (if key = k then v else bucket m key)"
  by (simp add: bucket_def)

lemma build_loop_ok:
  assumes "shape_ok t" and "list_all (\<lambda>k. k < length (columns t)) ks" and "\<forall>i\<in>set is. i < row_count t"
  shows "\<exists>m'. build_loop (columns t) ks is m = Some m' \<and>
    (\<forall>key. bucket m' key = bucket m key @ filter (\<lambda>i. map (\<lambda>k. table_row t i ! k) ks = key) is)"
  using assms(3)
proof (induction "is" arbitrary: m)
  case (Cons i "is")
  let ?key = "map (\<lambda>k. table_row t i ! k) ks"
  let ?m = "m(?key \<mapsto> bucket m ?key @ [i])"
  have "key_at (columns t) ks i = Some ?key" using Cons.prems assms by (intro key_at_ok) simp_all
  moreover obtain m' where "build_loop (columns t) ks is ?m = Some m'"
    "\<forall>key. bucket m' key = bucket ?m key @ filter (\<lambda>i. map (\<lambda>k. table_row t i ! k) ks = key) is"
    using Cons.IH [of ?m] Cons.prems by (meson list.set_intros(2))
  ultimately show ?case by (auto simp: bucket_upd bucket_def [of m, symmetric])
qed simp

text \<open>The output so far as a list of rows.\<close>

definition cols_of :: "nat \<Rightarrow> u64 list list \<Rightarrow> u64 list list" where
  "cols_of n out = map (\<lambda>c. map (\<lambda>row. row ! c) out) [0..<n]"

definition holds_rows :: "nat \<Rightarrow> u64 list list \<Rightarrow> join_state \<Rightarrow> bool" where
  "holds_rows n out st \<longleftrightarrow> out_cols st = cols_of n out \<and> out_rows st = length out"

lemma holds_rows_push: "holds_rows n out st \<Longrightarrow> length row = n \<Longrightarrow> holds_rows n (out @ [row]) (push_row row st)"
  by (auto simp: holds_rows_def push_row_def cols_of_def intro!: nth_equalityI)

lemma push_row_matched [simp]: "matched_right (push_row row st) = matched_right st"
  by (simp add: push_row_def)

lemma holds_rows_matched [simp]: "holds_rows n out (st\<lparr>matched_right := ms\<rparr>) = holds_rows n out st"
  by (simp add: holds_rows_def)

lemma match_loop_ok:
  assumes "shape_ok left" "shape_ok right" and "l < row_count left" and "\<forall>r\<in>set rs. r < row_count right"
    and "holds_rows (length (columns left) + length (columns right)) out st" and "length (matched_right st) = row_count right"
  shows "\<exists>st'. match_loop (columns left) (columns right) l rs st = Some st' \<and>
    holds_rows (length (columns left) + length (columns right)) (out @ map (\<lambda>r. table_row left l @ table_row right r) rs) st' \<and>
    length (matched_right st') = row_count right \<and>
    (\<forall>r<row_count right. matched_right st' ! r \<longleftrightarrow> matched_right st ! r \<or> r \<in> set rs)"
  using assms(4-)
proof (induction rs arbitrary: out st)
  case (Cons r rs)
  let ?row = "table_row left l @ table_row right r"
  let ?st = "push_row ?row (st\<lparr>matched_right := (matched_right st)[r := True]\<rparr>)"
  have "holds_rows (length (columns left) + length (columns right)) (out @ [?row]) ?st"
    using Cons.prems(2) by (intro holds_rows_push) simp_all
  from Cons.IH [OF _ this] Cons.prems obtain st' where
    "match_loop (columns left) (columns right) l rs ?st = Some st'"
    "holds_rows (length (columns left) + length (columns right)) (out @ [?row] @ map (\<lambda>r. table_row left l @ table_row right r) rs) st'"
    "length (matched_right st') = row_count right"
    "\<forall>i<row_count right. matched_right st' ! i \<longleftrightarrow> (matched_right st)[r := True] ! i \<or> i \<in> set rs" by auto
  with Cons.prems assms(1-3) show ?case by (auto simp: nth_list_update row_at_ok)
qed simp

lemma rest_loop_ok:
  assumes "shape_ok right" and "\<forall>r\<in>set rs. r < row_count right"
    and "holds_rows (length lcols + length (columns right)) out st" and "length (matched_right st) = row_count right"
  shows "\<exists>st'. rest_loop lcols (columns right) rs st = Some st' \<and>
    holds_rows (length lcols + length (columns right))
      (out @ map (\<lambda>r. replicate (length lcols) 0 @ table_row right r) (filter (\<lambda>r. \<not> matched_right st ! r) rs)) st'"
  using assms(2-)
proof (induction rs arbitrary: out st)
  case (Cons r rs)
  let ?row = "replicate (length lcols) 0 @ table_row right r"
  have "holds_rows (length lcols + length (columns right)) (out @ [?row]) (push_row ?row st)"
    using Cons.prems(2) by (intro holds_rows_push) simp_all
  from Cons.IH [OF _ this] Cons.IH [OF _ Cons.prems(2)] Cons.prems assms(1) show ?case by (auto simp: row_at_ok)
qed simp

lemma probe_loop_ok:
  assumes "shape_ok left" "shape_ok right" and "list_all (\<lambda>k. k < length (columns left)) ks"
    and "\<And>key. \<forall>r\<in>set (bucket m key). r < row_count right"
    and "\<forall>l\<in>set ls. l < row_count left"
    and "holds_rows (length (columns left) + length (columns right)) out st" and "length (matched_right st) = row_count right"
  defines "ms \<equiv> \<lambda>l. bucket m (map (\<lambda>k. table_row left l ! k) ks)"
  shows "\<exists>st'. probe_loop (columns left) (columns right) ks m jt ls st = Some st' \<and>
    holds_rows (length (columns left) + length (columns right))
      (out @ concat (map (\<lambda>l. if ms l = [] then (if jt = LeftJ \<or> jt = FullJ then [table_row left l @ replicate (length (columns right)) 0] else [])
         else map (\<lambda>r. table_row left l @ table_row right r) (ms l)) ls)) st' \<and>
    length (matched_right st') = row_count right \<and>
    (\<forall>r<row_count right. matched_right st' ! r \<longleftrightarrow> matched_right st ! r \<or> (\<exists>l\<in>set ls. r \<in> set (ms l)))"
  using assms(5-7)
proof (induction ls arbitrary: out st)
  case (Cons l ls)
  let ?n = "length (columns left) + length (columns right)"
  have l: "l < row_count left" using Cons.prems by simp
  have key: "key_at (columns left) ks l = Some (map (\<lambda>k. table_row left l ! k) ks)" using key_at_ok assms(1,3) l by blast
  have row: "row_at (columns left) l = Some (table_row left l)" using row_at_ok assms(1) l .
  show ?case
  proof (cases "ms l")
    case Nil
    let ?row = "table_row left l @ replicate (length (columns right)) 0"
    have "holds_rows ?n (out @ [?row]) (push_row ?row st)" using Cons.prems(2) by (intro holds_rows_push) simp_all
    from Cons.IH [OF _ this] Cons.IH [OF _ Cons.prems(2)] Cons.prems Nil key row show ?thesis
      by (auto simp: ms_def bucket_def split: option.splits)
  next
    case (Cons r rs)
    have "\<forall>r\<in>set (ms l). r < row_count right" using assms(4) by (simp add: ms_def)
    from match_loop_ok [OF assms(1,2) l this Cons.prems(2,3)] obtain st1 where st1:
      "match_loop (columns left) (columns right) l (ms l) st = Some st1"
      "holds_rows ?n (out @ map (\<lambda>r. table_row left l @ table_row right r) (ms l)) st1"
      "length (matched_right st1) = row_count right"
      "\<forall>r<row_count right. matched_right st1 ! r \<longleftrightarrow> matched_right st ! r \<or> r \<in> set (ms l)" by auto
    from Cons.IH [OF _ st1(2,3)] Cons.prems(1) obtain st2 where
      "probe_loop (columns left) (columns right) ks m jt ls st1 = Some st2" "length (matched_right st2) = row_count right"
      "holds_rows ?n ((out @ map (\<lambda>r. table_row left l @ table_row right r) (ms l)) @ concat (map (\<lambda>l. if ms l = [] then (if jt = LeftJ \<or> jt = FullJ then [table_row left l @ replicate (length (columns right)) 0] else [])
         else map (\<lambda>r. table_row left l @ table_row right r) (ms l)) ls)) st2"
      "\<forall>r<row_count right. matched_right st2 ! r \<longleftrightarrow> matched_right st1 ! r \<or> (\<exists>l\<in>set ls. r \<in> set (ms l))" by auto
    with st1 Cons key show ?thesis by (auto simp: ms_def bucket_def split: option.splits)
  qed
qed simp

lemma rows_cols_of:
  assumes "\<forall>row\<in>set out. length row = n" and "columns t = cols_of n out" and "row_count t = length out"
  shows "rows t = out"
proof (rule nth_equalityI)
  fix i assume "i < length (rows t)"
  then have i: "i < length out" by (simp add: assms(3))
  then have "rows t ! i = map (\<lambda>c. out ! i ! c) [0..<n]" by (simp add: rows_def table_row_def assms(2,3) cols_of_def)
  also have "\<dots> = out ! i" using assms(1) i by (intro nth_equalityI) simp_all
  finally show "rows t ! i = out ! i" .
qed (simp add: assms(3))

lemma shape_ok_cols_of:
  "columns t = cols_of n out \<Longrightarrow> row_count t = length out \<Longrightarrow> length (column_names t) = n \<Longrightarrow> shape_ok t"
  by (auto simp: shape_ok_def cols_of_def)

lemma row_lengths: "row \<in> set (rows t) \<Longrightarrow> length row = length (columns t)"
  by (auto simp: rows_def)

lemma join_rows_lengths:
  assumes "\<forall>l\<in>set ls. length l = n" and "\<forall>r\<in>set rs. length r = k" and "row \<in> set (join_rows jt on n k ls rs)"
  shows "length row = n + k"
  using assms by (auto simp: join_rows_def left_part_def Let_def split: if_splits)

lemma keys_match_map: "keys_match keys l r \<longleftrightarrow> map (\<lambda>k. r ! jk_right k) keys = map (\<lambda>k. l ! jk_left k) keys"
  by (auto simp: keys_match_def list_all_iff)

lemma hash_join_ok:
  fixes jt :: join_type
  assumes "shape_ok left" "shape_ok right" and "keys \<noteq> []" and "keys_ok keys left right"
  defines "n \<equiv> length (columns left) + length (columns right)"
    and "out \<equiv> join_rows jt (keys_match keys) (length (columns left)) (length (columns right)) (rows left) (rows right)"
  shows "hash_join left right keys jt = Some (Inr \<lparr>jr_columns = cols_of n out,
    jr_column_names = column_names left @ column_names right, jr_row_count = length out\<rparr>)"
proof -
  let ?kl = "map jk_left keys" and ?kr = "map jk_right keys" and ?rs = "[0..<row_count right]"
  have k: "list_all (\<lambda>k. k < length (columns left)) ?kl" "list_all (\<lambda>k. k < length (columns right)) ?kr"
    using assms(4) by (simp_all add: keys_ok_def list_all_iff)
  obtain m where m: "build_loop (columns right) ?kr ?rs Map.empty = Some m"
    "\<And>key. bucket m key = filter (\<lambda>i. map (\<lambda>k. table_row right i ! k) ?kr = key) ?rs"
    using build_loop_ok [OF assms(2) k(2), of ?rs Map.empty] by (auto simp: bucket_def [of Map.empty])
  let ?st = "\<lparr>out_cols = replicate n [], matched_right = replicate (row_count right) False, out_rows = 0\<rparr>"
  define ms where "ms l = bucket m (map (\<lambda>k. table_row left l ! k) ?kl)" for l
  have ms: "ms l = filter (\<lambda>r. keys_match keys (table_row left l) (table_row right r)) ?rs" for l
    by (simp add: ms_def m(2) keys_match_map comp_def)
  have part: "(if ms l = [] then (if jt = LeftJ \<or> jt = FullJ then [table_row left l @ replicate (length (columns right)) 0] else [])
      else map (\<lambda>r. table_row left l @ table_row right r) (ms l)) = left_part jt (keys_match keys) (length (columns right)) (rows right) (table_row left l)" for l
    by (simp add: ms left_part_def rows_def filter_map comp_def Let_def)
  have "holds_rows n [] ?st" by (simp add: holds_rows_def cols_of_def map_replicate_const)
  then obtain st where st: "probe_loop (columns left) (columns right) ?kl m jt [0..<row_count left] ?st = Some st"
    "holds_rows n (concat (map (left_part jt (keys_match keys) (length (columns right)) (rows right)) (rows left))) st"
    "length (matched_right st) = row_count right"
    "\<forall>r<row_count right. matched_right st ! r \<longleftrightarrow> (\<exists>l\<in>{..<row_count left}. keys_match keys (table_row left l) (table_row right r))"
    using probe_loop_ok [OF assms(1,2) k(1), of m "[0..<row_count left]" "[]" ?st jt, folded ms_def n_def, unfolded part]
    by (auto simp: m(2) ms rows_def [of left] comp_def atLeast0LessThan)
  have "filter (\<lambda>r. \<not> matched_right st ! r) ?rs = filter (\<lambda>r. \<not> list_ex (\<lambda>l. keys_match keys l (table_row right r)) (rows left)) ?rs"
    using st(4) by (intro filter_cong) (auto simp: list_ex_iff rows_def)
  then have rest: "map (\<lambda>r. replicate (length (columns left)) 0 @ table_row right r) (filter (\<lambda>r. \<not> matched_right st ! r) ?rs) =
      map (\<lambda>r. replicate (length (columns left)) 0 @ r) (filter (\<lambda>r. \<not> list_ex (\<lambda>l. keys_match keys l r) (rows left)) (rows right))"
    by (simp add: rows_def [of right] filter_map comp_def)
  obtain st1 where st1: "rest_loop (columns left) (columns right) ?rs st = Some st1"
    "holds_rows n (concat (map (left_part jt (keys_match keys) (length (columns right)) (rows right)) (rows left)) @
       map (\<lambda>r. replicate (length (columns left)) 0 @ r) (filter (\<lambda>r. \<not> list_ex (\<lambda>l. keys_match keys l r) (rows left)) (rows right))) st1"
    using rest_loop_ok [OF assms(2) _ st(2) [unfolded n_def] st(3), of ?rs] by (auto simp: rest n_def)
  define st' where "st' = (if jt = RightJ \<or> jt = FullJ then st1 else st)"
  have "(if jt = RightJ \<or> jt = FullJ then rest_loop (columns left) (columns right) ?rs st else Some st) = Some st'" "holds_rows n out st'"
    using st1 st(2) by (simp_all add: st'_def out_def join_rows_def)
  with m(1) st(1) assms(3) show ?thesis
    by (simp add: hash_join_def n_def holds_rows_def)
qed

lemma key_set_ok:
  assumes "shape_ok t" and "list_all (\<lambda>k. k < length (columns t)) ks" and "\<forall>i\<in>set is. i < row_count t"
  shows "key_set (columns t) ks is s = Some (s \<union> (\<lambda>i. map (\<lambda>k. table_row t i ! k) ks) ` set is)"
  using assms(3) by (induction "is" arbitrary: s) (simp_all add: key_at_ok assms(1,2))

lemma select_loop_ok:
  assumes "shape_ok t" and "list_all (\<lambda>k. k < length (columns t)) ks" and "\<forall>i\<in>set is. i < row_count t"
    and "holds_rows (length (columns t)) out st"
  shows "\<exists>st'. select_loop (columns t) ks s want is st = Some st' \<and>
    holds_rows (length (columns t)) (out @ map (table_row t) (filter (\<lambda>i. (map (\<lambda>k. table_row t i ! k) ks \<in> s) = want) is)) st'"
  using assms(3,4)
proof (induction "is" arbitrary: out st)
  case (Cons i "is")
  have "holds_rows (length (columns t)) (out @ [table_row t i]) (push_row (table_row t i) st)"
    using Cons.prems(2) by (intro holds_rows_push) simp_all
  from Cons.IH [OF _ this] Cons.IH [OF _ Cons.prems(2)] Cons.prems assms(1,2) show ?case by (auto simp: key_at_ok row_at_ok)
qed simp

lemma select_join_ok:
  fixes want :: bool
  assumes "shape_ok left" "shape_ok right" and "keys_ok keys left right"
  defines "out \<equiv> filter (\<lambda>l. list_ex (keys_match keys l) (rows right) = want) (rows left)"
  shows "select_join want left right keys = Some (Inr \<lparr>jr_columns = cols_of (length (columns left)) out,
    jr_column_names = column_names left, jr_row_count = length out\<rparr>)"
proof -
  let ?kl = "map jk_left keys" and ?kr = "map jk_right keys"
  have k: "list_all (\<lambda>k. k < length (columns left)) ?kl" "list_all (\<lambda>k. k < length (columns right)) ?kr"
    using assms(3) by (simp_all add: keys_ok_def list_all_iff)
  define s where "s = (\<lambda>i. map (\<lambda>k. table_row right i ! k) ?kr) ` {..<row_count right}"
  have s: "key_set (columns right) ?kr [0..<row_count right] {} = Some s"
    using key_set_ok [OF assms(2) k(2), of "[0..<row_count right]" "{}"] by (simp add: s_def atLeast0LessThan)
  have mem: "map (\<lambda>k. table_row left i ! k) ?kl \<in> s \<longleftrightarrow> list_ex (keys_match keys (table_row left i)) (rows right)" for i
    by (auto simp: s_def list_ex_iff rows_def keys_match_map comp_def image_iff) (metis lessThan_iff)
  have eq: "map (table_row left) (filter (\<lambda>i. (map (\<lambda>k. table_row left i ! k) ?kl \<in> s) = want) [0..<row_count left]) = out"
    unfolding out_def mem by (simp add: rows_def [of left] filter_map comp_def)
  have "holds_rows (length (columns left)) [] \<lparr>out_cols = replicate (length (columns left)) [], matched_right = [], out_rows = 0\<rparr>"
    by (simp add: holds_rows_def cols_of_def map_replicate_const)
  from select_loop_ok [OF assms(1) k(1) _ this, of "[0..<row_count left]" s want, unfolded eq] s show ?thesis
    by (auto simp: select_join_def holds_rows_def)
qed

lemma resolve_col_less: "resolve_col e t = Some i \<Longrightarrow> i < length (column_names t)"
  unfolding resolve_col_def column_idx_def
  by (auto split: expr.splits option.splits dest!: position_Some)

lemma collect_keys_ok:
  assumes "shape_ok left" "shape_ok right" and "collect_keys on left right ks = Inr ks'"
  shows "\<exists>ks1. ks' = ks @ ks1 \<and> ks1 \<noteq> [] \<and> keys_ok ks1 left right \<and> (\<forall>l r. keys_match ks1 l r \<longleftrightarrow> on_holds left right on l r)"
  using assms
proof (induction on left right ks arbitrary: ks' rule: collect_keys.induct)
  case (1 a x b left right ks)
  show ?case
  proof (cases "to_uppercase x = ''AND''")
    case True
    with "1.prems"(3) obtain ks1 where ks1: "collect_keys a left right ks = Inr ks1" "collect_keys b left right ks1 = Inr ks'"
      by (auto simp: bind_result_Inr)
    from "1.IH"(1) [OF True "1.prems"(1,2) ks1(1)] "1.IH"(2) [OF True "1.prems"(1,2) ks1(2)] show ?thesis
      by (fastforce simp: True keys_ok_def keys_match_def)
  next
    case False
    with "1.prems" show ?thesis
      using resolve_col_less [of a left] resolve_col_less [of b right] resolve_col_less [of a right] resolve_col_less [of b left]
      by (auto simp: keys_ok_def keys_match_def shape_ok_def split: if_splits option.splits)
  qed
qed simp_all

lemma extract_join_keys_ok:
  assumes "shape_ok left" "shape_ok right" and "extract_join_keys on left right = Inr keys"
  shows "keys \<noteq> [] \<and> keys_ok keys left right \<and> keys_match keys = on_holds left right on"
  using assms(3) collect_keys_ok [OF assms(1,2), of on "[]"]
  by (fastforce simp: extract_join_keys_def bind_result_Inr split: if_splits)

section \<open>The joins of a query as a specification\<close>

definition with_source :: "string \<Rightarrow> string \<Rightarrow> string" where
  "with_source from n = (if CHR ''.'' \<in> set n then n else from @ ''.'' @ n)"

text \<open>One JOIN clause: the nested loop on its ON condition, which is true for a cross join, and the names of both sides.\<close>

definition joins_with :: "('s, 'h) catalog \<Rightarrow> string \<Rightarrow> join_clause \<Rightarrow> ('s, 'h) table \<Rightarrow> ('s, 'h) table \<Rightarrow> bool" where
  "joins_with cat from j t t' \<longleftrightarrow>
     (\<exists>right. cat_get cat (join_table j) = Some right \<and>
        rows t' = join_rows (join_kind (to_uppercase (join_type j)))
          (if to_uppercase (join_type j) = ''CROSS'' then (\<lambda>_ _. True) else on_holds t right (join_on j))
          (length (columns t)) (length (columns right)) (rows t) (rows right) \<and>
        column_names t' = map (with_source from) (column_names t) @ map (\<lambda>n. join_table j @ ''.'' @ n) (column_names right))"

inductive joined :: "('s, 'h) catalog \<Rightarrow> string \<Rightarrow> join_clause list \<Rightarrow> ('s, 'h) table \<Rightarrow> ('s, 'h) table \<Rightarrow> bool" where
  joined_none: "joined cat from [] t t"
| joined_step: "joins_with cat from j t t' \<Longrightarrow> joined cat from js t' t'' \<Longrightarrow> joined cat from (j # js) t t''"

inductive_simps joined_simps: "joined cat from [] t t'" "joined cat from (j # js) t t'"

lemma product_rows: "join_rows Inner (\<lambda>_ _. True) n k ls rs = concat (map (\<lambda>l. map (\<lambda>r. l @ r) rs) ls)"
  by (auto simp: join_rows_def left_part_def Let_def intro!: arg_cong [where f = concat])

lemma nth_table_row: "c < length (columns t) \<Longrightarrow> table_row t i ! c = columns t ! c ! i"
  by (simp add: table_row_def)

lemma product_columns:
  "cols_of (length (columns left) + length (columns right)) (concat (map (\<lambda>l. map (\<lambda>r. l @ r) (rows right)) (rows left))) =
     map (\<lambda>col. concat (map (\<lambda>l. replicate (row_count right) (col ! l)) [0..<row_count left])) (columns left) @
     map (\<lambda>col. concat (map (\<lambda>_. map (\<lambda>r. col ! r) [0..<row_count right]) [0..<row_count left])) (columns right)"
  by (intro nth_equalityI)
    (auto simp: cols_of_def nth_append map_concat rows_def comp_def nth_table_row map_replicate_const intro!: arg_cong [where f = concat])

lemma cross_join_ok:
  assumes "shape_ok left" "shape_ok right" and "row_count left * row_count right < 2 ^ 64"
  defines "out \<equiv> join_rows Inner (\<lambda>_ _. True) (length (columns left)) (length (columns right)) (rows left) (rows right)"
  shows "cross_join_into left right from table = Some (Inr \<lparr>tname = ''__cross_'' @ table,
    columns = cols_of (length (columns left) + length (columns right)) out,
    column_names = map (with_source from) (column_names left) @ map (\<lambda>n. table @ ''.'' @ n) (column_names right),
    row_count = length out, string_columns = [], null_bitmaps = [], schema = None\<rparr>)"
proof -
  have "those (map (\<lambda>col. if row_count left \<le> length col
      then Some (concat (map (\<lambda>l. replicate (row_count right) (col ! l)) [0..<row_count left])) else None) (columns left)) =
      Some (map (\<lambda>col. concat (map (\<lambda>l. replicate (row_count right) (col ! l)) [0..<row_count left])) (columns left))"
    using assms(1) by (intro those_map) (simp add: shape_ok_def)
  moreover have "those (map (\<lambda>col. if row_count right \<le> length col \<or> row_count left = 0
      then Some (concat (map (\<lambda>_. map (\<lambda>r. col ! r) [0..<row_count right]) [0..<row_count left])) else None) (columns right)) =
      Some (map (\<lambda>col. concat (map (\<lambda>_. map (\<lambda>r. col ! r) [0..<row_count right]) [0..<row_count left])) (columns right))"
    using assms(2) by (intro those_map) (simp add: shape_ok_def)
  moreover have "length out = row_count left * row_count right"
    by (simp add: out_def product_rows length_concat comp_def sum_list_triv)
  ultimately show ?thesis
    using assms(3) unfolding cross_join_into_def Let_def out_def product_rows product_columns with_source_def by simp
qed

lemma qualify_names:
  assumes "length names = n"
  shows "qualify_left from n (qualify_right table rnames n (names @ rnames)) =
    Some (map (with_source from) names @ map (\<lambda>m. table @ ''.'' @ m) rnames)"
proof -
  have "qualify_right table rnames n (names @ rnames) = names @ map (\<lambda>m. table @ ''.'' @ m) rnames"
    using assms by (auto simp: qualify_right_def nth_append intro!: nth_equalityI)
  then show ?thesis
    using assms by (auto simp: qualify_left_def nth_append with_source_def intro!: nth_equalityI)
qed

definition catalog_shapes :: "('s, 'h) catalog \<Rightarrow> bool" where
  "catalog_shapes cat \<longleftrightarrow> (\<forall>n t. cat_get cat n = Some t \<longrightarrow> shape_ok t)"

lemma join_step_ok:
  assumes cat: "catalog_shapes cat" and t: "shape_ok t"
  shows "\<exists>r. join_step cat from j t = Some r \<and> (\<forall>t'. r = Inr t' \<longrightarrow> shape_ok t' \<and> joins_with cat from j t t')"
proof (cases "cat_get cat (join_table j)")
  case (Some right)
  let ?n = "length (columns t)" and ?k = "length (columns right)"
  have right: "shape_ok right" using cat Some by (simp add: catalog_shapes_def)
  have len: "length row = ?n + ?k" if "row \<in> set (join_rows jt on ?n ?k (rows t) (rows right))" for row jt on
    using that by (intro join_rows_lengths) (auto simp: row_lengths)
  show ?thesis
  proof (cases "to_uppercase (join_type j) = ''CROSS''")
    case True
    show ?thesis
    proof (cases "row_count t * row_count right < 2 ^ 64")
      case small: True
      let ?out = "join_rows Inner (\<lambda>_ _. True) ?n ?k (rows t) (rows right)"
      obtain t' where t': "join_step cat from j t = Some (Inr t')" "columns t' = cols_of (?n + ?k) ?out" "row_count t' = length ?out"
        "column_names t' = map (with_source from) (column_names t) @ map (\<lambda>n. join_table j @ ''.'' @ n) (column_names right)"
        using cross_join_ok [OF t right small] True Some by (simp add: join_step_def)
      have "rows t' = ?out" using t'(2,3) len by (intro rows_cols_of) auto
      moreover have "shape_ok t'" using t'(2-4) t right by (intro shape_ok_cols_of) (simp_all add: shape_ok_def)
      ultimately show ?thesis using t' True Some by (simp add: joins_with_def join_kind_def)
    qed (use True Some in \<open>simp add: join_step_def cross_join_into_def Let_def\<close>)
  next
    case False
    show ?thesis
    proof (cases "extract_join_keys (join_on j) t right")
      case (Inr keys)
      let ?out = "join_rows (join_kind (to_uppercase (join_type j))) (keys_match keys) ?n ?k (rows t) (rows right)"
      have keys: "keys \<noteq> []" "keys_ok keys t right" "keys_match keys = on_holds t right (join_on j)"
        using extract_join_keys_ok [OF t right Inr] by auto
      have "length (column_names t) = ?n" using t by (simp add: shape_ok_def)
      then obtain t' where t': "join_step cat from j t = Some (Inr t')" "columns t' = cols_of (?n + ?k) ?out" "row_count t' = length ?out"
        "column_names t' = map (with_source from) (column_names t) @ map (\<lambda>n. join_table j @ ''.'' @ n) (column_names right)"
        using hash_join_ok [OF t right keys(1,2)] False Some Inr by (simp add: join_step_def into_table_def qualify_names Let_def)
      have "rows t' = ?out" using t'(2,3) len by (intro rows_cols_of) auto
      moreover have "shape_ok t'" using t'(2-4) t right by (intro shape_ok_cols_of) (simp_all add: shape_ok_def)
      ultimately show ?thesis using t' False Some keys(3) by (simp add: joins_with_def)
    qed (use False Some in \<open>simp add: join_step_def Let_def\<close>)
  qed
qed (simp add: join_step_def)

lemma join_loop_ok:
  assumes cat: "catalog_shapes cat"
  shows "shape_ok t \<Longrightarrow> \<exists>r. join_loop cat from js t = Some r \<and> (\<forall>t'. r = Inr t' \<longrightarrow> shape_ok t' \<and> joined cat from js t t')"
proof (induction js arbitrary: t)
  case (Cons j js)
  obtain r where r: "join_step cat from j t = Some r" "\<And>t'. r = Inr t' \<Longrightarrow> shape_ok t' \<and> joins_with cat from j t t'"
    using join_step_ok [OF cat Cons.prems] by blast
  show ?case
  proof (cases r)
    case (Inr t')
    with r Cons.IH [of t'] show ?thesis by (auto simp: joined_simps)
  qed (use r in simp)
qed (simp add: joined_simps)

section \<open>Properties\<close>

text \<open>C22: The hash join returns the rows of the nested-loop join, in its order, for every join type: each left row with
  each right row of the same key, left rows without a match padded on the right for LEFT and FULL, right rows without a match
  padded on the left for RIGHT and FULL. Semi- and anti-join return the left rows with and without a match. None of them
  panics on tables of the right shape, and the result has that shape again.\<close>

theorem hash_join_correct:
  fixes left right :: "('s, 'h) table"
  assumes "shape_ok left" and "shape_ok right" and "keys \<noteq> []" and "keys_ok keys left right"
  shows "(\<exists>res. hash_join left right keys jt = Some (Inr res) \<and> shape_ok (into_table res name :: ('s, 'h) table) \<and>
      rows (into_table res name :: ('s, 'h) table) =
        join_rows jt (keys_match keys) (length (columns left)) (length (columns right)) (rows left) (rows right)) \<and>
    (\<exists>res. semi_join left right keys = Some (Inr res) \<and>
      rows (into_table res name :: ('s, 'h) table) = filter (\<lambda>l. list_ex (keys_match keys l) (rows right)) (rows left)) \<and>
    (\<exists>res. anti_join left right keys = Some (Inr res) \<and>
      rows (into_table res name :: ('s, 'h) table) = filter (\<lambda>l. \<not> list_ex (keys_match keys l) (rows right)) (rows left))"
proof -
  have len: "length row = length (columns left) + length (columns right)"
    if "row \<in> set (join_rows jt (keys_match keys) (length (columns left)) (length (columns right)) (rows left) (rows right))" for row
    using that by (intro join_rows_lengths) (auto simp: row_lengths)
  have sel: "rows (into_table \<lparr>jr_columns = cols_of (length (columns left)) (filter P (rows left)), jr_column_names = names,
      jr_row_count = length (filter P (rows left))\<rparr> name :: ('s, 'h) table) = filter P (rows left)" for P names
    by (intro rows_cols_of) (auto simp: into_table_def row_lengths)
  have "rows (into_table \<lparr>jr_columns = cols_of (length (columns left) + length (columns right)) out, jr_column_names = names,
      jr_row_count = length out\<rparr> name :: ('s, 'h) table) = out"
    if "out = join_rows jt (keys_match keys) (length (columns left)) (length (columns right)) (rows left) (rows right)" for out names
    using len that by (intro rows_cols_of) (auto simp: into_table_def)
  moreover have "shape_ok (into_table \<lparr>jr_columns = cols_of (length (columns left) + length (columns right)) out,
      jr_column_names = column_names left @ column_names right, jr_row_count = length out\<rparr> name :: ('s, 'h) table)" for out
    using assms(1,2) by (intro shape_ok_cols_of) (auto simp: into_table_def shape_ok_def)
  ultimately show ?thesis
    using sel by (simp add: hash_join_ok [OF assms] semi_join_def anti_join_def select_join_ok [OF assms(1,2,4)])
qed

definition demo_table :: "string \<Rightarrow> string list \<Rightarrow> u64 list list \<Rightarrow> (unit, unit) table" where
  "demo_table name names cols = \<lparr>tname = name, columns = cols, column_names = names,
     row_count = (case cols of [] \<Rightarrow> 0 | c # _ \<Rightarrow> length c), string_columns = [], null_bitmaps = [], schema = None\<rparr>"

theorem hash_join_correct_witness:
  "\<exists>res. hash_join (demo_table ''l'' [''id'', ''v''] [[1, 2, 3], [10, 20, 30]]) (demo_table ''r'' [''id''] [[2, 3, 4]])
       [\<lparr>jk_left = 0, jk_right = 0\<rparr>] LeftJ = Some (Inr res) \<and>
     rows (into_table res ''j'' :: (unit, unit) table) = [[1, 10, 0], [2, 20, 2], [3, 30, 3]]"
proof -
  let ?l = "demo_table ''l'' [''id'', ''v''] [[1, 2, 3], [10, 20, 30]]" and ?r = "demo_table ''r'' [''id''] [[2, 3, 4]]"
  let ?k = "[\<lparr>jk_left = 0, jk_right = 0\<rparr>]"
  have "shape_ok ?l" "shape_ok ?r" "keys_ok ?k ?l ?r" by (simp_all add: shape_ok_def keys_ok_def demo_table_def)
  moreover have "join_rows LeftJ (keys_match ?k) (length (columns ?l)) (length (columns ?r)) (rows ?l) (rows ?r) =
      [[1, 10, 0], [2, 20, 2], [3, 30, 3]]" by code_simp
  ultimately show ?thesis using hash_join_correct [of ?l ?r ?k LeftJ "''j''"] by auto
qed


definition demo_catalog :: "(unit, unit) catalog" where
  "demo_catalog = \<lparr>cat_tables = [''l'' \<mapsto> demo_table ''l'' [''id'', ''ref''] [[1, 2, 3], [10, 20, 30]],
     ''r'' \<mapsto> demo_table ''r'' [''id'', ''ref''] [[2, 3, 4], [1, 1, 2]]]\<rparr>"

definition demo_join :: "string \<Rightarrow> string \<Rightarrow> select_query" where
  "demo_join a b =
     \<lparr>q_select = [Item_star], q_from = ''l'',
      q_joins = [\<lparr>join_table = ''r'', join_on = Binary (Column a) ''='' (Column b), join_type = ''INNER''\<rparr>],
      q_where = None, q_group_by = [], q_having = None, q_order_by = [], q_limit = None, q_distinct = False\<rparr>"


text \<open>The table of a qualified name is not looked at when both tables have columns of both names:
  \<open>r.id = l.ref\<close> is read as \<open>l.id = r.ref\<close>. On the catalog above the two conditions have different rows.\<close>

lemma qualifier_ignored:
  "extract_join_keys (Binary (Column ''r.id'') ''='' (Column ''l.ref''))
     (demo_table ''l'' [''id'', ''ref''] [[1, 2, 3], [10, 20, 30]]) (demo_table ''r'' [''id'', ''ref''] [[2, 3, 4], [1, 1, 2]]) =
     Inr [\<lparr>jk_left = 0, jk_right = 1\<rparr>]"
  "map_option (map_sum id rows) (join_phase demo_catalog (demo_join ''r.id'' ''l.ref'')) =
     Some (Inr [[1, 10, 2, 1], [1, 10, 3, 1], [2, 20, 4, 2]])"
  by code_simp+

end
