(* ===== verification/Join_Table.thy ===== *)
theory Join_Table
  imports Crc32c
begin

text \<open>
  The two structures the interpreter's hash join is built on: the chained hash table of
  src/src/exec/join_hash_table.rs and the Bloom filter of src/src/exec/bloom_filter.rs. The flag \<open>x86\<close> says which
  of the two hash functions the target has; nothing that is proved depends on it. An index out of range, on which
  the source panics, is \<open>None\<close>. Sizes are natural numbers; the capacities are assumed to be below \<open>2 ^ 32\<close>,
  so that the size computations of the constructors do not overflow.
\<close>

section \<open>The chained hash table\<close>

record join_entry =
  je_key :: u64
  je_row :: u32
  je_next :: u32

record join_hash_table =
  directory :: "u64 list"
  entries :: "join_entry list"
  jlen :: nat
  shift :: nat

text \<open>\<open>usize::next_power_of_two\<close>.\<close>

function next_power_of_two :: "nat \<Rightarrow> nat" where
  "next_power_of_two n = (if n \<le> 1 then 1 else 2 * next_power_of_two ((n + 1) div 2))"
  by pat_completeness auto
termination
  by (relation "measure id") auto

declare next_power_of_two.simps [simp del]

definition jht_new :: "nat \<Rightarrow> join_hash_table" where
  "jht_new expected_entries =
     (let dir_size = max (next_power_of_two (expected_entries * 2)) 16
      in \<lparr>directory = replicate dir_size 0,
          entries = replicate (expected_entries + 1) \<lparr>je_key = 0, je_row = 0, je_next = 0\<rparr>,
          jlen = 1, shift = 64 - trailing_zeros (of_nat dir_size :: u64)\<rparr>)"

text \<open>The splitmix64 finalizer.\<close>

definition mix64 :: "u64 \<Rightarrow> u64" where
  "mix64 z =
     (let z = z + 0x9E3779B97F4A7C15;
          z = (z XOR drop_bit 30 z) * 0xBF58476D1CE4E5B9;
          z = (z XOR drop_bit 27 z) * 0x94D049BB133111EB
      in z XOR drop_bit 31 z)"

definition jht_hash :: "bool \<Rightarrow> u64 \<Rightarrow> u64" where
  "jht_hash x86 key = (if x86 then mm_crc32_u64 0 key * 0x8648DBDB00000001 else mix64 key)"

definition bloom_tag :: "u64 \<Rightarrow> u16" where
  "bloom_tag hash = ucast (drop_bit 16 hash) OR 1"

definition could_contain :: "u64 \<Rightarrow> u64 \<Rightarrow> bool" where
  "could_contain entry hash =
     (let tag = ucast (drop_bit 48 entry) :: u16; expected = bloom_tag hash
      in tag \<noteq> 0 \<and> tag AND expected = expected)"

text \<open>The entry index in the low half of a directory slot.\<close>

definition head_idx :: "u64 \<Rightarrow> u32" where
  "head_idx entry = ucast (entry AND 0xFFFFFFFF)"

definition slot_of :: "bool \<Rightarrow> join_hash_table \<Rightarrow> u64 \<Rightarrow> nat" where
  "slot_of x86 t key = unat (drop_bit (shift t) (jht_hash x86 key))"

definition jht_insert :: "bool \<Rightarrow> join_hash_table \<Rightarrow> u64 \<Rightarrow> u32 \<Rightarrow> join_hash_table option" where
  "jht_insert x86 t key row_idx =
     (let hash = jht_hash x86 key; slot = slot_of x86 t key; tag = bloom_tag hash;
          entry_idx = of_nat (jlen t) :: u32; i = unat entry_idx;
          es = (if length (entries t) \<le> i then entries t @ [\<lparr>je_key = 0, je_row = 0, je_next = 0\<rparr>] else entries t)
      in if length es \<le> i \<or> length (directory t) \<le> slot then None
         else
           let old_head = directory t ! slot;
               old_tag = ucast (drop_bit 48 old_head) :: u16;
               new_tag = old_tag OR tag;
               new_head = push_bit 48 (ucast new_tag) OR ucast entry_idx
           in Some (t\<lparr>entries := es[i := \<lparr>je_key = key, je_row = row_idx, je_next = head_idx old_head\<rparr>],
                      jlen := jlen t + 1, directory := (directory t)[slot := new_head]\<rparr>))"

text \<open>The walk along a chain. The outer option is that the loop does not end, the inner one the index panic.\<close>

partial_function (option) chain_first :: "join_entry list \<Rightarrow> u64 \<Rightarrow> u32 \<Rightarrow> u32 option option option" where
  "chain_first es key idx =
     (if idx = 0 then Some (Some None)
      else if length es \<le> unat idx then Some None
      else if je_key (es ! unat idx) = key then Some (Some (Some (je_row (es ! unat idx))))
      else chain_first es key (je_next (es ! unat idx)))"

partial_function (option) chain_all :: "join_entry list \<Rightarrow> u64 \<Rightarrow> u32 \<Rightarrow> u32 list \<Rightarrow> u32 list option option" where
  "chain_all es key idx out =
     (if idx = 0 then Some (Some out)
      else if length es \<le> unat idx then Some None
      else chain_all es key (je_next (es ! unat idx))
             (if je_key (es ! unat idx) = key then out @ [je_row (es ! unat idx)] else out))"

definition probe :: "bool \<Rightarrow> join_hash_table \<Rightarrow> u64 \<Rightarrow> u32 option option option" where
  "probe x86 t key =
     (let slot = slot_of x86 t key
      in if length (directory t) \<le> slot then Some None
         else let entry = directory t ! slot
              in if \<not> could_contain entry (jht_hash x86 key) then Some (Some None)
                 else chain_first (entries t) key (head_idx entry))"

definition probe_all :: "bool \<Rightarrow> join_hash_table \<Rightarrow> u64 \<Rightarrow> u32 list option option" where
  "probe_all x86 t key =
     (let slot = slot_of x86 t key
      in if length (directory t) \<le> slot then Some None
         else let entry = directory t ! slot
              in if \<not> could_contain entry (jht_hash x86 key) then Some (Some [])
                 else chain_all (entries t) key (head_idx entry) [])"

definition jht_len :: "join_hash_table \<Rightarrow> nat" where
  "jht_len t = jlen t - 1"

definition jht_is_empty :: "join_hash_table \<Rightarrow> bool" where
  "jht_is_empty t \<longleftrightarrow> jlen t \<le> 1"

section \<open>The Bloom filter\<close>

record bloom_filter =
  bf_bits :: "u64 list"
  word_mask :: u64
  num_hashes :: nat
  num_items :: nat

definition bf_new :: "nat \<Rightarrow> bloom_filter" where
  "bf_new expected_items =
     (let min_words = (expected_items * 10 + 63) div 64; nwords = next_power_of_two (max min_words 1)
      in \<lparr>bf_bits = replicate nwords 0, word_mask = of_nat (nwords - 1), num_hashes = 3, num_items = 0\<rparr>)"

definition with_hashes :: "nat \<Rightarrow> nat \<Rightarrow> bloom_filter" where
  "with_hashes expected_items n = (bf_new expected_items)\<lparr>num_hashes := min (max n 1) 7\<rparr>"

definition bit_count :: "bloom_filter \<Rightarrow> nat" where
  "bit_count f = length (bf_bits f) * 64"

definition hash_pair :: "bool \<Rightarrow> u64 \<Rightarrow> u64 \<times> u64" where
  "hash_pair x86 key =
     (if x86 then (mix64 (mm_crc32_u64 0 key), mix64 (mm_crc32_u64 (NOT 0) key) OR 1)
      else (mix64 key, mix64 (key + 0x9E3779B97F4A7C15) OR 1))"

definition word_idx :: "bloom_filter \<Rightarrow> u64 \<Rightarrow> nat" where
  "word_idx f bit_idx = unat (drop_bit 6 bit_idx AND word_mask f)"

definition bf_set_bit :: "bloom_filter \<Rightarrow> u64 \<Rightarrow> bloom_filter" where
  "bf_set_bit f bit_idx =
     (let w = word_idx f bit_idx
      in f\<lparr>bf_bits := (bf_bits f)[w := bf_bits f ! w OR push_bit (unat (bit_idx AND 63)) 1]\<rparr>)"

definition bf_test_bit :: "bloom_filter \<Rightarrow> u64 \<Rightarrow> bool" where
  "bf_test_bit f bit_idx \<longleftrightarrow> drop_bit (unat (bit_idx AND 63)) (bf_bits f ! word_idx f bit_idx) AND 1 \<noteq> 0"

primrec set_loop :: "nat \<Rightarrow> u64 \<Rightarrow> u64 \<Rightarrow> bloom_filter \<Rightarrow> bloom_filter" where
  "set_loop 0 b h2 f = f"
| "set_loop (Suc n) b h2 f = set_loop n (b + h2) h2 (bf_set_bit f b)"

definition bf_insert :: "bool \<Rightarrow> bloom_filter \<Rightarrow> u64 \<Rightarrow> bloom_filter" where
  "bf_insert x86 f key =
     (let (h1, h2) = hash_pair x86 key; f = set_loop (num_hashes f) h1 h2 f in f\<lparr>num_items := num_items f + 1\<rparr>)"

primrec test_loop :: "nat \<Rightarrow> u64 \<Rightarrow> u64 \<Rightarrow> bloom_filter \<Rightarrow> bool" where
  "test_loop 0 b h2 f \<longleftrightarrow> True"
| "test_loop (Suc n) b h2 f \<longleftrightarrow> (if \<not> bf_test_bit f b then False else test_loop n (b + h2) h2 f)"

definition might_contain :: "bool \<Rightarrow> bloom_filter \<Rightarrow> u64 \<Rightarrow> bool" where
  "might_contain x86 f key = (let (h1, h2) = hash_pair x86 key in test_loop (num_hashes f) h1 h2 f)"

text \<open>The batch insertion: eight keys at a time, where \<open>vpconflictq\<close> gives for each lane the mask of the earlier lanes
  with the same value.\<close>

definition mm512_conflict :: "u64 list \<Rightarrow> u64 list" where
  "mm512_conflict ks = map (\<lambda>i. foldl (\<lambda>m j. if ks ! j = ks ! i then m OR push_bit j 1 else m) 0 [0..<i]) [0..<length ks]"

primrec lane_loop :: "bool \<Rightarrow> u64 list \<Rightarrow> u64 list \<Rightarrow> nat list \<Rightarrow> bloom_filter \<Rightarrow> bloom_filter" where
  "lane_loop x86 lanes conflicts [] f = f"
| "lane_loop x86 lanes conflicts (j # js) f =
     (let earlier_mask = (if j = 0 then 0 else push_bit j 1 - 1 :: u64)
      in lane_loop x86 lanes conflicts js
           (if conflicts ! j AND earlier_mask \<noteq> 0 then f else bf_insert x86 f (lanes ! j)))"

function insert_batch :: "bool \<Rightarrow> u64 list \<Rightarrow> bloom_filter \<Rightarrow> bloom_filter" where
  "insert_batch x86 keys f =
     (if keys = [] then f
      else insert_batch x86 (drop 8 keys) (lane_loop x86 (take 8 keys) (mm512_conflict (take 8 keys)) [0..<8] f))"
  by pat_completeness auto
termination
  by (relation "measure (\<lambda>(x86, keys, f). length keys)") auto

declare insert_batch.simps [simp del]

text \<open>The batch test on eight keys: per hash, the lanes whose bit is not set are cleared in the result mask.\<close>

primrec batch_loop :: "nat \<Rightarrow> u64 list \<Rightarrow> u64 list \<Rightarrow> bloom_filter \<Rightarrow> u8 \<Rightarrow> u8" where
  "batch_loop 0 bs h2s f res = res"
| "batch_loop (Suc n) bs h2s f res =
     (let words = map (\<lambda>b. bf_bits f ! word_idx f b) bs;
          test_masks = map (\<lambda>b. push_bit (unat (b AND 63)) 1) bs;
          not_set = foldl (\<lambda>m i. if words ! i AND test_masks ! i = 0 then m OR push_bit i 1 else m) 0 [0..<8] :: u8
      in batch_loop n (map2 (+) bs h2s) h2s f (res AND NOT not_set))"

definition might_contain_batch :: "bool \<Rightarrow> bloom_filter \<Rightarrow> u64 list \<Rightarrow> u8" where
  "might_contain_batch x86 f keys =
     batch_loop (num_hashes f) (map (fst \<circ> hash_pair x86) keys) (map (snd \<circ> hash_pair x86) keys) f 0xFF"

section \<open>Sizes\<close>

lemma next_power_of_two_pow: "\<exists>k. next_power_of_two n = 2 ^ k \<and> n \<le> 2 ^ k \<and> (\<forall>m. n \<le> 2 ^ m \<longrightarrow> k \<le> m)"
proof (induction n rule: next_power_of_two.induct)
  case (1 n)
  show ?case
  proof (cases "n \<le> 1")
    case True
    then show ?thesis by (intro exI [of _ 0]) (simp add: next_power_of_two.simps [of n])
  next
    case False
    with 1 obtain k where k: "next_power_of_two ((n + 1) div 2) = 2 ^ k" "(n + 1) div 2 \<le> 2 ^ k"
      "\<And>m. (n + 1) div 2 \<le> 2 ^ m \<Longrightarrow> k \<le> m" by blast
    have "Suc k \<le> m" if "n \<le> 2 ^ m" for m
    proof (cases m)
      case (Suc m')
      then have "(n + 1) div 2 \<le> 2 ^ m'" using that by simp
      with k(3) Suc show ?thesis by simp
    qed (use that False in simp)
    with k(1,2) False show ?thesis by (intro exI [of _ "Suc k"]) (auto simp: next_power_of_two.simps [of n])
  qed
qed

section \<open>The chains of the hash table\<close>

lemma head_fields:
  fixes tag :: u16 and idx :: u32
  shows "head_idx (push_bit 48 (ucast tag) OR ucast idx) = idx" "ucast (drop_bit 48 (push_bit 48 (ucast tag) OR ucast idx :: u64)) = tag"
proof -
  have m: "(0xFFFFFFFF :: u64) = mask 32" by (simp add: mask_eq_exp_minus_1)
  show "head_idx (push_bit 48 (ucast tag) OR ucast idx) = idx"
    by (auto simp: head_idx_def m bit_simps intro!: bit_word_eqI)
  have "\<not> bit idx (48 + n)" for n using bit_imp_le_length [of idx "48 + n"] by auto
  then show "ucast (drop_bit 48 (push_bit 48 (ucast tag) OR ucast idx :: u64)) = tag"
    by (auto simp: bit_simps intro!: bit_word_eqI)
qed

text \<open>\<open>linked es idx is\<close>: following the links from \<open>idx\<close> visits the entries \<open>is\<close>.\<close>

primrec linked :: "join_entry list \<Rightarrow> u32 \<Rightarrow> nat list \<Rightarrow> bool" where
  "linked es idx [] \<longleftrightarrow> idx = 0"
| "linked es idx (i # is) \<longleftrightarrow> 0 < i \<and> i < 2 ^ 32 \<and> i < length es \<and> idx = of_nat i \<and> linked es (je_next (es ! i)) is"

lemma linked_Cons:
  "linked es idx (i # is) \<Longrightarrow> idx \<noteq> 0 \<and> unat idx = i \<and> i < length es \<and> linked es (je_next (es ! i)) is"
  by (auto simp: unat_of_nat word_unat_eq_iff)

lemma chain_all_linked:
  "linked es idx is \<Longrightarrow> chain_all es key idx out =
     Some (Some (out @ map (\<lambda>i. je_row (es ! i)) (filter (\<lambda>i. je_key (es ! i) = key) is)))"
proof (induction "is" arbitrary: idx out)
  case (Cons i "is")
  from linked_Cons [OF Cons.prems] Cons.IH [of "je_next (es ! i)"] show ?case by (subst chain_all.simps) auto
qed (simp add: chain_all.simps)

lemma chain_first_linked:
  "linked es idx is \<Longrightarrow> chain_first es key idx =
     Some (Some (map_option (\<lambda>i. je_row (es ! i)) (find (\<lambda>i. je_key (es ! i) = key) is)))"
proof (induction "is" arbitrary: idx)
  case (Cons i "is")
  from linked_Cons [OF Cons.prems] Cons.IH [of "je_next (es ! i)"] show ?case by (subst chain_first.simps) auto
qed (simp add: chain_first.simps)

lemma linked_update:
  "linked es idx is \<Longrightarrow> \<forall>i\<in>set is. i < n \<Longrightarrow> n \<le> length es \<Longrightarrow> \<forall>i<n. es' ! i = es ! i \<Longrightarrow> n \<le> length es' \<Longrightarrow> linked es' idx is"
  by (induction "is" arbitrary: idx) auto

text \<open>The table after the insertions \<open>kvs\<close>, oldest first: entry \<open>i + 1\<close> is the \<open>i\<close>-th insertion, each slot heads the chain
  of its insertions, newest first, and its tag covers their tags.\<close>

definition slot_entries :: "bool \<Rightarrow> join_hash_table \<Rightarrow> (u64 \<times> u32) list \<Rightarrow> nat \<Rightarrow> nat list" where
  "slot_entries x86 t kvs s = map Suc (rev (filter (\<lambda>i. slot_of x86 t (fst (kvs ! i)) = s) [0..<length kvs]))"

definition jht_inv :: "bool \<Rightarrow> join_hash_table \<Rightarrow> (u64 \<times> u32) list \<Rightarrow> bool" where
  "jht_inv x86 t kvs \<longleftrightarrow>
     shift t \<le> 64 \<and> length (directory t) = 2 ^ (64 - shift t) \<and>
     jlen t = Suc (length kvs) \<and> jlen t \<le> length (entries t) \<and> length kvs < 2 ^ 32 \<and>
     (\<forall>i<length kvs. je_key (entries t ! Suc i) = fst (kvs ! i) \<and> je_row (entries t ! Suc i) = snd (kvs ! i)) \<and>
     (\<forall>s<length (directory t). linked (entries t) (head_idx (directory t ! s)) (slot_entries x86 t kvs s)) \<and>
     (\<forall>i<length kvs. could_contain (directory t ! slot_of x86 t (fst (kvs ! i))) (jht_hash x86 (fst (kvs ! i))))"

lemma slot_less: "jht_inv x86 t kvs \<Longrightarrow> slot_of x86 t key < length (directory t)"
proof -
  assume inv: "jht_inv x86 t kvs"
  have "unat (drop_bit (shift t) (jht_hash x86 key)) = unat (jht_hash x86 key) div 2 ^ shift t"
    by (subst unat_drop_bit_eq) (simp add: drop_bit_eq_div)
  also have "\<dots> < 2 ^ (64 - shift t)"
  proof -
    have "unat (jht_hash x86 key) < 2 ^ (64 - shift t) * 2 ^ shift t"
      using inv unsigned_less [of "jht_hash x86 key", where 'a = nat] by (simp add: jht_inv_def flip: power_add)
    then show ?thesis by (simp add: less_mult_imp_div_less)
  qed
  finally show ?thesis using inv by (simp add: slot_of_def jht_inv_def)
qed

lemma jht_new_inv:
  assumes "n < 2 ^ 32"
  shows "jht_inv x86 (jht_new n) []"
proof -
  obtain k where k: "next_power_of_two (n * 2) = 2 ^ k" "\<And>m. n * 2 \<le> 2 ^ m \<Longrightarrow> k \<le> m"
    using next_power_of_two_pow by blast
  have "k \<le> 33" using assms by (intro k(2)) simp
  define d where "d = max k 4"
  have d: "max (next_power_of_two (n * 2)) 16 = 2 ^ d" "d \<le> 33"
  proof -
    have "mono (\<lambda>k. 2 ^ k :: nat)" by (rule monoI) (rule power_increasing, simp_all)
    from max_of_mono [OF this, of k 4] have "(2 :: nat) ^ max k 4 = max (2 ^ k) (2 ^ 4)" by simp
    then show "max (next_power_of_two (n * 2)) 16 = 2 ^ d" by (simp add: d_def k(1))
    show "d \<le> 33" using \<open>k \<le> 33\<close> by (simp add: d_def)
  qed
  have "trailing_zeros (of_nat (2 ^ d) :: u64) = d" using d(2) trailing_zeros_two_pow [of d, where 'a = 64] by simp
  with d show ?thesis by (simp add: jht_new_def jht_inv_def Let_def slot_entries_def head_idx_def)
qed

lemma could_contain_or:
  "could_contain (push_bit 48 (ucast (tag OR bloom_tag h)) OR ucast (idx :: u32)) h"
  "could_contain old h' \<Longrightarrow> could_contain (push_bit 48 (ucast ((ucast (drop_bit 48 old) :: u16) OR tag')) OR ucast (idx :: u32)) h'"
proof -
  have "bit (bloom_tag h) 0" for h by (simp add: bloom_tag_def bit_simps)
  then have nz: "bloom_tag h \<noteq> 0" for h by (metis bit_0_eq bot_apply bot_bool_def)
  have sub: "x OR bloom_tag h \<noteq> 0" for x :: u16 and h
    by (metis nz or.right_neutral or_eq_0_iff)
  have absorb: "(x OR y) AND y = y" for x y :: u16 by (intro bit_word_eqI) (auto simp: bit_simps)
  show "could_contain (push_bit 48 (ucast (tag OR bloom_tag h)) OR ucast idx) h"
    unfolding could_contain_def Let_def head_fields by (simp add: sub absorb)
  assume old: "could_contain old h'"
  let ?t = "ucast (drop_bit 48 old) :: u16"
  have "(?t OR tag') AND bloom_tag h' = bloom_tag h'"
    using old by (intro bit_word_eqI) (auto simp: could_contain_def Let_def bit_simps bit_eq_iff [of _ "bloom_tag h'"])
  moreover have "?t OR tag' \<noteq> 0" using old by (simp add: could_contain_def Let_def or_eq_0_iff)
  ultimately show "could_contain (push_bit 48 (ucast (?t OR tag')) OR ucast idx) h'"
    unfolding could_contain_def Let_def head_fields by simp
qed

lemma jht_insert_inv:
  assumes inv: "jht_inv x86 t kvs" and room: "length kvs + 1 < 2 ^ 32"
  shows "\<exists>t'. jht_insert x86 t key row = Some t' \<and> jht_inv x86 t' (kvs @ [(key, row)])"
proof -
  let ?n = "length kvs" and ?s = "slot_of x86 t key"
  define es where "es = (if length (entries t) \<le> Suc ?n then entries t @ [\<lparr>je_key = 0, je_row = 0, je_next = 0\<rparr>] else entries t)"
  define e where "e = \<lparr>je_key = key, je_row = row, je_next = head_idx (directory t ! ?s)\<rparr>"
  define hd' where "hd' = push_bit 48 (ucast ((ucast (drop_bit 48 (directory t ! ?s)) :: u16) OR bloom_tag (jht_hash x86 key))) OR (ucast (of_nat (Suc ?n) :: u32) :: u64)"
  define t' where "t' = t\<lparr>entries := es[Suc ?n := e], jlen := jlen t + 1, directory := (directory t)[?s := hd']\<rparr>"
  have len: "jlen t = Suc ?n" "Suc ?n \<le> length (entries t)" using inv by (simp_all add: jht_inv_def)
  have idx: "unat (of_nat (Suc ?n) :: u32) = Suc ?n" using room by (simp add: unat_of_nat del: of_nat_Suc)
  have es: "Suc ?n < length es" "\<And>i. i < Suc ?n \<Longrightarrow> es[Suc ?n := e] ! i = entries t ! i"
    using len(2) by (auto simp: es_def nth_append)
  have s: "?s < length (directory t)" using inv by (rule slot_less)
  have ins: "jht_insert x86 t key row = Some t'"
    using es(1) s by (simp add: jht_insert_def Let_def len(1) idx es_def [symmetric] e_def t'_def hd'_def not_le del: of_nat_Suc)
  have flds: "entries t' = es[Suc ?n := e]" "directory t' = (directory t)[?s := hd']" by (simp_all add: t'_def)
  have hidx: "head_idx hd' = of_nat (Suc ?n)" by (simp only: hd'_def head_fields)
  have slot: "slot_of x86 t' k = slot_of x86 t k" for k by (simp add: slot_of_def t'_def)
  have old: "kvs' ! i = kvs ! i" if "i < ?n" "kvs' = kvs @ [(key, row)]" for i kvs' using that by (simp add: nth_append)
  have chains: "slot_entries x86 t' (kvs @ [(key, row)]) k = (if k = ?s then Suc ?n # slot_entries x86 t kvs k else slot_entries x86 t kvs k)" for k
  proof -
    have "filter (\<lambda>i. slot_of x86 t (fst ((kvs @ [(key, row)]) ! i)) = k) [0..<?n] = filter (\<lambda>i. slot_of x86 t (fst (kvs ! i)) = k) [0..<?n]"
      by (intro filter_cong) (simp_all add: nth_append)
    then show ?thesis by (simp add: slot_entries_def slot)
  qed
  have "linked (entries t') (head_idx (directory t' ! k)) (slot_entries x86 t' (kvs @ [(key, row)]) k)" if "k < length (directory t)" for k
  proof -
    have "linked (entries t) (head_idx (directory t ! k)) (slot_entries x86 t kvs k)" using inv that by (simp add: jht_inv_def)
    then have "linked (es[Suc ?n := e]) (head_idx (directory t ! k)) (slot_entries x86 t kvs k)"
    proof (rule linked_update)
      show "\<forall>i\<in>set (slot_entries x86 t kvs k). i < Suc ?n" by (auto simp: slot_entries_def)
      show "\<forall>i<Suc ?n. es[Suc ?n := e] ! i = entries t ! i" using es(2) by blast
    qed (use es(1) len(2) in simp_all)
    then show ?thesis
      unfolding chains flds using that s es(1) room by (auto simp: nth_list_update hidx e_def simp del: of_nat_Suc)
  qed
  moreover have "could_contain (directory t' ! slot_of x86 t (fst (kvs ! i))) (jht_hash x86 (fst (kvs ! i)))" if "i < ?n" for i
  proof -
    have "could_contain (directory t ! slot_of x86 t (fst (kvs ! i))) (jht_hash x86 (fst (kvs ! i)))" using inv that by (simp add: jht_inv_def)
    with s could_contain_or(2) show ?thesis by (auto simp: t'_def nth_list_update hd'_def simp del: of_nat_Suc)
  qed
  moreover have "could_contain (directory t' ! ?s) (jht_hash x86 key)"
    using s could_contain_or(1) by (simp add: t'_def hd'_def del: of_nat_Suc)
  moreover have "je_key (entries t' ! Suc i) = fst ((kvs @ [(key, row)]) ! i) \<and> je_row (entries t' ! Suc i) = snd ((kvs @ [(key, row)]) ! i)"
    if "i < Suc ?n" for i
    using that inv es by (cases "i = ?n") (auto simp: t'_def e_def nth_append jht_inv_def)
  ultimately have "jht_inv x86 t' (kvs @ [(key, row)])"
    unfolding jht_inv_def slot using inv es(1) room
    by (auto simp: t'_def jht_inv_def nth_append less_Suc_eq)
  with ins show ?thesis by blast
qed

lemma probe_all_inv:
  assumes "jht_inv x86 t kvs"
  shows "probe_all x86 t key = Some (Some (map snd (filter (\<lambda>kv. fst kv = key) (rev kvs))))"
    "probe x86 t key = Some (Some (map_option snd (find (\<lambda>kv. fst kv = key) (rev kvs))))"
proof -
  let ?s = "slot_of x86 t key"
  let ?is = "slot_entries x86 t kvs ?s" and ?all = "map Suc (rev [0..<length kvs])"
  have s: "?s < length (directory t)" using assms by (rule slot_less)
  have link: "linked (entries t) (head_idx (directory t ! ?s)) ?is" using assms s by (simp add: jht_inv_def)
  have ent: "je_key (entries t ! Suc i) = fst (kvs ! i)" "je_row (entries t ! Suc i) = snd (kvs ! i)" if "i < length kvs" for i
    using assms that by (simp_all add: jht_inv_def)
  have kv: "rev kvs = map (\<lambda>i. (je_key (entries t ! i), je_row (entries t ! i))) ?all"
    using ent by (auto simp: rev_map [symmetric] intro!: nth_equalityI)
  have same: "filter (\<lambda>i. je_key (entries t ! i) = key) ?is = filter (\<lambda>i. je_key (entries t ! i) = key) ?all"
  proof -
    have "filter (\<lambda>i. slot_of x86 t (fst (kvs ! i)) = ?s \<and> je_key (entries t ! Suc i) = key) [0..<length kvs] =
        filter (\<lambda>i. je_key (entries t ! Suc i) = key) [0..<length kvs]" by (intro filter_cong) (auto simp: ent)
    then show ?thesis unfolding slot_entries_def filter_map rev_filter [symmetric] filter_filter comp_def by simp
  qed
  have find_filter: "find P xs = (case filter P xs of [] \<Rightarrow> None | x # _ \<Rightarrow> Some x)" for P and xs :: "nat list" by (induction xs) auto
  have find_map: "find P (map f xs) = map_option f (find (P \<circ> f) xs)" for P f and xs :: "nat list" by (induction xs) auto
  have no: "filter (\<lambda>i. je_key (entries t ! i) = key) ?all = []" if "\<not> could_contain (directory t ! ?s) (jht_hash x86 key)"
  proof -
    have "could_contain (directory t ! slot_of x86 t (fst (kvs ! i))) (jht_hash x86 (fst (kvs ! i)))" if "i < length kvs" for i
      using assms that by (simp add: jht_inv_def)
    then have "filter (\<lambda>i. je_key (entries t ! Suc i) = key) [0..<length kvs] = []"
      using that by (auto simp: filter_empty_conv ent)
    then show ?thesis unfolding filter_map rev_filter [symmetric] comp_def by simp
  qed
  have res: "map snd (filter (\<lambda>kv. fst kv = key) (rev kvs)) = map (\<lambda>i. je_row (entries t ! i)) (filter (\<lambda>i. je_key (entries t ! i) = key) ?is)"
    unfolding same kv by (simp add: filter_map comp_def del: map_map) (simp add: comp_def)
  have same1: "find (\<lambda>i. je_key (entries t ! i) = key) ?is = find (\<lambda>i. je_key (entries t ! i) = key) ?all"
    by (simp only: find_filter same)
  have res1: "map_option snd (find (\<lambda>kv. fst kv = key) (rev kvs)) = map_option (\<lambda>i. je_row (entries t ! i)) (find (\<lambda>i. je_key (entries t ! i) = key) ?is)"
    unfolding same1 kv by (simp only: find_map option.map_comp comp_def fst_conv snd_conv)
  show "probe_all x86 t key = Some (Some (map snd (filter (\<lambda>kv. fst kv = key) (rev kvs))))"
    unfolding res using s chain_all_linked [OF link, of key "[]"] no same by (simp add: probe_all_def Let_def)
  show "probe x86 t key = Some (Some (map_option snd (find (\<lambda>kv. fst kv = key) (rev kvs))))"
    unfolding res1 using s chain_first_linked [OF link, of key] no same find_filter [of _ ?is] by (simp add: probe_def Let_def)
qed

section \<open>The bits of the Bloom filter\<close>

definition bf_ok :: "bloom_filter \<Rightarrow> bool" where
  "bf_ok f \<longleftrightarrow> (\<exists>k<64. length (bf_bits f) = 2 ^ k \<and> word_mask f = mask k)"

lemma word_idx_less: "bf_ok f \<Longrightarrow> word_idx f b < length (bf_bits f)"
proof -
  assume "bf_ok f"
  then obtain k where k: "k < 64" "length (bf_bits f) = 2 ^ k" "word_mask f = mask k" by (auto simp: bf_ok_def)
  have "word_idx f b = take_bit k (unat (drop_bit 6 b))" by (simp add: word_idx_def k(3) unsigned_take_bit_eq flip: take_bit_eq_mask)
  then show ?thesis by (simp add: k(2))
qed

lemma bf_new_ok: "n < 2 ^ 32 \<Longrightarrow> bf_ok (bf_new n)"
proof -
  assume n: "n < 2 ^ 32"
  obtain k where k: "next_power_of_two (max ((n * 10 + 63) div 64) 1) = 2 ^ k" "\<And>m. max ((n * 10 + 63) div 64) 1 \<le> 2 ^ m \<Longrightarrow> k \<le> m"
    using next_power_of_two_pow by blast
  have "k \<le> 32" using n by (intro k(2)) simp
  moreover have "(of_nat (2 ^ k - 1) :: u64) = mask k" by (simp add: mask_eq_exp_minus_1 of_nat_diff)
  ultimately show ?thesis unfolding bf_ok_def bf_new_def Let_def k(1) by (intro exI [of _ k]) simp
qed

lemma test_bit_iff: "bf_test_bit f b \<longleftrightarrow> bit (bf_bits f ! word_idx f b) (unat (b AND 63))"
  by (simp add: bf_test_bit_def and_one_eq bit_iff_odd_drop_bit odd_iff_mod_2_eq_one)

lemma set_bit_fields [simp]:
  "word_mask (bf_set_bit f b) = word_mask f" "num_hashes (bf_set_bit f b) = num_hashes f"
  "length (bf_bits (bf_set_bit f b)) = length (bf_bits f)" "word_idx (bf_set_bit f b) c = word_idx f c"
  by (simp_all add: bf_set_bit_def Let_def word_idx_def)

lemma bf_ok_fields: "bf_ok f \<Longrightarrow> length (bf_bits g) = length (bf_bits f) \<Longrightarrow> word_mask g = word_mask f \<Longrightarrow> bf_ok g"
  by (simp add: bf_ok_def)

lemma bit_pos_less: "unat (b AND 63 :: u64) < 64"
proof -
  have m: "(63 :: u64) = mask 6" by (simp add: mask_eq_exp_minus_1)
  have "unat (b AND 63) = take_bit 6 (unat b)" unfolding m by (simp add: unsigned_take_bit_eq flip: take_bit_eq_mask)
  also have "\<dots> < 2 ^ 6" by (rule take_bit_nat_less_exp)
  finally show ?thesis by simp
qed

lemma test_set_bit:
  assumes "bf_ok f"
  shows "bf_test_bit (bf_set_bit f b) b" "bf_test_bit f c \<Longrightarrow> bf_test_bit (bf_set_bit f b) c"
proof -
  have w: "word_idx f b < length (bf_bits f)" using assms by (rule word_idx_less)
  show "bf_test_bit (bf_set_bit f b) b"
    using w bit_pos_less [of b] by (simp add: test_bit_iff) (simp add: bf_set_bit_def Let_def bit_simps)
  assume "bf_test_bit f c"
  then show "bf_test_bit (bf_set_bit f b) c"
    using w by (simp add: test_bit_iff) (auto simp: bf_set_bit_def Let_def nth_list_update bit_simps)
qed

lemma set_loop_fields [simp]:
  "word_mask (set_loop n b h2 f) = word_mask f" "num_hashes (set_loop n b h2 f) = num_hashes f"
  "length (bf_bits (set_loop n b h2 f)) = length (bf_bits f)"
  by (induction n arbitrary: b f) simp_all

lemma set_loop_ok: "bf_ok f \<Longrightarrow> bf_ok (set_loop n b h2 f)"
  by (erule bf_ok_fields) simp_all

lemma set_loop_keeps: "bf_ok f \<Longrightarrow> bf_test_bit f c \<Longrightarrow> bf_test_bit (set_loop n b h2 f) c"
proof (induction n arbitrary: b f)
  case (Suc n)
  have "bf_ok (bf_set_bit f b)" using Suc.prems(1) by (rule bf_ok_fields) simp_all
  with Suc test_set_bit(2) show ?case by simp
qed simp

lemma test_loop_mono:
  "(\<And>c. bf_test_bit f c \<Longrightarrow> bf_test_bit g c) \<Longrightarrow> test_loop n b h2 f \<Longrightarrow> test_loop n b h2 g"
  by (induction n arbitrary: b) (auto split: if_splits)

lemma set_loop_test: "bf_ok f \<Longrightarrow> test_loop n b h2 (set_loop n b h2 f)"
proof (induction n arbitrary: b f)
  case (Suc n)
  have ok: "bf_ok (bf_set_bit f b)" using Suc.prems by (rule bf_ok_fields) simp_all
  then have "bf_test_bit (set_loop n (b + h2) h2 (bf_set_bit f b)) b"
    using test_set_bit(1) [OF Suc.prems] by (rule set_loop_keeps)
  with Suc.IH [OF ok] show ?case by simp
qed simp

lemma bf_insert_ok:
  assumes "bf_ok f"
  shows "bf_ok (bf_insert x86 f key)" "might_contain x86 (bf_insert x86 f key) key"
    "might_contain x86 f k \<Longrightarrow> might_contain x86 (bf_insert x86 f key) k" "num_hashes (bf_insert x86 f key) = num_hashes f"
proof -
  obtain h1 h2 where h: "hash_pair x86 key = (h1, h2)" by fastforce
  let ?g = "set_loop (num_hashes f) h1 h2 f"
  have ins: "bf_insert x86 f key = ?g\<lparr>num_items := num_items ?g + 1\<rparr>" by (simp add: bf_insert_def h Let_def)
  have t: "bf_test_bit (bf_insert x86 f key) c = bf_test_bit ?g c" for c by (simp add: ins bf_test_bit_def word_idx_def)
  show "bf_ok (bf_insert x86 f key)" using set_loop_ok [OF assms] by (rule bf_ok_fields) (simp_all add: ins)
  show n: "num_hashes (bf_insert x86 f key) = num_hashes f" by (simp add: ins)
  show "might_contain x86 (bf_insert x86 f key) key"
    using test_loop_mono [OF _ set_loop_test [OF assms, of "num_hashes f" h1 h2]] t by (simp add: might_contain_def h n)
  show "might_contain x86 (bf_insert x86 f key) k" if "might_contain x86 f k"
    using that test_loop_mono [of f "bf_insert x86 f key"] set_loop_keeps [OF assms] t
    by (auto simp: might_contain_def n split: prod.splits)
qed

text \<open>A mask built lane by lane.\<close>

lemma bit_lane_mask:
  "bit (foldl (\<lambda>m j. if P j then m OR push_bit j 1 else m) (m0 :: 'a::len word) js) i \<longleftrightarrow>
     bit m0 i \<or> i \<in> set js \<and> P i \<and> i < LENGTH('a)"
proof (induction js arbitrary: m0)
  case (Cons j js)
  show ?case
    by (cases "P j") (auto simp: Cons.IH bit_simps)
qed simp

lemma bit_conflict:
  assumes "j < length ks"
  shows "bit (mm512_conflict ks ! j) i \<longleftrightarrow> i < j \<and> ks ! i = ks ! j \<and> i < 64"
  using assms by (auto simp: mm512_conflict_def bit_lane_mask)

lemma conflict_skip:
  assumes "length ks = 8" and "j < 8"
  shows "mm512_conflict ks ! j AND (if j = 0 then 0 else push_bit j 1 - 1) \<noteq> 0 \<longleftrightarrow> (\<exists>i<j. ks ! i = ks ! j)"
proof -
  have "(if j = 0 then 0 else push_bit j 1 - 1 :: u64) = mask j" by (simp add: mask_eq_exp_minus_1 push_bit_eq_mult)
  then have "mm512_conflict ks ! j AND (if j = 0 then 0 else push_bit j 1 - 1) = take_bit j (mm512_conflict ks ! j)"
    by (simp add: take_bit_eq_mask)
  moreover have "take_bit j (mm512_conflict ks ! j) \<noteq> 0 \<longleftrightarrow> (\<exists>i<j. bit (mm512_conflict ks ! j) i)"
    using assms(2) by (force simp: bit_eq_iff bit_simps)
  ultimately show ?thesis using assms by (auto simp: bit_conflict)
qed

lemma lane_loop_append: "lane_loop x86 ks cs (xs @ ys) f = lane_loop x86 ks cs ys (lane_loop x86 ks cs xs f)"
  by (induction xs arbitrary: f) (simp_all add: Let_def)

lemma lane_loop_ok:
  assumes "bf_ok f" and "length ks = 8" and "n \<le> 8"
  shows "bf_ok (lane_loop x86 ks (mm512_conflict ks) [0..<n] f) \<and>
    (\<forall>j<n. might_contain x86 (lane_loop x86 ks (mm512_conflict ks) [0..<n] f) (ks ! j)) \<and>
    (\<forall>k. might_contain x86 f k \<longrightarrow> might_contain x86 (lane_loop x86 ks (mm512_conflict ks) [0..<n] f) k)"
  using assms(3)
proof (induction n)
  case (Suc n)
  let ?g = "lane_loop x86 ks (mm512_conflict ks) [0..<n] f"
  have g: "bf_ok ?g" "\<And>j. j < n \<Longrightarrow> might_contain x86 ?g (ks ! j)" "\<And>k. might_contain x86 f k \<Longrightarrow> might_contain x86 ?g k"
    using Suc by auto
  have step: "lane_loop x86 ks (mm512_conflict ks) [0..<Suc n] f = (if \<exists>i<n. ks ! i = ks ! n then ?g else bf_insert x86 ?g (ks ! n))"
    using conflict_skip [OF assms(2), of n] Suc.prems by (simp add: lane_loop_append Let_def)
  show ?case
  proof (cases "\<exists>i<n. ks ! i = ks ! n")
    case True
    then have "might_contain x86 ?g (ks ! n)" using g(2) by metis
    with True g step show ?thesis by (auto simp: less_Suc_eq)
  next
    case False
    with step bf_insert_ok [OF g(1)] g show ?thesis by (auto simp: less_Suc_eq)
  qed
qed (use assms in simp)

lemma insert_batch_ok:
  assumes "bf_ok f" and "length keys mod 8 = 0"
  shows "bf_ok (insert_batch x86 keys f) \<and> (\<forall>k. k \<in> set keys \<or> might_contain x86 f k \<longrightarrow> might_contain x86 (insert_batch x86 keys f) k)"
  using assms
proof (induction x86 keys f rule: insert_batch.induct)
  case (1 x86 keys f)
  show ?case
  proof (cases "keys = []")
    case True
    with "1.prems" show ?thesis by (simp add: insert_batch.simps [of x86 "[]"])
  next
    case False
    let ?ks = "take 8 keys"
    let ?g = "lane_loop x86 ?ks (mm512_conflict ?ks) [0..<8] f"
    have len: "length ?ks = 8" "length (drop 8 keys) mod 8 = 0"
      using False "1.prems"(2) by (auto simp: min_def mod_if [of "length keys"] split: if_splits)
    have g: "bf_ok ?g" "\<forall>j<8. might_contain x86 ?g (?ks ! j)" "\<forall>k. might_contain x86 f k \<longrightarrow> might_contain x86 ?g k"
      using lane_loop_ok [OF "1.prems"(1) len(1), of 8] by auto
    have "might_contain x86 ?g k" if "k \<in> set ?ks" for k using that g(2) len(1) by (metis in_set_conv_nth)
    moreover have "set keys = set ?ks \<union> set (drop 8 keys)" by (metis append_take_drop_id set_append)
    ultimately show ?thesis
      using "1.IH" [OF False g(1) len(2)] g(3) False by (subst (1 2) insert_batch.simps) auto
  qed
qed

lemma batch_loop_bit:
  assumes "length bs = 8" and "length h2s = 8" and "i < 8"
  shows "bit (batch_loop n bs h2s f res) i \<longleftrightarrow> bit res i \<and> test_loop n (bs ! i) (h2s ! i) f"
  using assms(1)
proof (induction n arbitrary: bs res)
  case (Suc n)
  define ns :: u8 where "ns = foldl (\<lambda>m j. if bf_bits f ! word_idx f (bs ! j) AND push_bit (unat (bs ! j AND 63)) 1 = 0 then m OR push_bit j 1 else m) 0 [0..<8]"
  have "(w AND push_bit p 1 = 0) = (\<not> bit w p)" if "p < 64" for w :: u64 and p
    by (simp add: push_bit_of_1 and_exp_eq_0_iff_not_bit)
  then have ns: "bit ns i \<longleftrightarrow> \<not> bf_test_bit f (bs ! i)"
    using assms(3) bit_pos_less by (simp add: ns_def bit_lane_mask test_bit_iff)
  have "foldl (\<lambda>m j. if map (\<lambda>b. bf_bits f ! word_idx f b) bs ! j AND map (\<lambda>b. push_bit (unat (b AND 63)) 1) bs ! j = 0 then m OR push_bit j 1 else m) 0 [0..<8] = ns"
    unfolding ns_def using Suc.prems by (intro foldl_cong) auto
  then have "batch_loop (Suc n) bs h2s f res = batch_loop n (map2 (+) bs h2s) h2s f (res AND NOT ns)"
    by (simp add: Let_def)
  with Suc.IH [of "map2 (+) bs h2s" "res AND NOT ns"] Suc.prems assms ns show ?case by (auto simp: bit_simps)
qed simp

lemma might_contain_batch_bit:
  assumes "length keys = 8" and "i < 8"
  shows "bit (might_contain_batch x86 f keys) i \<longleftrightarrow> might_contain x86 f (keys ! i)"
proof -
  have "(0xFF :: u8) = mask 8" by (simp add: mask_eq_exp_minus_1)
  then have "bit (0xFF :: u8) i" using assms(2) by (simp only: bit_simps) simp
  with assms show ?thesis
    by (simp add: might_contain_batch_def batch_loop_bit might_contain_def case_prod_beta)
qed

section \<open>The two interfaces\<close>

text \<open>What a join needs of an index of build rows by key, and of a filter in front of it.\<close>

locale multimap_index =
  fixes rep :: "'t \<Rightarrow> (u64 \<times> u32) list \<Rightarrow> bool" and create :: "nat \<Rightarrow> 't"
    and ins :: "'t \<Rightarrow> u64 \<Rightarrow> u32 \<Rightarrow> 't option" and look :: "'t \<Rightarrow> u64 \<Rightarrow> u32 list option option"
  assumes create: "n < 2 ^ 32 \<Longrightarrow> rep (create n) []"
    and ins: "rep t kvs \<Longrightarrow> length kvs + 1 < 2 ^ 32 \<Longrightarrow> \<exists>t'. ins t k v = Some t' \<and> rep t' (kvs @ [(k, v)])"
    and look: "rep t kvs \<Longrightarrow> look t k = Some (Some (map snd (filter (\<lambda>kv. fst kv = k) (rev kvs))))"
begin

lemma look_created: "n < 2 ^ 32 \<Longrightarrow> look (create n) k = Some (Some [])"
  using look [OF create] by simp

lemma look_inserted:
  assumes "rep t kvs" and "length kvs + 1 < 2 ^ 32"
  obtains t' where "ins t k v = Some t'" and "look t' k' = Some (Some ((if k' = k then [v] else []) @ map snd (filter (\<lambda>kv. fst kv = k') (rev kvs))))"
proof -
  obtain t' where "ins t k v = Some t'" "rep t' (kvs @ [(k, v)])" using ins [OF assms] by blast
  with look [of t' "kvs @ [(k, v)]" k'] show thesis by (intro that) auto
qed

end

locale key_filter =
  fixes frep :: "'f \<Rightarrow> u64 set \<Rightarrow> bool" and fcreate :: "nat \<Rightarrow> 'f" and fins :: "'f \<Rightarrow> u64 \<Rightarrow> 'f" and test :: "'f \<Rightarrow> u64 \<Rightarrow> bool"
  assumes fcreate: "n < 2 ^ 32 \<Longrightarrow> frep (fcreate n) {}"
    and fins: "frep f S \<Longrightarrow> frep (fins f k) (insert k S)"
    and test: "frep f S \<Longrightarrow> k \<in> S \<Longrightarrow> test f k"
begin

lemma fold_fins: "frep f S \<Longrightarrow> frep (foldl fins f ks) (S \<union> set ks)"
proof (induction ks arbitrary: f S)
  case (Cons k ks)
  from Cons.IH [OF fins [OF Cons.prems]] show ?case by (simp add: Un_commute)
qed simp

lemma absent: "frep f S \<Longrightarrow> \<not> test f k \<Longrightarrow> k \<notin> S"
  using test by blast

end

definition bf_holds :: "bool \<Rightarrow> bloom_filter \<Rightarrow> u64 set \<Rightarrow> bool" where
  "bf_holds x86 f S \<longleftrightarrow> bf_ok f \<and> (\<forall>k\<in>S. might_contain x86 f k)"

interpretation jht: multimap_index "jht_inv x86" jht_new "jht_insert x86" "probe_all x86" for x86
  by unfold_locales (simp_all add: jht_new_inv jht_insert_inv probe_all_inv)

interpretation bloom: key_filter "bf_holds x86" bf_new "bf_insert x86" "might_contain x86" for x86
  by unfold_locales (auto simp: bf_holds_def bf_new_ok bf_insert_ok)

section \<open>Properties\<close>

primrec jht_insert_all :: "bool \<Rightarrow> join_hash_table \<Rightarrow> (u64 \<times> u32) list \<Rightarrow> join_hash_table option" where
  "jht_insert_all x86 t [] = Some t"
| "jht_insert_all x86 t (kv # kvs) =
     (case jht_insert x86 t (fst kv) (snd kv) of None \<Rightarrow> None | Some t \<Rightarrow> jht_insert_all x86 t kvs)"

lemma jht_insert_all_inv:
  "jht_inv x86 t kvs0 \<Longrightarrow> length kvs0 + length kvs < 2 ^ 32 \<Longrightarrow>
     \<exists>t'. jht_insert_all x86 t kvs = Some t' \<and> jht_inv x86 t' (kvs0 @ kvs)"
proof (induction kvs arbitrary: t kvs0)
  case (Cons kv kvs)
  then obtain t1 where "jht_insert x86 t (fst kv) (snd kv) = Some t1" "jht_inv x86 t1 (kvs0 @ [kv])"
    using jht_insert_inv [OF Cons.prems(1), of "fst kv" "snd kv"] by auto
  with Cons.IH [of t1 "kvs0 @ [kv]"] Cons.prems(2) show ?case by simp
qed simp

text \<open>C28: The join hash table is a multimap. Whatever is inserted, in whatever order and with whatever capacity the table was
  created, as long as there are fewer than \<open>2 ^ 32\<close> entries: no insertion panics, the walk of every probe ends inside the
  table, \<open>probe_all\<close> returns exactly the rows inserted under the key, newest first, \<open>probe\<close> the newest of them,
  and the tag check in front of the chain never hides one.\<close>

theorem join_hash_table_multimap:
  assumes "n < 2 ^ 32" and "length kvs < 2 ^ 32"
  shows "\<exists>t. jht_insert_all x86 (jht_new n) kvs = Some t \<and> jht_len t = length kvs \<and>
    probe_all x86 t key = Some (Some (map snd (filter (\<lambda>kv. fst kv = key) (rev kvs)))) \<and>
    probe x86 t key = Some (Some (map_option snd (find (\<lambda>kv. fst kv = key) (rev kvs))))"
proof -
  obtain t where t: "jht_insert_all x86 (jht_new n) kvs = Some t" "jht_inv x86 t kvs"
    using jht_insert_all_inv [OF jht_new_inv [OF assms(1)], of kvs] assms(2) by auto
  then have "jht_len t = length kvs" by (simp add: jht_len_def jht_inv_def)
  with t(1) probe_all_inv [OF t(2), of key] show ?thesis by blast
qed

theorem join_hash_table_multimap_witness:
  "\<exists>t. jht_insert_all True (jht_new 2) [(42, 1), (7, 2), (42, 3)] = Some t \<and> probe_all True t 42 = Some (Some [3, 1])"
  using join_hash_table_multimap [of 2 "[(42, 1), (7, 2), (42, 3)]" True 42] by auto

text \<open>The Bloom filter has no false negatives, one key or eight at a time, and the vectorised test is the scalar one
  in each lane.\<close>

theorem bloom_filter_sound:
  assumes "bf_ok f" and "length keys = 8"
  shows "(\<forall>k\<in>set ks. might_contain x86 (foldl (bf_insert x86) f ks) k) \<and>
    (\<forall>k\<in>set keys. might_contain x86 (insert_batch x86 keys f) k) \<and>
    (\<forall>i<8. bit (might_contain_batch x86 f keys) i \<longleftrightarrow> might_contain x86 f (keys ! i))"
proof -
  have "bf_holds x86 (foldl (bf_insert x86) f ks) ({} \<union> set ks)" using assms(1) by (intro bloom.fold_fins) (simp add: bf_holds_def)
  then show ?thesis
    using insert_batch_ok [OF assms(1), of keys x86] assms(2) might_contain_batch_bit [OF assms(2)] by (auto simp: bf_holds_def)
qed

end
