(* ===== verification/Exec_Join.thy ===== *)
theory Exec_Join
  imports Hash_Join Join_Table "HOL-Library.Multiset"
begin

text \<open>
  The join layer of the SQL interpreter in src/src/engine/tpch.rs: its tables, the search for equi-join keys in the
  conjuncts of a WHERE or ON expression, the parallel hash join \<open>hash_join_with_keys\<close> on the hash table and Bloom
  filter of the theory Join_Table, the ON join \<open>hash_join\<close> and \<open>cross_join\<close>. Subqueries, which this code does
  not look into, are a type parameter of the expressions, and so are the string sidecars of a table. The hash
  function \<open>xxh3\<close> of the crate xxhash-rust is a parameter. The prefetch of a later probe key has no effect on the
  result and is left out. \<open>None\<close> is a panic.
\<close>

section \<open>Expressions and tables\<close>

datatype bin_op2 = Add | Sub | Mul | Div | Eq | Ne | Lt | Gt | Le | Ge | And | Or

datatype agg_func = Sum | Avg | Count | MinA | MaxA | CountDistinct

datatype 'q expr2 =
    Col string | IntE int | FloatE u64 | StrE string | DateE int
  | BinOp bin_op2 "'q expr2" "'q expr2"
  | Like "'q expr2" "'q expr2" bool
  | Between "'q expr2" "'q expr2" "'q expr2" bool
  | InList "'q expr2" "'q expr2 list" bool
  | InSubquery "'q expr2" 'q bool
  | Exists 'q bool
  | CaseE "('q expr2 \<times> 'q expr2) list" "'q expr2 option"
  | ExtractE string "'q expr2"
  | CastE "'q expr2" string
  | Substr "'q expr2" "'q expr2" "'q expr2"
  | Agg agg_func "'q expr2" bool
  | CountStar
  | Subquery 'q
  | NotE "'q expr2"
  | Neg "'q expr2"

definition swap_op :: "bin_op2 \<Rightarrow> bin_op2" where
  "swap_op x = (case x of Lt \<Rightarrow> Gt | Le \<Rightarrow> Ge | Gt \<Rightarrow> Lt | Ge \<Rightarrow> Le | Eq \<Rightarrow> Eq | Ne \<Rightarrow> Ne | _ \<Rightarrow> x)"

datatype col_type = CInt | CFloat | CDate | CString

datatype join_type2 = Inner2 | Left2

record 's exec_table =
  x_columns :: "u64 list list"
  x_column_names :: "string list"
  x_col_types :: "col_type list"
  x_string_columns :: "'s option list"
  x_row_count :: nat
  x_col_map :: "string \<rightharpoonup> nat"

definition lookup_col :: "'s exec_table \<Rightarrow> string \<Rightarrow> nat option" where
  "lookup_col t name =
     (case x_col_map t name of Some idx \<Rightarrow> Some idx | None \<Rightarrow> x_col_map t (to_lowercase name))"

definition col_in :: "'q expr2 \<Rightarrow> 's exec_table \<Rightarrow> nat option" where
  "col_in e t = (case e of Col name \<Rightarrow> lookup_col t name | _ \<Rightarrow> None)"

section \<open>Join keys\<close>

fun collect_conjuncts :: "'q expr2 \<Rightarrow> 'q expr2 list \<Rightarrow> 'q expr2 list" where
  "collect_conjuncts (BinOp And l r) out = collect_conjuncts r (collect_conjuncts l out)"
| "collect_conjuncts e out = out @ [e]"

definition split_conjuncts :: "'q expr2 option \<Rightarrow> 'q expr2 list" where
  "split_conjuncts w = (case w of None \<Rightarrow> [] | Some e \<Rightarrow> collect_conjuncts e [])"

fun collect_or_branches :: "'q expr2 \<Rightarrow> 'q expr2 list \<Rightarrow> 'q expr2 list" where
  "collect_or_branches (BinOp Or l r) out = collect_or_branches r (collect_or_branches l out)"
| "collect_or_branches e out = out @ [e]"

text \<open>The key of one equality, if its sides are columns of the two tables.\<close>

definition eq_key :: "'s exec_table \<Rightarrow> 's exec_table \<Rightarrow> 'q expr2 \<Rightarrow> 'q expr2 \<Rightarrow> join_key list" where
  "eq_key left right l r =
     (case (col_in l left, col_in r right) of
        (Some lk, Some rk) \<Rightarrow> [\<lparr>jk_left = lk, jk_right = rk\<rparr>]
      | _ \<Rightarrow>
          (case (col_in l right, col_in r left) of
             (Some rk, Some lk) \<Rightarrow> [\<lparr>jk_left = lk, jk_right = rk\<rparr>]
           | _ \<Rightarrow> []))"

primrec find_join_keys_direct :: "'s exec_table \<Rightarrow> 's exec_table \<Rightarrow> 'q expr2 list \<Rightarrow> join_key list" where
  "find_join_keys_direct left right [] = []"
| "find_join_keys_direct left right (c # cs) =
     (case c of BinOp Eq l r \<Rightarrow> eq_key left right l r | _ \<Rightarrow> []) @ find_join_keys_direct left right cs"

definition find_or_common_keys :: "'q expr2 \<Rightarrow> 's exec_table \<Rightarrow> 's exec_table \<Rightarrow> join_key list" where
  "find_or_common_keys or_expr left right =
     (let branches = collect_or_branches or_expr [];
          branch_keys = map (\<lambda>b. find_join_keys_direct left right (collect_conjuncts b [])) branches
      in if branches = [] then []
         else filter (\<lambda>key. list_all (\<lambda>bk. key \<in> set bk) branch_keys) (hd branch_keys))"

primrec find_join_keys :: "'s exec_table \<Rightarrow> 's exec_table \<Rightarrow> 'q expr2 list \<Rightarrow> join_key list" where
  "find_join_keys left right [] = []"
| "find_join_keys left right (c # cs) =
     (case c of
        BinOp Eq l r \<Rightarrow> eq_key left right l r
      | BinOp Or l r \<Rightarrow> find_or_common_keys c left right
      | _ \<Rightarrow> []) @ find_join_keys left right cs"

fun collect_keys2 :: "'q expr2 \<Rightarrow> 's exec_table \<Rightarrow> 's exec_table \<Rightarrow> join_key list \<Rightarrow> join_key list" where
  "collect_keys2 (BinOp And l r) left right keys = collect_keys2 r left right (collect_keys2 l left right keys)"
| "collect_keys2 (BinOp Eq l r) left right keys = keys @ eq_key left right l r"
| "collect_keys2 _ left right keys = keys"

definition extract_join_keys2 :: "'q expr2 \<Rightarrow> 's exec_table \<Rightarrow> 's exec_table \<Rightarrow> join_key list" where
  "extract_join_keys2 on left right = collect_keys2 on left right []"

section \<open>Cross join\<close>

text \<open>The column map of a join: the first column of each name, then the entries of the left table, then those of the
  right one, shifted.\<close>

definition merge_col_map :: "'s exec_table \<Rightarrow> 's exec_table \<Rightarrow> string \<rightharpoonup> nat" where
  "merge_col_map left right =
     (\<lambda>name. position (\<lambda>n. to_lowercase n = name) (x_column_names left @ x_column_names right)) ++ x_col_map left ++
     (\<lambda>name. map_option (\<lambda>v. v + length (x_columns left)) (x_col_map right name))"

definition cross_join :: "'s exec_table \<Rightarrow> 's exec_table \<Rightarrow> 's exec_table option" where
  "cross_join left right =
     (let lr = x_row_count left; rr = x_row_count right
      in if lr = 0 \<or> rr = 0 then
           Some \<lparr>x_columns = map (\<lambda>_. []) (x_columns left @ x_columns right),
                 x_column_names = x_column_names left @ x_column_names right, x_col_types = x_col_types left @ x_col_types right,
                 x_string_columns = x_string_columns left @ x_string_columns right, x_row_count = 0, x_col_map = Map.empty\<rparr>
         else
           case (those (map (\<lambda>col. if lr \<le> length col then Some (concat (map (\<lambda>l. replicate rr (col ! l)) [0..<lr])) else None) (x_columns left)),
                 those (map (\<lambda>col. if rr \<le> length col then Some (concat (map (\<lambda>_. map (\<lambda>r. col ! r) [0..<rr]) [0..<lr])) else None) (x_columns right))) of
             (Some lcols, Some rcols) \<Rightarrow>
               Some \<lparr>x_columns = lcols @ rcols, x_column_names = x_column_names left @ x_column_names right,
                     x_col_types = x_col_types left @ x_col_types right,
                     x_string_columns = replicate (length (x_columns left) + length (x_columns right)) None,
                     x_row_count = lr * rr, x_col_map = merge_col_map left right\<rparr>
           | _ \<Rightarrow> None)"

section \<open>The parallel hash join\<close>

text \<open>The packed key of several columns: the bytes of the first eight of them.\<close>

primrec pack_loop :: "u64 list list \<Rightarrow> nat list \<Rightarrow> nat \<Rightarrow> bytes \<Rightarrow> bytes option" where
  "pack_loop cols [] r buf = Some buf"
| "pack_loop cols (kc # ks) r buf =
     (if kc < length cols \<and> r < length (cols ! kc)
      then pack_loop cols ks r (if length buf + 8 \<le> 64 then buf @ to_le 8 (cols ! kc ! r) else buf)
      else None)"

definition row_key :: "(bytes \<Rightarrow> u64) \<Rightarrow> u64 list list \<Rightarrow> nat list \<Rightarrow> nat \<Rightarrow> u64 option" where
  "row_key xxh3 cols ks r =
     (if length ks = 1 then map_option hd (key_at cols ks r)
      else map_option xxh3 (pack_loop cols ks r []))"

text \<open>The build phase: every row goes into the table and into the filter.\<close>

primrec index_rows ::
  "('t \<Rightarrow> u64 \<Rightarrow> u32 \<Rightarrow> 't option) \<Rightarrow> ('f \<Rightarrow> u64 \<Rightarrow> 'f) \<Rightarrow> (nat \<Rightarrow> u64 option) \<Rightarrow> nat list \<Rightarrow> 't \<Rightarrow> 'f \<Rightarrow> ('t \<times> 'f) option" where
  "index_rows ins fins key [] t f = Some (t, f)"
| "index_rows ins fins key (r # rs) t f =
     (case key r of
        None \<Rightarrow> None
      | Some k \<Rightarrow> (case ins t k (of_nat r) of None \<Rightarrow> None | Some t \<Rightarrow> index_rows ins fins key rs t (fins f k)))"

text \<open>The build rows for a probe key: none if the filter rules the key out.\<close>

definition matched_rows :: "('t \<Rightarrow> u64 \<Rightarrow> u32 list option option) \<Rightarrow> ('f \<Rightarrow> u64 \<Rightarrow> bool) \<Rightarrow> 't \<Rightarrow> 'f \<Rightarrow> u64 \<Rightarrow> u32 list option" where
  "matched_rows look test t f k =
     (if \<not> test f k then Some [] else case look t k of Some (Some ms) \<Rightarrow> Some ms | _ \<Rightarrow> None)"

definition push_cols :: "u64 list \<Rightarrow> u64 list list \<Rightarrow> u64 list list" where
  "push_cols row cols = map2 (\<lambda>col v. col @ [v]) cols row"

text \<open>The output of one probe row \<open>p\<close>; with \<open>swapped\<close> the build side is the left table.\<close>

primrec emit_matches ::
  "u64 list list \<Rightarrow> u64 list list \<Rightarrow> bool \<Rightarrow> nat \<Rightarrow> u32 list \<Rightarrow> u64 list list \<Rightarrow> u64 list list option" where
  "emit_matches lcols rcols swapped p [] out = Some out"
| "emit_matches lcols rcols swapped p (b # bs) out =
     (case (row_at lcols (if swapped then unat b else p), row_at rcols (if swapped then p else unat b)) of
        (Some lrow, Some rrow) \<Rightarrow> emit_matches lcols rcols swapped p bs (push_cols (lrow @ rrow) out)
      | _ \<Rightarrow> None)"

definition emit_row ::
  "u64 list list \<Rightarrow> u64 list list \<Rightarrow> bool \<Rightarrow> join_type2 \<Rightarrow> nat \<Rightarrow> u32 list \<Rightarrow> u64 list list \<Rightarrow> u64 list list option" where
  "emit_row lcols rcols swapped jt p ms out =
     (if ms = [] then
        (if jt = Left2 \<and> \<not> swapped
         then map_option (\<lambda>lrow. push_cols (lrow @ replicate (length rcols) 0) out) (row_at lcols p)
         else Some out)
      else emit_matches lcols rcols swapped p ms out)"

primrec probe_chunk ::
  "u64 list list \<Rightarrow> u64 list list \<Rightarrow> bool \<Rightarrow> join_type2 \<Rightarrow> (nat \<Rightarrow> u64 option) \<Rightarrow> (u64 \<Rightarrow> u32 list option) \<Rightarrow> nat list \<Rightarrow> u64 list list \<Rightarrow> u64 list list option" where
  "probe_chunk lcols rcols swapped jt key rows_of [] out = Some out"
| "probe_chunk lcols rcols swapped jt key rows_of (p # ps) out =
     (case key p of
        None \<Rightarrow> None
      | Some k \<Rightarrow>
          (case rows_of k of
             None \<Rightarrow> None
           | Some ms \<Rightarrow>
               (case emit_row lcols rcols swapped jt p ms out of
                  None \<Rightarrow> None
                | Some out \<Rightarrow> probe_chunk lcols rcols swapped jt key rows_of ps out)))"

definition CHUNK_SIZE :: nat where
  "CHUNK_SIZE = 65536"

definition chunk_rows :: "nat \<Rightarrow> nat \<Rightarrow> nat list" where
  "chunk_rows n i = [i * CHUNK_SIZE..<min (i * CHUNK_SIZE + CHUNK_SIZE) n]"

definition hash_join_with_keys ::
  "bool \<Rightarrow> (bytes \<Rightarrow> u64) \<Rightarrow> 's exec_table \<Rightarrow> 's exec_table \<Rightarrow> join_key list \<Rightarrow> join_type2 \<Rightarrow> 's exec_table option" where
  "hash_join_with_keys x86 xxh3 left right keys jt =
     (let swapped = (jt = Inner2 \<and> x_row_count left < x_row_count right);
          (build, probe, bks, pks) =
            (if swapped then (left, right, map jk_left keys, map jk_right keys)
             else (right, left, map jk_right keys, map jk_left keys));
          ncol = length (x_columns left) + length (x_columns right)
      in case index_rows (jht_insert x86) (bf_insert x86) (row_key xxh3 (x_columns build) bks) [0..<x_row_count build]
                (jht_new (x_row_count build)) (bf_new (x_row_count build)) of
           None \<Rightarrow> None
         | Some (t, f) \<Rightarrow>
             let num_chunks = (x_row_count probe + CHUNK_SIZE - 1) div CHUNK_SIZE;
                 chunk = (\<lambda>i. probe_chunk (x_columns left) (x_columns right) swapped jt (row_key xxh3 (x_columns probe) pks)
                   (matched_rows (probe_all x86) (might_contain x86) t f) (chunk_rows (x_row_count probe) i) (replicate ncol []))
             in case those (map chunk [0..<num_chunks]) of
                  None \<Rightarrow> None
                | Some partials \<Rightarrow>
                    let out_cols = map (\<lambda>c. concat (map (\<lambda>p. p ! c) partials)) [0..<ncol]
                    in Some \<lparr>x_columns = out_cols, x_column_names = x_column_names left @ x_column_names right,
                             x_col_types = x_col_types left @ x_col_types right, x_string_columns = replicate ncol None,
                             x_row_count = (case out_cols of [] \<Rightarrow> 0 | c # _ \<Rightarrow> length c),
                             x_col_map = merge_col_map left right\<rparr>)"

section \<open>The build and probe phases against the interfaces\<close>

locale filtered_index = multimap_index rep create ins look + key_filter frep fcreate fins test
  for rep :: "'t \<Rightarrow> (u64 \<times> u32) list \<Rightarrow> bool" and create ins look
    and frep :: "'f \<Rightarrow> u64 set \<Rightarrow> bool" and fcreate fins test
begin

lemma index_rows_ok:
  assumes "rep t kvs" and "frep f (fst ` set kvs)" and "length kvs + length rs < 2 ^ 32" and "\<And>r. r \<in> set rs \<Longrightarrow> key r = Some (k r)"
  shows "\<exists>t' f'. index_rows ins fins key rs t f = Some (t', f') \<and> rep t' (kvs @ map (\<lambda>r. (k r, of_nat r)) rs) \<and>
    frep f' (fst ` set (kvs @ map (\<lambda>r. (k r, of_nat r)) rs))"
  using assms
proof (induction rs arbitrary: t f kvs)
  case (Cons r rs)
  obtain t1 where t1: "ins t (k r) (of_nat r) = Some t1" "rep t1 (kvs @ [(k r, of_nat r)])"
    using ins [OF Cons.prems(1)] Cons.prems(3) by fastforce
  have "frep (fins f (k r)) (fst ` set (kvs @ [(k r, of_nat r :: u32)]))" using fins [OF Cons.prems(2)] by simp
  from Cons.IH [OF t1(2) this] Cons.prems(3,4) t1(1) show ?case by simp
qed simp

lemma matched_rows_ok:
  assumes "rep t kvs" and "frep f (fst ` set kvs)"
  shows "matched_rows look test t f key = Some (map snd (filter (\<lambda>kv. fst kv = key) (rev kvs)))"
proof (cases "test f key")
  case False
  then have "filter (\<lambda>kv. fst kv = key) (rev kvs) = []" using absent [OF assms(2)] by (auto simp: filter_empty_conv)
  with False show ?thesis unfolding matched_rows_def by simp
qed (use look [OF assms(1)] in \<open>simp add: matched_rows_def\<close>)

text \<open>An index over the rows \<open>0, \<dots>, n - 1\<close> finds the rows with the key, last one first.\<close>

lemma indexed:
  assumes "n < 2 ^ 32" and "\<And>r. r < n \<Longrightarrow> key r = Some (k r)"
  obtains t f where "index_rows ins fins key [0..<n] (create n) (fcreate n) = Some (t, f)"
    and "\<And>x. matched_rows look test t f x = Some (map of_nat (rev (filter (\<lambda>r. k r = x) [0..<n])))"
proof -
  let ?kvs = "map (\<lambda>r. (k r, of_nat r :: u32)) [0..<n]"
  obtain t f where tf: "index_rows ins fins key [0..<n] (create n) (fcreate n) = Some (t, f)" "rep t ?kvs" "frep f (fst ` set ?kvs)"
    using index_rows_ok [OF create [OF assms(1)], of "fcreate n" "[0..<n]" key k] fcreate [OF assms(1)] assms by auto
  have "map snd (filter (\<lambda>kv. fst kv = x) (rev ?kvs)) = map of_nat (rev (filter (\<lambda>r. k r = x) [0..<n]))" for x
    by (simp add: rev_map [symmetric] filter_map comp_def rev_filter [symmetric])
  with matched_rows_ok [OF tf(2,3)] tf(1) show thesis by (intro that) simp_all
qed

end

interpretation jbi: filtered_index "jht_inv x86" jht_new "jht_insert x86" "probe_all x86" "bf_holds x86" bf_new "bf_insert x86" "might_contain x86" for x86
  by unfold_locales

section \<open>Keys\<close>

text \<open>An interpreter table seen as a table of the executor.\<close>

definition as_table :: "'s exec_table \<Rightarrow> (unit, unit) table" where
  "as_table t = \<lparr>tname = [], columns = x_columns t, column_names = x_column_names t, row_count = x_row_count t,
     string_columns = [], null_bitmaps = [], schema = None\<rparr>"

lemma as_table_sel [simp]:
  "columns (as_table t) = x_columns t" "row_count (as_table t) = x_row_count t" "column_names (as_table t) = x_column_names t"
  by (simp_all add: as_table_def)

definition pack_key :: "u64 list \<Rightarrow> bytes" where
  "pack_key ks = concat (map (to_le 8) (take 8 ks))"

definition key_value :: "(bytes \<Rightarrow> u64) \<Rightarrow> u64 list \<Rightarrow> u64" where
  "key_value xxh3 ks = (if length ks = 1 then hd ks else xxh3 (pack_key ks))"

lemma length_concat_le: "length (concat (map (to_le 8) (vs :: u64 list))) = 8 * length vs"
  by (induction vs) simp_all

lemma pack_loop_ok:
  assumes "shape_ok (as_table t)" and "r < x_row_count t" and "list_all (\<lambda>k. k < length (x_columns t)) ks"
    and "buf = pack_key vs"
  shows "pack_loop (x_columns t) ks r buf = Some (pack_key (vs @ map (\<lambda>k. table_row (as_table t) r ! k) ks))"
  using assms(3,4)
proof (induction ks arbitrary: buf vs)
  case (Cons k ks)
  let ?v = "table_row (as_table t) r ! k"
  have k: "k < length (x_columns t)" using Cons.prems by simp
  then have "r < length (x_columns t ! k)" using assms(1,2) unfolding shape_ok_def by (auto intro: less_le_trans)
  moreover have "x_columns t ! k ! r = ?v" using k by (simp add: table_row_def)
  ultimately have "pack_loop (x_columns t) (k # ks) r buf =
      pack_loop (x_columns t) ks r (if length buf + 8 \<le> 64 then buf @ to_le 8 ?v else buf)" using k by simp
  also have "(if length buf + 8 \<le> 64 then buf @ to_le 8 ?v else buf) = pack_key (vs @ [?v])"
    by (auto simp: Cons.prems(2) pack_key_def length_concat_le)
  finally show ?case using Cons.IH [of "pack_key (vs @ [?v])" "vs @ [?v]"] Cons.prems by simp
qed simp

lemma row_key_ok:
  assumes "shape_ok (as_table t)" and "r < x_row_count t" and "list_all (\<lambda>k. k < length (x_columns t)) ks"
  shows "row_key xxh3 (x_columns t) ks r = Some (key_value xxh3 (map (\<lambda>k. table_row (as_table t) r ! k) ks))"
  using key_at_ok [OF assms(1), of r ks] pack_loop_ok [OF assms, of "[]" "[]"] assms(2,3)
  by (simp add: row_key_def key_value_def pack_key_def)

lemma concat_le_inj: "length xs = length ys \<Longrightarrow> concat (map (to_le 8) (xs :: u64 list)) = concat (map (to_le 8) ys) \<Longrightarrow> xs = ys"
proof (induction xs ys rule: list_induct2)
  case (Cons x xs y ys)
  then have "to_le 8 x = to_le 8 y" "xs = ys" by simp_all
  then show ?case using from_le_to_le_u64 [of x] from_le_to_le_u64 [of y] by metis
qed simp

text \<open>The hash tells the keys of the two tables apart.\<close>

definition no_collision :: "(bytes \<Rightarrow> u64) \<Rightarrow> u64 list set \<Rightarrow> bool" where
  "no_collision xxh3 K \<longleftrightarrow> (\<forall>a\<in>K. \<forall>b\<in>K. xxh3 (pack_key a) = xxh3 (pack_key b) \<longrightarrow> pack_key a = pack_key b)"

lemma key_value_eq:
  assumes "length a = length b" and "length a = 1 \<or> length a \<le> 8 \<and> no_collision xxh3 {a, b}"
  shows "key_value xxh3 a = key_value xxh3 b \<longleftrightarrow> a = b"
proof (cases "length a = 1")
  case True
  then obtain x where "a = [x]" by (cases a) auto
  moreover obtain y where "b = [y]" using True assms(1) by (cases b) auto
  ultimately show ?thesis by (simp add: key_value_def)
next
  case False
  with assms have "length a \<le> 8" "length b \<le> 8" "xxh3 (pack_key a) = xxh3 (pack_key b) \<longrightarrow> pack_key a = pack_key b"
    by (simp_all add: no_collision_def)
  with False assms(1) concat_le_inj [OF assms(1)] show ?thesis by (auto simp: key_value_def pack_key_def)
qed

section \<open>The rows of the hash join\<close>

lemma push_cols_of: "length row = n \<Longrightarrow> push_cols row (cols_of n out) = cols_of n (out @ [row])"
  by (auto simp: push_cols_def cols_of_def intro!: nth_equalityI)

definition pair_row :: "'s exec_table \<Rightarrow> 's exec_table \<Rightarrow> bool \<Rightarrow> nat \<Rightarrow> nat \<Rightarrow> u64 list" where
  "pair_row left right swapped p b =
     table_row (as_table left) (if swapped then b else p) @ table_row (as_table right) (if swapped then p else b)"

definition probe_output :: "'s exec_table \<Rightarrow> 's exec_table \<Rightarrow> bool \<Rightarrow> join_type2 \<Rightarrow> nat \<Rightarrow> nat list \<Rightarrow> u64 list list" where
  "probe_output left right swapped jt p bs =
     (if bs = [] then (if jt = Left2 \<and> \<not> swapped then [table_row (as_table left) p @ replicate (length (x_columns right)) 0] else [])
      else map (pair_row left right swapped p) bs)"

lemma emit_matches_ok:
  assumes "shape_ok (as_table left)" "shape_ok (as_table right)" and "p < x_row_count (if swapped then right else left)"
    and "\<forall>b\<in>set bs. unat b < x_row_count (if swapped then left else right)"
  shows "emit_matches (x_columns left) (x_columns right) swapped p bs (cols_of (length (x_columns left) + length (x_columns right)) out) =
    Some (cols_of (length (x_columns left) + length (x_columns right)) (out @ map (pair_row left right swapped p) (map unat bs)))"
  using assms(4)
proof (induction bs arbitrary: out)
  case (Cons b bs)
  have "row_at (x_columns left) (if swapped then unat b else p) = Some (table_row (as_table left) (if swapped then unat b else p))"
    "row_at (x_columns right) (if swapped then p else unat b) = Some (table_row (as_table right) (if swapped then p else unat b))"
    using row_at_ok [OF assms(1)] row_at_ok [OF assms(2)] assms(3) Cons.prems by (auto split: if_splits)
  with Cons show ?case by (simp add: push_cols_of pair_row_def)
qed simp

lemma probe_chunk_ok:
  assumes "shape_ok (as_table left)" "shape_ok (as_table right)"
    and "\<forall>p\<in>set ps. p < x_row_count (if swapped then right else left) \<and> key p = Some (k p)"
    and "\<And>x. rows_of x = Some (map of_nat (bs x))" and "\<And>x. \<forall>b\<in>set (bs x). b < x_row_count (if swapped then left else right) \<and> b < 2 ^ 32"
  shows "probe_chunk (x_columns left) (x_columns right) swapped jt key rows_of ps (cols_of (length (x_columns left) + length (x_columns right)) out) =
    Some (cols_of (length (x_columns left) + length (x_columns right)) (out @ concat (map (\<lambda>p. probe_output left right swapped jt p (bs (k p))) ps)))"
  using assms(3)
proof (induction ps arbitrary: out)
  case (Cons p ps)
  let ?n = "length (x_columns left) + length (x_columns right)" and ?ms = "map of_nat (bs (k p)) :: u32 list"
  have u: "map unat ?ms = bs (k p)" using assms(5) [of "k p"] by (auto simp: unat_of_nat intro!: map_idI)
  have p: "p < x_row_count (if swapped then right else left)" "key p = Some (k p)" using Cons.prems by simp_all
  have "emit_row (x_columns left) (x_columns right) swapped jt p ?ms (cols_of ?n out) =
      Some (cols_of ?n (out @ probe_output left right swapped jt p (bs (k p))))"
  proof (cases "bs (k p) = []")
    case True
    with p row_at_ok [OF assms(1), of p] show ?thesis by (auto simp: emit_row_def probe_output_def push_cols_of)
  next
    case False
    have "\<forall>b\<in>set ?ms. unat b < x_row_count (if swapped then left else right)" using assms(5) u by (metis image_eqI list.set_map)
    from emit_matches_ok [OF assms(1,2) p(1) this, of out, unfolded u] False show ?thesis by (simp add: emit_row_def probe_output_def)
  qed
  with Cons p assms(4) show ?case by simp
qed simp

lemma chunks_cover: "concat (map (chunk_rows n) [0..<(n + CHUNK_SIZE - 1) div CHUNK_SIZE]) = [0..<n]"
  using upt_chunks [of CHUNK_SIZE n] by (simp add: chunk_rows_def [abs_def] CHUNK_SIZE_def)

lemma concat_map_concat: "concat (map (\<lambda>i. concat (map f (g i))) is) = concat (map f (concat (map g is)))"
  by (induction "is") simp_all

lemma merge_chunks:
  "map (\<lambda>c. concat (map (\<lambda>p. p ! c) (map (\<lambda>i. cols_of n (out i)) is))) [0..<n] = cols_of n (concat (map out is))"
  by (auto simp: cols_of_def map_concat comp_def intro!: nth_equalityI arg_cong [where f = concat])

lemma hash_join_with_keys_rows:
  fixes left right :: "'s exec_table" and jt :: join_type2 and xxh3 :: "bytes \<Rightarrow> u64"
  assumes "shape_ok (as_table left)" "shape_ok (as_table right)" and "keys \<noteq> []" and "keys_ok keys (as_table left) (as_table right)"
    and "x_row_count left < 2 ^ 32" "x_row_count right < 2 ^ 32"
  defines "swapped \<equiv> jt = Inner2 \<and> x_row_count left < x_row_count right"
    and "lk \<equiv> \<lambda>i. key_value xxh3 (map (\<lambda>k. table_row (as_table left) i ! jk_left k) keys)"
    and "rk \<equiv> \<lambda>i. key_value xxh3 (map (\<lambda>k. table_row (as_table right) i ! jk_right k) keys)"
  defines "out \<equiv> concat (map (\<lambda>p. probe_output left right swapped jt p
      (rev (if swapped then filter (\<lambda>b. lk b = rk p) [0..<x_row_count left] else filter (\<lambda>b. rk b = lk p) [0..<x_row_count right])))
      [0..<x_row_count (if swapped then right else left)])"
  shows "\<exists>t. hash_join_with_keys x86 xxh3 left right keys jt = Some t \<and>
    x_columns t = cols_of (length (x_columns left) + length (x_columns right)) out \<and> x_row_count t = length out \<and>
    x_column_names t = x_column_names left @ x_column_names right"
proof -
  let ?n = "length (x_columns left) + length (x_columns right)"
  let ?build = "if swapped then left else right" and ?probe = "if swapped then right else left"
  define bks where "bks = (if swapped then map jk_left keys else map jk_right keys)"
  define pks where "pks = (if swapped then map jk_right keys else map jk_left keys)"
  define bk where "bk = (if swapped then lk else rk)"
  define pk where "pk = (if swapped then rk else lk)"
  have kb: "row_key xxh3 (x_columns ?build) bks r = Some (bk r)" if "r < x_row_count ?build" for r
    using that assms(1,2,4) by (subst row_key_ok) (auto simp: bks_def bk_def lk_def rk_def keys_ok_def list_all_iff comp_def split: if_splits)
  have kp: "row_key xxh3 (x_columns ?probe) pks r = Some (pk r)" if "r < x_row_count ?probe" for r
    using that assms(1,2,4) by (subst row_key_ok) (auto simp: pks_def pk_def lk_def rk_def keys_ok_def list_all_iff comp_def split: if_splits)
  have nb: "x_row_count ?build < 2 ^ 32" using assms(5,6) by simp
  obtain t f where tf: "index_rows (jht_insert x86) (bf_insert x86) (row_key xxh3 (x_columns ?build) bks) [0..<x_row_count ?build]
      (jht_new (x_row_count ?build)) (bf_new (x_row_count ?build)) = Some (t, f)"
    "\<And>x. matched_rows (probe_all x86) (might_contain x86) t f x = Some (map of_nat (rev (filter (\<lambda>r. bk r = x) [0..<x_row_count ?build])))"
    using jbi.indexed [where key = "row_key xxh3 (x_columns ?build) bks" and k = bk, OF nb kb] by blast
  define chunk_out where "chunk_out i = concat (map (\<lambda>p. probe_output left right swapped jt p
      (rev (filter (\<lambda>r. bk r = pk p) [0..<x_row_count ?build]))) (chunk_rows (x_row_count ?probe) i))" for i
  have chunk: "probe_chunk (x_columns left) (x_columns right) swapped jt (row_key xxh3 (x_columns ?probe) pks)
      (matched_rows (probe_all x86) (might_contain x86) t f) (chunk_rows (x_row_count ?probe) i) (replicate ?n []) = Some (cols_of ?n (chunk_out i))" for i
  proof -
    have "\<forall>p\<in>set (chunk_rows (x_row_count ?probe) i). p < x_row_count ?probe \<and> row_key xxh3 (x_columns ?probe) pks p = Some (pk p)"
      using kp by (auto simp: chunk_rows_def)
    from probe_chunk_ok [where bs = "\<lambda>x. rev (filter (\<lambda>r. bk r = x) [0..<x_row_count ?build])" and k = pk and out = "[]" and jt = jt,
        OF assms(1,2) this tf(2)] nb
    show ?thesis by (simp add: chunk_out_def cols_of_def map_replicate_const)
  qed
  let ?is = "[0..<(x_row_count ?probe + CHUNK_SIZE - 1) div CHUNK_SIZE]"
  have out: "concat (map chunk_out ?is) = out"
  proof -
    have "concat (map chunk_out ?is) = concat (map (\<lambda>p. probe_output left right swapped jt p
        (rev (filter (\<lambda>r. bk r = pk p) [0..<x_row_count ?build]))) (concat (map (chunk_rows (x_row_count ?probe)) ?is)))"
      unfolding chunk_out_def by (rule concat_map_concat)
    then show ?thesis unfolding chunks_cover out_def by (simp add: bk_def pk_def)
  qed
  have "0 < ?n" using assms(3,4) by (cases keys) (auto simp: keys_ok_def)
  then have first: "(case cols_of ?n out of [] \<Rightarrow> 0 | c # _ \<Rightarrow> length c) = length out"
    by (simp add: cols_of_def upt_rec [of 0])
  have parts: "those (map (\<lambda>i. probe_chunk (x_columns left) (x_columns right) swapped jt (row_key xxh3 (x_columns ?probe) pks)
      (matched_rows (probe_all x86) (might_contain x86) t f) (chunk_rows (x_row_count ?probe) i) (replicate ?n [])) ?is) = Some (map (\<lambda>i. cols_of ?n (chunk_out i)) ?is)"
    using chunk by (intro those_map)
  have sides: "(if swapped then (left, right, map jk_left keys, map jk_right keys) else (right, left, map jk_right keys, map jk_left keys)) = (?build, ?probe, bks, pks)"
    by (simp add: bks_def pks_def)
  show ?thesis
    unfolding hash_join_with_keys_def swapped_def [symmetric] sides Let_def prod.case tf(1) option.case parts merge_chunks out first by simp
qed

section \<open>The hash join computes the join\<close>

lemma mset_concat_swap:
  "mset (concat (map (\<lambda>x. map (f x) (filter (P x) ys)) xs)) = mset (concat (map (\<lambda>y. map (\<lambda>x. f x y) (filter (\<lambda>x. P x y) xs)) ys))"
proof (induction xs)
  case (Cons x xs)
  have "mset (concat (map (\<lambda>y. map (\<lambda>x. f x y) (filter (\<lambda>x. P x y) (x # xs))) ys)) =
      mset (map (f x) (filter (P x) ys)) + mset (concat (map (\<lambda>y. map (\<lambda>x. f x y) (filter (\<lambda>x. P x y) xs)) ys))"
    by (induction ys) simp_all
  with Cons show ?case by simp
qed simp

lemma mset_concat_cong: "(\<And>x. x \<in> set xs \<Longrightarrow> mset (f x) = mset (g x)) \<Longrightarrow> mset (concat (map f xs)) = mset (concat (map g xs))"
  by (induction xs) simp_all

definition key_rows :: "join_key list \<Rightarrow> 's exec_table \<Rightarrow> 's exec_table \<Rightarrow> u64 list set" where
  "key_rows keys left right =
     (\<lambda>l. map (\<lambda>k. l ! jk_left k) keys) ` set (rows (as_table left)) \<union> (\<lambda>r. map (\<lambda>k. r ! jk_right k) keys) ` set (rows (as_table right))"

lemma key_value_match:
  assumes "length keys = 1 \<or> length keys \<le> 8 \<and> no_collision xxh3 (key_rows keys left right)" and "l < x_row_count left" "r < x_row_count right"
  shows "key_value xxh3 (map (\<lambda>k. table_row (as_table left) l ! jk_left k) keys) = key_value xxh3 (map (\<lambda>k. table_row (as_table right) r ! jk_right k) keys) \<longleftrightarrow>
    keys_match keys (table_row (as_table left) l) (table_row (as_table right) r)"
proof -
  have "map (\<lambda>k. table_row (as_table left) l ! jk_left k) keys \<in> key_rows keys left right"
    "map (\<lambda>k. table_row (as_table right) r ! jk_right k) keys \<in> key_rows keys left right"
    using assms(2,3) by (auto simp: key_rows_def rows_def)
  with assms(1) show ?thesis by (subst key_value_eq) (auto simp: no_collision_def keys_match_map)
qed

definition join_kind2 :: "join_type2 \<Rightarrow> join_type" where
  "join_kind2 jt = (case jt of Inner2 \<Rightarrow> Inner | Left2 \<Rightarrow> LeftJ)"

lemma table_of_cols:
  assumes "columns t = cols_of n out" and "row_count t = length out" and "length (column_names t) = n" and "\<forall>row\<in>set out. length row = n"
  shows "shape_ok t \<and> rows t = out"
  using assms by (auto simp: shape_ok_def rows_def table_row_def cols_of_def intro!: nth_equalityI)

lemma pair_row_fun:
  "pair_row left right swapped p = (\<lambda>b. table_row (as_table left) (if swapped then b else p) @ table_row (as_table right) (if swapped then p else b))"
  by (simp add: pair_row_def fun_eq_iff)

lemma probe_output_rows:
  assumes "shape_ok (as_table left)" "shape_ok (as_table right)"
  shows "mset (concat (map (\<lambda>p. probe_output left right False jt p
        (rev (filter (\<lambda>b. keys_match keys (table_row (as_table left) p) (table_row (as_table right) b)) [0..<x_row_count right]))) [0..<x_row_count left])) =
      mset (join_rows (join_kind2 jt) (keys_match keys) (length (x_columns left)) (length (x_columns right)) (rows (as_table left)) (rows (as_table right)))"
  unfolding join_rows_def rows_def [of "as_table left"] map_map
  by (cases jt) (auto simp: join_kind2_def probe_output_def left_part_def Let_def rows_def filter_map comp_def pair_row_fun rev_map [symmetric]
      filter_empty_conv intro!: mset_concat_cong)

lemma probe_output_inner: "probe_output left right True jt p bs = map (pair_row left right True p) bs"
  by (simp add: probe_output_def)

lemma probe_output_swapped:
  assumes "shape_ok (as_table left)" "shape_ok (as_table right)"
  shows "mset (concat (map (\<lambda>p. probe_output left right True Inner2 p
        (rev (filter (\<lambda>b. keys_match keys (table_row (as_table left) b) (table_row (as_table right) p)) [0..<x_row_count left]))) [0..<x_row_count right])) =
      mset (join_rows Inner (keys_match keys) (length (x_columns left)) (length (x_columns right)) (rows (as_table left)) (rows (as_table right)))"
proof -
  let ?P = "\<lambda>l r. keys_match keys (table_row (as_table left) l) (table_row (as_table right) r)"
  let ?f = "\<lambda>l r. table_row (as_table left) l @ table_row (as_table right) r"
  have "join_rows Inner (keys_match keys) (length (x_columns left)) (length (x_columns right)) (rows (as_table left)) (rows (as_table right)) =
      concat (map (\<lambda>l. map (?f l) (filter (?P l) [0..<x_row_count right])) [0..<x_row_count left])"
    by (auto simp: join_rows_def left_part_def Let_def rows_def filter_map comp_def filter_empty_conv intro!: arg_cong [where f = concat])
  moreover have "mset (concat (map (\<lambda>p. probe_output left right True Inner2 p (rev (filter (\<lambda>b. ?P b p) [0..<x_row_count left]))) [0..<x_row_count right])) =
      mset (concat (map (\<lambda>r. map (\<lambda>l. ?f l r) (filter (\<lambda>l. ?P l r) [0..<x_row_count left])) [0..<x_row_count right]))"
    unfolding probe_output_inner by (rule mset_concat_cong) (simp add: pair_row_fun rev_map [symmetric])
  ultimately show ?thesis using mset_concat_swap [of ?f ?P] by simp
qed

text \<open>C23: The parallel hash join of the interpreter computes the inner or the left join of its two tables: for
  well-shaped tables of fewer than \<open>2 ^ 32\<close> rows and a key list that refers to their columns it never panics, and its
  rows are, with their multiplicities, those of the nested loop join on equality of the key columns, whichever side
  the code builds the hash table on, however it cuts the probe side into chunks, and although the Bloom filter skips
  probe rows. With more than one key column the code compares only the hash of the columns; then the statement needs at most
  eight key columns and a hash without collisions on the keys of the two tables.\<close>

theorem hash_join_with_keys_correct:
  fixes left right :: "'s exec_table"
  assumes "shape_ok (as_table left)" "shape_ok (as_table right)" and "keys \<noteq> []" and "keys_ok keys (as_table left) (as_table right)"
    and "x_row_count left < 2 ^ 32" "x_row_count right < 2 ^ 32"
    and "length keys = 1 \<or> length keys \<le> 8 \<and> no_collision xxh3 (key_rows keys left right)"
  shows "\<exists>t. hash_join_with_keys x86 xxh3 left right keys jt = Some t \<and> shape_ok (as_table t) \<and>
    x_column_names t = x_column_names left @ x_column_names right \<and>
    mset (rows (as_table t)) = mset (join_rows (join_kind2 jt) (keys_match keys) (length (x_columns left)) (length (x_columns right))
      (rows (as_table left)) (rows (as_table right)))"
proof -
  let ?swapped = "jt = Inner2 \<and> x_row_count left < x_row_count right"
  let ?n = "length (x_columns left) + length (x_columns right)"
  let ?P = "\<lambda>l r. keys_match keys (table_row (as_table left) l) (table_row (as_table right) r)"
  obtain t out where t: "hash_join_with_keys x86 xxh3 left right keys jt = Some t" "x_columns t = cols_of ?n out" "x_row_count t = length out"
      "x_column_names t = x_column_names left @ x_column_names right"
    and out: "out = concat (map (\<lambda>p. probe_output left right ?swapped jt p
      (rev (if ?swapped then filter (\<lambda>b. ?P b p) [0..<x_row_count left] else filter (\<lambda>b. ?P p b) [0..<x_row_count right])))
      [0..<x_row_count (if ?swapped then right else left)])"
  proof -
    note m = key_value_match [OF assms(7)]
    have m': "key_value xxh3 (map (\<lambda>k. table_row (as_table right) r ! jk_right k) keys) = key_value xxh3 (map (\<lambda>k. table_row (as_table left) l ! jk_left k) keys) \<longleftrightarrow> ?P l r"
      if "l < x_row_count left" "r < x_row_count right" for l r
      using m [OF that] by (metis (no_types))
    have "concat (map (\<lambda>p. probe_output left right ?swapped jt p (rev (if ?swapped
        then filter (\<lambda>b. key_value xxh3 (map (\<lambda>k. table_row (as_table left) b ! jk_left k) keys) = key_value xxh3 (map (\<lambda>k. table_row (as_table right) p ! jk_right k) keys)) [0..<x_row_count left]
        else filter (\<lambda>b. key_value xxh3 (map (\<lambda>k. table_row (as_table right) b ! jk_right k) keys) = key_value xxh3 (map (\<lambda>k. table_row (as_table left) p ! jk_left k) keys)) [0..<x_row_count right])))
        [0..<x_row_count (if ?swapped then right else left)]) =
      concat (map (\<lambda>p. probe_output left right ?swapped jt p
      (rev (if ?swapped then filter (\<lambda>b. ?P b p) [0..<x_row_count left] else filter (\<lambda>b. ?P p b) [0..<x_row_count right])))
      [0..<x_row_count (if ?swapped then right else left)])"
      using m m'
      by (intro arg_cong [where f = concat] map_cong refl arg_cong [where f = "probe_output left right ?swapped jt _"] arg_cong [where f = rev] if_cong filter_cong)
        (auto split: if_splits)
    with hash_join_with_keys_rows [OF assms(1-6), of x86 xxh3 jt] that show thesis by fastforce
  qed
  have "mset out = mset (join_rows (join_kind2 jt) (keys_match keys) (length (x_columns left)) (length (x_columns right)) (rows (as_table left)) (rows (as_table right)))"
  proof (cases ?swapped)
    case True
    then show ?thesis using probe_output_swapped [OF assms(1,2), of keys] unfolding out by (simp add: join_kind2_def)
  next
    case False
    then show ?thesis using probe_output_rows [OF assms(1,2), of jt keys] unfolding out by (simp only: if_False)
  qed
  moreover from this have "\<forall>row\<in>set out. length row = ?n"
    using join_rows_lengths [where n = "length (x_columns left)" and k = "length (x_columns right)"] row_lengths
    by (metis (no_types, lifting) set_mset_mset as_table_sel(1))
  moreover have "length (x_column_names t) = ?n" using assms(1,2) t(4) by (simp add: shape_ok_def)
  ultimately show ?thesis using t table_of_cols [of "as_table t" ?n out] by simp
qed

definition demo_left :: "unit exec_table" where
  "demo_left = \<lparr>x_columns = [[1, 2, 3], [7, 8, 9]], x_column_names = [''a'', ''b''], x_col_types = [CInt, CInt],
     x_string_columns = [None, None], x_row_count = 3, x_col_map = [''a'' \<mapsto> 0, ''b'' \<mapsto> 1]\<rparr>"

definition demo_right :: "unit exec_table" where
  "demo_right = \<lparr>x_columns = [[7, 9], [1, 4]], x_column_names = [''c'', ''d''], x_col_types = [CInt, CInt],
     x_string_columns = [None, None], x_row_count = 2, x_col_map = [''c'' \<mapsto> 0, ''d'' \<mapsto> 1]\<rparr>"

definition demo_keys :: "join_key list" where
  "demo_keys = [\<lparr>jk_left = 0, jk_right = 1\<rparr>, \<lparr>jk_left = 1, jk_right = 0\<rparr>]"

definition demo_hash :: "bytes \<Rightarrow> u64" where
  "demo_hash bs = ucast (hd bs) + 256 * ucast (bs ! 8)"

theorem hash_join_with_keys_correct_witness:
  "\<exists>t. hash_join_with_keys True demo_hash demo_left demo_right demo_keys Left2 = Some t \<and> shape_ok (as_table t) \<and>
    x_column_names t = [''a'', ''b'', ''c'', ''d''] \<and>
    mset (rows (as_table t)) = mset [[1, 7, 7, 1], [2, 8, 0, 0], [3, 9, 0, 0]]"
proof -
  have "shape_ok (as_table demo_left)" "shape_ok (as_table demo_right)" "keys_ok demo_keys (as_table demo_left) (as_table demo_right)"
    by (simp_all add: shape_ok_def keys_ok_def demo_left_def demo_right_def demo_keys_def)
  moreover have "no_collision demo_hash (key_rows demo_keys demo_left demo_right)" by code_simp
  moreover have "join_rows (join_kind2 Left2) (keys_match demo_keys) (length (x_columns demo_left)) (length (x_columns demo_right))
      (rows (as_table demo_left)) (rows (as_table demo_right)) = [[1, 7, 7, 1], [2, 8, 0, 0], [3, 9, 0, 0]]" by code_simp
  moreover have "demo_keys \<noteq> []" "length demo_keys \<le> 8" "x_row_count demo_left < 2 ^ 32" "x_row_count demo_right < 2 ^ 32"
    "x_column_names demo_left @ x_column_names demo_right = [''a'', ''b'', ''c'', ''d'']"
    by (simp_all add: demo_keys_def demo_left_def demo_right_def)
  ultimately show ?thesis using hash_join_with_keys_correct [of demo_left demo_right demo_keys demo_hash True Left2] by simp
qed

text \<open>With several key columns the code never compares the columns themselves: a hash collision joins rows whose keys differ.\<close>

lemma hash_collision_joins:
  fixes left right :: "'s exec_table"
  assumes "shape_ok (as_table left)" "shape_ok (as_table right)" and "1 < length keys" and "keys_ok keys (as_table left) (as_table right)"
    and "x_row_count left < 2 ^ 32" "x_row_count right < 2 ^ 32" and "l < x_row_count left" "r < x_row_count right"
    and "xxh3 (pack_key (map (\<lambda>k. table_row (as_table left) l ! jk_left k) keys)) = xxh3 (pack_key (map (\<lambda>k. table_row (as_table right) r ! jk_right k) keys))"
  shows "\<exists>t. hash_join_with_keys x86 xxh3 left right keys jt = Some t \<and> table_row (as_table left) l @ table_row (as_table right) r \<in> set (rows (as_table t))"
proof -
  let ?n = "length (x_columns left) + length (x_columns right)"
  let ?swapped = "jt = Inner2 \<and> x_row_count left < x_row_count right"
  let ?lk = "\<lambda>i. key_value xxh3 (map (\<lambda>k. table_row (as_table left) i ! jk_left k) keys)"
  let ?rk = "\<lambda>i. key_value xxh3 (map (\<lambda>k. table_row (as_table right) i ! jk_right k) keys)"
  define bs where "bs = (\<lambda>p. rev (if ?swapped then filter (\<lambda>b. ?lk b = ?rk p) [0..<x_row_count left] else filter (\<lambda>b. ?rk b = ?lk p) [0..<x_row_count right]))"
  define out where "out = concat (map (\<lambda>p. probe_output left right ?swapped jt p (bs p)) [0..<x_row_count (if ?swapped then right else left)])"
  have "keys \<noteq> []" using assms(3) by auto
  then obtain t where t: "hash_join_with_keys x86 xxh3 left right keys jt = Some t" "x_columns t = cols_of ?n out" "x_row_count t = length out"
      "x_column_names t = x_column_names left @ x_column_names right"
    using hash_join_with_keys_rows [OF assms(1,2) _ assms(4-6), of x86 xxh3 jt] unfolding out_def bs_def by blast
  let ?p = "if ?swapped then r else l" and ?b = "if ?swapped then l else r"
  have b: "?b \<in> set (bs ?p)" using assms(3,7-9) by (simp add: bs_def key_value_def)
  then have "table_row (as_table left) l @ table_row (as_table right) r \<in> set (probe_output left right ?swapped jt ?p (bs ?p))"
    by (auto simp: probe_output_def pair_row_def image_iff split: if_splits)
  then have mem: "table_row (as_table left) l @ table_row (as_table right) r \<in> set out"
    using assms(7,8) by (fastforce simp: out_def)
  have "\<forall>row\<in>set out. length row = ?n"
    by (auto simp: out_def probe_output_def pair_row_def table_row_def split: if_splits)
  with table_of_cols [of "as_table t" ?n out] t mem assms(1,2) show ?thesis by (auto simp: shape_ok_def)
qed

text \<open>Key columns after the eighth do not take part in the join.\<close>

lemma later_key_columns_ignored: "8 \<le> length ks \<Longrightarrow> key_value xxh3 (ks @ zs) = key_value xxh3 ks"
  by (simp add: key_value_def pack_key_def)

text \<open>Joined with an empty table, a table loses its column map: no column of the result is found by name.\<close>

lemma cross_join_empty_side:
  "x_row_count left = 0 \<or> x_row_count right = 0 \<Longrightarrow> \<exists>t. cross_join left right = Some t \<and> (\<forall>name. lookup_col t name = None)"
  by (auto simp: cross_join_def Let_def lookup_col_def)

end
