(* ===== verification/Bit_Sliced.thy ===== *)
theory Bit_Sliced
  imports TV_Prelude
begin

text \<open>
  The bit-sliced index of src/src/index/bsi.rs: its limb bitmap and the index of 64 bitmaps, one for each bit of a
  64-bit cell, with the equality lookup. \<open>None\<close> is an index panic; debug assertions, which a release build drops,
  are left out.
\<close>

section \<open>The loop over the set bits of a word\<close>

lemma trailing_zeros_split:
  fixes w :: "'a::len word"
  assumes "w \<noteq> 0"
  shows "trailing_zeros w < LENGTH('a) \<and> bit w (trailing_zeros w) \<and> (\<forall>j<trailing_zeros w. \<not> bit w j)"
proof -
  have "\<exists>k. bit w k" using assms bit_eq_iff [of w 0] by auto
  then obtain k where k: "bit w k" "\<And>j. j < k \<Longrightarrow> \<not> bit w j" using exists_least_iff [of "bit w"] by blast
  then have n: "k < LENGTH('a)" by (auto dest: bit_imp_le_length)
  have "[0..<LENGTH('a)] = [0..<k] @ k # [Suc k..<LENGTH('a)]"
    using n upt_add_eq_append [of 0 k "LENGTH('a) - k"] upt_conv_Cons [of k "LENGTH('a)"] by simp
  then have "trailing_zeros w = k"
    using k takeWhile_append2 [of "[0..<k]" "\<lambda>i. \<not> bit w i"] by (simp add: trailing_zeros_def)
  with k n show ?thesis by simp
qed

lemma bit_clear_lowest:
  fixes w :: "'a::len word"
  assumes "w \<noteq> 0"
  shows "bit (w AND (w - 1)) j \<longleftrightarrow> bit w j \<and> j \<noteq> trailing_zeros w"
proof -
  let ?t = "trailing_zeros w"
  define u where "u = w AND NOT (2 ^ ?t)"
  note t = trailing_zeros_split [OF assms]
  have u: "bit u i \<longleftrightarrow> bit w i \<and> i \<noteq> ?t" for i
    by (auto simp: u_def bit_and_iff bit_not_iff bit_two_pow dest: bit_imp_le_length)
  have "w = u OR 2 ^ ?t" using t by (intro bit_word_eqI) (auto simp: bit_or_iff u bit_two_pow)
  also have "\<dots> = u + 2 ^ ?t"
    by (rule disjunctive_add [symmetric]) (simp add: u bit_two_pow)
  finally have w: "w = u + 2 ^ ?t" .
  have "w - 1 = u + mask ?t" by (subst w) (simp add: mask_eq_exp_minus_1)
  also have "\<dots> = u OR mask ?t"
    using t by (intro disjunctive_add) (auto simp: u bit_mask_iff)
  finally have "w - 1 = u OR mask ?t" .
  then show ?thesis using t by (auto simp: bit_and_iff bit_or_iff u bit_mask_iff dest: bit_imp_le_length)
qed

definition set_bits_of :: "'a::len word \<Rightarrow> nat list" where
  "set_bits_of w = filter (bit w) [0..<LENGTH('a)]"

lemma set_bits_step:
  fixes w :: "'a::len word"
  assumes "w \<noteq> 0"
  shows "set_bits_of w = trailing_zeros w # set_bits_of (w AND (w - 1))"
proof -
  let ?t = "trailing_zeros w"
  note t = trailing_zeros_split [OF assms]
  have s: "[0..<LENGTH('a)] = [0..<?t] @ ?t # [Suc ?t..<LENGTH('a)]"
    using t upt_add_eq_append [of 0 ?t "LENGTH('a) - ?t"] upt_conv_Cons [of ?t "LENGTH('a)"] by simp
  have e: "filter P [0..<?t] = []" if "\<And>j. j < ?t \<Longrightarrow> \<not> P j" for P using that by (simp add: filter_empty_conv)
  have "filter (bit (w AND (w - 1))) [Suc ?t..<LENGTH('a)] = filter (bit w) [Suc ?t..<LENGTH('a)]"
    by (rule filter_cong) (auto simp: bit_clear_lowest [OF assms])
  with t e [of "bit w"] e [of "bit (w AND (w - 1))"] show ?thesis
    unfolding set_bits_of_def s by (simp add: bit_clear_lowest [OF assms])
qed

lemma set_bits_of_0 [simp]: "set_bits_of 0 = []"
  by (simp add: set_bits_of_def)

text \<open>The loop \<open>while bits != 0 { f(bits.trailing_zeros()); bits &= bits - 1; }\<close> on a state.\<close>

function each_bit :: "('s \<Rightarrow> nat \<Rightarrow> 's option) \<Rightarrow> u64 \<Rightarrow> 's \<Rightarrow> 's option" where
  "each_bit f w s =
     (if w = 0 then Some s
      else case f s (trailing_zeros w) of None \<Rightarrow> None | Some s' \<Rightarrow> each_bit f (w AND (w - 1)) s')"
  by pat_completeness auto
termination
  by (relation "measure (\<lambda>(f, w, s). length (set_bits_of w))") (simp_all add: set_bits_step)

declare each_bit.simps [simp del]

primrec fold_opt :: "('s \<Rightarrow> 'a \<Rightarrow> 's option) \<Rightarrow> 'a list \<Rightarrow> 's \<Rightarrow> 's option" where
  "fold_opt f [] s = Some s"
| "fold_opt f (x # xs) s = (case f s x of None \<Rightarrow> None | Some s' \<Rightarrow> fold_opt f xs s')"

lemma each_bit_fold: "each_bit f w s = fold_opt f (set_bits_of w) s"
proof (induction f w s rule: each_bit.induct)
  case (1 f w s)
  show ?case
  proof (cases "w = 0")
    case False
    with 1 show ?thesis by (subst each_bit.simps) (simp add: set_bits_step split: option.split)
  qed (simp add: each_bit.simps)
qed

section \<open>The limb bitmap\<close>

record limb_bitmap =
  limbs :: "u64 list"
  lb_len :: nat

definition zeros :: "nat \<Rightarrow> limb_bitmap" where
  "zeros n = \<lparr>limbs = replicate ((n + 63) div 64) 0, lb_len = n\<rparr>"

definition lb_set :: "limb_bitmap \<Rightarrow> nat \<Rightarrow> limb_bitmap option" where
  "lb_set b i =
     (let limb = i div 64; k = i mod 64
      in if limb < length (limbs b) then Some (b\<lparr>limbs := (limbs b)[limb := limbs b ! limb OR push_bit k 1]\<rparr>) else None)"

definition lb_get :: "limb_bitmap \<Rightarrow> nat \<Rightarrow> bool option" where
  "lb_get b i =
     (if lb_len b \<le> i then Some False
      else let limb = i div 64; k = i mod 64
           in if limb < length (limbs b) then Some (drop_bit k (limbs b ! limb) AND 1 = 1) else None)"

definition popcount :: "limb_bitmap \<Rightarrow> nat option" where
  "popcount b =
     (let full = lb_len b div 64; tail = lb_len b mod 64
      in if length (limbs b) < full then None
         else Some (sum_list (map count_ones (take full (limbs b))) +
           (if full < length (limbs b) \<and> tail \<noteq> 0 then count_ones (limbs b ! full AND (push_bit tail 1 - 1)) else 0)))"

definition lb_zip :: "(u64 \<Rightarrow> u64 \<Rightarrow> u64) \<Rightarrow> limb_bitmap \<Rightarrow> limb_bitmap \<Rightarrow> limb_bitmap option" where
  "lb_zip f a b =
     (let out = zeros (lb_len a); ws = map2 f (limbs a) (limbs b)
      in if length ws \<le> length (limbs out) then Some (out\<lparr>limbs := patch (limbs out) 0 ws\<rparr>) else None)"

definition lb_and :: "limb_bitmap \<Rightarrow> limb_bitmap \<Rightarrow> limb_bitmap option" where
  "lb_and = lb_zip (AND)"

definition lb_or :: "limb_bitmap \<Rightarrow> limb_bitmap \<Rightarrow> limb_bitmap option" where
  "lb_or = lb_zip (OR)"

definition lb_not :: "limb_bitmap \<Rightarrow> limb_bitmap option" where
  "lb_not a =
     (let out = zeros (lb_len a); full = lb_len a div 64; tail = lb_len a mod 64
      in if length (limbs a) < full then None
         else let ws = patch (limbs out) 0 (map NOT (take full (limbs a)))
              in if tail = 0 then Some (out\<lparr>limbs := ws\<rparr>)
                 else if full < length (limbs a) then Some (out\<lparr>limbs := ws[full := NOT (limbs a ! full) AND (push_bit tail 1 - 1)]\<rparr>)
                 else None)"

primrec indices_loop :: "nat \<Rightarrow> nat \<Rightarrow> u64 list \<Rightarrow> nat list \<Rightarrow> nat list option" where
  "indices_loop n limb_idx [] out = Some out"
| "indices_loop n limb_idx (limb # ls) out =
     (if limb = 0 then indices_loop n (limb_idx + 1) ls out
      else case each_bit (\<lambda>out k. let idx = limb_idx * 64 + k in Some (if idx < n then out @ [idx] else out)) limb out of
             None \<Rightarrow> None
           | Some out \<Rightarrow> indices_loop n (limb_idx + 1) ls out)"

definition set_indices :: "limb_bitmap \<Rightarrow> nat list option" where
  "set_indices b = (case popcount b of None \<Rightarrow> None | Some _ \<Rightarrow> indices_loop (lb_len b) 0 (limbs b) [])"

definition lb_byte_size :: "limb_bitmap \<Rightarrow> nat" where
  "lb_byte_size b = length (limbs b) * 8"

section \<open>The index\<close>

record bit_sliced_index =
  slices :: "limb_bitmap list"
  bsi_len :: nat

primrec build_rows :: "u64 list \<Rightarrow> nat \<Rightarrow> limb_bitmap list \<Rightarrow> limb_bitmap list option" where
  "build_rows [] row sl = Some sl"
| "build_rows (cell # cells) row sl =
     (case each_bit (\<lambda>sl b. if b < length sl then map_option (\<lambda>s. sl[b := s]) (lb_set (sl ! b) row) else None) cell sl of
        None \<Rightarrow> None
      | Some sl \<Rightarrow> build_rows cells (row + 1) sl)"

definition bsi_build :: "u64 list \<Rightarrow> bit_sliced_index option" where
  "bsi_build cells =
     map_option (\<lambda>sl. \<lparr>slices = sl, bsi_len = length cells\<rparr>) (build_rows cells 0 (map (\<lambda>_. zeros (length cells)) [0..<64]))"

text \<open>What slice \<open>i\<close> contributes to the lookup of \<open>target\<close>.\<close>

definition contribution :: "bit_sliced_index \<Rightarrow> u64 \<Rightarrow> nat \<Rightarrow> limb_bitmap option" where
  "contribution ix target i =
     (if i < length (slices ix)
      then if drop_bit i target AND 1 \<noteq> 0 then Some (slices ix ! i) else lb_not (slices ix ! i)
      else None)"

definition find_eq :: "bit_sliced_index \<Rightarrow> u64 \<Rightarrow> limb_bitmap option" where
  "find_eq ix target =
     (if bsi_len ix = 0 then Some (zeros 0)
      else case contribution ix target 0 of
             None \<Rightarrow> None
           | Some acc \<Rightarrow>
               fold_opt (\<lambda>acc i. case contribution ix target i of None \<Rightarrow> None | Some c \<Rightarrow> lb_and acc c) [1..<64] acc)"

definition bsi_byte_size :: "bit_sliced_index \<Rightarrow> nat" where
  "bsi_byte_size ix = sum_list (map lb_byte_size (slices ix))"

section \<open>Rows of a limb bitmap\<close>

definition limb_bit :: "u64 list \<Rightarrow> nat \<Rightarrow> bool" where
  "limb_bit ws i \<longleftrightarrow> i div 64 < length ws \<and> bit (ws ! (i div 64)) (i mod 64)"

text \<open>A bitmap holds a list of rows: one limb for 64 rows, and no bit beyond the rows.\<close>

definition lb_holds :: "limb_bitmap \<Rightarrow> bool list \<Rightarrow> bool" where
  "lb_holds b rs \<longleftrightarrow> lb_len b = length rs \<and> length (limbs b) = (length rs + 63) div 64 \<and>
     (\<forall>i. limb_bit (limbs b) i \<longleftrightarrow> i < length rs \<and> rs ! i)"

lemma row_limb: "i < n \<Longrightarrow> i div 64 < (n + 63) div 64" for i n :: nat
  by linarith

lemma div_mod_64_eq: "i div 64 = j div 64 \<Longrightarrow> i mod 64 = j mod 64 \<longleftrightarrow> i = (j :: nat)"
  by (metis mod_div_mult_eq)

lemma holds_lengths: "lb_holds b rs \<Longrightarrow> lb_len b = length rs" "lb_holds b rs \<Longrightarrow> length (limbs b) = (length rs + 63) div 64"
  and holds_limb_bit: "lb_holds b rs \<Longrightarrow> limb_bit (limbs b) i \<longleftrightarrow> i < length rs \<and> rs ! i"
  by (simp_all add: lb_holds_def)

lemma holds_row:
  assumes "lb_holds b rs" and "i < length rs"
  shows "i div 64 < length (limbs b)" "bit (limbs b ! (i div 64)) (i mod 64) = rs ! i"
  using holds_limb_bit [OF assms(1), of i] row_limb [OF assms(2)] holds_lengths [OF assms(1)] assms(2) by (simp_all add: limb_bit_def)

lemma lb_holdsI:
  "n = length rs \<Longrightarrow> length ws = (length rs + 63) div 64 \<Longrightarrow> (\<And>i. limb_bit ws i \<longleftrightarrow> i < length rs \<and> rs ! i) \<Longrightarrow>
   lb_holds \<lparr>limbs = ws, lb_len = n\<rparr> rs"
  by (simp add: lb_holds_def)

lemma zeros_holds: "lb_holds (zeros n) (replicate n False)"
  by (auto simp: lb_holds_def zeros_def limb_bit_def)

lemma lb_set_holds:
  assumes "lb_holds b rs" and "i < length rs"
  shows "\<exists>b'. lb_set b i = Some b' \<and> lb_holds b' (rs[i := True])"
proof -
  let ?ws = "(limbs b)[i div 64 := limbs b ! (i div 64) OR push_bit (i mod 64) 1]"
  have i: "i div 64 < length (limbs b)" using assms row_limb by (simp add: lb_holds_def)
  have "limb_bit ?ws j \<longleftrightarrow> limb_bit (limbs b) j \<or> j = i" for j
    using i div_mod_64_eq [of j i] by (auto simp: limb_bit_def nth_list_update bit_or_iff bit_two_pow)
  then have "lb_holds (b\<lparr>limbs := ?ws\<rparr>) (rs[i := True])"
    using assms by (auto simp: lb_holds_def nth_list_update)
  with i show ?thesis by (simp add: lb_set_def Let_def)
qed

lemma lb_get_holds:
  assumes "lb_holds b rs"
  shows "lb_get b i = Some (i < length rs \<and> rs ! i)"
proof (cases "i < length rs")
  case True
  note holds_row [OF assms True]
  moreover have "drop_bit k w AND 1 = 1 \<longleftrightarrow> bit w k" for k and w :: u64
    by (simp add: bit_iff_odd_drop_bit and_one_eq mod_2_eq_odd)
  ultimately show ?thesis using True holds_lengths [OF assms] by (simp add: lb_get_def Let_def)
qed (use assms in \<open>simp add: lb_get_def lb_holds_def\<close>)

lemma lb_zip_holds:
  assumes "lb_holds a as" "lb_holds b bs" and "length as = length bs" and "\<And>x y k. bit (f x y) k \<longleftrightarrow> g (bit x k) (bit y k)" and "\<not> g False False"
  shows "\<exists>c. lb_zip f a b = Some c \<and> lb_holds c (map2 g as bs)"
proof -
  let ?ws = "map2 f (limbs a) (limbs b)"
  have len: "length (limbs a) = (length bs + 63) div 64" "length (limbs b) = (length bs + 63) div 64" using assms(3) holds_lengths [OF assms(1)] holds_lengths [OF assms(2)] by simp_all
  have bits: "limb_bit ?ws i \<longleftrightarrow> i < length bs \<and> g (as ! i) (bs ! i)" for i
  proof (cases "i < length bs")
    case True
    with holds_row [OF assms(1)] holds_row [OF assms(2)] assms(3) show ?thesis by (simp add: limb_bit_def assms(4))
  next
    case False
    with assms(3) have "\<not> limb_bit (limbs a) i" "\<not> limb_bit (limbs b) i" using holds_limb_bit [OF assms(1)] holds_limb_bit [OF assms(2)] by simp_all
    with False len assms(4,5) show ?thesis by (auto simp: limb_bit_def)
  qed
  have "lb_holds \<lparr>limbs = ?ws, lb_len = lb_len a\<rparr> (map2 g as bs)"
    by (rule lb_holdsI) (use holds_lengths [OF assms(1)] len assms(3) bits in \<open>simp_all cong: conj_cong\<close>)
  then show ?thesis using holds_lengths [OF assms(1)] assms(3) len by (simp add: lb_zip_def zeros_def Let_def patch_def)
qed

lemma lb_and_holds: "lb_holds a as \<Longrightarrow> lb_holds b bs \<Longrightarrow> length as = length bs \<Longrightarrow> \<exists>c. lb_and a b = Some c \<and> lb_holds c (map2 (\<and>) as bs)"
  unfolding lb_and_def by (rule lb_zip_holds) (simp_all add: bit_and_iff)

lemma lb_or_holds: "lb_holds a as \<Longrightarrow> lb_holds b bs \<Longrightarrow> length as = length bs \<Longrightarrow> \<exists>c. lb_or a b = Some c \<and> lb_holds c (map2 (\<or>) as bs)"
  unfolding lb_or_def by (rule lb_zip_holds) (simp_all add: bit_or_iff)

text \<open>The partial last limb.\<close>

lemma mask_tail: "k < 64 \<Longrightarrow> bit (push_bit tail 1 - 1 :: u64) k \<longleftrightarrow> k < tail"
  by (simp add: mask_eq_exp_minus_1 [symmetric] bit_mask_iff)

lemma limbs_split:
  fixes n :: nat
  shows "(n + 63) div 64 = n div 64 + (if n mod 64 = 0 then 0 else 1)"
proof (cases "n mod 64 = 0")
  case True
  then have "(n + 63) div 64 = n div 64" using mult_div_mod_eq [of 64 n] by linarith
  with True show ?thesis by simp
next
  case False
  then have "(n + 63) div 64 = n div 64 + 1" using mult_div_mod_eq [of 64 n] by linarith
  with False show ?thesis by simp
qed

lemma row_position: "i < n \<longleftrightarrow> i div 64 < n div 64 \<or> i div 64 = n div 64 \<and> i mod 64 < n mod 64" for i n :: nat
  using mult_div_mod_eq [of 64 n] mult_div_mod_eq [of 64 i] mod_less_divisor [of 64 i] mod_less_divisor [of 64 n] by linarith

lemma lb_not_holds:
  assumes "lb_holds a rs"
  shows "\<exists>c. lb_not a = Some c \<and> lb_holds c (map Not rs)"
proof -
  let ?n = "length rs" and ?full = "length rs div 64" and ?tail = "length rs mod 64"
  let ?ws = "patch (limbs (zeros ?n)) 0 (map NOT (take ?full (limbs a)))"
  let ?out = "if ?tail = 0 then ?ws else ?ws[?full := NOT (limbs a ! ?full) AND (push_bit ?tail 1 - 1)]"
  have len: "lb_len a = ?n" "length (limbs a) = (?n + 63) div 64" using holds_lengths [OF assms] by simp_all
  have ws: "?ws ! j = NOT (limbs a ! j)" if "j < ?full" for j
    using that len limbs_split [of ?n] by (simp add: patch_def zeros_def nth_append)
  have lws: "length ?ws = (?n + 63) div 64" using len limbs_split [of ?n] by (simp add: patch_def zeros_def)
  have bits: "limb_bit ?out i \<longleftrightarrow> i < ?n \<and> \<not> rs ! i" for i
  proof -
    have a: "i div 64 < (?n + 63) div 64 \<and> bit (limbs a ! (i div 64)) (i mod 64) \<longleftrightarrow> i < ?n \<and> rs ! i"
      using holds_limb_bit [OF assms, of i] len by (simp add: limb_bit_def)
    show ?thesis
    proof (cases "i div 64 < ?full")
      case True
      then have "i < ?n" "i div 64 < (?n + 63) div 64" using limbs_split [of ?n] row_position [of i ?n] by simp_all
      with True a ws [OF True] show ?thesis by (auto simp: limb_bit_def lws bit_not_iff nth_list_update)
    next
      case False
      show ?thesis
      proof (cases "?tail \<noteq> 0 \<and> i div 64 = ?full")
        case True
        then have "i < ?n \<longleftrightarrow> i mod 64 < ?tail" "i div 64 < (?n + 63) div 64"
          using limbs_split [of ?n] row_position [of i ?n] by simp_all
        with True a mask_tail [of "i mod 64" ?tail] show ?thesis
          by (auto simp: limb_bit_def lws bit_and_iff bit_not_iff)
      next
        case no: False
        with False have "\<not> i div 64 < (?n + 63) div 64" using limbs_split [of ?n] by auto
        moreover from this have "\<not> i < ?n" using row_limb by blast
        ultimately show ?thesis by (simp add: limb_bit_def lws)
      qed
    qed
  qed
  have "length ?out = (?n + 63) div 64" using lws by simp
  then have "lb_holds \<lparr>limbs = ?out, lb_len = ?n\<rparr> (map Not rs)"
    by (intro lb_holdsI) (use bits in \<open>simp_all cong: conj_cong\<close>)
  moreover have "lb_not a = Some \<lparr>limbs = ?out, lb_len = ?n\<rparr>"
    using len limbs_split [of ?n] by (auto simp: lb_not_def Let_def zeros_def)
  ultimately show ?thesis by blast
qed

text \<open>The set bits of a list of limbs.\<close>

definition limb_indices :: "nat \<Rightarrow> u64 list \<Rightarrow> nat list" where
  "limb_indices off ws = concat (map (\<lambda>j. map (\<lambda>k. (off + j) * 64 + k) (set_bits_of (ws ! j))) [0..<length ws])"

lemma limb_indices_Cons: "limb_indices off (w # ws) = map (\<lambda>k. off * 64 + k) (set_bits_of w) @ limb_indices (Suc off) ws"
  by (simp add: limb_indices_def upt_conv_Cons map_Suc_upt [symmetric] comp_def ac_simps del: upt_Suc)

lemma limb_indices_eq: "limb_indices 0 ws = filter (limb_bit ws) [0..<64 * length ws]"
proof (induction ws rule: rev_induct)
  case (snoc w ws)
  have "[0..<64 * length (ws @ [w])] = [0..<64 * length ws] @ map (\<lambda>k. length ws * 64 + k) [0..<64]"
    using upt_add_eq_append [of 0 "64 * length ws" 64] map_add_upt [of "length ws * 64" 64] by (simp add: mult.commute add.commute)
  moreover have "filter (limb_bit (ws @ [w])) [0..<64 * length ws] = filter (limb_bit ws) [0..<64 * length ws]"
    by (rule filter_cong) (auto simp: limb_bit_def nth_append less_mult_imp_div_less mult.commute)
  moreover have "filter (limb_bit (ws @ [w])) (map (\<lambda>k. length ws * 64 + k) [0..<64]) = map (\<lambda>k. length ws * 64 + k) (set_bits_of w)"
    by (auto simp: set_bits_of_def filter_map comp_def limb_bit_def nth_append intro!: arg_cong [where f = "map _"] filter_cong)
  moreover have "limb_indices 0 (ws @ [w]) = limb_indices 0 ws @ map (\<lambda>k. length ws * 64 + k) (set_bits_of w)"
    by (auto simp: limb_indices_def nth_append intro!: arg_cong [where f = concat])
  ultimately show ?case using snoc by (simp only: filter_append)
qed (simp add: limb_indices_def)

lemma fold_opt_filter:
  "fold_opt (\<lambda>out k. Some (if P k then out @ [g k] else out)) ks out = Some (out @ map g (filter P ks))"
  by (induction ks arbitrary: out) simp_all

lemma indices_loop_ok: "indices_loop n off ws out = Some (out @ filter (\<lambda>i. i < n) (limb_indices off ws))"
proof (induction ws arbitrary: off out)
  case (Cons w ws)
  have "each_bit (\<lambda>out k. let idx = off * 64 + k in Some (if idx < n then out @ [idx] else out)) w out =
      Some (out @ filter (\<lambda>i. i < n) (map (\<lambda>k. off * 64 + k) (set_bits_of w)))"
    using fold_opt_filter [of "\<lambda>k. off * 64 + k < n" "\<lambda>k. off * 64 + k"] by (simp add: each_bit_fold Let_def filter_map comp_def)
  with Cons show ?case by (simp add: limb_indices_Cons)
qed (simp add: limb_indices_def)

lemma holds_indices:
  assumes "lb_holds b rs"
  shows "filter (limb_bit (limbs b)) [0..<64 * length (limbs b)] = filter (\<lambda>i. rs ! i) [0..<length rs]"
proof -
  have le: "length rs \<le> 64 * length (limbs b)" using assms unfolding lb_holds_def by linarith
  have "filter (limb_bit (limbs b)) [0..<64 * length (limbs b)] = filter (\<lambda>i. i < length rs \<and> rs ! i) [0..<64 * length (limbs b)]"
    using assms by (intro filter_cong) (simp_all add: lb_holds_def)
  also have "\<dots> = filter (\<lambda>i. i < length rs \<and> rs ! i) ([0..<length rs] @ [length rs..<64 * length (limbs b)])"
    using le upt_add_eq_append [of 0 "length rs" "64 * length (limbs b) - length rs"] by simp
  also have "\<dots> = filter (\<lambda>i. i < length rs \<and> rs ! i) [0..<length rs]" by (simp add: filter_empty_conv)
  also have "\<dots> = filter (\<lambda>i. rs ! i) [0..<length rs]" by (rule filter_cong) simp_all
  finally show ?thesis .
qed

lemma count_ones_set_bits: "count_ones w = length (set_bits_of w)"
  by (simp add: count_ones_def set_bits_of_def)

lemma sum_count_ones: "sum_list (map count_ones ws) = length (limb_indices off ws)"
  by (induction ws arbitrary: off) (simp_all add: limb_indices_Cons count_ones_set_bits, simp add: limb_indices_def)

lemma popcount_holds:
  assumes "lb_holds b rs"
  shows "popcount b = Some (length (filter (\<lambda>r. r) rs))"
proof -
  let ?n = "length rs" and ?full = "length rs div 64" and ?tail = "length rs mod 64"
  note len = holds_lengths [OF assms] limbs_split [of ?n]
  have "sum_list (map count_ones (limbs b)) = length (filter (\<lambda>i. rs ! i) [0..<?n])"
    using sum_count_ones [of "limbs b" 0] holds_indices [OF assms] by (simp add: limb_indices_eq)
  also have "\<dots> = length (filter (\<lambda>r. r) rs)"
    using filter_map [of "\<lambda>r. r" "\<lambda>i. rs ! i" "[0..<?n]"] by (simp add: map_nth comp_def)
  finally have all: "sum_list (map count_ones (limbs b)) = length (filter (\<lambda>r. r) rs)" .
  show ?thesis
  proof (cases "?tail = 0")
    case True
    with len all show ?thesis by (simp add: popcount_def Let_def)
  next
    case False
    then have l: "length (limbs b) = Suc ?full" using len by simp
    have "limbs b ! ?full AND (push_bit ?tail 1 - 1) = limbs b ! ?full"
    proof (rule bit_word_eqI)
      fix k assume "k < LENGTH(64)"
      then have k: "k < 64" by simp
      have "bit (limbs b ! ?full) k \<Longrightarrow> k < ?tail"
        using holds_limb_bit [OF assms, of "64 * ?full + k"] k l row_position [of "64 * ?full + k" ?n] by (simp add: limb_bit_def)
      then show "bit (limbs b ! ?full AND (push_bit ?tail 1 - 1)) k = bit (limbs b ! ?full) k"
        using mask_tail [OF k, of ?tail] by (auto simp: bit_and_iff)
    qed
    moreover have "sum_list (map count_ones (limbs b)) = sum_list (map count_ones (take ?full (limbs b) @ [limbs b ! ?full]))"
      using l take_Suc_conv_app_nth [of ?full "limbs b"] by simp
    ultimately show ?thesis using all False l holds_lengths [OF assms] by (simp add: popcount_def Let_def)
  qed
qed

lemma set_indices_holds:
  assumes "lb_holds b rs"
  shows "set_indices b = Some (filter (\<lambda>i. rs ! i) [0..<length rs])"
proof -
  have "filter (\<lambda>i. i < length rs) (filter (\<lambda>i. rs ! i) [0..<length rs]) = filter (\<lambda>i. rs ! i) [0..<length rs]"
    by (rule filter_True) simp
  then show ?thesis using popcount_holds [OF assms] holds_lengths [OF assms] holds_indices [OF assms]
    by (simp add: set_indices_def indices_loop_ok limb_indices_eq)
qed

section \<open>The index holds the bits of the column\<close>

text \<open>The slices after the cells \<open>done\<close>, when \<open>n\<close> rows are allocated.\<close>

definition slices_hold :: "limb_bitmap list \<Rightarrow> u64 list \<Rightarrow> nat \<Rightarrow> bool" where
  "slices_hold sl cells n \<longleftrightarrow> length sl = 64 \<and>
     (\<forall>k<64. lb_holds (sl ! k) (map (\<lambda>c. bit c k) cells @ replicate (n - length cells) False))"

lemma set_row_bits:
  assumes "length sl = 64" and "row < n" and "\<forall>k<64. length (rs k) = n \<and> lb_holds (sl ! k) (rs k)" and "\<forall>k\<in>set ks. k < 64"
  shows "\<exists>sl'. fold_opt (\<lambda>sl b. if b < length sl then map_option (\<lambda>s. sl[b := s]) (lb_set (sl ! b) row) else None) ks sl = Some sl' \<and>
    length sl' = 64 \<and> (\<forall>k<64. lb_holds (sl' ! k) (if k \<in> set ks then (rs k)[row := True] else rs k))"
  using assms
proof (induction ks arbitrary: sl rs)
  case (Cons b ks)
  have "b < 64" using Cons.prems(4) by simp
  then obtain s where s: "lb_set (sl ! b) row = Some s" "lb_holds s ((rs b)[row := True])"
    using lb_set_holds [of "sl ! b" "rs b" row] Cons.prems(2,3) by auto
  let ?rs = "\<lambda>k. if k = b then (rs b)[row := True] else rs k"
  have "\<forall>k<64. length (?rs k) = n \<and> lb_holds (sl[b := s] ! k) (?rs k)"
    using Cons.prems(1,3) s(2) by (auto simp: nth_list_update)
  from Cons.IH [of "sl[b := s]" ?rs, OF _ _ this] Cons.prems
  obtain sl' where "fold_opt (\<lambda>sl b. if b < length sl then map_option (\<lambda>s. sl[b := s]) (lb_set (sl ! b) row) else None) ks (sl[b := s]) = Some sl'"
    "length sl' = 64" "\<forall>k<64. lb_holds (sl' ! k) (if k \<in> set ks then (?rs k)[row := True] else ?rs k)" by auto
  moreover have "(if k \<in> set ks then (?rs k)[row := True] else ?rs k) = (if k \<in> set (b # ks) then (rs k)[row := True] else rs k)" for k by auto
  ultimately show ?case using s(1) \<open>b < 64\<close> Cons.prems(1) by simp
qed simp

lemma build_rows_ok:
  assumes "slices_hold sl cells n" and "length cells + length more_cells \<le> n"
  shows "\<exists>sl'. build_rows more_cells (length cells) sl = Some sl' \<and> slices_hold sl' (cells @ more_cells) n"
  using assms
proof (induction more_cells arbitrary: cells sl)
  case (Cons c cs)
  let ?rs = "\<lambda>k. map (\<lambda>c. bit c k) cells @ replicate (n - length cells) False"
  have "\<forall>k<64. length (?rs k) = n \<and> lb_holds (sl ! k) (?rs k)" "length sl = 64" using Cons.prems by (simp_all add: slices_hold_def)
  from set_row_bits [OF this(2) _ this(1), of "length cells" "set_bits_of c"] Cons.prems(2)
  obtain sl' where sl': "each_bit (\<lambda>sl b. if b < length sl then map_option (\<lambda>s. sl[b := s]) (lb_set (sl ! b) (length cells)) else None) c sl = Some sl'"
    "length sl' = 64" "\<forall>k<64. lb_holds (sl' ! k) (if k \<in> set (set_bits_of c) then (?rs k)[length cells := True] else ?rs k)"
    by (auto simp: each_bit_fold set_bits_of_def)
  have "(if k \<in> set (set_bits_of c) then (?rs k)[length cells := True] else ?rs k) =
      map (\<lambda>c. bit c k) (cells @ [c]) @ replicate (n - length (cells @ [c])) False" if "k < 64" for k
  proof -
    have "replicate (n - length cells) False = False # replicate (n - Suc (length cells)) False"
      using Cons.prems(2) by (simp add: Suc_diff_Suc replicate_Suc [symmetric] del: replicate_Suc)
    with that show ?thesis by (auto simp: set_bits_of_def list_update_append)
  qed
  with sl'(2,3) have "slices_hold sl' (cells @ [c]) n" by (simp add: slices_hold_def)
  from Cons.IH [OF this] Cons.prems(2) sl'(1) show ?case by simp
qed simp

lemma bsi_build_ok: "\<exists>ix. bsi_build cells = Some ix \<and> bsi_len ix = length cells \<and> slices_hold (slices ix) cells (length cells)"
proof -
  have "slices_hold (map (\<lambda>_. zeros (length cells)) [0..<64]) [] (length cells)"
    using zeros_holds by (simp add: slices_hold_def)
  from build_rows_ok [OF this, of cells] show ?thesis by (auto simp: bsi_build_def)
qed

lemma contribution_ok:
  assumes "slices_hold (slices ix) cells (length cells)" and "i < 64"
  shows "\<exists>c. contribution ix target i = Some c \<and> lb_holds c (map (\<lambda>c. bit c i = bit target i) cells)"
proof -
  have h: "lb_holds (slices ix ! i) (map (\<lambda>c. bit c i) cells)" "length (slices ix) = 64" using assms by (simp_all add: slices_hold_def)
  have t: "drop_bit i target AND 1 \<noteq> 0 \<longleftrightarrow> bit target i" by (simp add: bit_iff_odd_drop_bit and_one_eq mod_2_eq_odd)
  show ?thesis using lb_not_holds [OF h(1)] h assms(2) by (cases "bit target i") (auto simp: contribution_def t comp_def)
qed

lemma find_eq_ok:
  assumes "slices_hold (slices ix) cells (length cells)" and "bsi_len ix = length cells"
  shows "\<exists>b. find_eq ix target = Some b \<and> lb_holds b (map (\<lambda>c. c = target) cells)"
proof (cases "cells = []")
  case True
  then show ?thesis using assms zeros_holds [of 0] by (simp add: find_eq_def)
next
  case False
  let ?f = "\<lambda>acc i. case contribution ix target i of None \<Rightarrow> None | Some c \<Rightarrow> lb_and acc c"
  have step: "\<exists>b. fold_opt ?f [m..<64] acc = Some b \<and> lb_holds b (map (\<lambda>c. \<forall>i<64. bit c i = bit target i) cells)"
    if "lb_holds acc (map (\<lambda>c. \<forall>i<m. bit c i = bit target i) cells)" "m \<le> 64" for m acc
    using that(2,1)
  proof (induction m arbitrary: acc rule: inc_induct)
    case (step m)
    obtain c where c: "contribution ix target m = Some c" "lb_holds c (map (\<lambda>c. bit c m = bit target m) cells)"
      using contribution_ok [OF assms(1) step.hyps(2)] by blast
    obtain a where a: "lb_and acc c = Some a" "lb_holds a (map2 (\<and>) (map (\<lambda>c. \<forall>i<m. bit c i = bit target i) cells) (map (\<lambda>c. bit c m = bit target m) cells))"
      using lb_and_holds [OF step.prems c(2)] by auto
    have "map2 (\<and>) (map (\<lambda>c. \<forall>i<m. bit c i = bit target i) cells) (map (\<lambda>c. bit c m = bit target m) cells) =
        map (\<lambda>c. \<forall>i<Suc m. bit c i = bit target i) cells" by (auto simp: less_Suc_eq intro!: nth_equalityI)
    with a have "lb_holds a (map (\<lambda>c. \<forall>i<Suc m. bit c i = bit target i) cells)" by simp
    from step.IH [OF this] c a(1) step.hyps(2) show ?case by (simp add: upt_conv_Cons)
  qed simp
  obtain c where c: "contribution ix target 0 = Some c" "lb_holds c (map (\<lambda>c. bit c 0 = bit target 0) cells)"
    using contribution_ok [OF assms(1), of 0] by auto
  have "(\<forall>i<64. bit c i = bit target i) \<longleftrightarrow> c = target" for c by (auto intro: bit_word_eqI)
  with step [of c 1] c False assms(2) show ?thesis by (simp add: find_eq_def)
qed

text \<open>C35: The bit-sliced index finds exactly the rows of a column with a given value: building it from any column
  never panics, the bitmap \<open>find_eq\<close> returns has exactly those rows set, \<open>set_indices\<close> lists them in ascending order
  and \<open>popcount\<close> counts them.\<close>

theorem bsi_find_eq_correct:
  "\<exists>ix b. bsi_build cells = Some ix \<and> find_eq ix target = Some b \<and>
     (\<forall>i. lb_get b i = Some (i < length cells \<and> cells ! i = target)) \<and>
     set_indices b = Some (filter (\<lambda>i. cells ! i = target) [0..<length cells]) \<and>
     popcount b = Some (count_list cells target)"
proof -
  obtain ix where ix: "bsi_build cells = Some ix" "bsi_len ix = length cells" "slices_hold (slices ix) cells (length cells)"
    using bsi_build_ok by blast
  obtain b where b: "find_eq ix target = Some b" "lb_holds b (map (\<lambda>c. c = target) cells)" using find_eq_ok [OF ix(3,2)] by blast
  have "lb_get b i = Some (i < length cells \<and> cells ! i = target)" for i using lb_get_holds [OF b(2)] by auto
  moreover have "set_indices b = Some (filter (\<lambda>i. cells ! i = target) [0..<length cells])"
    using set_indices_holds [OF b(2)] by (auto intro!: filter_cong)
  moreover have "popcount b = Some (count_list cells target)"
    using popcount_holds [OF b(2)] by (auto simp: filter_map comp_def count_list_eq_length_filter intro!: arg_cong [where f = length] filter_cong)
  ultimately show ?thesis using ix(1) b(1) by blast
qed

end
