(* ===== verification/Zone_Map.thy ===== *)
theory Zone_Map
  imports TV_Prelude
begin

text \<open>
  The zone maps of src/src/exec/zone_map.rs: the least and the greatest cell of every page of 1024 rows of a column,
  with which a scan skips the pages that cannot hold a value of a range.
\<close>

section \<open>The zone map\<close>

definition PAGE_ROWS :: nat where
  "PAGE_ROWS = 1024"

record zone_map =
  zm_mins :: "u64 list"
  zm_maxs :: "u64 list"
  zm_num_pages :: nat
  zm_total_rows :: nat

text \<open>The loop over one page.\<close>

primrec minmax_loop :: "u64 list \<Rightarrow> nat list \<Rightarrow> u64 \<Rightarrow> u64 \<Rightarrow> u64 \<times> u64" where
  "minmax_loop col [] mn mx = (mn, mx)"
| "minmax_loop col (i # is) mn mx =
     (let v = col ! i in minmax_loop col is (if v < mn then v else mn) (if mx < v then v else mx))"

definition page_minmax :: "u64 list \<Rightarrow> nat \<Rightarrow> u64 \<times> u64" where
  "page_minmax col page_idx =
     (let start = page_idx * PAGE_ROWS; stop = min (start + PAGE_ROWS) (length col)
      in minmax_loop col [start..<stop] (- 1) 0)"

definition zm_build :: "u64 list \<Rightarrow> zone_map" where
  "zm_build col =
     (let total_rows = length col;
          num_pages = (total_rows + PAGE_ROWS - 1) div PAGE_ROWS;
          pages = map (page_minmax col) [0..<num_pages]
      in \<lparr>zm_mins = map fst pages, zm_maxs = map snd pages, zm_num_pages = num_pages, zm_total_rows = total_rows\<rparr>)"

definition page_might_contain_range :: "zone_map \<Rightarrow> nat \<Rightarrow> u64 \<Rightarrow> u64 \<Rightarrow> bool" where
  "page_might_contain_range zm page_idx lo hi \<longleftrightarrow>
     (if zm_num_pages zm \<le> page_idx then False else lo \<le> zm_maxs zm ! page_idx \<and> zm_mins zm ! page_idx \<le> hi)"

definition page_might_contain_value :: "zone_map \<Rightarrow> nat \<Rightarrow> u64 \<Rightarrow> bool" where
  "page_might_contain_value zm page_idx val \<longleftrightarrow>
     (if zm_num_pages zm \<le> page_idx then False else zm_mins zm ! page_idx \<le> val \<and> val \<le> zm_maxs zm ! page_idx)"

primrec pages_loop :: "zone_map \<Rightarrow> u64 \<Rightarrow> u64 \<Rightarrow> nat list \<Rightarrow> nat list \<Rightarrow> nat list" where
  "pages_loop zm lo hi [] result = result"
| "pages_loop zm lo hi (i # is) result =
     pages_loop zm lo hi is (if page_might_contain_range zm i lo hi then result @ [i] else result)"

definition pages_in_range :: "zone_map \<Rightarrow> u64 \<Rightarrow> u64 \<Rightarrow> nat list" where
  "pages_in_range zm lo hi = pages_loop zm lo hi [0..<zm_num_pages zm] []"

definition page_row_range :: "zone_map \<Rightarrow> nat \<Rightarrow> nat \<times> nat" where
  "page_row_range zm page_idx =
     (let start = page_idx * PAGE_ROWS in (start, min (start + PAGE_ROWS) (zm_total_rows zm)))"

type_synonym table_zone_maps = "zone_map option list"

definition tzm_build :: "u64 list list \<Rightarrow> table_zone_maps" where
  "tzm_build cols = map (\<lambda>col. Some (zm_build col)) cols"

definition tzm_get :: "table_zone_maps \<Rightarrow> nat \<Rightarrow> zone_map option" where
  "tzm_get maps col_idx = (if col_idx < length maps then maps ! col_idx else None)"

section \<open>Bounds of a page\<close>

lemma minmax_loop_bounds:
  "minmax_loop col is mn mx = (mn', mx') \<Longrightarrow> mn' \<le> mn \<and> mx \<le> mx' \<and> (\<forall>i\<in>set is. mn' \<le> col ! i \<and> col ! i \<le> mx')"
proof (induction "is" arbitrary: mn mx)
  case (Cons i "is")
  from Cons.IH [OF Cons.prems [unfolded minmax_loop.simps Let_def]] show ?case by (auto split: if_splits)
qed simp

lemma minmax_loop_attained:
  "minmax_loop col is mn mx = (mn', mx') \<Longrightarrow> (mn' = mn \<or> (\<exists>i\<in>set is. mn' = col ! i)) \<and> (mx' = mx \<or> (\<exists>i\<in>set is. mx' = col ! i))"
proof (induction "is" arbitrary: mn mx)
  case (Cons i "is")
  from Cons.IH [OF Cons.prems [unfolded minmax_loop.simps Let_def]] show ?case by (auto split: if_splits)
qed simp

definition page_rows :: "u64 list \<Rightarrow> nat \<Rightarrow> nat list" where
  "page_rows col p = [p * PAGE_ROWS..<min (p * PAGE_ROWS + PAGE_ROWS) (length col)]"

lemma page_rows_nonempty: "p < (length col + PAGE_ROWS - 1) div PAGE_ROWS \<Longrightarrow> page_rows col p \<noteq> []"
proof -
  assume "p < (length col + PAGE_ROWS - 1) div PAGE_ROWS"
  then have "p * 1024 < length col" unfolding PAGE_ROWS_def by linarith
  then show ?thesis by (auto simp: page_rows_def PAGE_ROWS_def min_def)
qed

text \<open>The entries of a page are the minimum and the maximum of its cells.\<close>

lemma page_minmax_eq:
  assumes "p < (length col + PAGE_ROWS - 1) div PAGE_ROWS"
  shows "page_minmax col p = (Min ((!) col ` set (page_rows col p)), Max ((!) col ` set (page_rows col p)))"
proof -
  let ?cs = "(!) col ` set (page_rows col p)"
  obtain mn mx where m: "page_minmax col p = (mn, mx)" by fastforce
  then have l: "minmax_loop col (page_rows col p) (- 1) 0 = (mn, mx)" by (simp add: page_minmax_def page_rows_def Let_def)
  obtain i where i: "i \<in> set (page_rows col p)" using page_rows_nonempty [OF assms] by (cases "page_rows col p") auto
  have b: "\<forall>i\<in>set (page_rows col p). mn \<le> col ! i \<and> col ! i \<le> mx" using minmax_loop_bounds [OF l] by blast
  have "mn \<in> ?cs"
    using minmax_loop_attained [OF l] b i word_order.extremum [of "col ! i"] by (metis (no_types, lifting) imageI image_eqI order_antisym)
  moreover have "mx \<in> ?cs"
    using minmax_loop_attained [OF l] b i by (metis (no_types, lifting) image_eqI word_le_0_iff)
  ultimately show ?thesis unfolding m using b by (auto intro!: Min_eqI [symmetric] Max_eqI [symmetric])
qed

lemma pages_loop_filter: "pages_loop zm lo hi is result = result @ filter (\<lambda>i. page_might_contain_range zm i lo hi) is"
  by (induction "is" arbitrary: result) simp_all

lemma concat_filter_skip:
  "(\<And>x. x \<in> set xs \<Longrightarrow> \<not> P x \<Longrightarrow> f x = []) \<Longrightarrow> concat (map f (filter P xs)) = concat (map f xs)"
  by (induction xs) auto

lemma kept_page:
  assumes "p < zm_num_pages (zm_build col)"
  shows "page_might_contain_range (zm_build col) p lo hi \<longleftrightarrow>
    lo \<le> Max ((!) col ` set (page_rows col p)) \<and> Min ((!) col ` set (page_rows col p)) \<le> hi"
  using assms page_minmax_eq [of p col] by (simp add: page_might_contain_range_def zm_build_def Let_def)

text \<open>C36: Zone maps skip only pages without a match. The pages \<open>pages_in_range\<close> keeps are exactly those whose
  least and greatest cells straddle the range, and scanning only their row ranges finds exactly the rows of the
  column with a cell between \<open>lo\<close> and \<open>hi\<close>, in ascending order. The same holds for one value and
  \<open>page_might_contain_value\<close>.\<close>

theorem zone_map_scan_correct:
  "concat (map (\<lambda>p. filter (\<lambda>i. lo \<le> col ! i \<and> col ! i \<le> hi) [fst (page_row_range (zm_build col) p)..<snd (page_row_range (zm_build col) p)])
      (pages_in_range (zm_build col) lo hi)) = filter (\<lambda>i. lo \<le> col ! i \<and> col ! i \<le> hi) [0..<length col] \<and>
   (p \<in> set (pages_in_range (zm_build col) lo hi) \<longleftrightarrow> p < zm_num_pages (zm_build col) \<and>
      lo \<le> Max ((!) col ` set (page_rows col p)) \<and> Min ((!) col ` set (page_rows col p)) \<le> hi) \<and>
   (page_might_contain_value (zm_build col) p v \<longleftrightarrow> p \<in> set (pages_in_range (zm_build col) v v))"
proof -
  let ?zm = "zm_build col" and ?P = "\<lambda>i. lo \<le> col ! i \<and> col ! i \<le> hi"
  have r: "[fst (page_row_range ?zm p)..<snd (page_row_range ?zm p)] = page_rows col p" for p
    by (simp add: page_row_range_def page_rows_def zm_build_def Let_def)
  have skip: "filter ?P (page_rows col p) = []" if "p < zm_num_pages ?zm" "\<not> page_might_contain_range ?zm p lo hi" for p
  proof -
    have "\<not> ?P i" if i: "i \<in> set (page_rows col p)" for i
    proof
      assume "?P i"
      moreover have "Min ((!) col ` set (page_rows col p)) \<le> col ! i" "col ! i \<le> Max ((!) col ` set (page_rows col p))" using i by simp_all
      ultimately show False using kept_page [OF \<open>p < zm_num_pages ?zm\<close>, of lo hi] \<open>\<not> page_might_contain_range ?zm p lo hi\<close> by (meson order_trans)
    qed
    then show ?thesis by (simp add: filter_empty_conv)
  qed
  have "concat (map (\<lambda>p. filter ?P (page_rows col p)) (pages_in_range ?zm lo hi)) = concat (map (\<lambda>p. filter ?P (page_rows col p)) [0..<zm_num_pages ?zm])"
    unfolding pages_in_range_def pages_loop_filter append_Nil using skip by (intro concat_filter_skip) simp
  also have "\<dots> = filter ?P (concat (map (page_rows col) [0..<zm_num_pages ?zm]))" by (simp add: filter_concat comp_def)
  also have "concat (map (page_rows col) [0..<zm_num_pages ?zm]) = [0..<length col]"
    using upt_chunks [of PAGE_ROWS "length col"] by (simp add: page_rows_def [abs_def] zm_build_def Let_def PAGE_ROWS_def)
  finally show ?thesis using kept_page [of p col lo hi] unfolding r
    by (auto simp: pages_in_range_def pages_loop_filter page_might_contain_value_def page_might_contain_range_def)
qed

end
