(* ===== verification/Kernels.thy ===== *)
theory Kernels
  imports Tier Bitmap_Kernels
begin

text \<open>
  The kernel table of src/src/kernel: the operators and their parameters, the scan kernels of kernel/scan.rs, the
  Hamming kernels of kernel/similarity.rs and the distinct count of kernel/aggregate.rs, and the registration and the
  selection of kernels by CPU and memory tier. A kernel runs on the cells its input pointer designates; the
  intrinsics work lane by lane and the prefetch hints have no effect. A sum is kept as the bits of an f64. The float
  sums and the kernels whose input holds pointers (hash build and probe, leapfrog) are a parameter \<open>rest\<close> of
  \<open>kernel_execute\<close>; the leapfrog kernel itself is in the theory Leapfrog.
\<close>

section \<open>Operators, parameters, results\<close>

datatype operator =
    ScanEqU64 | ScanRangeU64 | ScanMultiPredicate | HashBuild | HashProbe | AggregateSumF64
  | AggregateCountDistinct | SimilarityHamming | LeapfrogJoin

datatype predicate_op = PEq | PGt | PLt

record kernel_params =
  target_u64 :: u64
  low_u64 :: u64
  high_u64 :: u64
  max_distance :: u32
  cell_count :: nat
  target2_u64 :: u64
  target3_u64 :: u64
  pred1_op :: predicate_op
  pred2_op :: predicate_op
  pred3_op :: predicate_op
  predicate_count :: u8

definition default_params :: kernel_params where
  "default_params = \<lparr>target_u64 = 0, low_u64 = 0, high_u64 = - 1, max_distance = 0, cell_count = 0, target2_u64 = 0,
     target3_u64 = 0, pred1_op = PEq, pred2_op = PEq, pred3_op = PEq, predicate_count = 0\<rparr>"

record kernel_result =
  kr_count :: u64
  kr_sum :: u64
  kr_mask :: u64

definition default_result :: kernel_result where
  "default_result = \<lparr>kr_count = 0, kr_sum = 0, kr_mask = 0\<rparr>"

definition counted :: "u64 \<Rightarrow> kernel_result" where
  "counted n = \<lparr>kr_count = n, kr_sum = 0, kr_mask = 0\<rparr>"

section \<open>Loops over the cells\<close>

text \<open>\<open>for &c in cells { count += hit(c) }\<close>, and the same from index \<open>i\<close> on, the tail of the vector kernels.\<close>

primrec count_loop :: "(u64 \<Rightarrow> u64) \<Rightarrow> u64 list \<Rightarrow> u64 \<Rightarrow> u64" where
  "count_loop hit [] count = count"
| "count_loop hit (c # cs) count = count_loop hit cs (count + hit c)"

text \<open>\<open>while i + n <= cells.len() { count += body(cells[i..i + n]); i += n }\<close>, then the tail.\<close>

function vector_loop :: "nat \<Rightarrow> (u64 list \<Rightarrow> u64) \<Rightarrow> (u64 \<Rightarrow> u64) \<Rightarrow> u64 list \<Rightarrow> nat \<Rightarrow> u64 \<Rightarrow> u64" where
  "vector_loop n body hit cells i count =
     (if 0 < n \<and> i + n \<le> length cells then vector_loop n body hit cells (i + n) (count + body (window cells i n))
      else count_loop hit (drop i cells) count)"
  by pat_completeness auto
termination
  by (relation "measure (\<lambda>(n, body, hit, cells, i, count). length cells - i)") auto

declare vector_loop.simps [simp del]

text \<open>\<open>_mm512_cmp*_epi64_mask\<close> against a broadcast value, and its population count.\<close>

definition mm512_cmp :: "(u64 \<Rightarrow> u64 \<Rightarrow> bool) \<Rightarrow> u64 list \<Rightarrow> u64 \<Rightarrow> u8" where
  "mm512_cmp p v t = lane_mask p v (replicate 8 t)"

text \<open>\<open>_mm256_movemask_epi8(_mm256_cmpeq_epi64(v, t))\<close>: eight bits for a lane.\<close>

definition mm256_eq_mask :: "u64 list \<Rightarrow> u64 \<Rightarrow> u32" where
  "mm256_eq_mask v t = horner_sum of_bool 2 (concat (map (\<lambda>c. replicate 8 (c = t)) v))"

section \<open>Scan kernels\<close>

primrec eq_loop :: "u64 \<Rightarrow> u64 list \<Rightarrow> nat \<Rightarrow> u64 \<Rightarrow> u64 \<Rightarrow> u64 \<times> u64" where
  "eq_loop target [] i count m = (count, m)"
| "eq_loop target (c # cs) i count m =
     (let hit = of_bool (c = target)
      in eq_loop target cs (i + 1) (count + hit) (if i < 64 then m OR push_bit i hit else m))"

definition scan_eq_scalar :: "u64 list \<Rightarrow> kernel_params \<Rightarrow> kernel_result" where
  "scan_eq_scalar cells p =
     (case eq_loop (target_u64 p) cells 0 0 0 of (count, m) \<Rightarrow> \<lparr>kr_count = count, kr_sum = 0, kr_mask = m\<rparr>)"

definition scan_eq_avx2 :: "u64 list \<Rightarrow> kernel_params \<Rightarrow> kernel_result" where
  "scan_eq_avx2 cells p =
     counted (vector_loop 4 (\<lambda>v. of_nat (count_ones (mm256_eq_mask v (target_u64 p)) div 8))
       (\<lambda>c. of_bool (c = target_u64 p)) cells 0 0)"

text \<open>The L3 kernel also returns the mask of its first eight lanes and of the tail.\<close>

function eq_mask_loop :: "u64 \<Rightarrow> u64 list \<Rightarrow> nat \<Rightarrow> u64 \<Rightarrow> u64 \<Rightarrow> u64 \<times> u64" where
  "eq_mask_loop target cells i count first_mask =
     (if i + 8 \<le> length cells then
        (let m = mm512_cmp (=) (window cells i 8) target
         in eq_mask_loop target cells (i + 8) (count + of_nat (count_ones m)) (if i = 0 then ucast m else first_mask))
      else eq_loop target (drop i cells) i count first_mask)"
  by pat_completeness auto
termination
  by (relation "measure (\<lambda>(target, cells, i, count, m). length cells - i)") auto

declare eq_mask_loop.simps [simp del]

definition scan_eq_avx512_l3 :: "u64 list \<Rightarrow> kernel_params \<Rightarrow> kernel_result" where
  "scan_eq_avx512_l3 cells p =
     (case eq_mask_loop (target_u64 p) cells 0 0 0 of (count, m) \<Rightarrow> \<lparr>kr_count = count, kr_sum = 0, kr_mask = m\<rparr>)"

definition scan_eq_avx512_ddr5 :: "u64 list \<Rightarrow> kernel_params \<Rightarrow> kernel_result" where
  "scan_eq_avx512_ddr5 cells p =
     counted (vector_loop 8 (\<lambda>v. of_nat (count_ones (mm512_cmp (=) v (target_u64 p))))
       (\<lambda>c. of_bool (c = target_u64 p)) cells 0 0)"

definition scan_eq_avx512_cxl :: "u64 list \<Rightarrow> kernel_params \<Rightarrow> kernel_result" where
  "scan_eq_avx512_cxl cells p =
     counted (vector_loop 8 (\<lambda>v. of_nat (count_ones (mm512_cmp (=) v (target_u64 p))))
       (\<lambda>c. of_bool (c = target_u64 p)) cells 0 0)"

definition in_range :: "kernel_params \<Rightarrow> u64 \<Rightarrow> u64" where
  "in_range p c = of_bool (low_u64 p \<le> c) AND of_bool (c \<le> high_u64 p)"

definition scan_range_scalar :: "u64 list \<Rightarrow> kernel_params \<Rightarrow> kernel_result" where
  "scan_range_scalar cells p = counted (count_loop (in_range p) cells 0)"

text \<open>The epi64 comparisons of the vector loop are signed.\<close>

definition scan_range_avx512 :: "u64 list \<Rightarrow> kernel_params \<Rightarrow> kernel_result" where
  "scan_range_avx512 cells p =
     counted (vector_loop 8
       (\<lambda>v. of_nat (count_ones (mm512_cmp (\<lambda>a b. b \<le>s a) v (low_u64 p) AND mm512_cmp (\<lambda>a b. a \<le>s b) v (high_u64 p))))
       (in_range p) cells 0 0)"

definition eval_predicate :: "u64 \<Rightarrow> u64 \<Rightarrow> predicate_op \<Rightarrow> u64" where
  "eval_predicate cell target pop =
     (case pop of PEq \<Rightarrow> of_bool (cell = target) | PGt \<Rightarrow> of_bool (target < cell) | PLt \<Rightarrow> of_bool (cell < target))"

definition predicates_hit :: "kernel_params \<Rightarrow> u64 \<Rightarrow> u64" where
  "predicates_hit p c =
     (let n = min (unat (predicate_count p)) 3
      in (if 1 \<le> n then eval_predicate c (target_u64 p) (pred1_op p) else 1) AND
         (if 2 \<le> n then eval_predicate c (target2_u64 p) (pred2_op p) else 1) AND
         (if 3 \<le> n then eval_predicate c (target3_u64 p) (pred3_op p) else 1))"

definition scan_multi_scalar :: "u64 list \<Rightarrow> kernel_params \<Rightarrow> kernel_result" where
  "scan_multi_scalar cells p = counted (count_loop (predicates_hit p) cells 0)"

definition cmp_mask :: "u64 list \<Rightarrow> u64 \<Rightarrow> predicate_op \<Rightarrow> u8" where
  "cmp_mask v target pop =
     (case pop of
        PEq \<Rightarrow> mm512_cmp (=) v target
      | PGt \<Rightarrow> mm512_cmp (\<lambda>a b. b <s a) v target
      | PLt \<Rightarrow> mm512_cmp (\<lambda>a b. a <s b) v target)"

text \<open>\<open>_mm512_ternarylogic_epi64\<close> with the truth table \<open>0x80\<close> on the broadcast masks, low byte of lane 0.\<close>

definition ternary_and :: "u8 \<Rightarrow> u8 \<Rightarrow> u8 \<Rightarrow> u8" where
  "ternary_and m1 m2 m3 = ucast ((ucast m1 AND ucast m2 AND ucast m3) :: u64)"

definition scan_multi_avx512 :: "u64 list \<Rightarrow> kernel_params \<Rightarrow> kernel_result" where
  "scan_multi_avx512 cells p =
     (let n = min (unat (predicate_count p)) 3
      in counted (vector_loop 8
        (\<lambda>v. let m1 = if 1 \<le> n then cmp_mask v (target_u64 p) (pred1_op p) else 0xFF;
                 m2 = if 2 \<le> n then cmp_mask v (target2_u64 p) (pred2_op p) else 0xFF;
                 m3 = if 3 \<le> n then cmp_mask v (target3_u64 p) (pred3_op p) else 0xFF
             in of_nat (count_ones (ternary_and m1 m2 m3)))
        (predicates_hit p) cells 0 0))"

section \<open>Similarity and distinct count\<close>

definition near :: "kernel_params \<Rightarrow> u64 \<Rightarrow> u64" where
  "near p c = of_bool (count_ones (c XOR target_u64 p) \<le> unat (max_distance p))"

definition hamming_scalar :: "u64 list \<Rightarrow> kernel_params \<Rightarrow> kernel_result" where
  "hamming_scalar cells p = counted (count_loop (near p) cells 0)"

definition hamming_avx512_vpopcntdq :: "u64 list \<Rightarrow> kernel_params \<Rightarrow> kernel_result" where
  "hamming_avx512_vpopcntdq cells p =
     counted (vector_loop 8
       (\<lambda>v. of_nat (count_ones (mm512_cmp (\<lambda>a b. a \<le>s b) (map (\<lambda>c. of_nat (count_ones (c XOR target_u64 p))) v) (ucast (max_distance p)))))
       (near p) cells 0 0)"

definition hamming_avx512 :: "bool \<Rightarrow> u64 list \<Rightarrow> kernel_params \<Rightarrow> kernel_result" where
  "hamming_avx512 vpopcntdq cells p =
     (if vpopcntdq then hamming_avx512_vpopcntdq cells p else counted (count_loop (near p) cells 0))"

definition count_distinct_scalar :: "u64 list \<Rightarrow> kernel_params \<Rightarrow> kernel_result" where
  "count_distinct_scalar cells p = counted (of_nat (card (set cells)))"

section \<open>The kernel table\<close>

datatype cpu_target = Scalar | X86Avx2 | X86Avx512 | ArmNeon | ArmSve

definition has_avx512 :: "cpu_target \<Rightarrow> bool" where
  "has_avx512 c \<longleftrightarrow> c = X86Avx512"

definition has_avx2 :: "cpu_target \<Rightarrow> bool" where
  "has_avx2 c \<longleftrightarrow> c = X86Avx2 \<or> c = X86Avx512"

text \<open>\<open>detect_cpu\<close> from the build's architecture and the detected features.\<close>

definition detect_cpu :: "bool \<Rightarrow> bool \<Rightarrow> (string \<Rightarrow> bool) \<Rightarrow> cpu_target" where
  "detect_cpu x86 arm feature =
     (if x86 \<and> feature ''avx512f'' \<and> feature ''avx512vpopcntdq'' then X86Avx512
      else if x86 \<and> feature ''avx2'' then X86Avx2
      else if arm \<and> feature ''sve2'' then ArmSve
      else if arm \<and> feature ''neon'' then ArmNeon
      else Scalar)"

datatype kernel =
    ScanEqScalar | ScanRangeScalar | ScanMultiPredicateScalar | ScanEqAvx2 | ScanEqAvx512L3 | ScanEqAvx512Ddr5
  | ScanEqAvx512Cxl | ScanRangeAvx512L3 | ScanMultiPredicateAvx512 | HashBuildScalar | HashProbeScalar | HashProbeAvx512
  | SumF64Scalar | SumF64Avx2 | SumF64Avx512 | CountDistinctScalar | HammingScalar | HammingAvx512 | LeapfrogScalar

fun kernel_key :: "kernel \<Rightarrow> operator \<times> cpu_target \<times> memory_tier" where
  "kernel_key ScanEqScalar = (ScanEqU64, Scalar, L3)"
| "kernel_key ScanRangeScalar = (ScanRangeU64, Scalar, L3)"
| "kernel_key ScanMultiPredicateScalar = (ScanMultiPredicate, Scalar, L3)"
| "kernel_key ScanEqAvx2 = (ScanEqU64, X86Avx2, L3)"
| "kernel_key ScanEqAvx512L3 = (ScanEqU64, X86Avx512, L3)"
| "kernel_key ScanEqAvx512Ddr5 = (ScanEqU64, X86Avx512, Ddr5)"
| "kernel_key ScanEqAvx512Cxl = (ScanEqU64, X86Avx512, Cxl)"
| "kernel_key ScanRangeAvx512L3 = (ScanRangeU64, X86Avx512, L3)"
| "kernel_key ScanMultiPredicateAvx512 = (ScanMultiPredicate, X86Avx512, L3)"
| "kernel_key HashBuildScalar = (HashBuild, Scalar, Ddr5)"
| "kernel_key HashProbeScalar = (HashProbe, Scalar, L3)"
| "kernel_key HashProbeAvx512 = (HashProbe, X86Avx512, L3)"
| "kernel_key SumF64Scalar = (AggregateSumF64, Scalar, L3)"
| "kernel_key SumF64Avx2 = (AggregateSumF64, X86Avx2, L3)"
| "kernel_key SumF64Avx512 = (AggregateSumF64, X86Avx512, L3)"
| "kernel_key CountDistinctScalar = (AggregateCountDistinct, Scalar, Ddr5)"
| "kernel_key HammingScalar = (SimilarityHamming, Scalar, L3)"
| "kernel_key HammingAvx512 = (SimilarityHamming, X86Avx512, L3)"
| "kernel_key LeapfrogScalar = (LeapfrogJoin, Scalar, L3)"

definition kernel_operator :: "kernel \<Rightarrow> operator" where
  "kernel_operator k = fst (kernel_key k)"

definition kernel_cpu :: "kernel \<Rightarrow> cpu_target" where
  "kernel_cpu k = fst (snd (kernel_key k))"

text \<open>Running a kernel on the cells of its input.\<close>

definition kernel_execute :: "(kernel \<Rightarrow> u64 list \<Rightarrow> kernel_params \<Rightarrow> kernel_result) \<Rightarrow> bool \<Rightarrow> kernel \<Rightarrow> u64 list \<Rightarrow> kernel_params \<Rightarrow> kernel_result" where
  "kernel_execute rest vpopcntdq k cells p =
     (case k of
        ScanEqScalar \<Rightarrow> scan_eq_scalar cells p
      | ScanRangeScalar \<Rightarrow> scan_range_scalar cells p
      | ScanMultiPredicateScalar \<Rightarrow> scan_multi_scalar cells p
      | ScanEqAvx2 \<Rightarrow> scan_eq_avx2 cells p
      | ScanEqAvx512L3 \<Rightarrow> scan_eq_avx512_l3 cells p
      | ScanEqAvx512Ddr5 \<Rightarrow> scan_eq_avx512_ddr5 cells p
      | ScanEqAvx512Cxl \<Rightarrow> scan_eq_avx512_cxl cells p
      | ScanRangeAvx512L3 \<Rightarrow> scan_range_avx512 cells p
      | ScanMultiPredicateAvx512 \<Rightarrow> scan_multi_avx512 cells p
      | CountDistinctScalar \<Rightarrow> count_distinct_scalar cells p
      | HammingScalar \<Rightarrow> hamming_scalar cells p
      | HammingAvx512 \<Rightarrow> hamming_avx512 vpopcntdq cells p
      | _ \<Rightarrow> rest k cells p)"

type_synonym kernel_map = "operator \<times> cpu_target \<times> memory_tier \<rightharpoonup> kernel"

definition kt_register :: "kernel \<Rightarrow> kernel_map \<Rightarrow> kernel_map" where
  "kt_register k m = m(kernel_key k \<mapsto> k)"

text \<open>The built-in kernels, in the order of registration; those with vector instructions only on x86.\<close>

definition builtin_kernels :: "bool \<Rightarrow> kernel list" where
  "builtin_kernels x86 =
     [ScanEqScalar, ScanRangeScalar, ScanMultiPredicateScalar] @
     (if x86 then [ScanEqAvx512L3, ScanEqAvx512Ddr5, ScanEqAvx512Cxl, ScanRangeAvx512L3, ScanMultiPredicateAvx512, ScanEqAvx2] else []) @
     [HashBuildScalar, HashProbeScalar] @ (if x86 then [HashProbeAvx512] else []) @
     [SumF64Scalar] @ (if x86 then [SumF64Avx512, SumF64Avx2] else []) @ [CountDistinctScalar] @
     [HammingScalar] @ (if x86 then [HammingAvx512] else []) @ [LeapfrogScalar]"

definition kernel_table :: "bool \<Rightarrow> kernel_map" where
  "kernel_table x86 = fold kt_register (builtin_kernels x86) Map.empty"

text \<open>The last resort takes the first kernel of the operator in the iteration order of the hash map, which is not
  determined: the parameter \<open>vals\<close>.\<close>

definition select :: "kernel_map \<Rightarrow> kernel list \<Rightarrow> cpu_target \<Rightarrow> operator \<Rightarrow> memory_tier \<Rightarrow> kernel option" where
  "select m vals cpu op tier =
     (case m (op, cpu, tier) of
        Some k \<Rightarrow> Some k
      | None \<Rightarrow>
          (case m (op, Scalar, tier) of
             Some k \<Rightarrow> Some k
           | None \<Rightarrow> find (\<lambda>k. kernel_operator k = op) vals))"

section \<open>What the loops count\<close>

definition tally :: "(u64 \<Rightarrow> bool) \<Rightarrow> u64 list \<Rightarrow> u64" where
  "tally P cells = of_nat (length (filter P cells))"

lemma tally_simps [simp]: "tally P [] = 0" "tally P (c # cs) = of_bool (P c) + tally P cs" "tally P (cs @ ds) = tally P cs + tally P ds"
  by (simp_all add: tally_def)

lemma count_loop_tally:
  assumes "\<And>c. c \<in> set cs \<Longrightarrow> hit c = of_bool (P c)"
  shows "count_loop hit cs count = count + tally P cs"
  using assms by (induction cs arbitrary: count) (simp_all add: add.assoc)

lemma drop_window: "i + n \<le> length xs \<Longrightarrow> drop i xs = window xs i n @ drop (i + n) xs"
  by (simp add: window_def) (metis append_take_drop_id drop_drop add.commute)

lemma vector_loop_tally:
  assumes "\<And>v. length v = n \<Longrightarrow> set v \<subseteq> set cells \<Longrightarrow> body v = tally P v" and "\<And>c. c \<in> set cells \<Longrightarrow> hit c = of_bool (P c)"
  shows "vector_loop n body hit cells i count = count + tally P (drop i cells)"
proof (induction "length cells - i" arbitrary: i count rule: less_induct)
  case less
  show ?case
  proof (cases "0 < n \<and> i + n \<le> length cells")
    case True
    have "set (window cells i n) \<subseteq> set cells" by (auto simp: window_def dest: in_set_takeD in_set_dropD)
    with assms(1) True have "body (window cells i n) = tally P (window cells i n)" by simp
    moreover have "vector_loop n body hit cells (i + n) c = c + tally P (drop (i + n) cells)" for c
      using True by (intro less) linarith
    ultimately show ?thesis using True by (subst vector_loop.simps) (simp add: drop_window [of i n cells] add.assoc)
  next
    case False
    have "count_loop hit (drop i cells) count = count + tally P (drop i cells)"
      using assms(2) by (intro count_loop_tally) (auto dest: in_set_dropD)
    with False show ?thesis by (subst vector_loop.simps) auto
  qed
qed

lemma count_ones_horner:
  assumes "length bs \<le> LENGTH('a)"
  shows "count_ones (horner_sum of_bool 2 bs :: 'a::len word) = length (filter (\<lambda>b. b) bs)"
proof -
  have "filter (bit (horner_sum of_bool 2 bs :: 'a word)) [0..<LENGTH('a)] = filter (\<lambda>i. i < length bs \<and> bs ! i) [0..<LENGTH('a)]"
    by (rule filter_cong) (auto simp: bit_horner_sum_bit_word_iff)
  also have "\<dots> = filter (\<lambda>i. i < length bs \<and> bs ! i) ([0..<length bs] @ [length bs..<LENGTH('a)])"
    using assms upt_add_eq_append [of 0 "length bs" "LENGTH('a) - length bs"] by simp
  also have "filter (\<lambda>i. i < length bs \<and> bs ! i) ([0..<length bs] @ [length bs..<LENGTH('a)]) = filter (\<lambda>i. bs ! i) [0..<length bs]"
    by (auto simp: filter_empty_conv intro!: filter_cong)
  finally show ?thesis
    using filter_map [of "\<lambda>b. b" "\<lambda>i. bs ! i" "[0..<length bs]"] by (simp add: count_ones_def map_nth comp_def)
qed

lemma map2_replicate: "length v = n \<Longrightarrow> map2 p v (replicate n t) = map (\<lambda>c. p c t) v"
  by (auto intro: nth_equalityI)

lemma mm512_cmp_horner: "length v = 8 \<Longrightarrow> mm512_cmp p v t = horner_sum of_bool 2 (map (\<lambda>c. p c t) v)"
  by (simp add: mm512_cmp_def lane_mask_def map2_replicate)

lemma horner_and:
  "length as = length bs \<Longrightarrow> (horner_sum of_bool 2 as AND horner_sum of_bool 2 bs :: 'a::len word) = horner_sum of_bool 2 (map2 (\<and>) as bs)"
  by (rule bit_word_eqI) (auto simp: bit_and_iff bit_horner_sum_bit_word_iff)

lemma count_ones_cmp: "length v = 8 \<Longrightarrow> of_nat (count_ones (mm512_cmp p v t)) = tally (\<lambda>c. p c t) v"
  by (simp add: mm512_cmp_horner count_ones_horner tally_def filter_map comp_def)

lemma map2_conj_map: "map2 (\<and>) (map f v) (map g v) = map (\<lambda>c. f c \<and> g c) v"
  by (auto intro: nth_equalityI)

lemma count_ones_cmp_and:
  "length v = 8 \<Longrightarrow> of_nat (count_ones (mm512_cmp p v t AND mm512_cmp q v u)) = tally (\<lambda>c. p c t \<and> q c u) v"
  by (simp add: mm512_cmp_horner horner_and map2_conj_map count_ones_horner tally_def filter_map comp_def)

lemma count_ones_movemask:
  assumes "length v = 4"
  shows "of_nat (count_ones (mm256_eq_mask v t) div 8) = tally (\<lambda>c. c = t) v"
proof -
  have "length (filter (\<lambda>b. b) (concat (map (\<lambda>c. replicate 8 (c = t)) v))) = 8 * length (filter (\<lambda>c. c = t) v)" for v
    by (induction v) simp_all
  moreover have "length (concat (map (\<lambda>c. replicate 8 (c = t)) v)) = 32" using assms by (simp add: length_concat comp_def sum_list_triv)
  ultimately show ?thesis by (simp add: mm256_eq_mask_def count_ones_horner tally_def)
qed

lemma eq_loop_count: "fst (eq_loop t cs i count m) = count + tally (\<lambda>c. c = t) cs"
  by (induction cs arbitrary: i count m) (simp_all add: Let_def add.assoc)

lemma eq_mask_loop_count: "fst (eq_mask_loop t cells i count m) = count + tally (\<lambda>c. c = t) (drop i cells)"
proof (induction t cells i count m rule: eq_mask_loop.induct)
  case (1 t cells i count m)
  show ?case
  proof (cases "i + 8 \<le> length cells")
    case True
    with 1 [OF True refl] show ?thesis
      by (subst eq_mask_loop.simps) (simp add: Let_def count_ones_cmp drop_window [of i 8 cells] add.assoc)
  qed (subst eq_mask_loop.simps, simp add: eq_loop_count)
qed

section \<open>The kernels against their operators\<close>

text \<open>What a cell has to satisfy for an operator.\<close>

fun pred_holds :: "u64 \<Rightarrow> u64 \<Rightarrow> predicate_op \<Rightarrow> bool" where
  "pred_holds c t PEq = (c = t)"
| "pred_holds c t PGt = (t < c)"
| "pred_holds c t PLt = (c < t)"

definition all_preds :: "kernel_params \<Rightarrow> u64 \<Rightarrow> bool" where
  "all_preds p c \<longleftrightarrow>
     (1 \<le> predicate_count p \<longrightarrow> pred_holds c (target_u64 p) (pred1_op p)) \<and>
     (2 \<le> predicate_count p \<longrightarrow> pred_holds c (target2_u64 p) (pred2_op p)) \<and>
     (3 \<le> predicate_count p \<longrightarrow> pred_holds c (target3_u64 p) (pred3_op p))"

definition matches :: "operator \<Rightarrow> kernel_params \<Rightarrow> u64 \<Rightarrow> bool" where
  "matches op p c =
     (case op of
        ScanEqU64 \<Rightarrow> c = target_u64 p
      | ScanRangeU64 \<Rightarrow> low_u64 p \<le> c \<and> c \<le> high_u64 p
      | ScanMultiPredicate \<Rightarrow> all_preds p c
      | SimilarityHamming \<Rightarrow> count_ones (c XOR target_u64 p) \<le> unat (max_distance p)
      | _ \<Rightarrow> False)"

text \<open>Words below \<open>2 ^ 63\<close>, on which signed and unsigned comparison agree.\<close>

definition nonneg :: "u64 \<Rightarrow> bool" where
  "nonneg w \<longleftrightarrow> \<not> bit w 63"

lemma nonneg_signed:
  assumes "nonneg a" "nonneg b"
  shows "a \<le>s b \<longleftrightarrow> a \<le> b" "a <s b \<longleftrightarrow> a < b"
proof -
  have "sint w = uint w" if "nonneg w" for w using that by (intro bit_eqI) (auto simp: nonneg_def bit_sint_iff bit_uint_iff dest: bit_imp_le_length)
  with assms show "a \<le>s b \<longleftrightarrow> a \<le> b" "a <s b \<longleftrightarrow> a < b" by (simp_all add: word_sle_eq word_sless_alt word_le_def word_less_def)
qed

lemma nonneg_small:
  assumes "unat w < 2 ^ 63"
  shows "nonneg w"
proof -
  have "int (unat w) < 2 ^ 63" using assms by (metis of_nat_less_iff of_nat_numeral of_nat_power)
  then have "uint w < 2 ^ 63" by simp
  then have "uint w div 2 ^ 63 = 0" by (intro div_pos_pos_trivial) simp_all
  then have "\<not> bit (uint w) 63" by (simp add: bit_iff_odd)
  then show ?thesis by (simp add: nonneg_def bit_uint_iff)
qed

lemma of_bool_AND: "(of_bool a AND of_bool b :: 'a::len word) = of_bool (a \<and> b)"
  by (cases a; cases b) simp_all

lemma eval_predicate_holds: "eval_predicate c t pop = of_bool (pred_holds c t pop)"
  by (cases pop) (simp_all add: eval_predicate_def)

lemma pred_counts:
  "1 \<le> min (unat (n :: u8)) 3 \<longleftrightarrow> 1 \<le> n" "2 \<le> min (unat n) 3 \<longleftrightarrow> 2 \<le> n" "3 \<le> min (unat n) 3 \<longleftrightarrow> 3 \<le> n"
  by (simp_all add: word_le_nat_alt)

lemma predicates_hit_holds: "predicates_hit p c = of_bool (all_preds p c)"
proof -
  have one: "1 = (of_bool True :: u64)" by simp
  show ?thesis
    unfolding predicates_hit_def Let_def pred_counts eval_predicate_holds all_preds_def
    by (simp add: one if_distrib [symmetric] of_bool_AND del: of_bool_eq(2))
qed

lemma ternary_and_eq: "ternary_and m1 m2 m3 = m1 AND m2 AND m3"
  by (rule bit_word_eqI) (simp add: ternary_and_def bit_ucast_iff bit_and_iff)

lemma cmp_mask_horner:
  assumes "length v = 8" and "list_all nonneg v" and "nonneg t"
  shows "cmp_mask v t pop = horner_sum of_bool 2 (map (\<lambda>c. pred_holds c t pop) v)"
proof (cases pop)
  case PGt
  then show ?thesis using assms nonneg_signed by (auto simp: cmp_mask_def mm512_cmp_horner list_all_iff intro!: arg_cong [where f = "horner_sum of_bool 2"])
next
  case PLt
  then show ?thesis using assms nonneg_signed by (auto simp: cmp_mask_def mm512_cmp_horner list_all_iff intro!: arg_cong [where f = "horner_sum of_bool 2"])
qed (use assms in \<open>simp add: cmp_mask_def mm512_cmp_horner\<close>)

text \<open>A kernel that compares signed words, on cells and bounds that are not negative as such.\<close>

definition signed_kernel :: "kernel \<Rightarrow> bool" where
  "signed_kernel k \<longleftrightarrow> k = ScanRangeAvx512L3 \<or> k = ScanMultiPredicateAvx512"

definition params_nonneg :: "kernel_params \<Rightarrow> bool" where
  "params_nonneg p \<longleftrightarrow> nonneg (low_u64 p) \<and> nonneg (high_u64 p) \<and> nonneg (target_u64 p) \<and> nonneg (target2_u64 p) \<and> nonneg (target3_u64 p)"

lemma scan_eq_tally:
  "kr_count (scan_eq_scalar cells p) = tally (\<lambda>c. c = target_u64 p) cells"
  "kr_count (scan_eq_avx2 cells p) = tally (\<lambda>c. c = target_u64 p) cells"
  "kr_count (scan_eq_avx512_l3 cells p) = tally (\<lambda>c. c = target_u64 p) cells"
  "kr_count (scan_eq_avx512_ddr5 cells p) = tally (\<lambda>c. c = target_u64 p) cells"
  "kr_count (scan_eq_avx512_cxl cells p) = tally (\<lambda>c. c = target_u64 p) cells"
  by (simp_all add: scan_eq_scalar_def scan_eq_avx512_l3_def prod.case_eq_if eq_loop_count eq_mask_loop_count
      scan_eq_avx2_def scan_eq_avx512_ddr5_def scan_eq_avx512_cxl_def counted_def
      vector_loop_tally [where P = "\<lambda>c. c = target_u64 p"] count_ones_movemask count_ones_cmp)

lemma in_range_holds: "in_range p c = of_bool (low_u64 p \<le> c \<and> c \<le> high_u64 p)"
  by (simp add: in_range_def of_bool_AND)

lemma scan_range_tally:
  "kr_count (scan_range_scalar cells p) = tally (\<lambda>c. low_u64 p \<le> c \<and> c \<le> high_u64 p) cells"
  "list_all nonneg cells \<Longrightarrow> params_nonneg p \<Longrightarrow>
   kr_count (scan_range_avx512 cells p) = tally (\<lambda>c. low_u64 p \<le> c \<and> c \<le> high_u64 p) cells"
proof -
  show "kr_count (scan_range_scalar cells p) = tally (\<lambda>c. low_u64 p \<le> c \<and> c \<le> high_u64 p) cells"
    by (simp add: scan_range_scalar_def counted_def count_loop_tally [where P = "\<lambda>c. low_u64 p \<le> c \<and> c \<le> high_u64 p"] in_range_holds)
  assume n: "list_all nonneg cells" "params_nonneg p"
  have "tally (\<lambda>c. low_u64 p \<le>s c \<and> c \<le>s high_u64 p) v = tally (\<lambda>c. low_u64 p \<le> c \<and> c \<le> high_u64 p) v" if "set v \<subseteq> set cells" for v
    using that n unfolding tally_def by (intro arg_cong [where f = of_nat] arg_cong [where f = length] filter_cong)
      (auto simp: list_all_iff params_nonneg_def nonneg_signed subset_iff)
  then show "kr_count (scan_range_avx512 cells p) = tally (\<lambda>c. low_u64 p \<le> c \<and> c \<le> high_u64 p) cells"
    by (simp add: scan_range_avx512_def counted_def count_ones_cmp_and in_range_holds
        vector_loop_tally [where P = "\<lambda>c. low_u64 p \<le> c \<and> c \<le> high_u64 p"])
qed

lemma horner_full: "(0xFF :: u8) = horner_sum of_bool 2 (replicate 8 True)"
  by (simp add: numeral_eq_Suc)

lemma scan_multi_tally:
  "kr_count (scan_multi_scalar cells p) = tally (all_preds p) cells"
  "list_all nonneg cells \<Longrightarrow> params_nonneg p \<Longrightarrow> kr_count (scan_multi_avx512 cells p) = tally (all_preds p) cells"
proof -
  show "kr_count (scan_multi_scalar cells p) = tally (all_preds p) cells"
    by (simp add: scan_multi_scalar_def counted_def count_loop_tally [where P = "all_preds p"] predicates_hit_holds)
  assume n: "list_all nonneg cells" "params_nonneg p"
  have "vector_loop 8
        (\<lambda>v. let m1 = if 1 \<le> predicate_count p then cmp_mask v (target_u64 p) (pred1_op p) else 0xFF;
                 m2 = if 2 \<le> predicate_count p then cmp_mask v (target2_u64 p) (pred2_op p) else 0xFF;
                 m3 = if 3 \<le> predicate_count p then cmp_mask v (target3_u64 p) (pred3_op p) else 0xFF
             in of_nat (count_ones (ternary_and m1 m2 m3)))
        (predicates_hit p) cells 0 0 = 0 + tally (all_preds p) (drop 0 cells)"
  proof (rule vector_loop_tally)
    fix v :: "u64 list" assume v: "length v = 8" "set v \<subseteq> set cells"
    then have nv: "list_all nonneg v" using n(1) by (auto simp: list_all_iff)
    have m: "(if b then cmp_mask v t pop else 0xFF) = horner_sum of_bool 2 (map (\<lambda>c. b \<longrightarrow> pred_holds c t pop) v)" if "nonneg t" for b t pop
      using cmp_mask_horner [OF v(1) nv that] v(1) by (simp add: horner_full map_replicate_const)
    show "(let m1 = if 1 \<le> predicate_count p then cmp_mask v (target_u64 p) (pred1_op p) else 0xFF;
                 m2 = if 2 \<le> predicate_count p then cmp_mask v (target2_u64 p) (pred2_op p) else 0xFF;
                 m3 = if 3 \<le> predicate_count p then cmp_mask v (target3_u64 p) (pred3_op p) else 0xFF
             in of_nat (count_ones (ternary_and m1 m2 m3))) = tally (all_preds p) v"
      using n(2) v(1) unfolding params_nonneg_def
      by (simp add: Let_def ternary_and_eq m horner_and map2_conj_map count_ones_horner tally_def filter_map comp_def all_preds_def [abs_def])
  qed (simp add: predicates_hit_holds)
  then show "kr_count (scan_multi_avx512 cells p) = tally (all_preds p) cells"
    unfolding scan_multi_avx512_def counted_def Let_def pred_counts by simp
qed

lemma count_ones_le: "count_ones (w :: 'a::len word) \<le> LENGTH('a)"
  by (simp add: count_ones_def) (metis length_filter_le length_upt minus_nat.diff_0)

lemma hamming_tally:
  "kr_count (hamming_scalar cells p) = tally (\<lambda>c. count_ones (c XOR target_u64 p) \<le> unat (max_distance p)) cells"
  "kr_count (hamming_avx512 vp cells p) = tally (\<lambda>c. count_ones (c XOR target_u64 p) \<le> unat (max_distance p)) cells"
proof -
  have s: "count_loop (near p) cells 0 = tally (\<lambda>c. count_ones (c XOR target_u64 p) \<le> unat (max_distance p)) cells"
    by (simp add: near_def count_loop_tally [where P = "\<lambda>c. count_ones (c XOR target_u64 p) \<le> unat (max_distance p)"])
  have le: "of_nat (count_ones (c XOR target_u64 p)) \<le>s (ucast (max_distance p) :: u64) \<longleftrightarrow> count_ones (c XOR target_u64 p) \<le> unat (max_distance p)" for c
  proof -
    have "count_ones (c XOR target_u64 p) \<le> 64" using count_ones_le [of "c XOR target_u64 p"] by simp
    moreover from this have "nonneg (of_nat (count_ones (c XOR target_u64 p)))"
      by (intro nonneg_small) (simp add: unat_of_nat)
    moreover have "nonneg (ucast (max_distance p) :: u64)" by (auto simp: nonneg_def bit_ucast_iff dest: bit_imp_le_length)
    moreover have "unat (ucast (max_distance p) :: u64) = unat (max_distance p)"
      by (simp add: unsigned_ucast_eq take_bit_nat_eq_self order_less_trans [OF unsigned_less])
    ultimately show ?thesis by (simp add: nonneg_signed word_le_nat_alt unat_of_nat)
  qed
  have "hamming_avx512_vpopcntdq cells p = counted (tally (\<lambda>c. count_ones (c XOR target_u64 p) \<le> unat (max_distance p)) cells)"
    by (simp add: hamming_avx512_vpopcntdq_def count_ones_cmp near_def tally_def filter_map comp_def le
        vector_loop_tally [where P = "\<lambda>c. count_ones (c XOR target_u64 p) \<le> unat (max_distance p)"])
  with s show "kr_count (hamming_scalar cells p) = tally (\<lambda>c. count_ones (c XOR target_u64 p) \<le> unat (max_distance p)) cells"
    "kr_count (hamming_avx512 vp cells p) = tally (\<lambda>c. count_ones (c XOR target_u64 p) \<le> unat (max_distance p)) cells"
    by (simp_all add: hamming_scalar_def hamming_avx512_def counted_def)
qed

section \<open>Selection\<close>

definition counts_matches :: "operator \<Rightarrow> bool" where
  "counts_matches op \<longleftrightarrow> op = ScanEqU64 \<or> op = ScanRangeU64 \<or> op = ScanMultiPredicate \<or> op = SimilarityHamming"

lemma execute_counts:
  assumes "counts_matches (kernel_operator k)" and "signed_kernel k \<longrightarrow> list_all nonneg cells \<and> params_nonneg p"
  shows "kr_count (kernel_execute rest vp k cells p) = tally (matches (kernel_operator k) p) cells"
  using assms scan_eq_tally [of cells p] scan_range_tally [where cells = cells and p = p] scan_multi_tally [where cells = cells and p = p] hamming_tally [where cells = cells and p = p]
  by (cases k) (simp_all add: kernel_execute_def kernel_operator_def counts_matches_def matches_def [abs_def] signed_kernel_def)

lemma register_get: "fold kt_register ks m key = Some k \<Longrightarrow> k \<in> set ks \<and> kernel_key k = key \<or> m key = Some k"
proof (induction ks arbitrary: m)
  case (Cons a ks)
  from Cons.IH [of "kt_register a m"] Cons.prems show ?case by (auto simp: kt_register_def split: if_splits)
qed simp

lemma table_get: "kernel_table x86 key = Some k \<Longrightarrow> k \<in> set (builtin_kernels x86) \<and> kernel_key k = key"
  using register_get [of "builtin_kernels x86" Map.empty] by (auto simp: kernel_table_def)

lemma table_has_operator: "\<exists>k\<in>set (builtin_kernels x86). kernel_operator k = op"
  by (cases op) (auto simp: builtin_kernels_def kernel_operator_def)

lemma kernel_key_inj: "kernel_key a = kernel_key b \<Longrightarrow> a = b"
  by (cases a) (cases b; simp)+

lemma register_kept: "k \<in> set ks \<or> m (kernel_key k) = Some k \<Longrightarrow> fold kt_register ks m (kernel_key k) = Some k"
proof (induction ks arbitrary: m)
  case (Cons a ks)
  have "k \<in> set ks \<or> kt_register a m (kernel_key k) = Some k" using Cons.prems kernel_key_inj [of a k] by (auto simp: kt_register_def)
  with Cons.IH show ?case by simp
qed simp

lemma table_ran: "ran (kernel_table x86) = set (builtin_kernels x86)"
proof
  show "ran (kernel_table x86) \<subseteq> set (builtin_kernels x86)" using table_get by (auto simp: ran_def)
  show "set (builtin_kernels x86) \<subseteq> ran (kernel_table x86)"
    using register_kept [where m = Map.empty] by (metis kernel_table_def ranI subsetI)
qed

lemma select_some:
  assumes "set vals = ran (kernel_table x86)"
  shows "\<exists>k. select (kernel_table x86) vals cpu op tier = Some k \<and> k \<in> set (builtin_kernels x86) \<and> kernel_operator k = op"
proof -
  obtain k where "find (\<lambda>k. kernel_operator k = op) vals = Some k"
    using table_has_operator [of x86 op] assms table_ran [of x86] by (metis (mono_tags, lifting) find_None_iff not_None_eq)
  moreover from this have "k \<in> set (builtin_kernels x86)" "kernel_operator k = op"
    using assms table_ran [of x86] by (auto simp: find_Some_iff intro: nth_mem)
  ultimately show ?thesis by (auto simp: select_def kernel_operator_def split: option.split dest!: table_get)
qed



text \<open>The AVX-512 range scan with the default upper bound \<open>u64::MAX\<close>, which is \<open>-1\<close> as a signed word, finds none of
  eight cells that the scalar kernel all counts.\<close>

lemma range_avx512_signed:
  "kr_count (kernel_execute rest vp ScanRangeScalar [0, 1, 2, 3, 4, 5, 6, 7] default_params) = 8"
  "kr_count (kernel_execute rest vp ScanRangeAvx512L3 [0, 1, 2, 3, 4, 5, 6, 7] default_params) = 0"
  by (code_simp, code_simp)

text \<open>Without a kernel for the CPU and the tier, the last resort takes any kernel of the operator, also one whose
  instructions the CPU does not have.\<close>

lemma select_unsupported_instructions:
  assumes "vals = ScanEqAvx512Ddr5 # vs"
  shows "select (kernel_table True) vals X86Avx2 ScanEqU64 Ddr5 = Some ScanEqAvx512Ddr5" and "\<not> has_avx512 X86Avx2"
  using assms by (simp_all add: select_def kernel_table_def builtin_kernels_def kt_register_def kernel_operator_def has_avx512_def)

text \<open>The kernels of one operator return different masks of the matching positions.\<close>

lemma scan_eq_masks_differ:
  "map (\<lambda>k. kr_mask (kernel_execute rest vp k (replicate 9 1) (default_params\<lparr>target_u64 := 1\<rparr>))) [ScanEqScalar, ScanEqAvx2, ScanEqAvx512L3, ScanEqAvx512Ddr5] =
     [0x1FF, 0, 0x1FF, 0]"
  "kr_mask (kernel_execute rest vp ScanEqScalar (replicate 16 1) (default_params\<lparr>target_u64 := 1\<rparr>)) = 0xFFFF"
  "kr_mask (kernel_execute rest vp ScanEqAvx512L3 (replicate 16 1) (default_params\<lparr>target_u64 := 1\<rparr>)) = 0xFF"
  by (code_simp, code_simp, code_simp)

end
