(* ===== verification/Regions.thy ===== *)
theory Regions
  imports Tier
begin

text \<open>
  Memory regions and their manager: the 2 MB \<open>Region\<close> of src/src/memory/region.rs, whose backing (a huge page, a
  plain mapping or a vector) is a byte list, and the per-tier LRU \<open>MemoryManager\<close> of src/src/memory/manager.rs.
  The clock that stamps accesses is an argument. \<open>None\<close> is a slice panic.
\<close>

section \<open>Regions\<close>

definition REGION_SIZE :: nat where
  "REGION_SIZE = 2 * 1024 * 1024"

record region_stats =
  st_reads :: u64
  st_writes :: u64
  last_access_ns :: u64

definition record_read :: "u64 \<Rightarrow> region_stats \<Rightarrow> region_stats" where
  "record_read now st = st\<lparr>st_reads := st_reads st + 1, last_access_ns := now\<rparr>"

definition record_write :: "u64 \<Rightarrow> region_stats \<Rightarrow> region_stats" where
  "record_write now st = st\<lparr>st_writes := st_writes st + 1, last_access_ns := now\<rparr>"

definition total_accesses :: "region_stats \<Rightarrow> u64" where
  "total_accesses st = st_reads st + st_writes st"

record region =
  rg_id :: u64
  rg_data :: bytes
  rg_tier :: memory_tier
  rg_numa :: "u32 option"
  rg_stats :: region_stats
  rg_column :: "u64 option"
  rg_rows :: "(u64 \<times> u64) option"

definition backing_new :: bytes where
  "backing_new = replicate REGION_SIZE 0"

text \<open>\<open>copy_nonoverlapping\<close> of as many bytes as both buffers have.\<close>

definition copy_from :: "bytes \<Rightarrow> bytes \<Rightarrow> bytes" where
  "copy_from backing src = patch backing 0 (take (min (length src) (length backing)) src)"

definition region_of :: "u64 \<Rightarrow> memory_tier \<Rightarrow> bytes \<Rightarrow> region" where
  "region_of i tier backing = \<lparr>rg_id = i, rg_data = backing, rg_tier = tier, rg_numa = None,
     rg_stats = \<lparr>st_reads = 0, st_writes = 0, last_access_ns = 0\<rparr>, rg_column = None, rg_rows = None\<rparr>"

definition allocate :: "u64 \<Rightarrow> memory_tier \<Rightarrow> region" where
  "allocate i tier = region_of i tier backing_new"

definition region_from_bytes :: "u64 \<Rightarrow> memory_tier \<Rightarrow> bytes \<Rightarrow> region" where
  "region_from_bytes i tier bs = region_of i tier (copy_from backing_new bs)"

definition region_read :: "u64 \<Rightarrow> nat \<Rightarrow> nat \<Rightarrow> region \<Rightarrow> (bytes \<times> region) option" where
  "region_read now offset len r =
     (let stop = min (offset + len) (length (rg_data r))
      in if offset \<le> stop
         then Some (window (rg_data r) offset (stop - offset), r\<lparr>rg_stats := record_read now (rg_stats r)\<rparr>) else None)"

definition region_write :: "u64 \<Rightarrow> nat \<Rightarrow> bytes \<Rightarrow> region \<Rightarrow> region option" where
  "region_write now offset src r =
     (let stop = min (offset + length src) (length (rg_data r))
      in if offset \<le> stop
         then Some (r\<lparr>rg_stats := record_write now (rg_stats r), rg_data := patch (rg_data r) offset (take (stop - offset) src)\<rparr>) else None)"

definition as_u64_cells :: "region \<Rightarrow> u64 list" where
  "as_u64_cells r = map from_le (chunks_exact 8 (rg_data r))"

definition rg_cell_count :: "region \<Rightarrow> nat" where
  "rg_cell_count r = REGION_SIZE div 8"

definition migrate_to :: "region \<Rightarrow> memory_tier \<Rightarrow> region" where
  "migrate_to r new_tier =
     r\<lparr>rg_data := copy_from backing_new (rg_data r), rg_tier := new_tier\<rparr>"

section \<open>The memory manager\<close>

definition UNLIMITED_CAPACITY :: nat where
  "UNLIMITED_CAPACITY = 2 ^ 64 - 1"

record memory_manager =
  tier_lru :: "memory_tier \<rightharpoonup> u64 list"
  mm_regions :: "u64 \<rightharpoonup> region"
  mm_capacity :: "memory_tier \<rightharpoonup> nat"

definition mm_with_capacity :: "(memory_tier \<rightharpoonup> nat) \<Rightarrow> memory_manager" where
  "mm_with_capacity caps = \<lparr>tier_lru = Map.empty, mm_regions = Map.empty, mm_capacity = caps\<rparr>"

definition mm_new :: memory_manager where
  "mm_new = mm_with_capacity [L3 \<mapsto> 16, Ddr5 \<mapsto> 256, Cxl \<mapsto> 1024, Nvme \<mapsto> UNLIMITED_CAPACITY]"

definition remove_from_any_tier :: "u64 \<Rightarrow> memory_manager \<Rightarrow> memory_manager" where
  "remove_from_any_tier i m =
     (case mm_regions m i of
        None \<Rightarrow> m
      | Some old \<Rightarrow>
          (case tier_lru m (rg_tier old) of
             None \<Rightarrow> m
           | Some lru \<Rightarrow> m\<lparr>tier_lru := (tier_lru m)(rg_tier old \<mapsto> filter (\<lambda>j. j \<noteq> i) lru)\<rparr>))"

text \<open>\<open>self.tier_lru.entry(tier).or_default().push_front(id)\<close>\<close>

definition lru_of :: "memory_manager \<Rightarrow> memory_tier \<Rightarrow> u64 list" where
  "lru_of m tier = (case tier_lru m tier of None \<Rightarrow> [] | Some lru \<Rightarrow> lru)"

definition insert_front :: "memory_tier \<Rightarrow> region \<Rightarrow> memory_manager \<Rightarrow> memory_manager" where
  "insert_front tier r m =
     m\<lparr>mm_regions := (mm_regions m)(rg_id r \<mapsto> r), tier_lru := (tier_lru m)(tier \<mapsto> rg_id r # lru_of m tier)\<rparr>"

definition mm_register :: "region \<Rightarrow> memory_manager \<Rightarrow> memory_manager" where
  "mm_register r m = insert_front (rg_tier r) r (remove_from_any_tier (rg_id r) m)"

definition mm_access :: "u64 \<Rightarrow> memory_manager \<Rightarrow> region option \<times> memory_manager" where
  "mm_access i m =
     (case mm_regions m i of
        None \<Rightarrow> (None, m)
      | Some r \<Rightarrow>
          (Some r,
           case tier_lru m (rg_tier r) of
             None \<Rightarrow> m
           | Some lru \<Rightarrow> m\<lparr>tier_lru := (tier_lru m)(rg_tier r \<mapsto> i # filter (\<lambda>j. j \<noteq> i) lru)\<rparr>))"

definition regions_in_tier :: "memory_manager \<Rightarrow> memory_tier \<Rightarrow> nat" where
  "regions_in_tier m tier = length (lru_of m tier)"

definition capacity_of :: "memory_manager \<Rightarrow> memory_tier \<Rightarrow> nat" where
  "capacity_of m tier = (case mm_capacity m tier of None \<Rightarrow> UNLIMITED_CAPACITY | Some c \<Rightarrow> c)"

definition tier_is_full :: "memory_manager \<Rightarrow> memory_tier \<Rightarrow> bool" where
  "tier_is_full m tier \<longleftrightarrow>
     (let cap = capacity_of m tier in if cap = UNLIMITED_CAPACITY then False else cap \<le> regions_in_tier m tier)"

definition pop_back_from_tier :: "memory_tier \<Rightarrow> memory_manager \<Rightarrow> u64 option \<times> memory_manager" where
  "pop_back_from_tier tier m =
     (case tier_lru m tier of
        None \<Rightarrow> (None, m)
      | Some lru \<Rightarrow> if lru = [] then (None, m) else (Some (last lru), m\<lparr>tier_lru := (tier_lru m)(tier \<mapsto> butlast lru)\<rparr>))"

text \<open>Both eviction loops drop the victim from the map of regions.\<close>

definition drop_region :: "u64 \<Rightarrow> memory_manager \<Rightarrow> memory_manager" where
  "drop_region i m = m\<lparr>mm_regions := (mm_regions m)(i := None)\<rparr>"

function evict_loop :: "memory_tier \<Rightarrow> memory_manager \<Rightarrow> u64 list \<Rightarrow> memory_manager \<times> u64 list" where
  "evict_loop tier m evicted =
     (if tier_is_full m tier then
        (case pop_back_from_tier tier m of
           (None, m') \<Rightarrow> (m', evicted)
         | (Some i, m') \<Rightarrow> evict_loop tier (drop_region i m') (evicted @ [i]))
      else (m, evicted))"
  by pat_completeness auto
termination
  by (relation "measure (\<lambda>(tier, m, evicted). length (lru_of m tier))")
    (auto simp: pop_back_from_tier_def drop_region_def lru_of_def split: option.splits if_splits)

declare evict_loop.simps [simp del]

definition place_region :: "region \<Rightarrow> memory_tier \<Rightarrow> memory_manager \<Rightarrow> memory_manager \<times> u64 list" where
  "place_region r target m =
     (case evict_loop target (remove_from_any_tier (rg_id r) m) [] of
        (m, evicted) \<Rightarrow> (insert_front target r m, evicted))"

primrec evict_from_tier :: "memory_tier \<Rightarrow> nat \<Rightarrow> memory_manager \<Rightarrow> u64 list \<Rightarrow> memory_manager \<times> u64 list" where
  "evict_from_tier tier 0 m evicted = (m, evicted)"
| "evict_from_tier tier (Suc n) m evicted =
     (case pop_back_from_tier tier m of
        (None, m') \<Rightarrow> (m', evicted)
      | (Some i, m') \<Rightarrow> evict_from_tier tier n (drop_region i m') (evicted @ [i]))"

definition mm_contains :: "memory_manager \<Rightarrow> u64 \<Rightarrow> bool" where
  "mm_contains m i \<longleftrightarrow> mm_regions m i \<noteq> None"

section \<open>Regions keep their bytes\<close>

lemma REGION_SIZE_pos: "0 < REGION_SIZE"
  by (simp add: REGION_SIZE_def)

definition rg_wf :: "region \<Rightarrow> bool" where
  "rg_wf r \<longleftrightarrow> length (rg_data r) = REGION_SIZE"

lemma copy_from_backing: "copy_from backing_new bs = take REGION_SIZE bs @ replicate (REGION_SIZE - length bs) 0"
  by (simp add: copy_from_def backing_new_def patch_def min_def)

text \<open>Writing into a region and reading the range back gives the bytes, other ranges are unchanged, and migration to
  another tier keeps every byte.\<close>

lemma region_read_write:
  assumes "rg_wf r" and "offset + length src \<le> REGION_SIZE"
  shows "\<exists>r'. region_write now offset src r = Some r' \<and> rg_wf r' \<and>
    map_option fst (region_read now' offset (length src) r') = Some src \<and>
    (o' + n \<le> REGION_SIZE \<and> (o' + n \<le> offset \<or> offset + length src \<le> o') \<longrightarrow>
      map_option fst (region_read now' o' n r') = map_option fst (region_read now' o' n r)) \<and>
    rg_data (migrate_to r' tier) = rg_data r'"
  using assms
  by (auto simp: region_write_def region_read_def rg_wf_def Let_def min_absorb1 window_patch_other migrate_to_def copy_from_backing)

section \<open>The manager keeps one entry per region\<close>

text \<open>Every region is in the LRU list of its own tier, once, and the lists hold nothing else.\<close>

definition mm_inv :: "memory_manager \<Rightarrow> bool" where
  "mm_inv m \<longleftrightarrow> (\<forall>tier. distinct (lru_of m tier)) \<and>
     (\<forall>tier i. i \<in> set (lru_of m tier) \<longleftrightarrow> (\<exists>r. mm_regions m i = Some r \<and> rg_tier r = tier)) \<and>
     (\<forall>i r. mm_regions m i = Some r \<longrightarrow> rg_id r = i)"

lemma mm_invI:
  assumes "\<And>tier. distinct (lru_of m tier)" and "\<And>tier i. i \<in> set (lru_of m tier) \<longleftrightarrow> (\<exists>r. mm_regions m i = Some r \<and> rg_tier r = tier)"
    and "\<And>i r. mm_regions m i = Some r \<Longrightarrow> rg_id r = i"
  shows "mm_inv m"
  using assms by (simp add: mm_inv_def)

lemma mm_invD:
  assumes "mm_inv m"
  shows "distinct (lru_of m tier)" "i \<in> set (lru_of m tier) \<longleftrightarrow> (\<exists>r. mm_regions m i = Some r \<and> rg_tier r = tier)"
    "mm_regions m i = Some r \<Longrightarrow> rg_id r = i"
  using assms by (simp_all add: mm_inv_def)

lemma with_capacity_inv: "mm_inv (mm_with_capacity caps)"
  by (simp add: mm_inv_def mm_with_capacity_def lru_of_def)

lemma remove_observed:
  assumes "mm_inv m"
  shows "lru_of (remove_from_any_tier i m) tier = filter (\<lambda>j. j \<noteq> i) (lru_of m tier)"
    and "mm_regions (remove_from_any_tier i m) = mm_regions m" and "mm_capacity (remove_from_any_tier i m) = mm_capacity m"
proof -
  have "i \<notin> set (lru_of m tier)" if "\<not> (\<exists>r. mm_regions m i = Some r \<and> rg_tier r = tier)"
    using that mm_invD(2) [OF assms] by blast
  then have "filter (\<lambda>j. j \<noteq> i) (lru_of m tier) = lru_of m tier" if "\<not> (\<exists>r. mm_regions m i = Some r \<and> rg_tier r = tier)"
    using that by (intro filter_True) auto
  then show "lru_of (remove_from_any_tier i m) tier = filter (\<lambda>j. j \<noteq> i) (lru_of m tier)"
    by (auto simp: remove_from_any_tier_def lru_of_def split: option.splits) (metis option.distinct(1))
  show "mm_regions (remove_from_any_tier i m) = mm_regions m" "mm_capacity (remove_from_any_tier i m) = mm_capacity m"
    by (simp_all add: remove_from_any_tier_def split: option.split)
qed

lemma insert_front_observed:
  "lru_of (insert_front tier r m) t = (if t = tier then rg_id r # lru_of m tier else lru_of m t)"
  "mm_regions (insert_front tier r m) = (mm_regions m)(rg_id r \<mapsto> r)" "mm_capacity (insert_front tier r m) = mm_capacity m"
  by (simp_all add: insert_front_def lru_of_def)

text \<open>Popping from the back.\<close>

lemma pop_back_observed:
  assumes "lru_of m tier \<noteq> []"
  shows "\<exists>m'. pop_back_from_tier tier m = (Some (last (lru_of m tier)), m') \<and> mm_regions m' = mm_regions m \<and> mm_capacity m' = mm_capacity m \<and>
    (\<forall>t. lru_of m' t = (if t = tier then butlast (lru_of m tier) else lru_of m t))"
  using assms by (auto simp: pop_back_from_tier_def lru_of_def split: option.splits)

lemma pop_back_empty: "lru_of m tier = [] \<Longrightarrow> pop_back_from_tier tier m = (None, m)"
  by (auto simp: pop_back_from_tier_def lru_of_def split: option.splits)

text \<open>A manager after dropping the entries of \<open>tier\<close> behind the first \<open>c\<close>.\<close>

definition trimmed :: "memory_tier \<Rightarrow> nat \<Rightarrow> memory_manager \<Rightarrow> memory_manager \<Rightarrow> bool" where
  "trimmed tier c m m' \<longleftrightarrow>
     (\<forall>t. lru_of m' t = (if t = tier then take c (lru_of m tier) else lru_of m t)) \<and>
     mm_regions m' = mm_regions m |` (- set (drop c (lru_of m tier))) \<and> mm_capacity m' = mm_capacity m"

lemma trimmed_all: "length (lru_of m tier) \<le> c \<Longrightarrow> trimmed tier c m m"
  by (simp add: trimmed_def restrict_map_def)

lemma trimmed_step:
  assumes "lru_of m tier \<noteq> []" and "pop_back_from_tier tier m = (Some i, m')" and "trimmed tier c (drop_region i m') m''" and "c < length (lru_of m tier)"
  shows "trimmed tier c m m''" and "drop c (lru_of m tier) = drop c (lru_of (drop_region i m') tier) @ [i]"
    and "lru_of (drop_region i m') tier = butlast (lru_of m tier)"
proof -
  obtain m1 where m1: "pop_back_from_tier tier m = (Some (last (lru_of m tier)), m1)" "mm_regions m1 = mm_regions m" "mm_capacity m1 = mm_capacity m"
    "\<And>t. lru_of m1 t = (if t = tier then butlast (lru_of m tier) else lru_of m t)"
    using pop_back_observed [OF assms(1)] by blast
  with assms(2) have i: "i = last (lru_of m tier)" "m' = m1" by simp_all
  have d: "lru_of (drop_region i m') t = lru_of m' t" for t by (simp add: drop_region_def lru_of_def)
  then show l: "lru_of (drop_region i m') tier = butlast (lru_of m tier)" using m1(4) i(2) by simp
  have e: "lru_of m tier = butlast (lru_of m tier) @ [i]" using assms(1) i(1) by simp
  have c: "c \<le> length (butlast (lru_of m tier))" using assms(4) by simp
  show dr: "drop c (lru_of m tier) = drop c (lru_of (drop_region i m') tier) @ [i]"
    unfolding l by (subst e) (use c in simp)
  have tk: "take c (lru_of m tier) = take c (butlast (lru_of m tier))" by (subst e) (use c in simp)
  show "trimmed tier c m m''"
  proof -
    have o: "mm_regions (drop_region i m') = (mm_regions m)(i := None)" "mm_capacity (drop_region i m') = mm_capacity m"
      "lru_of (drop_region i m') t = (if t = tier then butlast (lru_of m tier) else lru_of m t)" for t
      using m1(2-4) i(2) d by (simp_all add: drop_region_def)
    have "mm_regions m |` (- set (drop c (lru_of m tier))) = (mm_regions m)(i := None) |` (- set (drop c (butlast (lru_of m tier))))"
      unfolding dr l by (auto simp: restrict_map_def fun_eq_iff)
    with assms(3) show ?thesis unfolding trimmed_def o tk by (simp add: o)
  qed
qed

definition keep_count :: "memory_manager \<Rightarrow> memory_tier \<Rightarrow> nat" where
  "keep_count m tier = (if capacity_of m tier = UNLIMITED_CAPACITY then length (lru_of m tier) else capacity_of m tier - 1)"

lemma evict_loop_trims:
  "\<exists>m'. evict_loop tier m evicted = (m', evicted @ rev (drop (keep_count m tier) (lru_of m tier))) \<and> trimmed tier (keep_count m tier) m m'"
proof (induction tier m evicted rule: evict_loop.induct)
  case (1 tier m evicted)
  let ?c = "keep_count m tier"
  show ?case
  proof (cases "tier_is_full m tier \<and> lru_of m tier \<noteq> []")
    case True
    then obtain i m' where p: "pop_back_from_tier tier m = (Some i, m')" using pop_back_observed by blast
    have cap: "capacity_of m tier \<noteq> UNLIMITED_CAPACITY" "capacity_of m tier \<le> length (lru_of m tier)"
      using True by (auto simp: tier_is_full_def regions_in_tier_def Let_def split: if_splits)
    have c: "?c < length (lru_of m tier)" using cap True by (cases "lru_of m tier") (auto simp: keep_count_def)
    have "capacity_of (drop_region i m') tier = capacity_of m tier"
      using p pop_back_observed [of m tier] True by (auto simp: capacity_of_def drop_region_def)
    then have k: "keep_count (drop_region i m') tier = ?c" using cap by (simp add: keep_count_def)
    obtain m'' where m'': "evict_loop tier (drop_region i m') (evicted @ [i]) = (m'', (evicted @ [i]) @ rev (drop ?c (lru_of (drop_region i m') tier)))"
      "trimmed tier ?c (drop_region i m') m''"
      using 1 [OF conjunct1 [OF True] p [symmetric] refl] unfolding k by blast
    with trimmed_step [OF _ p m''(2) c] True p show ?thesis by (subst evict_loop.simps) simp
  next
    case False
    then have "evict_loop tier m evicted = (m, evicted)" by (subst evict_loop.simps) (auto simp: pop_back_empty)
    moreover have "length (lru_of m tier) \<le> ?c"
      using False by (auto simp: tier_is_full_def keep_count_def regions_in_tier_def Let_def split: if_splits)
    ultimately show ?thesis using trimmed_all by auto
  qed
qed

lemma evict_from_tier_trims:
  "\<exists>m'. evict_from_tier tier n m evicted = (m', evicted @ rev (drop (length (lru_of m tier) - n) (lru_of m tier))) \<and>
     trimmed tier (length (lru_of m tier) - n) m m'"
proof (induction n arbitrary: m evicted)
  case (Suc n)
  show ?case
  proof (cases "lru_of m tier = []")
    case True
    then show ?thesis using trimmed_all [of m tier] by (simp add: pop_back_empty)
  next
    case False
    then obtain i m' where p: "pop_back_from_tier tier m = (Some i, m')" using pop_back_observed by blast
    have l: "length (lru_of (drop_region i m') tier) = length (lru_of m tier) - 1"
      using p pop_back_observed [OF False] by (auto simp: drop_region_def lru_of_def)
    then have c: "length (lru_of (drop_region i m') tier) - n = length (lru_of m tier) - Suc n" "length (lru_of m tier) - Suc n < length (lru_of m tier)"
      using False by simp_all
    obtain m'' where m'': "evict_from_tier tier n (drop_region i m') (evicted @ [i]) =
        (m'', (evicted @ [i]) @ rev (drop (length (lru_of m tier) - Suc n) (lru_of (drop_region i m') tier)))"
      "trimmed tier (length (lru_of m tier) - Suc n) (drop_region i m') m''"
      using Suc.IH [of "drop_region i m'" "evicted @ [i]"] unfolding c(1) by blast
    with trimmed_step [OF False p m''(2) c(2)] p show ?thesis by simp
  qed
qed (simp add: trimmed_all)

lemma trimmed_inv:
  assumes "mm_inv m" and "trimmed tier c m m'"
  shows "mm_inv m'"
proof (rule mm_invI)
  note t = assms(2) [unfolded trimmed_def]
  have s: "i \<in> set (lru_of m tier) \<longleftrightarrow> i \<in> set (take c (lru_of m tier)) \<or> i \<in> set (drop c (lru_of m tier))" for i
    by (metis Un_iff append_take_drop_id set_append)
  have disj: "i \<in> set (take c (lru_of m tier)) \<Longrightarrow> i \<notin> set (drop c (lru_of m tier))" for i
    using set_take_disj_set_drop_if_distinct [OF mm_invD(1) [OF assms(1)], of c c tier] by auto
  show "distinct (lru_of m' t)" for t using t mm_invD(1) [OF assms(1)] by simp
  show "i \<in> set (lru_of m' t) \<longleftrightarrow> (\<exists>r. mm_regions m' i = Some r \<and> rg_tier r = t)" for t i
    using t mm_invD(2) [OF assms(1), of i t] mm_invD(2) [OF assms(1), of i tier] s [of i] disj [of i] by (auto simp: restrict_map_def)
  show "mm_regions m' i = Some r \<Longrightarrow> rg_id r = i" for i r
    using t mm_invD(3) [OF assms(1), of i r] by (auto simp: restrict_map_def split: if_splits)
qed

lemma insert_front_inv:
  assumes "mm_inv m" and "rg_id r \<notin> set (lru_of m' (rg_tier r))"
    and "\<And>t. lru_of m' t = filter (\<lambda>j. j \<noteq> rg_id r) (lru_of m t)" and "mm_regions m' = mm_regions m"
  shows "mm_inv (insert_front (rg_tier r) r m')"
proof (rule mm_invI)
  show "distinct (lru_of (insert_front (rg_tier r) r m') t)" for t
    by (simp add: insert_front_observed assms(3) mm_invD(1) [OF assms(1)])
  show "i \<in> set (lru_of (insert_front (rg_tier r) r m') t) \<longleftrightarrow> (\<exists>q. mm_regions (insert_front (rg_tier r) r m') i = Some q \<and> rg_tier q = t)" for t i
    using assms(3,4) mm_invD(2) [OF assms(1), of i t] by (auto simp: insert_front_observed)
  show "mm_regions (insert_front (rg_tier r) r m') i = Some q \<Longrightarrow> rg_id q = i" for i q
    using assms(4) mm_invD(3) [OF assms(1), of i q] by (auto simp: insert_front_observed split: if_splits)
qed

lemma register_inv: "mm_inv m \<Longrightarrow> mm_inv (mm_register r m)"
  unfolding mm_register_def by (rule insert_front_inv [where m = m]) (simp_all add: remove_observed)

lemma access_observed:
  assumes "mm_inv m"
  shows "mm_access i m = (None, m) \<and> mm_regions m i = None \<or>
    (\<exists>r m'. mm_access i m = (Some r, m') \<and> mm_regions m i = Some r \<and> mm_regions m' = mm_regions m \<and> mm_capacity m' = mm_capacity m \<and>
      (\<forall>t. lru_of m' t = (if t = rg_tier r then i # filter (\<lambda>j. j \<noteq> i) (lru_of m t) else lru_of m t)))"
proof (cases "mm_regions m i")
  case (Some r)
  then have "i \<in> set (lru_of m (rg_tier r))" using mm_invD(2) [OF assms, of i "rg_tier r"] by blast
  then obtain lru where "tier_lru m (rg_tier r) = Some lru" by (cases "tier_lru m (rg_tier r)") (simp_all add: lru_of_def)
  with Some show ?thesis by (simp add: mm_access_def lru_of_def)
qed (simp add: mm_access_def)

lemma access_inv:
  assumes "mm_inv m"
  shows "mm_inv (snd (mm_access i m))"
  using access_observed [OF assms, of i]
proof
  assume "\<exists>r m'. mm_access i m = (Some r, m') \<and> mm_regions m i = Some r \<and> mm_regions m' = mm_regions m \<and> mm_capacity m' = mm_capacity m \<and>
      (\<forall>t. lru_of m' t = (if t = rg_tier r then i # filter (\<lambda>j. j \<noteq> i) (lru_of m t) else lru_of m t))"
  then obtain r m' where m': "mm_access i m = (Some r, m')" "mm_regions m i = Some r" "mm_regions m' = mm_regions m"
    "\<And>t. lru_of m' t = (if t = rg_tier r then i # filter (\<lambda>j. j \<noteq> i) (lru_of m t) else lru_of m t)" by blast
  have "mm_inv m'"
    using m'(2-4) mm_invD [OF assms] by (intro mm_invI) auto
  with m'(1) show ?thesis by simp
qed (use assms in simp)

lemma place_observed:
  assumes "mm_inv m" and "target = rg_tier r"
  defines "l \<equiv> filter (\<lambda>j. j \<noteq> rg_id r) (lru_of m target)"
    and "c \<equiv> if capacity_of m target = UNLIMITED_CAPACITY then length (filter (\<lambda>j. j \<noteq> rg_id r) (lru_of m target)) else capacity_of m target - 1"
  shows "\<exists>m'. place_region r target m = (m', rev (drop c l)) \<and> mm_inv m' \<and> mm_capacity m' = mm_capacity m \<and>
    lru_of m' target = rg_id r # take c l \<and> mm_regions m' = (mm_regions m |` (- set (drop c l)))(rg_id r \<mapsto> r)"
proof -
  let ?m1 = "remove_from_any_tier (rg_id r) m"
  note m1 = remove_observed [OF assms(1), of "rg_id r"]
  have k: "keep_count ?m1 target = c" by (simp add: keep_count_def capacity_of_def m1 c_def)
  obtain m2 where m2: "evict_loop target ?m1 [] = (m2, rev (drop c l))" "trimmed target c ?m1 m2"
    using evict_loop_trims [of target ?m1 "[]"] unfolding k m1 l_def by auto
  have o: "lru_of m2 t = (if t = target then take c l else filter (\<lambda>j. j \<noteq> rg_id r) (lru_of m t))" "mm_capacity m2 = mm_capacity m"
    "mm_regions m2 = mm_regions m |` (- set (drop c l))" for t
    using m2(2) by (simp_all add: trimmed_def m1 l_def)
  have "mm_inv (insert_front target r m2)"
  proof -
    show ?thesis
    proof (rule mm_invI)
      have s: "i \<in> set l \<longleftrightarrow> i \<in> set (take c l) \<or> i \<in> set (drop c l)" for i by (metis Un_iff append_take_drop_id set_append)
      have dl: "distinct l" using mm_invD(1) [OF assms(1), of target] by (simp add: l_def)
      have disj: "i \<in> set (take c l) \<Longrightarrow> i \<notin> set (drop c l)" for i using set_take_disj_set_drop_if_distinct [OF dl, of c c] by auto
      have nl: "rg_id r \<notin> set l" by (simp add: l_def)
      then have nt: "rg_id r \<notin> set (take c l)" by (auto dest: in_set_takeD)
      show "distinct (lru_of (insert_front target r m2) t)" for t
        using dl nt by (simp add: insert_front_observed o mm_invD(1) [OF assms(1)])
      show "i \<in> set (lru_of (insert_front target r m2) t) \<longleftrightarrow> (\<exists>q. mm_regions (insert_front target r m2) i = Some q \<and> rg_tier q = t)" for t i
        using mm_invD(2) [OF assms(1), of i t] mm_invD(2) [OF assms(1), of i target] s [of i] disj [of i] nt assms(2)
        by (auto simp: insert_front_observed o restrict_map_def l_def)
      show "mm_regions (insert_front target r m2) i = Some q \<Longrightarrow> rg_id q = i" for i q
        using mm_invD(3) [OF assms(1), of i q] by (auto simp: insert_front_observed o restrict_map_def split: if_splits)
    qed
  qed
  with m2(1) show ?thesis by (simp add: place_region_def insert_front_observed o)
qed

section \<open>Sequences of operations\<close>

datatype mm_op = Register region | Access u64 | Place region | Evict memory_tier nat

definition mm_step :: "mm_op \<Rightarrow> memory_manager \<Rightarrow> memory_manager" where
  "mm_step x m =
     (case x of
        Register r \<Rightarrow> mm_register r m
      | Access i \<Rightarrow> snd (mm_access i m)
      | Place r \<Rightarrow> fst (place_region r (rg_tier r) m)
      | Evict tier n \<Rightarrow> fst (evict_from_tier tier n m []))"

lemma mm_step_inv:
  assumes "mm_inv m"
  shows "mm_inv (mm_step x m)"
proof (cases x)
  case (Place r)
  with place_observed [OF assms refl, of r] show ?thesis by (auto simp: mm_step_def)
next
  case (Evict tier n)
  with evict_from_tier_trims [of tier n m "[]"] trimmed_inv [OF assms] show ?thesis by (auto simp: mm_step_def)
qed (simp_all add: mm_step_def register_inv access_inv assms)

lemma mm_run_inv: "mm_inv m \<Longrightarrow> mm_inv (fold mm_step xs m)"
  by (induction xs arbitrary: m) (simp_all add: mm_step_inv)

lemma access_lists:
  assumes "mm_inv m"
  shows "fst (mm_access i m) = mm_regions m i"
    and "lru_of (snd (mm_access i m)) tier = (if i \<in> set (lru_of m tier) then i # filter (\<lambda>j. j \<noteq> i) (lru_of m tier) else lru_of m tier)"
  using access_observed [OF assms, of i] mm_invD(2) [OF assms, of i tier] by auto


text \<open>A region placed in a tier that is not its own is not found there again: a second placement lists it twice.\<close>

lemma place_elsewhere_duplicates:
  assumes "rg_tier r \<noteq> L3"
  shows "lru_of (fst (place_region r L3 (fst (place_region r L3 (mm_with_capacity Map.empty))))) L3 = [rg_id r, rg_id r]"
  using assms
  by (simp add: place_region_def remove_from_any_tier_def mm_with_capacity_def evict_loop.simps tier_is_full_def capacity_of_def
      insert_front_def lru_of_def)

end
