(* ===== verification/Morsel_Exec.thy ===== *)
theory Morsel_Exec
  imports Kernels Regions
begin

text \<open>
  The kernel executor of src/src/executor: plans and their lowering (plan.rs), the scheduler over registered regions
  (scheduler.rs), morsels (morsel.rs), the round-robin dispatcher (dispatcher.rs), workers (worker.rs) and pipelines
  (pipeline.rs). The machine they run on is a record: its kernel table with the iteration order of the table, its CPU and
  the parameters of \<open>kernel_execute\<close>. \<open>None\<close> is a panic. Thread pinning, a system call, is not modelled; the adaptive
  routing of eddy.rs is not part of this theory.
\<close>

section \<open>Plans\<close>

datatype plan_node =
    Scan u64 operator kernel_params
  | Aggregate plan_node operator
  | Join plan_node plan_node operator
  | Materialize plan_node u64

record kernel_invocation =
  inv_operator :: operator
  inv_tier :: memory_tier
  inv_region :: u64
  inv_params :: kernel_params

primrec lower_node :: "plan_node \<Rightarrow> kernel_invocation list \<Rightarrow> kernel_invocation list" where
  "lower_node (Scan rid op p) out = out @ [\<lparr>inv_operator = op, inv_tier = L3, inv_region = rid, inv_params = p\<rparr>]"
| "lower_node (Aggregate child op) out =
     lower_node child out @ [\<lparr>inv_operator = op, inv_tier = L3, inv_region = 0, inv_params = default_params\<rparr>]"
| "lower_node (Join left right op) out =
     lower_node right (lower_node left out) @ [\<lparr>inv_operator = op, inv_tier = L3, inv_region = 0, inv_params = default_params\<rparr>]"
| "lower_node (Materialize child target) out = lower_node child out"

definition lower_to_kernels :: "plan_node \<Rightarrow> kernel_invocation list" where
  "lower_to_kernels root = lower_node root []"

section \<open>The scheduler\<close>

record machine =
  mc_table :: kernel_map
  mc_vals :: "kernel list"
  mc_cpu :: cpu_target
  mc_vpopcntdq :: bool
  mc_rest :: "kernel \<Rightarrow> u64 list \<Rightarrow> kernel_params \<Rightarrow> kernel_result"

definition mc_select :: "machine \<Rightarrow> operator \<Rightarrow> memory_tier \<Rightarrow> kernel option" where
  "mc_select mc op tier = select (mc_table mc) (mc_vals mc) (mc_cpu mc) op tier"

definition mc_execute :: "machine \<Rightarrow> kernel \<Rightarrow> u64 list \<Rightarrow> kernel_params \<Rightarrow> kernel_result" where
  "mc_execute mc k cells p = kernel_execute (mc_rest mc) (mc_vpopcntdq mc) k cells p"

type_synonym registry = "u64 \<rightharpoonup> region"

definition register_region :: "region \<Rightarrow> registry \<Rightarrow> registry" where
  "register_region r rs = rs(rg_id r \<mapsto> r)"

definition execute_invocation :: "machine \<Rightarrow> registry \<Rightarrow> kernel_invocation \<Rightarrow> kernel_result result" where
  "execute_invocation mc rs ki =
     (case rs (inv_region ki) of
        None \<Rightarrow> Inl NotFound
      | Some r \<Rightarrow>
          (case mc_select mc (inv_operator ki) (rg_tier r) of
             None \<Rightarrow> Inl Unsupported
           | Some k \<Rightarrow>
               let n = min (cell_count (inv_params ki)) (length (rg_data r) div 8);
                   p = (inv_params ki)\<lparr>cell_count := n\<rparr>
               in Inr (mc_execute mc k (take n (as_u64_cells r)) p)))"

primrec plan_loop :: "machine \<Rightarrow> registry \<Rightarrow> kernel_invocation list \<Rightarrow> kernel_result list \<Rightarrow> kernel_result list" where
  "plan_loop mc rs [] results = results"
| "plan_loop mc rs (ki # kis) results =
     (if inv_region ki = 0 then plan_loop mc rs kis (results @ [default_result])
      else case execute_invocation mc rs ki of
             Inr x \<Rightarrow> plan_loop mc rs kis (results @ [x])
           | Inl e \<Rightarrow> plan_loop mc rs kis (results @ [default_result]))"

definition execute_plan :: "machine \<Rightarrow> registry \<Rightarrow> plan_node \<Rightarrow> kernel_result list" where
  "execute_plan mc rs root = plan_loop mc rs (lower_to_kernels root) []"

text \<open>The common part of the three convenience calls.\<close>

definition run_on_region :: "machine \<Rightarrow> registry \<Rightarrow> u64 \<Rightarrow> operator \<Rightarrow> kernel_params \<Rightarrow> kernel_result result" where
  "run_on_region mc rs rid op p =
     (case rs rid of
        None \<Rightarrow> Inl NotFound
      | Some r \<Rightarrow>
          execute_invocation mc rs \<lparr>inv_operator = op, inv_tier = rg_tier r, inv_region = rid, inv_params = p\<lparr>cell_count := rg_cell_count r\<rparr>\<rparr>)"

definition sched_scan_eq :: "machine \<Rightarrow> registry \<Rightarrow> u64 \<Rightarrow> u64 \<Rightarrow> u64 result" where
  "sched_scan_eq mc rs rid target =
     bind_result (run_on_region mc rs rid ScanEqU64 (default_params\<lparr>target_u64 := target\<rparr>)) (\<lambda>x. Inr (kr_count x))"

definition sched_sum_f64 :: "machine \<Rightarrow> registry \<Rightarrow> u64 \<Rightarrow> u64 result" where
  "sched_sum_f64 mc rs rid = bind_result (run_on_region mc rs rid AggregateSumF64 default_params) (\<lambda>x. Inr (kr_sum x))"

definition count_similar :: "machine \<Rightarrow> registry \<Rightarrow> u64 \<Rightarrow> u64 \<Rightarrow> u32 \<Rightarrow> u64 result" where
  "count_similar mc rs rid target max_d =
     bind_result (run_on_region mc rs rid SimilarityHamming (default_params\<lparr>target_u64 := target, max_distance := max_d\<rparr>)) (\<lambda>x. Inr (kr_count x))"

section \<open>Morsels, workers and the dispatcher\<close>

definition MORSEL_SIZE :: nat where
  "MORSEL_SIZE = 1024"

record morsel =
  ms_data :: "u64 list"
  ms_region :: u64
  ms_offset :: nat
  ms_len :: nat
  ms_numa :: "u32 option"

definition morsel_new :: "u64 \<Rightarrow> nat \<Rightarrow> u64 list \<Rightarrow> morsel" where
  "morsel_new rid offset cells =
     (let len = min (length cells) MORSEL_SIZE
      in \<lparr>ms_data = take len cells, ms_region = rid, ms_offset = offset, ms_len = len, ms_numa = Some 0\<rparr>)"

record worker =
  wk_cpu :: u32
  wk_numa :: u32

definition process_morsel :: "machine \<Rightarrow> morsel \<Rightarrow> kernel \<Rightarrow> kernel_params \<Rightarrow> kernel_result" where
  "process_morsel mc ms k p = mc_execute mc k (take (ms_len ms) (ms_data ms)) (p\<lparr>cell_count := ms_len ms\<rparr>)"

definition DEFAULT_CORES_PER_NUMA_NODE :: u32 where
  "DEFAULT_CORES_PER_NUMA_NODE = 8"

record dispatcher =
  dp_workers :: "worker list"
  next_worker :: nat

definition dispatcher_new :: "nat \<Rightarrow> dispatcher" where
  "dispatcher_new n =
     \<lparr>dp_workers = map (\<lambda>i. \<lparr>wk_cpu = of_nat i, wk_numa = of_nat i div DEFAULT_CORES_PER_NUMA_NODE\<rparr>) [0..<n], next_worker = 0\<rparr>"

definition dispatch :: "morsel \<Rightarrow> dispatcher \<Rightarrow> (nat \<times> dispatcher) option" where
  "dispatch ms d =
     (let n = length (dp_workers d)
      in if 0 < n then Some (next_worker d mod n, d\<lparr>next_worker := (next_worker d + 1) mod n\<rparr>) else None)"

definition dp_worker :: "dispatcher \<Rightarrow> nat \<Rightarrow> worker option" where
  "dp_worker d i = (if i < length (dp_workers d) then Some (dp_workers d ! i) else None)"

section \<open>Pipelines\<close>

record pipeline =
  stages :: "operator list"
  pl_results :: "kernel_result list"

definition pipeline_new :: "operator list \<Rightarrow> pipeline" where
  "pipeline_new ops = \<lparr>stages = ops, pl_results = []\<rparr>"

text \<open>The stages of one morsel: an operator without a kernel ends the call with an error, the results so far stay.\<close>

primrec stage_loop :: "machine \<Rightarrow> u64 list \<Rightarrow> kernel_params \<Rightarrow> operator list \<Rightarrow> kernel_result list \<Rightarrow> unit result \<times> kernel_result list" where
  "stage_loop mc cells p [] results = (Inr (), results)"
| "stage_loop mc cells p (op # ops) results =
     (case mc_select mc op L3 of
        None \<Rightarrow> (Inl Unsupported, results)
      | Some k \<Rightarrow> stage_loop mc cells p ops (results @ [mc_execute mc k cells p]))"

definition execute_morsel :: "machine \<Rightarrow> morsel \<Rightarrow> kernel_params \<Rightarrow> pipeline \<Rightarrow> unit result \<times> pipeline" where
  "execute_morsel mc ms p pl =
     (case stage_loop mc (take (ms_len ms) (ms_data ms)) (p\<lparr>cell_count := ms_len ms\<rparr>) (stages pl) (pl_results pl) of
        (x, results) \<Rightarrow> (x, pl\<lparr>pl_results := results\<rparr>))"

definition pl_reset :: "pipeline \<Rightarrow> pipeline" where
  "pl_reset pl = pl\<lparr>pl_results := []\<rparr>"

text \<open>The pipeline breaker: its materialized cells.\<close>

definition breaker_push :: "u64 list \<Rightarrow> u64 list \<Rightarrow> u64 list" where
  "breaker_push cells materialized = materialized @ cells"

definition breaker_drain :: "u64 list \<Rightarrow> u64 list \<times> u64 list" where
  "breaker_drain materialized = (materialized, [])"

section \<open>Scans through the scheduler\<close>

definition machine_ok :: "bool \<Rightarrow> machine \<Rightarrow> bool" where
  "machine_ok x86 mc \<longleftrightarrow> mc_table mc = kernel_table x86 \<and> set (mc_vals mc) = ran (kernel_table x86)"

lemma machine_selects:
  "machine_ok x86 mc \<Longrightarrow> \<exists>k. mc_select mc op tier = Some k \<and> kernel_operator k = op"
  using select_some [of "mc_vals mc" x86 "mc_cpu mc" op tier] by (auto simp: machine_ok_def mc_select_def)

definition word_safe :: "operator \<Rightarrow> u64 list \<Rightarrow> kernel_params \<Rightarrow> bool" where
  "word_safe op cells p \<longleftrightarrow> (if op = ScanRangeU64 \<or> op = ScanMultiPredicate then list_all nonneg cells \<and> params_nonneg p else True)"

lemma machine_counts:
  assumes "kernel_operator k = op" and "counts_matches op" and "word_safe op cells p"
  shows "kr_count (mc_execute mc k cells p) = tally (matches op p) cells"
proof -
  have "signed_kernel k \<longrightarrow> list_all nonneg cells \<and> params_nonneg p"
    using assms(1,3) by (auto simp: signed_kernel_def kernel_operator_def word_safe_def)
  with execute_counts [of k cells p] assms(1,2) show ?thesis by (simp add: mc_execute_def)
qed

lemma matches_cell_count [simp]: "matches op (p\<lparr>cell_count := n\<rparr>) = matches op p"
  by (cases op) (simp_all add: matches_def all_preds_def fun_eq_iff)

lemma length_cells: "length (as_u64_cells r) = length (rg_data r) div 8"
  by (simp add: as_u64_cells_def length_chunks_exact)

lemma run_on_region_counts:
  assumes "machine_ok x86 mc" and "rs rid = Some r" and "rg_wf r" and "counts_matches op" and "op \<noteq> ScanRangeU64" "op \<noteq> ScanMultiPredicate"
  shows "\<exists>x. run_on_region mc rs rid op p = Inr x \<and> kr_count x = tally (matches op p) (as_u64_cells r)"
proof -
  obtain k where k: "mc_select mc op (rg_tier r) = Some k" "kernel_operator k = op" using machine_selects [OF assms(1)] by blast
  have n: "length (rg_data r) = REGION_SIZE" using assms(3) by (simp add: rg_wf_def)
  have "take (REGION_SIZE div 8) (as_u64_cells r) = as_u64_cells r" using n by (simp add: length_cells)
  with k assms(2) n machine_counts [OF k(2) assms(4)] assms(5,6) show ?thesis
    by (simp add: run_on_region_def execute_invocation_def rg_cell_count_def Let_def word_safe_def)
qed


lemma chunks_replicate: "chunks_exact 8 (replicate (8 * n) x) = replicate n (replicate 8 x)"
proof (induction n)
  case (Suc n)
  have "chunks_exact 8 (replicate (8 * Suc n) x) = take 8 (replicate (8 * Suc n) x) # chunks_exact 8 (drop 8 (replicate (8 * Suc n) x))"
    by (subst chunks_exact.simps) simp
  with Suc show ?case by simp
qed (simp add: chunks_exact.simps)

definition demo_machine :: machine where
  "demo_machine = \<lparr>mc_table = kernel_table True, mc_vals = builtin_kernels True, mc_cpu = X86Avx512, mc_vpopcntdq = True,
     mc_rest = (\<lambda>_ _ _. default_result)\<rparr>"


text \<open>A plan is run one kernel after the other; a failed kernel and every kernel on region 0 give the default result. A
  region with the identifier 0 can be registered, but a plan never scans it.\<close>

lemma plan_loop_results: "plan_loop mc rs kis results = results @ map (\<lambda>ki. if inv_region ki = 0 then default_result
    else case execute_invocation mc rs ki of Inr x \<Rightarrow> x | Inl e \<Rightarrow> default_result) kis"
  by (induction kis arbitrary: results) (simp_all split: sum.split)

lemma plan_ignores_region_zero: "execute_plan mc rs (Scan 0 op p) = [default_result]"
  by (simp add: execute_plan_def lower_to_kernels_def)

section \<open>Round robin\<close>

text \<open>The workers chosen for a sequence of morsels.\<close>

primrec dispatch_all :: "morsel list \<Rightarrow> dispatcher \<Rightarrow> (nat list \<times> dispatcher) option" where
  "dispatch_all [] d = Some ([], d)"
| "dispatch_all (ms # mss) d =
     (case dispatch ms d of
        None \<Rightarrow> None
      | Some (w, d') \<Rightarrow> map_option (\<lambda>(ws, d''). (w # ws, d'')) (dispatch_all mss d'))"

lemma dispatch_all_ok:
  assumes "0 < length (dp_workers d)"
  shows "\<exists>d'. dispatch_all mss d = Some (map (\<lambda>j. (next_worker d + j) mod length (dp_workers d)) [0..<length mss], d') \<and>
    dp_workers d' = dp_workers d \<and> next_worker d' mod length (dp_workers d) = (next_worker d + length mss) mod length (dp_workers d)"
  using assms
proof (induction mss arbitrary: d)
  case (Cons ms mss)
  let ?n = "length (dp_workers d)"
  let ?d = "d\<lparr>next_worker := (next_worker d + 1) mod ?n\<rparr>"
  obtain d' where d': "dispatch_all mss ?d = Some (map (\<lambda>j. (next_worker ?d + j) mod ?n) [0..<length mss], d')"
    "dp_workers d' = dp_workers d" "next_worker d' mod ?n = (next_worker ?d + length mss) mod ?n"
    using Cons.IH [of ?d] Cons.prems by auto
  have "(next_worker ?d + j) mod ?n = (next_worker d + Suc j) mod ?n" for j by (simp add: mod_add_left_eq)
  with d' Cons.prems show ?case
    by (auto simp: dispatch_def Let_def upt_conv_Cons map_Suc_upt [symmetric] comp_def simp del: upt_Suc)
qed simp

lemma shift_mod_inj:
  fixes i j n a :: nat
  assumes "i < n" "j < n" and "(a + i) mod n = (a + j) mod n"
  shows "i = j"
  using assms
proof (induction i j rule: linorder_wlog)
  case (le i j)
  then have "n dvd (a + j) - (a + i)" using mod_eq_dvd_iff_nat [of "a + i" "a + j" n] by simp
  then have "n dvd j - i" by simp
  with le show ?case using dvd_imp_le [of n "j - i"] by linarith
qed simp

lemma count_list_distinct: "distinct xs \<Longrightarrow> count_list xs x = of_bool (x \<in> set xs)"
  by (induction xs) auto

text \<open>C33: Every worker is served. A dispatcher with at least one worker never panics, and whatever it has dispatched so
  far, each of its workers is chosen exactly once among the next \<open>n\<close> morsels, \<open>n\<close> being the number of workers; so in an
  endless supply of morsels every worker is chosen again and again.\<close>

theorem dispatcher_serves_every_worker:
  assumes "0 < n" and "dispatch_all before (dispatcher_new n) = Some (ws, d)" and "length mss = n"
  shows "\<exists>ws' d'. dispatch_all mss d = Some (ws', d') \<and> (\<forall>w<n. count_list ws' w = 1) \<and>
    (\<forall>w<n. \<exists>worker. dp_worker d w = Some worker \<and> wk_cpu worker = of_nat w)"
proof -
  obtain d1 where d1: "dispatch_all before (dispatcher_new n) = Some (map (\<lambda>j. (next_worker (dispatcher_new n) + j) mod n) [0..<length before], d1)"
    "dp_workers d1 = dp_workers (dispatcher_new n)"
    using dispatch_all_ok [of "dispatcher_new n" before] assms(1) by (auto simp: dispatcher_new_def)
  then have d: "d = d1" "length (dp_workers d) = n" using assms(2) by (simp_all add: dispatcher_new_def)
  let ?ws = "map (\<lambda>j. (next_worker d + j) mod n) [0..<n]"
  obtain d' where d': "dispatch_all mss d = Some (?ws, d')" using dispatch_all_ok [of d mss] d(2) assms(1,3) by auto
  have inj: "inj_on (\<lambda>j. (next_worker d + j) mod n) {0..<n}"
    by (rule inj_onI) (auto dest: shift_mod_inj)
  have "distinct ?ws" using inj by (simp add: distinct_map)
  moreover have "set ?ws = {0..<n}"
    using inj assms(1) by (intro card_subset_eq) (auto simp: card_image)
  ultimately have "\<forall>w<n. count_list ?ws w = 1" by (simp add: count_list_distinct del: set_map)
  moreover have "\<forall>w<n. \<exists>worker. dp_worker d w = Some worker \<and> wk_cpu worker = of_nat w"
    using d d1(2) by (simp add: dp_worker_def dispatcher_new_def)
  ultimately show ?thesis using d' by blast
qed

theorem dispatcher_serves_every_worker_witness:
  "\<exists>ws' d'. dispatch_all (replicate 3 (morsel_new 0 0 [])) \<lparr>dp_workers = dp_workers (dispatcher_new 3), next_worker = 2\<rparr> = Some (ws', d') \<and>
     (\<forall>w<3. count_list ws' w = 1)"
proof -
  let ?m = "morsel_new 0 0 []"
  have "dispatch_all [?m, ?m, ?m, ?m, ?m] (dispatcher_new 3) =
      Some ([0, 1, 2, 0, 1], \<lparr>dp_workers = dp_workers (dispatcher_new 3), next_worker = 2\<rparr>)"
    by (simp add: dispatch_def dispatcher_new_def)
  from dispatcher_serves_every_worker [OF _ this, of "replicate 3 ?m"] show ?thesis by auto
qed

section \<open>Pipelines over morsels\<close>

definition ms_wf :: "morsel \<Rightarrow> bool" where
  "ms_wf ms \<longleftrightarrow> ms_len ms = length (ms_data ms) \<and> ms_len ms \<le> MORSEL_SIZE"

lemma morsel_new_wf: "ms_wf (morsel_new rid offset cells)"
  and morsel_new_data: "ms_data (morsel_new rid offset cells) = take MORSEL_SIZE cells"
  by (simp_all add: ms_wf_def morsel_new_def Let_def min_def)

definition stage_kernel :: "machine \<Rightarrow> operator \<Rightarrow> kernel" where
  "stage_kernel mc op = the (mc_select mc op L3)"

lemma stage_loop_ok:
  assumes "machine_ok x86 mc"
  shows "stage_loop mc cells p ops results = (Inr (), results @ map (\<lambda>op. mc_execute mc (stage_kernel mc op) cells p) ops)"
proof (induction ops arbitrary: results)
  case (Cons op ops)
  then show ?case using machine_selects [OF assms, of op L3] by (auto simp: stage_kernel_def)
qed simp

primrec execute_morsels :: "machine \<Rightarrow> kernel_params \<Rightarrow> morsel list \<Rightarrow> pipeline \<Rightarrow> unit result \<times> pipeline" where
  "execute_morsels mc p [] pl = (Inr (), pl)"
| "execute_morsels mc p (ms # mss) pl =
     (case execute_morsel mc ms p pl of (Inl e, pl) \<Rightarrow> (Inl e, pl) | (Inr _, pl) \<Rightarrow> execute_morsels mc p mss pl)"

lemma execute_morsels_ok:
  assumes "machine_ok x86 mc" and "list_all ms_wf mss"
  shows "execute_morsels mc p mss pl = (Inr (), pl\<lparr>pl_results := pl_results pl @
    concat (map (\<lambda>ms. map (\<lambda>op. mc_execute mc (stage_kernel mc op) (ms_data ms) (p\<lparr>cell_count := ms_len ms\<rparr>)) (stages pl)) mss)\<rparr>)"
  using assms(2)
proof (induction mss arbitrary: pl)
  case (Cons ms mss)
  then show ?case by (simp add: execute_morsel_def stage_loop_ok [OF assms(1)] ms_wf_def)
qed simp

lemma nth_concat_map: "s < n \<Longrightarrow> (\<And>x. length (f x) = n) \<Longrightarrow> i < length xs \<Longrightarrow> concat (map f xs) ! (i * n + s) = f (xs ! i) ! s"
proof (induction xs arbitrary: i)
  case (Cons x xs)
  then show ?case by (cases i) (simp_all add: nth_append)
qed simp

text \<open>The counts of one scan stage, added over the morsels of a pipeline run, are the count over all their cells: results
  are laid out morsel by morsel, stage by stage.\<close>

theorem pipeline_scan_total:
  assumes "machine_ok x86 mc" and "list_all ms_wf mss" and "s < length ops" and "counts_matches (ops ! s)"
    and "word_safe (ops ! s) (concat (map ms_data mss)) p"
  shows "\<exists>pl. execute_morsels mc p mss (pipeline_new ops) = (Inr (), pl) \<and> length (pl_results pl) = length mss * length ops \<and>
    sum_list (map (\<lambda>i. kr_count (pl_results pl ! (i * length ops + s))) [0..<length mss]) =
      tally (matches (ops ! s) p) (concat (map ms_data mss))"
proof -
  let ?f = "\<lambda>ms. map (\<lambda>op. mc_execute mc (stage_kernel mc op) (ms_data ms) (p\<lparr>cell_count := ms_len ms\<rparr>)) ops"
  let ?rs = "concat (map ?f mss)"
  have k: "kernel_operator (stage_kernel mc (ops ! s)) = ops ! s"
    using machine_selects [OF assms(1), of "ops ! s" L3] by (auto simp: stage_kernel_def)
  have "kr_count (?rs ! (i * length ops + s)) = tally (matches (ops ! s) p) (ms_data (mss ! i))" if "i < length mss" for i
  proof -
    have "set (ms_data (mss ! i)) \<subseteq> set (concat (map ms_data mss))" using nth_mem [OF that] by auto
    then have "word_safe (ops ! s) (ms_data (mss ! i)) (p\<lparr>cell_count := ms_len (mss ! i)\<rparr>)"
      using assms(5) by (auto simp: word_safe_def list_all_iff params_nonneg_def split: if_splits)
    from machine_counts [OF k assms(4) this, of mc] nth_concat_map [of s "length ops" ?f i mss] assms(3) that
    show ?thesis by simp
  qed
  then have "sum_list (map (\<lambda>i. kr_count (?rs ! (i * length ops + s))) [0..<length mss]) =
      sum_list (map (\<lambda>i. tally (matches (ops ! s) p) (ms_data (mss ! i))) [0..<length mss])"
    by (intro arg_cong [where f = sum_list] map_cong) simp_all
  also have "\<dots> = sum_list (map (\<lambda>ms. tally (matches (ops ! s) p) (ms_data ms)) mss)"
    using map_nth [of mss] by (metis (no_types, lifting) map_map comp_apply map_cong)
  also have "\<dots> = tally (matches (ops ! s) p) (concat (map ms_data mss))" by (induction mss) simp_all
  finally show ?thesis using execute_morsels_ok [OF assms(1,2), of p "pipeline_new ops"]
    by (simp add: pipeline_new_def length_concat comp_def sum_list_triv)
qed

end
