(* ===== verification/Sql_Dml.thy ===== *)
theory Sql_Dml
  imports Sql_Print
begin

text \<open>
  The parser for INSERT, UPDATE and DELETE of src/src/sql/dml.rs. The cursor into the token slice is the list of tokens
  that are left; running past its end is the empty list, which each place in the source turns into a message of its
  own. The text of a float and the debug text of a token are the parameters of the SELECT parser.
\<close>

section \<open>Statements\<close>

record insert_stmt =
  ins_table :: string
  ins_columns :: "string list option"
  ins_values :: "string list list"

record update_stmt =
  upd_table :: string
  upd_assignments :: "(string \<times> string) list"
  upd_where :: "string option"

record delete_stmt =
  del_table :: string
  del_where :: "string option"

datatype dml_statement = Insert insert_stmt | Update update_stmt | Delete delete_stmt

section \<open>Parser\<close>

text \<open>The next token, or the message for the end of the slice.\<close>

definition token_or :: "string \<Rightarrow> token list \<Rightarrow> token parsed" where
  "token_or msg ts = (case ts of [] \<Rightarrow> Inl (Message msg) | t # ts \<Rightarrow> Inr (t, ts))"

text \<open>A token that must come next.\<close>

definition require :: "token \<Rightarrow> string \<Rightarrow> token list \<Rightarrow> unit parsed" where
  "require u msg ts = andthen (token_or msg ts) (\<lambda>t ts. if t = u then Inr ((), ts) else Inl (Expected msg t))"

definition name_part :: "string \<Rightarrow> token list \<Rightarrow> string parsed" where
  "name_part msg ts =
     andthen (token_or msg ts) (\<lambda>t ts. case t of Ident s \<Rightarrow> Inr (s, ts) | Keyword k \<Rightarrow> Inr (k, ts) | _ \<Rightarrow> Inl (Expected msg t))"

definition dml_qualified_name :: "token list \<Rightarrow> string parsed" where
  "dml_qualified_name ts =
     andthen (name_part ''table name'' ts)
       (\<lambda>first ts.
          case ts of
            Op x # us \<Rightarrow>
              if x = ''.'' then andthen (name_part ''name after .'' us) (\<lambda>second us. Inr (first @ ''.'' @ second, us))
              else Inr (first, ts)
          | _ \<Rightarrow> Inr (first, ts))"

definition quoted :: "string \<Rightarrow> string" where
  "quoted s = CHR 0x27 # s @ [CHR 0x27]"

definition hex_text :: "bytes \<Rightarrow> string" where
  "hex_text bs = ''x'' @ quoted (concat (map show_byte bs))"

definition token_to_value_string :: "parse_env \<Rightarrow> token \<Rightarrow> string option" where
  "token_to_value_string env t =
     (case t of
        Int_lit n \<Rightarrow> Some (show_int n)
      | Float_lit f \<Rightarrow> Some (float_str env f)
      | String_lit s \<Rightarrow> Some (quoted s)
      | Hex_lit bs \<Rightarrow> Some (hex_text bs)
      | Keyword k \<Rightarrow> Some k
      | Ident s \<Rightarrow> Some s
      | Op x \<Rightarrow> Some x
      | _ \<Rightarrow> None)"

text \<open>The column list of an INSERT; a missing comma between two names is accepted.\<close>

definition cons_parsed :: "'a \<Rightarrow> 'a list parsed \<Rightarrow> 'a list parsed" where
  "cons_parsed x r = andthen r (\<lambda>xs ts. Inr (x # xs, ts))"

fun insert_columns :: "token list \<Rightarrow> string list parsed" where
  "insert_columns [] = Inl (Message ''unterminated column list'')"
| "insert_columns (t # ts) =
     (case t of
        RParen \<Rightarrow> Inr ([], ts)
      | Ident s \<Rightarrow>
          (case ts of
             [] \<Rightarrow> Inl (Message ''unterminated column list'')
           | u # us \<Rightarrow>
               if u = Comma then cons_parsed s (insert_columns us)
               else if u = RParen then Inr ([s], us)
               else cons_parsed s (insert_columns ts))
      | _ \<Rightarrow> Inl (Expected ''column or )'' t))"

text \<open>One parenthesised row, after its opening parenthesis; commas only separate.\<close>

fun value_row :: "parse_env \<Rightarrow> token list \<Rightarrow> string list parsed" where
  "value_row env [] = Inl (Message ''unterminated value list'')"
| "value_row env (t # ts) =
     (if t = RParen then Inr ([], ts)
      else if t = Comma then value_row env ts
      else case token_to_value_string env t of
             None \<Rightarrow> Inl (Expected ''value'' t)
           | Some v \<Rightarrow> cons_parsed v (value_row env ts))"

lemma value_row_shorter: "value_row env ts = Inr (vs, us) \<Longrightarrow> length us < length ts"
  by (induction env ts arbitrary: vs rule: value_row.induct)
    (fastforce simp: cons_parsed_def andthen_def split: if_splits option.splits sum.splits)+

function value_rows :: "parse_env \<Rightarrow> token list \<Rightarrow> string list list parsed" where
  "value_rows env [] = Inl (Message ''( after VALUES'')"
| "value_rows env (t # ts) =
     (if t = LParen then
        (case value_row env ts of
           Inl e \<Rightarrow> Inl e
         | Inr (row, us) \<Rightarrow>
             (case us of
                [] \<Rightarrow> Inr ([row], us)
              | u # vs \<Rightarrow> if u = Comma then cons_parsed row (value_rows env vs) else Inr ([row], us)))
      else if t = Semicolon \<or> t = EOF then Inr ([], t # ts)
      else Inl (Expected ''( or end'' t))"
  by pat_completeness auto
termination
  by (relation "measure (length \<circ> snd)") (auto dest!: value_row_shorter)

definition parse_insert :: "parse_env \<Rightarrow> token list \<Rightarrow> insert_stmt parsed" where
  "parse_insert env ts =
     andthen (require (Keyword ''INTO'') ''INTO after INSERT'' ts) (\<lambda>_ ts.
     andthen (dml_qualified_name ts) (\<lambda>table ts.
     andthen (case ts of
                [] \<Rightarrow> Inr (None, ts)
              | t # us \<Rightarrow> if t = LParen then andthen (insert_columns us) (\<lambda>cols us. Inr (Some cols, us)) else Inr (None, ts)) (\<lambda>cols ts.
     andthen (require (Keyword ''VALUES'') ''VALUES'' ts) (\<lambda>_ ts.
     andthen (value_rows env ts) (\<lambda>rows ts.
       Inr (\<lparr>ins_table = table, ins_columns = cols, ins_values = rows\<rparr>, ts))))))"

text \<open>The word an expression token is stored as.\<close>

definition token_word :: "parse_env \<Rightarrow> token \<Rightarrow> string" where
  "token_word env t =
     (case t of
        Keyword k \<Rightarrow> k
      | Ident s \<Rightarrow> s
      | Int_lit n \<Rightarrow> show_int n
      | Float_lit f \<Rightarrow> float_str env f
      | String_lit s \<Rightarrow> quoted s
      | Op x \<Rightarrow> x
      | LParen \<Rightarrow> ''(''
      | RParen \<Rightarrow> '')''
      | Comma \<Rightarrow> '',''
      | Hex_lit bs \<Rightarrow> hex_text bs
      | _ \<Rightarrow> [])"

primrec expression_words :: "parse_env \<Rightarrow> string list \<Rightarrow> token list \<Rightarrow> string list \<times> token list" where
  "expression_words env stop [] = ([], [])"
| "expression_words env stop (t # ts) =
     (if t = Comma \<or> t = Semicolon \<or> t = EOF \<or> (\<exists>k\<in>set stop. t = Keyword k) then ([], t # ts)
      else let (ws, rest) = expression_words env stop ts in (token_word env t # ws, rest))"

definition collect_expression :: "parse_env \<Rightarrow> token list \<Rightarrow> string list \<Rightarrow> string \<times> token list" where
  "collect_expression env ts stop = (let (ws, rest) = expression_words env stop ts in (join_words ws, rest))"

primrec rest_words :: "parse_env \<Rightarrow> token list \<Rightarrow> string list \<times> token list" where
  "rest_words env [] = ([], [])"
| "rest_words env (t # ts) =
     (if t = Semicolon \<or> t = EOF then ([], t # ts)
      else let (ws, rest) = rest_words env ts in (token_word env t # ws, rest))"

definition collect_rest :: "parse_env \<Rightarrow> token list \<Rightarrow> string \<times> token list" where
  "collect_rest env ts = (let (ws, rest) = rest_words env ts in (join_words ws, rest))"

lemma expression_words_length: "length (snd (expression_words env stop ts)) \<le> length ts"
  by (induction ts) (auto simp: Let_def split: prod.splits)

lemma collect_expression_length: "collect_expression env ts stop = (e, us) \<Longrightarrow> length us \<le> length ts"
  using expression_words_length [of env stop ts] by (auto simp: collect_expression_def Let_def split: prod.splits)

function set_list :: "parse_env \<Rightarrow> token list \<Rightarrow> (string \<times> string) list parsed" where
  "set_list env [] = Inl (Message ''column name in SET'')"
| "set_list env (t # ts) =
     (case t of
        Ident col \<Rightarrow>
          (case ts of
             [] \<Rightarrow> Inl (Message ''= after column name'')
           | u # us \<Rightarrow>
               if u = Op ''='' then
                 (case collect_expression env us ['','', ''WHERE''] of
                    (e, vs) \<Rightarrow>
                      (case vs of
                         [] \<Rightarrow> Inr ([(col, e)], vs)
                       | v # ws \<Rightarrow> if v = Comma then cons_parsed (col, e) (set_list env ws) else Inr ([(col, e)], vs)))
               else Inl (Expected ''= after column name'' u))
      | _ \<Rightarrow> Inl (Expected ''column name in SET'' t))"
  by pat_completeness auto
termination
  by (relation "measure (length \<circ> snd)") (auto dest!: collect_expression_length [OF sym])

definition dml_where :: "parse_env \<Rightarrow> token list \<Rightarrow> string option \<times> token list" where
  "dml_where env ts =
     (case ts of
        [] \<Rightarrow> (None, ts)
      | t # us \<Rightarrow> if t = Keyword ''WHERE'' then (let (w, us) = collect_rest env us in (Some w, us)) else (None, ts))"

definition parse_update :: "parse_env \<Rightarrow> token list \<Rightarrow> update_stmt parsed" where
  "parse_update env ts =
     andthen (dml_qualified_name ts) (\<lambda>table ts.
     andthen (require (Keyword ''SET'') ''SET after table name'' ts) (\<lambda>_ ts.
     andthen (set_list env ts) (\<lambda>assigns ts.
       let (w, ts) = dml_where env ts in Inr (\<lparr>upd_table = table, upd_assignments = assigns, upd_where = w\<rparr>, ts))))"

definition parse_delete :: "parse_env \<Rightarrow> token list \<Rightarrow> delete_stmt parsed" where
  "parse_delete env ts =
     andthen (require (Keyword ''FROM'') ''FROM after DELETE'' ts) (\<lambda>_ ts.
     andthen (dml_qualified_name ts) (\<lambda>table ts.
       let (w, ts) = dml_where env ts in Inr (\<lparr>del_table = table, del_where = w\<rparr>, ts)))"

datatype stmt_error = Lex_error lex_error | Parse_error parse_error

definition parsed_value :: "('a \<Rightarrow> 'b) \<Rightarrow> 'a parsed \<Rightarrow> stmt_error + 'b option" where
  "parsed_value f r = (case r of Inl e \<Rightarrow> Inl (Parse_error e) | Inr (x, _) \<Rightarrow> Inr (Some (f x)))"

definition parse_dml :: "(string \<Rightarrow> u64 option) \<Rightarrow> parse_env \<Rightarrow> string \<Rightarrow> stmt_error + dml_statement option" where
  "parse_dml pf env sql =
     (case tokenize pf sql of
        Inl e \<Rightarrow> Inl (Lex_error e)
      | Inr [] \<Rightarrow> Inr None
      | Inr (t # ts) \<Rightarrow>
          if t = Keyword ''INSERT'' then parsed_value Insert (parse_insert env ts)
          else if t = Keyword ''UPDATE'' then parsed_value Update (parse_update env ts)
          else if t = Keyword ''DELETE'' then parsed_value Delete (parse_delete env ts)
          else Inr None)"

section \<open>Printing statements\<close>

text \<open>Statements as lists of tokens: a table name with an optional schema, rows of value tokens, expressions and
  conditions as the tokens they are written with.\<close>

datatype dml_source =
    Insert_src "string option \<times> string" "string list option" "token list list"
  | Update_src "string option \<times> string" "(string \<times> token list) list" "token list option"
  | Delete_src "string option \<times> string" "token list option"

definition name_tokens :: "string option \<times> string \<Rightarrow> token list" where
  "name_tokens n = (case fst n of None \<Rightarrow> [] | Some s \<Rightarrow> [Ident s, Op ''.'']) @ [Ident (snd n)]"

definition full_name :: "string option \<times> string \<Rightarrow> string" where
  "full_name n = (case fst n of None \<Rightarrow> snd n | Some s \<Rightarrow> s @ ''.'' @ snd n)"

definition row_tokens :: "token list \<Rightarrow> token list" where
  "row_tokens row = LParen # commas (map (\<lambda>v. [v]) row) @ [RParen]"

definition condition_tokens :: "token list option \<Rightarrow> token list" where
  "condition_tokens w = (case w of None \<Rightarrow> [] | Some c \<Rightarrow> Keyword ''WHERE'' # c)"

primrec print_dml :: "dml_source \<Rightarrow> token list" where
  "print_dml (Insert_src n cols rows) =
     Keyword ''INSERT'' # Keyword ''INTO'' # name_tokens n @
       (case cols of None \<Rightarrow> [] | Some cs \<Rightarrow> LParen # commas (map (\<lambda>c. [Ident c]) cs) @ [RParen]) @
       Keyword ''VALUES'' # commas (map row_tokens rows)"
| "print_dml (Update_src n assigns w) =
     Keyword ''UPDATE'' # name_tokens n @ Keyword ''SET'' # commas (map (\<lambda>(c, e). Ident c # Op ''='' # e) assigns) @
       condition_tokens w"
| "print_dml (Delete_src n w) = Keyword ''DELETE'' # Keyword ''FROM'' # name_tokens n @ condition_tokens w"

definition words_text :: "parse_env \<Rightarrow> token list \<Rightarrow> string" where
  "words_text env ts = join_words (map (token_word env) ts)"

text \<open>What the parser is meant to return.\<close>

primrec dml_of :: "parse_env \<Rightarrow> dml_source \<Rightarrow> dml_statement" where
  "dml_of env (Insert_src n cols rows) =
     Insert \<lparr>ins_table = full_name n, ins_columns = cols, ins_values = map (map (token_word env)) rows\<rparr>"
| "dml_of env (Update_src n assigns w) =
     Update \<lparr>upd_table = full_name n, upd_assignments = map (\<lambda>(c, e). (c, words_text env e)) assigns,
       upd_where = map_option (words_text env) w\<rparr>"
| "dml_of env (Delete_src n w) = Delete \<lparr>del_table = full_name n, del_where = map_option (words_text env) w\<rparr>"

definition is_value_token :: "token \<Rightarrow> bool" where
  "is_value_token t \<longleftrightarrow> t \<notin> {LParen, RParen, Comma, Semicolon, EOF}"

definition is_expr_token :: "token \<Rightarrow> bool" where
  "is_expr_token t \<longleftrightarrow> t \<notin> {Comma, Semicolon, EOF} \<union> Keyword ` set ['','', ''WHERE'']"

primrec wf_dml :: "dml_source \<Rightarrow> bool" where
  "wf_dml (Insert_src n cols rows) \<longleftrightarrow> rows \<noteq> [] \<and> list_all (list_all is_value_token) rows"
| "wf_dml (Update_src n assigns w) \<longleftrightarrow>
     assigns \<noteq> [] \<and> list_all (\<lambda>(c, e). list_all is_expr_token e) assigns \<and>
     (case w of None \<Rightarrow> True | Some c \<Rightarrow> list_all (\<lambda>t. t \<notin> {Semicolon, EOF}) c)"
| "wf_dml (Delete_src n w) \<longleftrightarrow> (case w of None \<Rightarrow> True | Some c \<Rightarrow> list_all (\<lambda>t. t \<notin> {Semicolon, EOF}) c)"

section \<open>Reading printed statements back\<close>

lemma cons_parsed_simps [simp]: "cons_parsed x (Inr (xs, ts)) = Inr (x # xs, ts)" "cons_parsed x (Inl e) = Inl e"
  by (simp_all add: cons_parsed_def)

lemma require_simps [simp]: "require u msg (u # ts) = Inr ((), ts)"
  by (simp add: require_def token_or_def)

lemma name_print:
  "(\<And>us. ts \<noteq> Op ''.'' # us) \<Longrightarrow> dml_qualified_name (name_tokens n @ ts) = Inr (full_name n, ts)"
  by (auto simp: dml_qualified_name_def name_tokens_def full_name_def name_part_def token_or_def split: option.splits list.splits token.splits)

lemma insert_columns_print: "insert_columns (commas (map (\<lambda>c. [Ident c]) cs) @ RParen # ts) = Inr (cs, ts)"
proof (induction cs)
  case (Cons c cs)
  then show ?case by (cases cs) simp_all
qed simp

lemma value_string_word: "is_value_token t \<Longrightarrow> token_to_value_string env t = Some (token_word env t)"
  by (cases t) (simp_all add: is_value_token_def token_to_value_string_def token_word_def)

lemma value_row_print:
  "list_all is_value_token row \<Longrightarrow> value_row env (commas (map (\<lambda>v. [v]) row) @ RParen # ts) = Inr (map (token_word env) row, ts)"
proof (induction row)
  case (Cons v row)
  then have "v \<noteq> RParen" "v \<noteq> Comma" "token_to_value_string env v = Some (token_word env v)"
    using value_string_word [of v env] by (auto simp: is_value_token_def)
  with Cons show ?case by (cases row) simp_all
qed simp

lemma value_rows_print:
  assumes "list_all (list_all is_value_token) rows" and "rows \<noteq> []" and "ts = [] \<or> hd ts \<noteq> Comma"
  shows "value_rows env (commas (map row_tokens rows) @ ts) = Inr (map (map (token_word env)) rows, ts)"
  using assms(1,2)
proof (induction rows)
  case (Cons row rows)
  have row: "value_row env (commas (map (\<lambda>v. [v]) row) @ RParen # us) = Inr (map (token_word env) row, us)" for us
    using Cons.prems(1) by (intro value_row_print) simp
  show ?case
  proof (cases rows)
    case Nil
    with row [of ts] assms(3) show ?thesis by (cases ts) (simp_all add: row_tokens_def)
  next
    case (Cons r rs)
    with row Cons.IH Cons.prems(1) show ?thesis by (simp add: row_tokens_def)
  qed
qed simp

lemma expression_words_print:
  "list_all (\<lambda>t. t \<notin> {Comma, Semicolon, EOF} \<union> Keyword ` set stop) e \<Longrightarrow>
   ts = [] \<or> hd ts \<in> {Comma, Semicolon, EOF} \<union> Keyword ` set stop \<Longrightarrow>
   expression_words env stop (e @ ts) = (map (token_word env) e, ts)"
  by (induction e) (cases ts; auto)+

lemma rest_words_print:
  "list_all (\<lambda>t. t \<notin> {Semicolon, EOF}) c \<Longrightarrow> ts = [] \<or> hd ts \<in> {Semicolon, EOF} \<Longrightarrow>
   rest_words env (c @ ts) = (map (token_word env) c, ts)"
  by (induction c) (cases ts; auto)+

lemma set_list_print:
  assumes "list_all (\<lambda>(c, e). list_all is_expr_token e) assigns" and "assigns \<noteq> []"
    and "ts = [] \<or> hd ts \<in> {Semicolon, EOF, Keyword ''WHERE''}"
  shows "set_list env (commas (map (\<lambda>(c, e). Ident c # Op ''='' # e) assigns) @ ts) =
    Inr (map (\<lambda>(c, e). (c, words_text env e)) assigns, ts)"
  using assms(1,2)
proof (induction assigns)
  case (Cons a assigns)
  obtain c e where a: "a = (c, e)" by (cases a)
  have e: "list_all (\<lambda>t. t \<notin> {Comma, Semicolon, EOF} \<union> Keyword ` set ['','', ''WHERE'']) e"
    using Cons.prems(1) by (simp add: a is_expr_token_def [abs_def])
  have collect: "collect_expression env (e @ us) ['','', ''WHERE''] = (words_text env e, us)"
    if "us = [] \<or> hd us \<in> {Comma, Semicolon, EOF, Keyword ''WHERE''}" for us
    using expression_words_print [OF e, of us env] that by (auto simp: collect_expression_def words_text_def)
  show ?case
  proof (cases assigns)
    case Nil
    with collect [of ts] assms(3) show ?thesis by (cases ts) (auto simp: a)
  next
    case (Cons b bs)
    then obtain w where w: "commas (map (\<lambda>(c, e). Ident c # Op ''='' # e) (a # assigns)) = Ident c # Op ''='' # e @ Comma # w"
      and "w = commas (map (\<lambda>(c, e). Ident c # Op ''='' # e) assigns)" by (simp add: a)
    with Cons.IH Cons.prems(1) collect [of "Comma # w @ ts"] Cons show ?thesis by (simp add: a)
  qed
qed simp

lemma where_print:
  assumes "case w of None \<Rightarrow> True | Some c \<Rightarrow> list_all (\<lambda>t. t \<notin> {Semicolon, EOF}) c" and "ts = [] \<or> hd ts \<in> {Semicolon, EOF}"
  shows "dml_where env (condition_tokens w @ ts) = (map_option (words_text env) w, ts)"
proof (cases w)
  case None
  with assms(2) show ?thesis by (cases ts) (auto simp: dml_where_def condition_tokens_def)
next
  case (Some c)
  with assms rest_words_print [of c ts env] show ?thesis
    by (simp add: dml_where_def condition_tokens_def collect_rest_def words_text_def)
qed

lemma condition_head:
  assumes "ts = [] \<or> hd ts \<in> {Semicolon, EOF}"
  shows "condition_tokens w @ ts = [] \<or> hd (condition_tokens w @ ts) \<in> {Semicolon, EOF, Keyword ''WHERE''}"
    and "condition_tokens w @ ts \<noteq> Op ''.'' # us"
  using assms by (auto simp: condition_tokens_def split: option.splits)

lemma parse_insert_print:
  assumes "rows \<noteq> []" and "list_all (list_all is_value_token) rows" and "ts = [] \<or> hd ts \<in> {Semicolon, EOF}"
  shows "parse_insert env (tl (print_dml (Insert_src n cols rows)) @ ts) =
    Inr (\<lparr>ins_table = full_name n, ins_columns = cols, ins_values = map (map (token_word env)) rows\<rparr>, ts)"
proof -
  have ts: "ts = [] \<or> hd ts \<noteq> Comma" using assms(3) by auto
  show ?thesis
  proof (cases cols)
    case None
    with name_print value_rows_print [OF assms(2,1) ts, of env] show ?thesis by (simp add: parse_insert_def)
  next
    case (Some cs)
    with name_print value_rows_print [OF assms(2,1) ts, of env] insert_columns_print show ?thesis
      by (simp add: parse_insert_def)
  qed
qed

lemma parse_update_print:
  assumes "wf_dml (Update_src n assigns w)" and "ts = [] \<or> hd ts \<in> {Semicolon, EOF}"
  shows "parse_update env (tl (print_dml (Update_src n assigns w)) @ ts) =
    Inr (\<lparr>upd_table = full_name n, upd_assignments = map (\<lambda>(c, e). (c, words_text env e)) assigns,
      upd_where = map_option (words_text env) w\<rparr>, ts)"
  using assms name_print set_list_print [OF _ _ condition_head(1) [OF assms(2)]] where_print [OF _ assms(2)]
  by (simp add: parse_update_def)

lemma parse_delete_print:
  assumes "wf_dml (Delete_src n w)" and "ts = [] \<or> hd ts \<in> {Semicolon, EOF}"
  shows "parse_delete env (tl (print_dml (Delete_src n w)) @ ts) =
    Inr (\<lparr>del_table = full_name n, del_where = map_option (words_text env) w\<rparr>, ts)"
  using assms(1) name_print [OF condition_head(2) [OF assms(2)]] where_print [OF _ assms(2)]
  by (simp add: parse_delete_def)

lemma parse_dml_tokens:
  assumes "tokenize pf sql = Inr (print_dml src @ ts)" and "wf_dml src" and "ts = [] \<or> hd ts \<in> {Semicolon, EOF}"
  shows "parse_dml pf env sql = Inr (Some (dml_of env src))"
proof (cases src)
  case (Insert_src n cols rows)
  with assms parse_insert_print [of rows ts env n cols] show ?thesis by (simp add: parse_dml_def parsed_value_def)
next
  case (Update_src n assigns w)
  with assms parse_update_print [of n assigns w ts env] show ?thesis by (simp add: parse_dml_def parsed_value_def)
next
  case (Delete_src n w)
  with assms parse_delete_print [of n w ts env] show ?thesis by (simp add: parse_dml_def parsed_value_def)
qed

section \<open>Tokenizing a stored condition again\<close>

text \<open>A space at the end of the text changes nothing, as long as the text is accepted with it.\<close>

definition trails :: "'e + 'a \<times> string \<Rightarrow> 'e + 'a \<times> string \<Rightarrow> bool" where
  "trails r q \<longleftrightarrow> (case r of Inl e \<Rightarrow> True | Inr (x, rest) \<Rightarrow> \<exists>r'. rest = r' @ '' '' \<and> q = Inr (x, r'))"

lemma trails_simps [simp]: "trails (Inl e) q" "trails (Inr (x, rest)) q \<longleftrightarrow> (\<exists>r'. rest = r' @ '' '' \<and> q = Inr (x, r'))"
  by (simp_all add: trails_def)

lemma trails_if:
  "P = Q \<Longrightarrow> (P \<Longrightarrow> trails a a') \<Longrightarrow> (\<not> P \<Longrightarrow> trails b b') \<Longrightarrow> trails (if P then a else b) (if Q then a' else b')"
  by simp

lemma trails_case:
  "trails r q \<Longrightarrow> trails (case r of Inl e \<Rightarrow> Inl e | Inr (x, rest) \<Rightarrow> Inr (f x, rest))
     (case q of Inl e \<Rightarrow> Inl e | Inr (x, rest) \<Rightarrow> Inr (f x, rest))"
  by (auto simp: trails_def split: sum.splits)

lemma while_space:
  assumes "\<not> P (CHR '' '')"
  shows "takeWhile P (cs @ '' '') = takeWhile P cs" and "dropWhile P (cs @ '' '') = dropWhile P cs @ '' ''"
  using assms by (induction cs) simp_all

lemma string_trails: "trails (read_string_literal (cs @ '' '')) (read_string_literal cs)"
proof (induction cs rule: read_string_literal.induct)
  case (2 c cs)
  show ?case
  proof (cases "c = CHR 0x27")
    case True
    show ?thesis
    proof (cases cs)
      case (Cons d ds)
      with 2(1) [OF True Cons] True show ?thesis by (auto simp: trails_def split: sum.splits)
    qed (simp add: True)
  next
    case False
    with 2(2) [OF False] show ?thesis by (auto simp: trails_def split: sum.splits)
  qed
qed simp

lemma hex_trails: "trails (hex_body (cs @ '' '')) (hex_body cs)"
proof (induction cs)
  case Nil
  have "hex_value (CHR '' '') = None" by code_simp
  then show ?case by simp
next
  case (Cons c cs)
  then show ?case by (auto simp: trails_def split: sum.splits option.splits)
qed

lemma read_hex_trails: "trails (read_hex_literal (cs @ '' '')) (read_hex_literal cs)"
  using hex_trails [of cs] by (auto simp: trails_def read_hex_literal_def split: sum.splits)

lemma exponent_space: "read_exponent (cs @ '' '') = (case read_exponent cs of (ex, rest, h) \<Rightarrow> (ex, rest @ '' '', h))"
proof -
  have d: "\<not> is_digit (CHR '' '')" by code_simp
  note w = while_space [of is_digit, OF d]
  show ?thesis
  proof (cases cs)
    case (Cons e cs')
    show ?thesis by (cases cs') (simp_all add: Cons read_exponent_def w Let_def d split: prod.splits)
  qed (simp add: read_exponent_def)
qed

lemma number_trails: "trails (read_number pf (cs @ '' '')) (read_number pf cs)"
proof -
  have "\<not> num_char (CHR '' '')" by code_simp
  note w = while_space [of num_char, OF this]
  show ?thesis
    by (cases "read_exponent (dropWhile num_char cs)")
      (auto simp: read_number_def w exponent_space Let_def split: option.splits)
qed

lemma lex_trails: "trails (lex_one pf c (cs @ '' '')) (lex_one pf c cs)"
proof -
  have i: "\<not> is_ident (CHR '' '')" by code_simp
  have d: "\<not> is_digit (CHR '' '')" by code_simp
  have word: "trails (case read_identifier (c # cs @ '' '') of (w, rest) \<Rightarrow> Inr (Some (word_token w), rest))
      (case read_identifier (c # cs) of (w, rest) \<Rightarrow> Inr (Some (word_token w), rest))"
    using while_space [of is_ident "c # cs", OF i] by (simp add: read_identifier_def)
  have peek: "(cs @ '' '' \<noteq> [] \<and> hd (cs @ '' '') = x) = (cs \<noteq> [] \<and> hd cs = x)" if "x \<noteq> CHR '' ''" for x
    using that by (cases cs) auto
  have dig: "(cs @ '' '' \<noteq> [] \<and> is_digit (hd (cs @ '' ''))) = (cs \<noteq> [] \<and> is_digit (hd cs))"
    using d by (cases cs) auto
  have num: "trails (read_number pf (c # cs @ '' '')) (read_number pf (c # cs))"
    using number_trails [of pf "c # cs"] by simp
  have hex: "trails (read_hex_literal (tl (cs @ '' ''))) (read_hex_literal (tl cs))" if "cs \<noteq> []"
    using read_hex_trails [of "tl cs"] that by (cases cs) simp_all
  have tl: "trails (Inr (Some t, tl (cs @ '' ''))) (Inr (Some t, tl cs))" if "cs \<noteq> [] \<and> hd cs = x" for t x
    using that by (cases cs) simp_all
  show ?thesis
    unfolding lex_one_def Let_def
    by (simp only: dig peek [of "CHR ''=''", simplified] peek [of "CHR ''>''", simplified] peek [of "CHR 0x27", simplified])
      (intro trails_if trails_case string_trails num word hex tl refl; (assumption | simp))
qed

lemma tokenize_space: "tokenize pf (cs @ '' '') = Inr ts \<Longrightarrow> tokenize pf cs = Inr ts"
proof (induction pf cs arbitrary: ts rule: tokenize.induct)
  case (1 pf)
  then show ?case by (simp add: lex_one_def Let_def)
next
  case (2 pf c cs)
  from "2.prems" obtain t rest us where l: "lex_one pf c (cs @ '' '') = Inr (t, rest)" "tokenize pf rest = Inr us"
    and ts: "ts = (case t of None \<Rightarrow> us | Some t \<Rightarrow> t # us)" by (auto split: sum.splits prod.splits)
  from lex_trails [of pf c cs] l(1) obtain r where r: "rest = r @ '' ''" "lex_one pf c cs = Inr (t, r)" by auto
  from "2.IH" [OF r(2) refl] l(2) r(1) have "tokenize pf r = Inr us" by simp
  with r(2) ts show ?case by simp
qed

text \<open>The tokens whose stored word is read as the same token: no quote inside a string, and a float whose text keeps
  its point.\<close>

definition survives :: "parse_env \<Rightarrow> (u64 \<Rightarrow> string) \<Rightarrow> token \<Rightarrow> bool" where
  "survives env sf t \<longleftrightarrow>
     (case t of
        String_lit s \<Rightarrow> CHR 0x27 \<notin> set s
      | Float_lit f \<Rightarrow> float_str env f = sf f
      | Semicolon \<Rightarrow> False
      | EOF \<Rightarrow> False
      | _ \<Rightarrow> True)"

lemma escape_id: "CHR 0x27 \<notin> set s \<Longrightarrow> escape s = s"
  by (induction s) (auto simp: escape_def)

lemma survives_word: "valid_token pf t \<Longrightarrow> survives env sf t \<Longrightarrow> token_word env t = show_token sf t"
  by (cases t) (auto simp: survives_def token_word_def show_int_def quoted_def hex_text_def escape_id)

lemma join_words_space: "ws \<noteq> [] \<Longrightarrow> join_words ws @ '' '' = concat (map (\<lambda>w. w @ '' '') ws)"
  by (induction ws rule: join_words.induct) simp_all

lemma words_text_read:
  assumes "float_text pf sf" and "list_all (valid_token pf) ts" and "list_all (survives env sf) ts"
  shows "tokenize pf (words_text env ts) = Inr (ts @ [EOF])"
proof (cases "ts = []")
  case False
  have w: "map (token_word env) ts = map (show_token sf) ts"
    using assms(2,3) survives_word by (auto simp: list_all_iff)
  from False have "words_text env ts @ '' '' = print_tokens sf ts"
    using join_words_space [of "map (show_token sf) ts"] by (simp add: words_text_def w print_tokens_def comp_def)
  then show ?thesis using float_text.tokenize_print [OF assms(1,2)] tokenize_space by metis
qed (simp add: words_text_def)

primrec dml_condition :: "dml_source \<Rightarrow> token list option" where
  "dml_condition (Insert_src n cols rows) = None"
| "dml_condition (Update_src n assigns w) = w"
| "dml_condition (Delete_src n w) = w"

lemma condition_valid:
  "list_all P (print_dml src) \<Longrightarrow> dml_condition src = Some ws \<Longrightarrow> list_all P ws"
  by (cases src) (auto simp: condition_tokens_def)

section \<open>What the stored text loses\<close>

text \<open>A quote in a string is stored without its escape: the condition is cut at the quote when the engine reads it
  again.\<close>

lemma quoted_condition_lost:
  "tokenize pf (words_text env [Ident ''name'', Op ''='', String_lit [CHR ''a'', CHR 0x27, CHR ''b'']]) =
     Inl Unterminated_string"
  by (simp add: words_text_def token_word_def quoted_def lex_one_def Let_def is_digit_def is_alpha_def is_ident_def
      read_identifier_def)

text \<open>A whole float is stored as an integer, since the text of the \<open>f64\<close> 5.0 is 5.\<close>

lemma whole_float_condition:
  assumes "float_str env f = ''5''"
  shows "tokenize pf (words_text env [Ident ''x'', Op ''='', Float_lit f]) = Inr [Ident ''x'', Op ''='', Int_lit 5, EOF]"
  using assms
  by (simp add: words_text_def token_word_def lex_one_def Let_def is_digit_def is_alpha_def is_ident_def
      read_identifier_def word_token_def KEYWORDS_def to_uppercase_def read_number_def num_char_def read_exponent_def
      parse_i64_def digits_val_def)

text \<open>A minus sign is a value of its own, so a negative number counts as two values of its row.\<close>

lemma show_small: "show_int 5 = ''5''" "show_int 1 = ''1''"
  by code_simp+

lemma negative_value_split: "value_row env [Op ''-'', Int_lit 5, RParen] = Inr ([''-'', ''5''], [])"
  by (simp add: token_to_value_string_def show_small)

section \<open>Properties\<close>

text \<open>C26: An INSERT, UPDATE or DELETE statement written as SQL text is parsed back into its table, columns, values,
  assignments and condition, whatever the statement contains. The condition is stored as text, which the engine
  tokenizes again when it evaluates it: that gives the tokens of the condition, provided that its strings contain no
  quote and its floats are printed with a point.\<close>

theorem dml_roundtrip:
  assumes "float_text pf sf" and "list_all (valid_token pf) (print_dml src)" and "wf_dml src"
  shows "parse_dml pf env (print_tokens sf (print_dml src)) = Inr (Some (dml_of env src)) \<and>
    (\<forall>ws. dml_condition src = Some ws \<longrightarrow> list_all (survives env sf) ws \<longrightarrow>
       tokenize pf (words_text env ws) = Inr (ws @ [EOF]))"
proof -
  have "tokenize pf (print_tokens sf (print_dml src)) = Inr (print_dml src @ [EOF])"
    using float_text.tokenize_print [OF assms(1,2)] .
  from parse_dml_tokens [OF this assms(3)]
  have "parse_dml pf env (print_tokens sf (print_dml src)) = Inr (Some (dml_of env src))" by simp
  then show ?thesis using words_text_read [OF assms(1)] condition_valid [OF assms(2)] by blast
qed

definition demo_update :: dml_source where
  "demo_update = Update_src (None, ''users'') [(''name'', [String_lit ''Bob'']), (''active'', [Int_lit 1])]
     (Some [Ident ''id'', Op ''='', Int_lit 5])"

theorem dml_roundtrip_witness:
  "parse_dml whole_pf demo_env (print_tokens whole_sf (print_dml demo_update)) =
     Inr (Some (Update \<lparr>upd_table = ''users'', upd_assignments = [(''name'', quoted ''Bob''), (''active'', ''1'')],
       upd_where = Some ''id = 5''\<rparr>)) \<and>
   tokenize whole_pf ''id = 5'' = Inr [Ident ''id'', Op ''='', Int_lit 5, EOF]"
proof -
  have eq: "print_dml demo_update =
    [Keyword ''UPDATE'', Ident ''users'', Keyword ''SET'', Ident ''name'', Op ''='', String_lit ''Bob'', Comma, Ident ''active'', Op ''='',
     Int_lit 1, Keyword ''WHERE'', Ident ''id'', Op ''='', Int_lit 5]" by code_simp
  have "list_all (valid_token whole_pf) (print_dml demo_update)"
    by (simp only: eq list.pred_inject valid_token.simps simp_thms) code_simp
  moreover have "wf_dml demo_update" by (auto simp: demo_update_def is_expr_token_def)
  moreover have "dml_of demo_env demo_update = Update \<lparr>upd_table = ''users'',
      upd_assignments = [(''name'', quoted ''Bob''), (''active'', ''1'')], upd_where = Some ''id = 5''\<rparr>"
    by (simp add: demo_update_def full_name_def words_text_def token_word_def show_small)
  moreover have "words_text demo_env [Ident ''id'', Op ''='', Int_lit 5] = ''id = 5''"
    by (simp add: words_text_def token_word_def show_small)
  moreover have "dml_condition demo_update = Some [Ident ''id'', Op ''='', Int_lit 5]" "list_all (survives demo_env whole_sf) [Ident ''id'', Op ''='', Int_lit 5]"
    by (simp_all add: demo_update_def survives_def)
  ultimately show ?thesis using dml_roundtrip [OF whole.float_text_axioms, of demo_update demo_env] by (metis append.simps)
qed

end
