(* ===== verification/Sql_Ddl.thy ===== *)
theory Sql_Ddl
  imports Sql_Dml
begin

text \<open>
  The parser for CREATE, DROP and ALTER of src/src/sql/ddl.rs, with the cursor as in the theory Sql_Dml. The lengths and
  scales of types are \<open>u32\<close>, the integer of the token modulo \<open>2 ^ 32\<close>.
\<close>

section \<open>Statements\<close>

datatype column_type =
    TInt | TBigInt | TSmallInt | TTinyInt | TVarchar "nat option" | TNvarchar "nat option" | TText | TFloat | TReal
  | TDecimal "nat option" "nat option" | TNumeric "nat option" "nat option" | TBoolean | TBit | TDate | TTimestamp
  | TJson | TArray column_type | TUuid | TBytea | TEnum "string list"

record column_def =
  cd_name :: string
  cd_type :: column_type
  cd_not_null :: bool
  cd_primary_key :: bool
  cd_default :: "string option"
  cd_identity :: bool
  cd_references :: "(string \<times> string) option"

record create_table =
  ct_schema :: string
  ct_name :: string
  ct_columns :: "column_def list"
  ct_if_not_exists :: bool

record drop_table =
  dt_schema :: string
  dt_name :: string
  dt_if_exists :: bool

datatype alter_action = Add_column column_def | Drop_column string | Alter_column_type string column_type

record alter_table =
  at_schema :: string
  at_name :: string
  at_action :: alter_action

record create_index =
  ci_index_name :: string
  ci_table :: string
  ci_column :: string
  ci_if_not_exists :: bool

record drop_index =
  di_index_name :: string
  di_if_exists :: bool

datatype ddl_statement =
    Create create_table | Drop drop_table | Create_schema string | Alter_table alter_table
  | Create_index create_index | Drop_index drop_index

section \<open>Names and types\<close>

definition ddl_qualified_name :: "token list \<Rightarrow> (string \<times> string) parsed" where
  "ddl_qualified_name ts =
     andthen (name_part ''table name'' ts)
       (\<lambda>first ts.
          case ts of
            Op x # us \<Rightarrow>
              if x = ''.'' then andthen (name_part ''name after .'' us) (\<lambda>name us. Inr ((first, name), us))
              else Inr ((''dbo'', first), ts)
          | _ \<Rightarrow> Inr ((''dbo'', first), ts))"

definition ident_or :: "string \<Rightarrow> token list \<Rightarrow> string parsed" where
  "ident_or msg ts = andthen (token_or msg ts) (\<lambda>t ts. case t of Ident s \<Rightarrow> Inr (s, ts) | _ \<Rightarrow> Inl (Expected msg t))"

definition number_or :: "string \<Rightarrow> token list \<Rightarrow> nat parsed" where
  "number_or msg ts =
     andthen (token_or msg ts) (\<lambda>t ts. case t of Int_lit n \<Rightarrow> Inr (nat (n mod 2 ^ 32), ts) | _ \<Rightarrow> Inl (Expected msg t))"

text \<open>The optional length, or precision and scale, of a type.\<close>

definition type_params :: "token list \<Rightarrow> (nat option \<times> nat option) parsed" where
  "type_params ts =
     (if ts \<noteq> [] \<and> hd ts = LParen then
        andthen (number_or ''number after ('' (tl ts)) (\<lambda>len1 ts.
        andthen (if ts \<noteq> [] \<and> hd ts = Comma then andthen (number_or ''scale after ,'' (tl ts)) (\<lambda>n ts. Inr (Some n, ts))
                 else Inr (None, ts)) (\<lambda>len2 ts.
        andthen (require RParen '') after type params'' ts) (\<lambda>_ ts.
          Inr ((Some len1, len2), ts))))
      else Inr ((None, None), ts))"

definition type_of_name :: "string \<Rightarrow> nat option \<Rightarrow> nat option \<Rightarrow> column_type option" where
  "type_of_name name len1 len2 =
     (if name = ''INT'' \<or> name = ''INTEGER'' then Some TInt
      else if name = ''BIGINT'' then Some TBigInt
      else if name = ''SMALLINT'' then Some TSmallInt
      else if name = ''TINYINT'' then Some TTinyInt
      else if name = ''VARCHAR'' then Some (TVarchar len1)
      else if name = ''NVARCHAR'' then Some (TNvarchar len1)
      else if name = ''TEXT'' then Some TText
      else if name = ''FLOAT'' \<or> name = ''DOUBLE'' then Some TFloat
      else if name = ''REAL'' then Some TReal
      else if name = ''DECIMAL'' then Some (TDecimal len1 len2)
      else if name = ''NUMERIC'' then Some (TNumeric len1 len2)
      else if name = ''BIT'' then Some TBit
      else if name = ''BOOLEAN'' \<or> name = ''BOOL'' then Some TBoolean
      else if name = ''DATE'' then Some TDate
      else if name = ''TIMESTAMP'' \<or> name = ''DATETIME2'' \<or> name = ''DATETIME'' then Some TTimestamp
      else if name = ''JSON'' then Some TJson
      else if name = ''UUID'' then Some TUuid
      else if name = ''BYTEA'' \<or> name = ''BINARY'' \<or> name = ''VARBINARY'' then Some TBytea
      else if name = ''ARRAY'' then Some (TArray TText)
      else if name = ''ENUM'' then Some (TEnum [''placeholder''])
      else None)"

definition parse_type :: "token list \<Rightarrow> column_type parsed" where
  "parse_type ts =
     andthen (token_or ''column type'' ts) (\<lambda>t ts.
     andthen (case t of Keyword k \<Rightarrow> Inr (k, ts) | Ident s \<Rightarrow> Inr (to_uppercase s, ts) | _ \<Rightarrow> Inl (Expected ''type'' t)) (\<lambda>name ts.
     andthen (type_params ts) (\<lambda>(len1, len2) ts.
       case type_of_name name len1 len2 of
         None \<Rightarrow> Inl (Message (''unknown type: '' @ name))
       | Some ty \<Rightarrow> Inr (ty, ts))))"

definition token_to_literal :: "parse_env \<Rightarrow> token \<Rightarrow> string option" where
  "token_to_literal env t =
     (case t of
        Int_lit n \<Rightarrow> Some (show_int n)
      | Float_lit f \<Rightarrow> Some (float_str env f)
      | String_lit s \<Rightarrow> Some (quoted s)
      | Keyword k \<Rightarrow> if k = ''NULL'' then Some ''NULL'' else None
      | _ \<Rightarrow> None)"

section \<open>Column definitions\<close>

text \<open>The optional arguments of IDENTITY: everything up to the next closing parenthesis.\<close>

definition skip_identity_args :: "token list \<Rightarrow> token list" where
  "skip_identity_args ts = (if ts \<noteq> [] \<and> hd ts = LParen then tl (dropWhile (\<lambda>t. t \<noteq> RParen) (tl ts)) else ts)"

definition parse_references :: "token list \<Rightarrow> (string \<times> string) parsed" where
  "parse_references ts =
     andthen (ddl_qualified_name ts) (\<lambda>(_, ref_table) ts.
       if ts \<noteq> [] \<and> hd ts = LParen then
         andthen (ident_or ''column after REFERENCES ('' (tl ts)) (\<lambda>c ts.
         andthen (require RParen '') after REFERENCES column'' ts) (\<lambda>_ ts. Inr ((ref_table, c), ts)))
       else Inr ((ref_table, ''id''), ts))"

lemma shrinks_token: "shrinks 1 ts (token_or msg ts)"
  by (simp add: token_or_def split: list.splits)

lemma shrinks_basic:
  "shrinks 1 ts (name_part msg ts)" "shrinks 1 ts (require u msg ts)" "shrinks 1 ts (ident_or msg ts)" "shrinks 1 ts (number_or msg ts)"
  unfolding name_part_def require_def ident_or_def number_or_def
  by (rule shrinks_andthen [OF shrinks_token]; simp split: token.splits)+

lemma shrinks_ddl_name: "shrinks 1 ts (ddl_qualified_name ts)"
  unfolding ddl_qualified_name_def
proof (rule shrinks_andthen [OF shrinks_basic(1)])
  fix first :: string and us :: "token list"
  assume "length us + 1 \<le> length ts"
  moreover have "shrinks 1 ts (andthen (name_part m vs) (\<lambda>name us. Inr ((first, name), us)))" if "length vs + 1 \<le> length ts" for m vs
    using that by (intro shrinks_andthen [OF shrinks_basic(1)]) simp
  ultimately show "shrinks 1 ts (case us of
      Op x # vs \<Rightarrow>
        if x = ''.'' then andthen (name_part ''name after .'' vs) (\<lambda>name us. Inr ((first, name), us)) else Inr ((''dbo'', first), us)
    | _ \<Rightarrow> Inr ((''dbo'', first), us))"
    by (auto split: list.splits token.splits)
qed

lemma shrinks_references: "shrinks 1 ts (parse_references ts)"
  unfolding parse_references_def
proof (rule shrinks_andthen [OF shrinks_ddl_name])
  fix x :: "string \<times> string" and us :: "token list"
  assume len: "length us + 1 \<le> length ts"
  obtain s r where x: "x = (s, r)" by (cases x)
  have "shrinks 1 ts (andthen (ident_or m (tl us)) (\<lambda>c us. andthen (require RParen q us) (\<lambda>_ us. Inr ((r, c), us))))" for m q
    using len by (intro shrinks_andthen [OF shrinks_basic(3)] shrinks_andthen [OF shrinks_basic(2)]) simp
  with len show "shrinks 1 ts ((case x of (_, ref_table) \<Rightarrow> \<lambda>ts.
      if ts \<noteq> [] \<and> hd ts = LParen then
        andthen (ident_or ''column after REFERENCES ('' (tl ts)) (\<lambda>c ts.
        andthen (require RParen '') after REFERENCES column'' ts) (\<lambda>_ ts. Inr ((ref_table, c), ts)))
      else Inr ((ref_table, ''id''), ts)) us)" by (simp add: x)
qed

lemma references_shorter: "parse_references ts = Inr (x, us) \<Longrightarrow> length us < length ts"
  using shrinks_references [of ts] by simp

lemma skip_identity_length: "length (skip_identity_args ts) \<le> length ts"
  using length_dropWhile_le [of "\<lambda>t. t \<noteq> RParen" "tl ts"] by (auto simp: skip_identity_args_def)

function column_constraints :: "parse_env \<Rightarrow> column_def \<Rightarrow> token list \<Rightarrow> column_def parsed" where
  "column_constraints env c [] = Inr (c, [])"
| "column_constraints env c (t # ts) =
     (if t = Keyword ''NOT'' then
        (case ts of
           [] \<Rightarrow> Inl (Message ''NULL after NOT'')
         | u # us \<Rightarrow>
             if u = Keyword ''NULL'' then column_constraints env (c\<lparr>cd_not_null := True\<rparr>) us
             else Inl (Expected ''NULL after NOT'' u))
      else if t = Keyword ''NULL'' then column_constraints env c ts
      else if t = Keyword ''PRIMARY'' then
        (case ts of
           [] \<Rightarrow> Inl (Message ''KEY after PRIMARY'')
         | u # us \<Rightarrow>
             if u = Keyword ''KEY'' then column_constraints env (c\<lparr>cd_primary_key := True, cd_not_null := True\<rparr>) us
             else Inl (Expected ''KEY after PRIMARY'' u))
      else if t = Keyword ''DEFAULT'' then
        (case ts of
           [] \<Rightarrow> Inl (Message ''value after DEFAULT'')
         | u # us \<Rightarrow>
             (case token_to_literal env u of
                None \<Rightarrow> Inl (Expected ''default value'' u)
              | Some d \<Rightarrow> column_constraints env (c\<lparr>cd_default := Some d\<rparr>) us))
      else if t = Keyword ''IDENTITY'' then column_constraints env (c\<lparr>cd_identity := True\<rparr>) (skip_identity_args ts)
      else if t = Keyword ''REFERENCES'' then
        (case parse_references ts of
           Inl e \<Rightarrow> Inl e
         | Inr (r, us) \<Rightarrow> column_constraints env (c\<lparr>cd_references := Some r\<rparr>) us)
      else if t = Comma \<or> t = RParen then Inr (c, t # ts)
      else column_constraints env c ts)"
  by pat_completeness auto
termination
  by (relation "measure (\<lambda>(env, c, ts). length ts)")
    (auto dest!: references_shorter intro: le_imp_less_Suc skip_identity_length)

definition parse_column_def :: "parse_env \<Rightarrow> token list \<Rightarrow> column_def parsed" where
  "parse_column_def env ts =
     andthen (ident_or ''column name'' ts) (\<lambda>name ts.
     andthen (parse_type ts) (\<lambda>ty ts.
       column_constraints env
         \<lparr>cd_name = name, cd_type = ty, cd_not_null = False, cd_primary_key = False, cd_default = None, cd_identity = False,
          cd_references = None\<rparr> ts))"

section \<open>Statements\<close>

lemma shrinks_params: "shrinks 0 ts (type_params ts)"
proof -
  have scale: "shrinks 0 us (if us \<noteq> [] \<and> hd us = Comma then andthen (number_or m (tl us)) (\<lambda>n ts. Inr (Some n, ts)) else Inr (None, us))" for us m
    by (auto intro!: shrinks_andthen [OF shrinks_basic(4)])
  show ?thesis
    unfolding type_params_def
    by (intro shrinks_if shrinks_andthen [OF shrinks_basic(4)] shrinks_andthen [OF scale] shrinks_andthen [OF shrinks_basic(2)]) auto
qed

lemma shrinks_type: "shrinks 1 ts (parse_type ts)"
proof -
  have name: "shrinks 0 us (case t of Keyword k \<Rightarrow> Inr (k, us) | Ident s \<Rightarrow> Inr (to_uppercase s, us) | _ \<Rightarrow> Inl (Expected m t))" for us t m
    by (simp split: token.splits)
  show ?thesis
    unfolding parse_type_def
    by (intro shrinks_andthen [OF shrinks_token] shrinks_andthen [OF name] shrinks_andthen [OF shrinks_params])
      (auto split: prod.splits option.splits)
qed

lemma shrinks_constraints: "shrinks 0 ts (column_constraints env c ts)"
proof (induction env c ts rule: column_constraints.induct)
  case (2 env c t ts)
  have step: "shrinks 0 us r \<Longrightarrow> length us \<le> length ts \<Longrightarrow> shrinks 0 (t # ts) r" for us and r :: "column_def parsed"
    by (erule shrinks_mono) simp
  have ref: "shrinks 0 (t # ts) (case parse_references ts of Inl e \<Rightarrow> Inl e | Inr (r, us) \<Rightarrow> f r us)"
    if "\<And>r us. parse_references ts = Inr (r, us) \<Longrightarrow> shrinks 0 us (f r us)" for f :: "string \<times> string \<Rightarrow> token list \<Rightarrow> column_def parsed"
  proof (cases "parse_references ts")
    case (Inl e)
    with shrinks_references [of ts] show ?thesis by simp
  next
    case (Inr x)
    obtain r us where x: "x = (r, us)" by (cases x)
    from step [OF that [of r us]] references_shorter [of ts r us] show ?thesis by (simp add: Inr x)
  qed
  have first: "shrinks 0 (t # ts) (case ts of [] \<Rightarrow> Inl e | u # us \<Rightarrow> f u us)"
    if "e \<noteq> Fuel" "\<And>u us. ts = u # us \<Longrightarrow> shrinks 0 (t # ts) (f u us)" for e and f :: "token \<Rightarrow> token list \<Rightarrow> column_def parsed"
    using that by (cases ts) simp_all
  have lit: "shrinks 0 (t # ts) (case m of None \<Rightarrow> Inl e | Some d \<Rightarrow> f d)"
    if "e \<noteq> Fuel" "\<And>d. m = Some d \<Longrightarrow> shrinks 0 (t # ts) (f d)" for e and m :: "string option" and f :: "string \<Rightarrow> column_def parsed"
    using that by (cases m) simp_all
  show ?case
    unfolding column_constraints.simps(2)
    by (intro shrinks_if ref first lit; (simp; fail)?;
      (rule 2 step [OF 2(1)] step [OF 2(2)] step [OF 2(3)] step [OF 2(4)] step [OF 2(5)] step [OF 2(7)]; (assumption | simp add: skip_identity_length))?)
qed simp

lemma shrinks_column_def: "shrinks 1 ts (parse_column_def env ts)"
proof -
  have "shrinks 1 ts (column_constraints env c us)" if "length us + 1 \<le> length ts" for c us
    using shrinks_mono [OF shrinks_constraints, of us 1 ts env c] that by simp
  then show ?thesis
    unfolding parse_column_def_def by (intro shrinks_andthen [OF shrinks_basic(3)] shrinks_andthen [OF shrinks_type]) auto
qed

lemma column_def_shorter: "parse_column_def env ts = Inr (c, us) \<Longrightarrow> length us < length ts"
  using shrinks_column_def [of ts env] by simp

text \<open>The column list of CREATE TABLE, after its opening parenthesis.\<close>

function create_columns :: "parse_env \<Rightarrow> token list \<Rightarrow> column_def list parsed" where
  "create_columns env [] = Inl (Message ''unterminated column list'')"
| "create_columns env (t # ts) =
     (if t = RParen then Inr ([], ts)
      else case parse_column_def env (t # ts) of
             Inl e \<Rightarrow> Inl e
           | Inr (c, us) \<Rightarrow>
               (case us of
                  [] \<Rightarrow> Inl (Message ''unterminated column list'')
                | u # vs \<Rightarrow>
                    if u = Comma then cons_parsed c (create_columns env vs)
                    else if u = RParen then Inr ([c], vs)
                    else Inl (Expected '', or ) in column list'' u)))"
  by pat_completeness auto
termination
  by (relation "measure (length \<circ> snd)") (auto dest!: column_def_shorter)

definition if_not_exists :: "token list \<Rightarrow> bool parsed" where
  "if_not_exists ts =
     (if ts \<noteq> [] \<and> hd ts = Keyword ''IF'' then
        andthen (require (Keyword ''NOT'') ''NOT after IF'' (tl ts)) (\<lambda>_ ts.
        andthen (require (Keyword ''EXISTS'') ''EXISTS after NOT'' ts) (\<lambda>_ ts. Inr (True, ts)))
      else Inr (False, ts))"

definition if_exists :: "token list \<Rightarrow> bool parsed" where
  "if_exists ts =
     (if ts \<noteq> [] \<and> hd ts = Keyword ''IF'' then
        andthen (require (Keyword ''EXISTS'') ''EXISTS after IF'' (tl ts)) (\<lambda>_ ts. Inr (True, ts))
      else Inr (False, ts))"

definition parse_create_table :: "parse_env \<Rightarrow> token list \<Rightarrow> create_table parsed" where
  "parse_create_table env ts =
     andthen (if_not_exists ts) (\<lambda>ine ts.
     andthen (ddl_qualified_name ts) (\<lambda>(schema, name) ts.
     andthen (require LParen ''( after table name'' ts) (\<lambda>_ ts.
     andthen (create_columns env ts) (\<lambda>cols ts.
       Inr (\<lparr>ct_schema = schema, ct_name = name, ct_columns = cols, ct_if_not_exists = ine\<rparr>, ts)))))"

definition parse_create_index :: "token list \<Rightarrow> create_index parsed" where
  "parse_create_index ts =
     andthen (if_not_exists ts) (\<lambda>ine ts.
     andthen (ident_or ''index name after CREATE INDEX'' ts) (\<lambda>index ts.
     andthen (require (Keyword ''ON'') ''ON after index name'' ts) (\<lambda>_ ts.
     andthen (ddl_qualified_name ts) (\<lambda>(_, table) ts.
     andthen (require LParen ''( after table name'' ts) (\<lambda>_ ts.
     andthen (ident_or ''column name'' ts) (\<lambda>column ts.
     andthen (require RParen '') after column name'' ts) (\<lambda>_ ts.
       Inr (\<lparr>ci_index_name = index, ci_table = table, ci_column = column, ci_if_not_exists = ine\<rparr>, ts))))))))"

definition parse_create :: "parse_env \<Rightarrow> token list \<Rightarrow> ddl_statement parsed" where
  "parse_create env ts =
     andthen (token_or ''TABLE, SCHEMA, or INDEX after CREATE'' ts) (\<lambda>t ts.
       if t = Keyword ''TABLE'' then andthen (parse_create_table env ts) (\<lambda>c ts. Inr (Create c, ts))
       else if t = Keyword ''SCHEMA'' then andthen (ident_or ''schema name'' ts) (\<lambda>n ts. Inr (Create_schema n, ts))
       else if t = Keyword ''INDEX'' then andthen (parse_create_index ts) (\<lambda>c ts. Inr (Create_index c, ts))
       else Inl (Expected ''TABLE, SCHEMA, or INDEX after CREATE'' t))"

definition parse_drop_table :: "token list \<Rightarrow> drop_table parsed" where
  "parse_drop_table ts =
     andthen (if_exists ts) (\<lambda>ie ts.
     andthen (ddl_qualified_name ts) (\<lambda>(schema, name) ts.
       Inr (\<lparr>dt_schema = schema, dt_name = name, dt_if_exists = ie\<rparr>, ts)))"

definition parse_drop_index :: "token list \<Rightarrow> drop_index parsed" where
  "parse_drop_index ts =
     andthen (if_exists ts) (\<lambda>ie ts.
     andthen (name_part ''index name after DROP INDEX'' ts) (\<lambda>n ts.
       Inr (\<lparr>di_index_name = n, di_if_exists = ie\<rparr>, ts)))"

definition parse_drop :: "token list \<Rightarrow> ddl_statement parsed" where
  "parse_drop ts =
     andthen (token_or ''TABLE or INDEX after DROP'' ts) (\<lambda>t ts.
       if t = Keyword ''TABLE'' then andthen (parse_drop_table ts) (\<lambda>d ts. Inr (Drop d, ts))
       else if t = Keyword ''INDEX'' then andthen (parse_drop_index ts) (\<lambda>d ts. Inr (Drop_index d, ts))
       else Inl (Expected ''TABLE or INDEX after DROP'' t))"

definition skip_column :: "token list \<Rightarrow> token list" where
  "skip_column ts = (if ts \<noteq> [] \<and> hd ts = Keyword ''COLUMN'' then tl ts else ts)"

definition parse_alter_action :: "parse_env \<Rightarrow> token list \<Rightarrow> alter_action parsed" where
  "parse_alter_action env ts =
     andthen (token_or ''ADD / DROP / ALTER after table name'' ts) (\<lambda>t ts.
       if t = Keyword ''ADD'' then andthen (parse_column_def env (skip_column ts)) (\<lambda>c ts. Inr (Add_column c, ts))
       else if t = Keyword ''DROP'' then
         andthen (ident_or ''column name after DROP COLUMN'' (skip_column ts)) (\<lambda>c ts. Inr (Drop_column c, ts))
       else if t = Keyword ''ALTER'' then
         andthen (ident_or ''column name after ALTER COLUMN'' (skip_column ts)) (\<lambda>c ts.
         andthen (require (Keyword ''TYPE'') ''TYPE after column name'' ts) (\<lambda>_ ts.
         andthen (parse_type ts) (\<lambda>ty ts. Inr (Alter_column_type c ty, ts))))
       else Inl (Expected ''ADD / DROP / ALTER'' t))"

definition parse_alter_table :: "parse_env \<Rightarrow> token list \<Rightarrow> alter_table parsed" where
  "parse_alter_table env ts =
     andthen (ddl_qualified_name ts) (\<lambda>(schema, name) ts.
     andthen (parse_alter_action env ts) (\<lambda>action ts.
       Inr (\<lparr>at_schema = schema, at_name = name, at_action = action\<rparr>, ts)))"

definition parse_alter :: "parse_env \<Rightarrow> token list \<Rightarrow> ddl_statement parsed" where
  "parse_alter env ts =
     andthen (require (Keyword ''TABLE'') ''TABLE after ALTER'' ts) (\<lambda>_ ts.
     andthen (parse_alter_table env ts) (\<lambda>a ts. Inr (Alter_table a, ts)))"

definition parse_ddl :: "(string \<Rightarrow> u64 option) \<Rightarrow> parse_env \<Rightarrow> string \<Rightarrow> stmt_error + ddl_statement option" where
  "parse_ddl pf env sql =
     (case tokenize pf sql of
        Inl e \<Rightarrow> Inl (Lex_error e)
      | Inr [] \<Rightarrow> Inr None
      | Inr (t # ts) \<Rightarrow>
          if t = Keyword ''CREATE'' then parsed_value id (parse_create env ts)
          else if t = Keyword ''DROP'' then parsed_value id (parse_drop ts)
          else if t = Keyword ''ALTER'' then parsed_value id (parse_alter env ts)
          else Inr None)"

section \<open>Printing statements\<close>

definition params_tokens :: "nat option \<Rightarrow> nat option \<Rightarrow> token list" where
  "params_tokens len1 len2 =
     (case len1 of
        None \<Rightarrow> []
      | Some n \<Rightarrow> LParen # Int_lit (int n) # (case len2 of None \<Rightarrow> [] | Some k \<Rightarrow> [Comma, Int_lit (int k)]) @ [RParen])"

primrec type_tokens :: "column_type \<Rightarrow> token list" where
  "type_tokens TInt = [Keyword ''INT'']"
| "type_tokens TBigInt = [Keyword ''BIGINT'']"
| "type_tokens TSmallInt = [Keyword ''SMALLINT'']"
| "type_tokens TTinyInt = [Keyword ''TINYINT'']"
| "type_tokens (TVarchar n) = Keyword ''VARCHAR'' # params_tokens n None"
| "type_tokens (TNvarchar n) = Keyword ''NVARCHAR'' # params_tokens n None"
| "type_tokens TText = [Keyword ''TEXT'']"
| "type_tokens TFloat = [Keyword ''FLOAT'']"
| "type_tokens TReal = [Keyword ''REAL'']"
| "type_tokens (TDecimal p k) = Keyword ''DECIMAL'' # params_tokens p k"
| "type_tokens (TNumeric p k) = Keyword ''NUMERIC'' # params_tokens p k"
| "type_tokens TBoolean = [Keyword ''BOOLEAN'']"
| "type_tokens TBit = [Keyword ''BIT'']"
| "type_tokens TDate = [Keyword ''DATE'']"
| "type_tokens TTimestamp = [Keyword ''TIMESTAMP'']"
| "type_tokens TJson = [Keyword ''JSON'']"
| "type_tokens (TArray ty) = [Ident ''ARRAY'']"
| "type_tokens TUuid = [Keyword ''UUID'']"
| "type_tokens TBytea = [Keyword ''BYTEA'']"
| "type_tokens (TEnum vs) = [Keyword ''ENUM'']"

definition wf_params :: "nat option \<Rightarrow> nat option \<Rightarrow> bool" where
  "wf_params len1 len2 \<longleftrightarrow>
     (case len1 of None \<Rightarrow> len2 = None | Some n \<Rightarrow> n < 2 ^ 32 \<and> (case len2 of None \<Rightarrow> True | Some k \<Rightarrow> k < 2 ^ 32))"

definition wf_type :: "column_type \<Rightarrow> bool" where
  "wf_type ty \<longleftrightarrow>
     (case ty of
        TVarchar n \<Rightarrow> wf_params n None
      | TNvarchar n \<Rightarrow> wf_params n None
      | TDecimal p k \<Rightarrow> wf_params p k
      | TNumeric p k \<Rightarrow> wf_params p k
      | TArray t \<Rightarrow> t = TText
      | TEnum vs \<Rightarrow> vs = [''placeholder'']
      | _ \<Rightarrow> True)"

record column_src =
  cs_name :: string
  cs_type :: column_type
  cs_not_null :: bool
  cs_primary_key :: bool
  cs_default :: "token option"
  cs_identity :: bool
  cs_references :: "((string option \<times> string) \<times> string option) option"

definition references_tokens :: "(string option \<times> string) \<times> string option \<Rightarrow> token list" where
  "references_tokens r =
     Keyword ''REFERENCES'' # name_tokens (fst r) @ (case snd r of None \<Rightarrow> [] | Some c \<Rightarrow> [LParen, Ident c, RParen])"

definition constraint_tokens :: "column_src \<Rightarrow> token list" where
  "constraint_tokens c =
     (if cs_primary_key c then [Keyword ''PRIMARY'', Keyword ''KEY'']
      else if cs_not_null c then [Keyword ''NOT'', Keyword ''NULL''] else []) @
     (case cs_default c of None \<Rightarrow> [] | Some d \<Rightarrow> [Keyword ''DEFAULT'', d]) @
     (if cs_identity c then [Keyword ''IDENTITY'', LParen, Int_lit 1, Comma, Int_lit 1, RParen] else []) @
     (case cs_references c of None \<Rightarrow> [] | Some r \<Rightarrow> references_tokens r)"

definition column_tokens :: "column_src \<Rightarrow> token list" where
  "column_tokens c = Ident (cs_name c) # type_tokens (cs_type c) @ constraint_tokens c"

definition wf_column :: "parse_env \<Rightarrow> column_src \<Rightarrow> bool" where
  "wf_column env c \<longleftrightarrow> wf_type (cs_type c) \<and> (case cs_default c of None \<Rightarrow> True | Some d \<Rightarrow> token_to_literal env d \<noteq> None)"

definition column_of :: "parse_env \<Rightarrow> column_src \<Rightarrow> column_def" where
  "column_of env c =
     \<lparr>cd_name = cs_name c, cd_type = cs_type c, cd_not_null = (cs_not_null c \<or> cs_primary_key c), cd_primary_key = cs_primary_key c,
      cd_default = Option.bind (cs_default c) (token_to_literal env), cd_identity = cs_identity c,
      cd_references = map_option (\<lambda>(n, col). (snd n, case col of None \<Rightarrow> ''id'' | Some x \<Rightarrow> x)) (cs_references c)\<rparr>"

section \<open>Reading printed statements back\<close>

definition schema_of :: "string option \<times> string \<Rightarrow> string" where
  "schema_of n = (case fst n of None \<Rightarrow> ''dbo'' | Some s \<Rightarrow> s)"

lemma ddl_name_print:
  "(\<And>us. ts \<noteq> Op ''.'' # us) \<Longrightarrow> ddl_qualified_name (name_tokens n @ ts) = Inr ((schema_of n, snd n), ts)"
  by (auto simp: ddl_qualified_name_def name_tokens_def schema_of_def name_part_def token_or_def split: option.splits list.splits token.splits)

lemma basic_print [simp]:
  "ident_or msg (Ident s # ts) = Inr (s, ts)" "name_part msg (Ident s # ts) = Inr (s, ts)" "token_or msg (t # ts) = Inr (t, ts)"
  "n < 2 ^ 32 \<Longrightarrow> number_or msg (Int_lit (int n) # ts) = Inr (n, ts)"
  by (simp_all add: ident_or_def name_part_def number_or_def token_or_def)

lemma params_print:
  assumes "wf_params len1 len2" and "ts = [] \<or> hd ts \<noteq> LParen"
  shows "type_params (params_tokens len1 len2 @ ts) = Inr ((len1, len2), ts)"
  using assms by (auto simp: wf_params_def params_tokens_def type_params_def split: option.splits)

lemma type_print:
  assumes "wf_type ty" and "ts = [] \<or> hd ts \<noteq> LParen"
  shows "parse_type (type_tokens ty @ ts) = Inr (ty, ts)"
proof -
  have none: "type_params ts = Inr ((None, None), ts)" using params_print [of None None ts] assms(2)
    by (simp add: wf_params_def params_tokens_def)
  have up: "to_uppercase ''ARRAY'' = ''ARRAY''" by code_simp
  show ?thesis
    using assms by (cases ty) (simp_all add: parse_type_def none params_print wf_type_def type_of_name_def up)
qed

text \<open>Where a column definition ends: the loop over the constraints leaves \<open>us\<close> of \<open>ts\<close> and changes nothing.\<close>

definition column_ends :: "parse_env \<Rightarrow> token list \<Rightarrow> token list \<Rightarrow> bool" where
  "column_ends env ts us \<longleftrightarrow> (\<forall>c. column_constraints env c ts = Inr (c, us)) \<and> (ts = [] \<or> hd ts \<noteq> LParen \<and> hd ts \<noteq> Op ''.'')"

lemma column_ends_simps: "column_ends env (Comma # ts) (Comma # ts)" "column_ends env (RParen # ts) (RParen # ts)" "column_ends env [EOF] []"
  by (simp_all add: column_ends_def)

lemma references_print:
  assumes "ts = [] \<or> hd ts \<noteq> LParen \<and> hd ts \<noteq> Op ''.''"
  shows "parse_references (tl (references_tokens r) @ ts) = Inr ((snd (fst r), case snd r of None \<Rightarrow> ''id'' | Some x \<Rightarrow> x), ts)"
proof (cases "snd r")
  case None
  have "ts \<noteq> Op ''.'' # us" for us using assms by auto
  with None assms ddl_name_print [of ts "fst r"] show ?thesis by (auto simp: parse_references_def references_tokens_def)
next
  case (Some c)
  with ddl_name_print [of "LParen # Ident c # RParen # ts" "fst r"] show ?thesis
    by (simp add: parse_references_def references_tokens_def)
qed

lemma constraints_print:
  assumes "column_ends env ts us" and "case d of None \<Rightarrow> True | Some t \<Rightarrow> token_to_literal env t \<noteq> None"
    and "constraint_tokens c = keys @ dflt @ ident @ refs"
    and "keys = (if cs_primary_key c then [Keyword ''PRIMARY'', Keyword ''KEY''] else if cs_not_null c then [Keyword ''NOT'', Keyword ''NULL''] else [])"
    and "d = cs_default c" and "dflt = (case d of None \<Rightarrow> [] | Some t \<Rightarrow> [Keyword ''DEFAULT'', t])"
    and "ident = (if cs_identity c then [Keyword ''IDENTITY'', LParen, Int_lit 1, Comma, Int_lit 1, RParen] else [])"
    and "refs = (case cs_references c of None \<Rightarrow> [] | Some r \<Rightarrow> references_tokens r)"
  shows "column_constraints env
      \<lparr>cd_name = cs_name c, cd_type = cs_type c, cd_not_null = False, cd_primary_key = False, cd_default = None, cd_identity = False,
       cd_references = None\<rparr> (constraint_tokens c @ ts) = Inr (column_of env c, us)"
proof -
  have ends: "column_constraints env x ts = Inr (x, us)" for x using assms(1) by (simp add: column_ends_def)
  have r: "column_constraints env x (refs @ ts) =
      Inr (x\<lparr>cd_references := case cs_references c of None \<Rightarrow> cd_references x | Some r \<Rightarrow> Some (snd (fst r), case snd r of None \<Rightarrow> ''id'' | Some y \<Rightarrow> y)\<rparr>, us)" for x
  proof (cases "cs_references c")
    case (Some r)
    obtain q where q: "references_tokens r = Keyword ''REFERENCES'' # q" by (simp add: references_tokens_def)
    with references_print [of ts r] assms(1,8) Some ends show ?thesis by (simp add: column_ends_def)
  qed (simp add: assms(8) ends)
  have i: "column_constraints env x (ident @ vs) = column_constraints env (if cs_identity c then x\<lparr>cd_identity := True\<rparr> else x) vs" for x vs
    by (simp add: assms(7) skip_identity_args_def)
  have f: "column_constraints env x (dflt @ vs) =
      column_constraints env (case d of None \<Rightarrow> x | Some t \<Rightarrow> x\<lparr>cd_default := token_to_literal env t\<rparr>) vs" for x vs
    using assms(2) by (auto simp: assms(6) split: option.splits)
  have k: "column_constraints env x (keys @ vs) = column_constraints env
      (if cs_primary_key c then x\<lparr>cd_primary_key := True, cd_not_null := True\<rparr> else if cs_not_null c then x\<lparr>cd_not_null := True\<rparr> else x) vs" for x vs
    by (simp add: assms(4))
  show ?thesis
    unfolding assms(3) append_assoc k f i r
    by (auto simp: column_of_def assms(5) split: option.splits)
qed

lemma column_print:
  assumes "wf_column env c" and "column_ends env ts us"
  shows "parse_column_def env (column_tokens c @ ts) = Inr (column_of env c, us)"
proof -
  have "constraint_tokens c @ ts = [] \<or> hd (constraint_tokens c @ ts) \<noteq> LParen"
    using assms(2) by (auto simp: constraint_tokens_def references_tokens_def column_ends_def split: option.splits)
  from type_print [OF _ this] constraints_print [OF assms(2) _ constraint_tokens_def refl refl refl refl refl, of c] assms(1)
  show ?thesis by (simp add: parse_column_def_def column_tokens_def wf_column_def)
qed

lemma create_columns_print:
  assumes "list_all (wf_column env) cs"
  shows "create_columns env (commas (map column_tokens cs) @ RParen # ts) = Inr (map (column_of env) cs, ts)"
  using assms
proof (induction cs)
  case (Cons c cs)
  obtain x xs where x: "column_tokens c = x # xs" "x \<noteq> RParen" by (simp add: column_tokens_def)
  from Cons.prems have c: "wf_column env c" by simp
  show ?case
  proof (cases cs)
    case Nil
    from column_print [OF c column_ends_simps(2), of ts] x show ?thesis by (simp add: Nil)
  next
    case (Cons d ds)
    from column_print [OF c column_ends_simps(1)] x Cons.IH Cons.prems Cons show ?thesis by simp
  qed
qed simp

text \<open>The statements as they are written.\<close>

datatype ddl_source =
    Create_src bool "string option \<times> string" "column_src list"
  | Drop_src bool "string option \<times> string"
  | Schema_src string
  | Add_src "string option \<times> string" column_src
  | Drop_column_src "string option \<times> string" string
  | Retype_src "string option \<times> string" string column_type
  | Create_index_src bool string "string option \<times> string" string
  | Drop_index_src bool string

definition not_exists_tokens :: "bool \<Rightarrow> token list" where
  "not_exists_tokens b = (if b then [Keyword ''IF'', Keyword ''NOT'', Keyword ''EXISTS''] else [])"

definition exists_tokens :: "bool \<Rightarrow> token list" where
  "exists_tokens b = (if b then [Keyword ''IF'', Keyword ''EXISTS''] else [])"

primrec print_ddl :: "ddl_source \<Rightarrow> token list" where
  "print_ddl (Create_src b n cs) =
     Keyword ''CREATE'' # Keyword ''TABLE'' # not_exists_tokens b @ name_tokens n @ LParen # commas (map column_tokens cs) @ [RParen]"
| "print_ddl (Drop_src b n) = Keyword ''DROP'' # Keyword ''TABLE'' # exists_tokens b @ name_tokens n"
| "print_ddl (Schema_src n) = [Keyword ''CREATE'', Keyword ''SCHEMA'', Ident n]"
| "print_ddl (Add_src n c) = Keyword ''ALTER'' # Keyword ''TABLE'' # name_tokens n @ Keyword ''ADD'' # Keyword ''COLUMN'' # column_tokens c"
| "print_ddl (Drop_column_src n c) = Keyword ''ALTER'' # Keyword ''TABLE'' # name_tokens n @ [Keyword ''DROP'', Keyword ''COLUMN'', Ident c]"
| "print_ddl (Retype_src n c ty) =
     Keyword ''ALTER'' # Keyword ''TABLE'' # name_tokens n @ [Keyword ''ALTER'', Keyword ''COLUMN'', Ident c, Keyword ''TYPE''] @ type_tokens ty"
| "print_ddl (Create_index_src b i n c) =
     Keyword ''CREATE'' # Keyword ''INDEX'' # not_exists_tokens b @ Ident i # Keyword ''ON'' # name_tokens n @ [LParen, Ident c, RParen]"
| "print_ddl (Drop_index_src b i) = Keyword ''DROP'' # Keyword ''INDEX'' # exists_tokens b @ [Ident i]"

primrec ddl_of :: "parse_env \<Rightarrow> ddl_source \<Rightarrow> ddl_statement" where
  "ddl_of env (Create_src b n cs) =
     Create \<lparr>ct_schema = schema_of n, ct_name = snd n, ct_columns = map (column_of env) cs, ct_if_not_exists = b\<rparr>"
| "ddl_of env (Drop_src b n) = Drop \<lparr>dt_schema = schema_of n, dt_name = snd n, dt_if_exists = b\<rparr>"
| "ddl_of env (Schema_src n) = Create_schema n"
| "ddl_of env (Add_src n c) = Alter_table \<lparr>at_schema = schema_of n, at_name = snd n, at_action = Add_column (column_of env c)\<rparr>"
| "ddl_of env (Drop_column_src n c) = Alter_table \<lparr>at_schema = schema_of n, at_name = snd n, at_action = Drop_column c\<rparr>"
| "ddl_of env (Retype_src n c ty) = Alter_table \<lparr>at_schema = schema_of n, at_name = snd n, at_action = Alter_column_type c ty\<rparr>"
| "ddl_of env (Create_index_src b i n c) =
     Create_index \<lparr>ci_index_name = i, ci_table = snd n, ci_column = c, ci_if_not_exists = b\<rparr>"
| "ddl_of env (Drop_index_src b i) = Drop_index \<lparr>di_index_name = i, di_if_exists = b\<rparr>"

primrec wf_ddl :: "parse_env \<Rightarrow> ddl_source \<Rightarrow> bool" where
  "wf_ddl env (Create_src b n cs) \<longleftrightarrow> list_all (wf_column env) cs"
| "wf_ddl env (Drop_src b n) \<longleftrightarrow> True"
| "wf_ddl env (Schema_src n) \<longleftrightarrow> True"
| "wf_ddl env (Add_src n c) \<longleftrightarrow> wf_column env c"
| "wf_ddl env (Drop_column_src n c) \<longleftrightarrow> True"
| "wf_ddl env (Retype_src n c ty) \<longleftrightarrow> wf_type ty"
| "wf_ddl env (Create_index_src b i n c) \<longleftrightarrow> True"
| "wf_ddl env (Drop_index_src b i) \<longleftrightarrow> True"

lemma exists_print:
  "ts \<noteq> [] \<Longrightarrow> hd ts \<noteq> Keyword ''IF'' \<Longrightarrow> if_not_exists (not_exists_tokens b @ ts) = Inr (b, ts)"
  "ts \<noteq> [] \<Longrightarrow> hd ts \<noteq> Keyword ''IF'' \<Longrightarrow> if_exists (exists_tokens b @ ts) = Inr (b, ts)"
  by (simp_all add: if_not_exists_def if_exists_def not_exists_tokens_def exists_tokens_def)

lemma name_tokens_head: "name_tokens n @ ts \<noteq> []" "hd (name_tokens n @ ts) \<noteq> Keyword k"
  by (auto simp: name_tokens_def split: option.splits)

lemma parse_ddl_tokens:
  assumes "tokenize pf sql = Inr (print_ddl src @ [EOF])" and "wf_ddl env src"
  shows "parse_ddl pf env sql = Inr (Some (ddl_of env src))"
proof (cases src)
  case (Create_src b n cs)
  with assms(2) create_columns_print [of env cs "[EOF]"] have "parse_create_table env (not_exists_tokens b @ name_tokens n @ LParen # commas (map column_tokens cs) @ [RParen, EOF]) =
      Inr (\<lparr>ct_schema = schema_of n, ct_name = snd n, ct_columns = map (column_of env) cs, ct_if_not_exists = b\<rparr>, [EOF])"
    by (simp add: parse_create_table_def exists_print name_tokens_head ddl_name_print)
  with assms(1) Create_src show ?thesis by (simp add: parse_ddl_def parsed_value_def parse_create_def)
next
  case (Add_src n c)
  with assms(2) column_print [OF _ column_ends_simps(3), of env c] have
    "parse_alter_action env (Keyword ''ADD'' # Keyword ''COLUMN'' # column_tokens c @ [EOF]) = Inr (Add_column (column_of env c), [])"
    by (simp add: parse_alter_action_def skip_column_def)
  with assms(1) Add_src show ?thesis
    by (simp add: parse_ddl_def parsed_value_def parse_alter_def parse_alter_table_def ddl_name_print)
next
  case (Retype_src n c ty)
  with assms type_print [of ty "[EOF]"] show ?thesis
    by (simp add: parse_ddl_def parsed_value_def parse_alter_def parse_alter_table_def ddl_name_print parse_alter_action_def skip_column_def)
qed (use assms in \<open>simp_all add: parse_ddl_def parsed_value_def parse_create_def parse_create_index_def parse_drop_def parse_drop_table_def
    parse_drop_index_def parse_alter_def parse_alter_table_def parse_alter_action_def skip_column_def ddl_name_print exists_print name_tokens_head\<close>)

section \<open>What the parser does not read\<close>

text \<open>The parenthesis that closes a CHECK constraint is taken for the end of the column list: the columns after it are
  lost without an error.\<close>

lemma check_loses_columns:
  "parse_create_table env
     (Ident ''t'' # LParen # Ident ''a'' # Keyword ''INT'' # Ident ''CHECK'' # LParen # Ident ''a'' # Op ''>'' # Int_lit 0 # RParen # Comma #
      Ident ''b'' # Keyword ''INT'' # RParen # ts) =
   Inr (\<lparr>ct_schema = ''dbo'', ct_name = ''t'',
     ct_columns = [\<lparr>cd_name = ''a'', cd_type = TInt, cd_not_null = False, cd_primary_key = False, cd_default = None, cd_identity = False,
       cd_references = None\<rparr>], ct_if_not_exists = False\<rparr>, Comma # Ident ''b'' # Keyword ''INT'' # RParen # ts)"
  by (simp add: parse_create_table_def if_not_exists_def ddl_qualified_name_def parse_column_def_def parse_type_def type_params_def
      type_of_name_def)

text \<open>An ENUM with its values is rejected, and one without them has a single value.\<close>

lemma enum_values_rejected:
  "parse_type (Keyword ''ENUM'' # LParen # String_lit v # ts) = Inl (Expected ''number after ('' (String_lit v))"
  "parse_type (Keyword ''ENUM'' # Comma # ts) = Inr (TEnum [''placeholder''], Comma # ts)"
  by (simp_all add: parse_type_def type_params_def number_or_def type_of_name_def)

text \<open>A negative default is rejected.\<close>

lemma negative_default_rejected:
  "column_constraints env c (Keyword ''DEFAULT'' # Op ''-'' # ts) = Inl (Expected ''default value'' (Op ''-''))"
  by (simp add: token_to_literal_def)

section \<open>Properties\<close>

text \<open>C27: A CREATE TABLE, DROP TABLE, CREATE SCHEMA, ALTER TABLE, CREATE INDEX or DROP INDEX statement written as SQL text is
  parsed back: the schema, which is dbo where none is written, the name, and every column with its type, length and scale,
  key, NULL constraint, default, identity and reference. A primary key is also NOT NULL. An index keeps only the name of
  its table, not the schema.\<close>

theorem ddl_roundtrip:
  assumes "float_text pf sf" and "list_all (valid_token pf) (print_ddl src)" and "wf_ddl env src"
  shows "parse_ddl pf env (print_tokens sf (print_ddl src)) = Inr (Some (ddl_of env src))"
  by (rule parse_ddl_tokens [OF float_text.tokenize_print [OF assms(1,2)] assms(3)])

definition demo_create :: ddl_source where
  "demo_create = Create_src True (Some ''hr'', ''staff'')
     [\<lparr>cs_name = ''id'', cs_type = TInt, cs_not_null = False, cs_primary_key = True, cs_default = None, cs_identity = True, cs_references = None\<rparr>,
      \<lparr>cs_name = ''pay'', cs_type = TDecimal (Some 10) (Some 2), cs_not_null = True, cs_primary_key = False, cs_default = Some (Int_lit 1),
       cs_identity = False, cs_references = Some ((None, ''grades''), Some ''g'')\<rparr>]"

theorem ddl_roundtrip_witness:
  "parse_ddl whole_pf demo_env (print_tokens whole_sf (print_ddl demo_create)) = Inr (Some (Create
     \<lparr>ct_schema = ''hr'', ct_name = ''staff'',
      ct_columns =
        [\<lparr>cd_name = ''id'', cd_type = TInt, cd_not_null = True, cd_primary_key = True, cd_default = None, cd_identity = True,
          cd_references = None\<rparr>,
         \<lparr>cd_name = ''pay'', cd_type = TDecimal (Some 10) (Some 2), cd_not_null = True, cd_primary_key = False, cd_default = Some ''1'',
          cd_identity = False, cd_references = Some (''grades'', ''g'')\<rparr>],
      ct_if_not_exists = True\<rparr>))"
proof -
  have eq: "print_ddl demo_create =
    [Keyword ''CREATE'', Keyword ''TABLE'', Keyword ''IF'', Keyword ''NOT'', Keyword ''EXISTS'', Ident ''hr'', Op ''.'', Ident ''staff'', LParen,
     Ident ''id'', Keyword ''INT'', Keyword ''PRIMARY'', Keyword ''KEY'', Keyword ''IDENTITY'', LParen, Int_lit 1, Comma, Int_lit 1, RParen, Comma,
     Ident ''pay'', Keyword ''DECIMAL'', LParen, Int_lit 10, Comma, Int_lit 2, RParen, Keyword ''NOT'', Keyword ''NULL'', Keyword ''DEFAULT'',
     Int_lit 1, Keyword ''REFERENCES'', Ident ''grades'', LParen, Ident ''g'', RParen, RParen]" by code_simp
  have "list_all (valid_token whole_pf) (print_ddl demo_create)"
    by (simp only: eq list.pred_inject valid_token.simps simp_thms) code_simp
  moreover have "wf_ddl demo_env demo_create"
    by (simp add: demo_create_def wf_column_def wf_type_def wf_params_def token_to_literal_def)
  ultimately have "parse_ddl whole_pf demo_env (print_tokens whole_sf (print_ddl demo_create)) = Inr (Some (ddl_of demo_env demo_create))"
    by (rule ddl_roundtrip [OF whole.float_text_axioms])
  then show ?thesis by (simp add: demo_create_def schema_of_def column_of_def token_to_literal_def show_small)
qed

end
