(* ===== verification/Indexes.thy ===== *)
theory Indexes
  imports Tables Sql_Ddl
begin

text \<open>
  The schema of a table (src/src/schema/table_schema.rs), the index manager (src/src/index/manager.rs) and the indexed fast path
  of SELECT, \<open>try_indexed_lookup\<close> of src/src/engine/mod.rs. The hash maps of the manager are partial maps. A string sidecar
  is the list of its strings; reading past its end gives the empty string. \<open>hash\<close> is the xxh3 hash of a text, \<open>None\<close> a panic.
\<close>

section \<open>Table schemas\<close>

record column_schema =
  sc_name :: string
  sc_type :: column_type
  sc_not_null :: bool
  sc_primary_key :: bool

record table_schema =
  ts_columns :: "column_schema list"

definition schema_column :: "column_def \<Rightarrow> column_schema" where
  "schema_column c = \<lparr>sc_name = cd_name c, sc_type = cd_type c, sc_not_null = cd_not_null c, sc_primary_key = cd_primary_key c\<rparr>"

definition from_ddl :: "column_def list \<Rightarrow> table_schema" where
  "from_ddl cols = \<lparr>ts_columns = map schema_column cols\<rparr>"

definition col_type_at :: "table_schema \<Rightarrow> nat \<Rightarrow> column_type option" where
  "col_type_at s idx = (if idx < length (ts_columns s) then Some (sc_type (ts_columns s ! idx)) else None)"

definition is_string :: "table_schema \<Rightarrow> nat \<Rightarrow> bool" where
  "is_string s idx =
     (case col_type_at s idx of
        Some (TVarchar _) \<Rightarrow> True | Some (TNvarchar _) \<Rightarrow> True | Some TText \<Rightarrow> True
      | Some TJson \<Rightarrow> True | Some (TArray _) \<Rightarrow> True | Some TBytea \<Rightarrow> True
      | _ \<Rightarrow> False)"

definition is_float :: "table_schema \<Rightarrow> nat \<Rightarrow> bool" where
  "is_float s idx =
     (case col_type_at s idx of
        Some TFloat \<Rightarrow> True | Some TReal \<Rightarrow> True | Some (TDecimal _ _) \<Rightarrow> True | Some (TNumeric _ _) \<Rightarrow> True
      | _ \<Rightarrow> False)"

definition pg_type_oid :: "table_schema \<Rightarrow> nat \<Rightarrow> u32" where
  "pg_type_oid s idx =
     (case col_type_at s idx of
        Some TInt \<Rightarrow> 23 | Some TSmallInt \<Rightarrow> 23 | Some TTinyInt \<Rightarrow> 23
      | Some TBigInt \<Rightarrow> 20
      | Some TFloat \<Rightarrow> 701 | Some (TDecimal _ _) \<Rightarrow> 701 | Some (TNumeric _ _) \<Rightarrow> 701
      | Some TReal \<Rightarrow> 700
      | Some TBoolean \<Rightarrow> 16 | Some TBit \<Rightarrow> 16
      | Some TDate \<Rightarrow> 1082
      | Some TTimestamp \<Rightarrow> 1114
      | Some (TVarchar _) \<Rightarrow> 25 | Some (TNvarchar _) \<Rightarrow> 25 | Some TText \<Rightarrow> 25
      | Some TJson \<Rightarrow> 114
      | Some (TArray _) \<Rightarrow> 1007
      | Some TUuid \<Rightarrow> 2950
      | Some TBytea \<Rightarrow> 17
      | Some (TEnum _) \<Rightarrow> 3500
      | None \<Rightarrow> 20)"

type_synonym sql_table = "(string list, table_schema) table"

type_synonym sql_catalog = "(string list, table_schema) catalog"

definition sidecar_get :: "string list \<Rightarrow> nat \<Rightarrow> string" where
  "sidecar_get ss i = (if i < length ss then ss ! i else [])"

section \<open>The index manager\<close>

datatype index_type = BSI | LSH | Hash

record index_entry =
  ie_table :: string
  ie_column :: string
  ie_type :: index_type
  ie_cardinality :: nat
  ie_name :: "string option"

record index_manager =
  im_indexes :: "string \<times> string \<Rightarrow> index_entry option"
  im_by_name :: "string \<Rightarrow> (string \<times> string) option"
  im_hash_data :: "string \<times> string \<Rightarrow> (u64 \<Rightarrow> nat list option) option"

definition im_new :: index_manager where
  "im_new = \<lparr>im_indexes = Map.empty, im_by_name = Map.empty, im_hash_data = Map.empty\<rparr>"

definition im_create :: "index_manager \<Rightarrow> string \<Rightarrow> string \<Rightarrow> index_type \<Rightarrow> nat \<Rightarrow> index_manager" where
  "im_create m t c ty k =
     m\<lparr>im_indexes := (im_indexes m)((t, c) \<mapsto> \<lparr>ie_table = t, ie_column = c, ie_type = ty, ie_cardinality = k, ie_name = None\<rparr>)\<rparr>"

definition create_named :: "index_manager \<Rightarrow> string \<Rightarrow> string \<Rightarrow> string \<Rightarrow> index_type \<Rightarrow> nat \<Rightarrow> index_manager" where
  "create_named m name t c ty k =
     m\<lparr>im_indexes := (im_indexes m)((t, c) \<mapsto> \<lparr>ie_table = t, ie_column = c, ie_type = ty, ie_cardinality = k, ie_name = Some name\<rparr>),
       im_by_name := (im_by_name m)(name \<mapsto> (t, c))\<rparr>"

text \<open>The loop over the cells, which appends each row number to the entry of its value.\<close>

primrec index_cells :: "nat \<Rightarrow> u64 list \<Rightarrow> (u64 \<Rightarrow> nat list option) \<Rightarrow> u64 \<Rightarrow> nat list option" where
  "index_cells i [] d = d"
| "index_cells i (v # vs) d = index_cells (i + 1) vs (d(v \<mapsto> (case d v of None \<Rightarrow> [] | Some is \<Rightarrow> is) @ [i]))"

definition build_hash_index :: "index_manager \<Rightarrow> string \<Rightarrow> string \<Rightarrow> u64 list \<Rightarrow> index_manager" where
  "build_hash_index m t c vs = m\<lparr>im_hash_data := (im_hash_data m)((t, c) \<mapsto> index_cells 0 vs Map.empty)\<rparr>"

definition im_drop :: "index_manager \<Rightarrow> string \<Rightarrow> string \<Rightarrow> bool \<times> index_manager" where
  "im_drop m t c =
     (case im_indexes m (t, c) of
        None \<Rightarrow> (False, m)
      | Some e \<Rightarrow>
          (True, m\<lparr>im_indexes := (im_indexes m)((t, c) := None),
             im_by_name := (case ie_name e of None \<Rightarrow> im_by_name m | Some n \<Rightarrow> (im_by_name m)(n := None)),
             im_hash_data := (im_hash_data m)((t, c) := None)\<rparr>))"

definition drop_by_name :: "index_manager \<Rightarrow> string \<Rightarrow> bool \<times> index_manager" where
  "drop_by_name m name =
     (case im_by_name m name of
        None \<Rightarrow> (False, m)
      | Some k \<Rightarrow>
          (True, m\<lparr>im_by_name := (im_by_name m)(name := None), im_indexes := (im_indexes m)(k := None),
             im_hash_data := (im_hash_data m)(k := None)\<rparr>))"

definition has_index :: "index_manager \<Rightarrow> string \<Rightarrow> string \<Rightarrow> bool" where
  "has_index m t c \<longleftrightarrow> im_indexes m (t, c) \<noteq> None"

definition im_lookup :: "index_manager \<Rightarrow> string \<Rightarrow> string \<Rightarrow> u64 \<Rightarrow> nat list option" where
  "im_lookup m t c v = (case im_hash_data m (t, c) of None \<Rightarrow> None | Some d \<Rightarrow> d v)"

section \<open>The indexed fast path\<close>

text \<open>\<open>str::parse::<i64>\<close>: an optional sign and at least one digit, with a range check.\<close>

definition str_i64 :: "string \<Rightarrow> int option" where
  "str_i64 s =
     (let neg = (s \<noteq> [] \<and> hd s = CHR ''-'');
          ds = (if s \<noteq> [] \<and> (hd s = CHR ''-'' \<or> hd s = CHR ''+'') then tl s else s)
      in if ds \<noteq> [] \<and> list_all is_digit ds then
           (if neg then (if digits_val ds \<le> 2 ^ 63 then Some (- int (digits_val ds)) else None)
            else if digits_val ds < 2 ^ 63 then Some (int (digits_val ds)) else None)
         else None)"

definition literal_to_cell :: "(string \<Rightarrow> u64) \<Rightarrow> sql_value \<Rightarrow> u64" where
  "literal_to_cell hash v =
     (case v of
        VInt i \<Rightarrow> word_of_int i
      | VFloat f \<Rightarrow> f
      | VString s \<Rightarrow> (case str_i64 s of Some n \<Rightarrow> word_of_int n | None \<Rightarrow> hash s)
      | VHex bs \<Rightarrow> fold (\<lambda>(i, b) acc. acc OR push_bit (8 * i mod 64) (ucast b)) (enumerate 0 bs) 0)"

definition extract_eq_predicate :: "(string \<Rightarrow> u64) \<Rightarrow> expr \<Rightarrow> (string \<times> u64) option" where
  "extract_eq_predicate hash e =
     (case e of
        Binary l x r \<Rightarrow>
          if x = ''='' then
            (case (l, r) of
               (Column name, Literal v) \<Rightarrow> Some (name, literal_to_cell hash v)
             | (Literal v, Column name) \<Rightarrow> Some (name, literal_to_cell hash v)
             | _ \<Rightarrow> None)
          else None
      | _ \<Rightarrow> None)"

record result_column =
  rc_name :: string
  rc_values :: "u64 list"
  rc_strings :: "string list option"
  rc_nulls :: "bool list option"

text \<open>One result column: column \<open>i\<close> of the table at the rows \<open>rs\<close>.\<close>

definition indexed_column :: "sql_table \<Rightarrow> nat list \<Rightarrow> string \<Rightarrow> nat \<Rightarrow> result_column option" where
  "indexed_column t rs name i =
     (if rs = [] \<or> i < length (columns t) then Some
        \<lparr>rc_name = name,
         rc_values = map (\<lambda>r. if r < length (columns t ! i) then columns t ! i ! r else 0) rs,
         rc_strings = (if i < length (string_columns t) then map_option (\<lambda>ss. map (sidecar_get ss) rs) (string_columns t ! i) else None),
         rc_nulls = (if i < length (null_bitmaps t) then map_option (\<lambda>bm. map (is_null bm) rs) (null_bitmaps t ! i) else None)\<rparr>
      else None)"

definition collect_some :: "'a option list \<Rightarrow> 'a list option" where
  "collect_some xs = (if None \<in> set xs then None else Some (map the xs))"

text \<open>The columns of a SELECT list: \<open>Inl None\<close> leaves the fast path, \<open>Inl (Some e)\<close> is an error.\<close>

primrec indexed_items :: "sql_table \<Rightarrow> nat list \<Rightarrow> select_item list \<Rightarrow> (error option + result_column list) option" where
  "indexed_items t rs [] = Some (Inr [])"
| "indexed_items t rs (x # xs) =
     (let continue = (\<lambda>cols. case cols of
            None \<Rightarrow> None
          | Some cs \<Rightarrow> (case indexed_items t rs xs of None \<Rightarrow> None | Some (Inl e) \<Rightarrow> Some (Inl e) | Some (Inr ds) \<Rightarrow> Some (Inr (cs @ ds))))
      in case x of
           Item_star \<Rightarrow> continue (collect_some (map (\<lambda>(i, name). indexed_column t rs name i) (enumerate 0 (column_names t))))
         | Item_column name \<Rightarrow>
             (case column_idx t name of
                None \<Rightarrow> Some (Inl (Some NotFound))
              | Some i \<Rightarrow> continue (map_option (\<lambda>c. [c]) (indexed_column t rs name i)))
         | _ \<Rightarrow> Some (Inl None))"

text \<open>The outer option is a panic, the inner one whether the fast path applies; a result is its columns and row count.\<close>

definition try_indexed_lookup ::
  "(string \<Rightarrow> u64) \<Rightarrow> sql_catalog \<Rightarrow> index_manager \<Rightarrow> select_query \<Rightarrow> (result_column list \<times> nat) result option option" where
  "try_indexed_lookup hash cat m q =
     (if q_joins q \<noteq> [] \<or> q_group_by q \<noteq> [] \<or> q_having q \<noteq> None then Some None
      else if q_order_by q \<noteq> [] \<or> q_distinct q then Some None
      else case Option.bind (q_where q) (extract_eq_predicate hash) of
             None \<Rightarrow> Some None
           | Some (col, v) \<Rightarrow>
               if \<not> has_index m (q_from q) col then Some None
               else (case cat_get cat (q_from q) of
                       None \<Rightarrow> Some (Some (Inl NotFound))
                     | Some t \<Rightarrow>
                         if column_idx t col = None then Some None
                         else (let found = (case im_lookup m (q_from q) col v of None \<Rightarrow> [] | Some is \<Rightarrow> is);
                                   rs = take (case q_limit q of None \<Rightarrow> length found | Some n \<Rightarrow> n) found
                               in case indexed_items t rs (q_select q) of
                                    None \<Rightarrow> None
                                  | Some (Inl None) \<Rightarrow> Some None
                                  | Some (Inl (Some e)) \<Rightarrow> Some (Some (Inl e))
                                  | Some (Inr cols) \<Rightarrow> Some (Some (Inr (cols, length rs))))))"

section \<open>Lookups\<close>

text \<open>The rows of a column with a value, in order.\<close>

definition rows_with :: "u64 list \<Rightarrow> u64 \<Rightarrow> nat list" where
  "rows_with vs v = filter (\<lambda>i. vs ! i = v) [0..<length vs]"

lemma index_cells_lookup:
  "(case index_cells i vs d v of None \<Rightarrow> [] | Some is \<Rightarrow> is) =
   (case d v of None \<Rightarrow> [] | Some is \<Rightarrow> is) @ map ((+) i) (rows_with vs v)"
proof (induction vs arbitrary: i d)
  case (Cons w vs)
  have "rows_with (w # vs) v = (if w = v then [0] else []) @ map Suc (rows_with vs v)"
    by (simp add: rows_with_def upt_conv_Cons map_Suc_upt [symmetric] filter_map comp_def del: upt_Suc)
  with Cons.IH [of "i + 1"] show ?case by (auto simp: comp_def split: option.splits)
qed (simp add: rows_with_def split: option.splits)

lemma lookup_build:
  "(case im_lookup (build_hash_index m t c vs) t c v of None \<Rightarrow> [] | Some is \<Rightarrow> is) = rows_with vs v"
  using index_cells_lookup [of 0 vs Map.empty v] by (simp add: im_lookup_def build_hash_index_def map_idI)

text \<open>What a SELECT list asks for: the columns of the table at the given rows.\<close>

definition rows_column :: "sql_table \<Rightarrow> nat list \<Rightarrow> string \<times> nat \<Rightarrow> result_column" where
  "rows_column t rs p =
     \<lparr>rc_name = fst p, rc_values = map (\<lambda>r. columns t ! snd p ! r) rs,
      rc_strings = map_option (\<lambda>ss. map (sidecar_get ss) rs) (string_columns t ! snd p),
      rc_nulls = map_option (\<lambda>bm. map (is_null bm) rs) (null_bitmaps t ! snd p)\<rparr>"

definition item_columns :: "sql_table \<Rightarrow> select_item \<Rightarrow> (string \<times> nat) list" where
  "item_columns t x =
     (case x of
        Item_star \<Rightarrow> map (\<lambda>i. (column_names t ! i, i)) [0..<length (column_names t)]
      | Item_column name \<Rightarrow> [(name, the (column_idx t name))]
      | _ \<Rightarrow> [])"

definition simple_item :: "sql_table \<Rightarrow> select_item \<Rightarrow> bool" where
  "simple_item t x \<longleftrightarrow> (case x of Item_star \<Rightarrow> True | Item_column name \<Rightarrow> column_idx t name \<noteq> None | _ \<Rightarrow> False)"

lemma column_idx_less: "table_ok t \<Longrightarrow> column_idx t name = Some i \<Longrightarrow> i < length (columns t) \<and> column_names t ! i = name"
  using position_Some [of "\<lambda>n. n = name" "column_names t" i] by (auto simp: column_idx_def table_ok_def)

lemma indexed_column_rows:
  assumes "table_ok t" and "i < length (columns t)" and "\<And>r. r \<in> set rs \<Longrightarrow> r < row_count t"
  shows "indexed_column t rs name i = Some (rows_column t rs (name, i))"
proof -
  have "row_count t \<le> length (columns t ! i)" using assms(1,2) by (simp add: table_ok_def)
  then have "r < length (columns t ! i)" if "r \<in> set rs" for r using assms(3) [OF that] by simp
  with assms(1,2) show ?thesis by (simp add: indexed_column_def rows_column_def table_ok_def)
qed

lemma indexed_items_rows:
  assumes "table_ok t" and "\<And>r. r \<in> set rs \<Longrightarrow> r < row_count t" and "list_all (simple_item t) xs"
  shows "indexed_items t rs xs = Some (Inr (map (rows_column t rs) (concat (map (item_columns t) xs))))"
  using assms(3)
proof (induction xs)
  case (Cons x xs)
  note ic = indexed_column_rows [OF assms(1) _ assms(2)]
  have len: "length (column_names t) = length (columns t)" using assms(1) by (simp add: table_ok_def)
  have star: "map (\<lambda>(i, name). indexed_column t rs name i) (enumerate 0 (column_names t)) =
      map (\<lambda>i. Some (rows_column t rs (column_names t ! i, i))) [0..<length (column_names t)]"
    by (rule nth_equalityI) (simp_all add: nth_enumerate_eq ic len)
  show ?case
  proof (cases x)
    case Item_star
    have "collect_some (map (\<lambda>(i, name). indexed_column t rs name i) (enumerate 0 (column_names t))) = Some (map (rows_column t rs) (item_columns t x))"
      unfolding star by (auto simp: collect_some_def item_columns_def Item_star)
    with Cons Item_star show ?thesis by simp
  next
    case (Item_column name)
    with Cons.prems obtain i where i: "column_idx t name = Some i" by (auto simp: simple_item_def)
    with ic [OF conjunct1 [OF column_idx_less [OF assms(1) i]]] Cons Item_column show ?thesis by (simp add: item_columns_def)
  qed (use Cons.prems in \<open>simp_all add: simple_item_def\<close>)
qed simp

text \<open>An index whose data was built from the cells the column holds now.\<close>

definition fresh_index :: "index_manager \<Rightarrow> sql_table \<Rightarrow> string \<Rightarrow> string \<Rightarrow> bool" where
  "fresh_index m t name col \<longleftrightarrow>
     has_index m name col \<and>
     (case column_idx t col of None \<Rightarrow> False | Some i \<Rightarrow> im_hash_data m (name, col) = Some (index_cells 0 (columns t ! i) Map.empty))"

definition point_query :: "sql_table \<Rightarrow> select_query \<Rightarrow> string \<Rightarrow> sql_value \<Rightarrow> bool" where
  "point_query t q col lit \<longleftrightarrow>
     q_joins q = [] \<and> q_group_by q = [] \<and> q_having q = None \<and> q_order_by q = [] \<and> \<not> q_distinct q \<and>
     (q_where q = Some (Binary (Column col) ''='' (Literal lit)) \<or> q_where q = Some (Binary (Literal lit) ''='' (Column col))) \<and>
     list_all (simple_item t) (q_select q)"

lemma indexed_lookup_fresh:
  assumes "cat_get cat (q_from q) = Some t" and "table_ok t" and "\<forall>c\<in>set (columns t). length c = row_count t"
    and "fresh_index m t (q_from q) col" and "column_idx t col = Some i" and "point_query t q col lit"
    and "rs = take (case q_limit q of None \<Rightarrow> row_count t | Some n \<Rightarrow> n) (rows_with (columns t ! i) (literal_to_cell hash lit))"
  shows "try_indexed_lookup hash cat m q =
    Some (Some (Inr (map (rows_column t rs) (concat (map (item_columns t) (q_select q))), length rs)))"
proof -
  let ?v = "literal_to_cell hash lit" and ?c = "columns t ! i"
  have i: "i < length (columns t)" using column_idx_less [OF assms(2,5)] by simp
  have found: "(case im_lookup m (q_from q) col ?v of None \<Rightarrow> [] | Some is \<Rightarrow> is) = rows_with ?c ?v"
    using assms(4,5) index_cells_lookup [of 0 ?c Map.empty ?v] by (simp add: fresh_index_def im_lookup_def map_idI)
  have bound: "r < row_count t" if "r \<in> set (rows_with ?c ?v)" for r
    using that i assms(3) by (auto simp: rows_with_def)
  have "length (rows_with ?c ?v) \<le> row_count t"
    using length_filter_le [of "\<lambda>k. ?c ! k = ?v" "[0..<length ?c]"] i assms(3) by (simp add: rows_with_def)
  then have rs: "rs = take (case q_limit q of None \<Rightarrow> length (rows_with ?c ?v) | Some n \<Rightarrow> n) (rows_with ?c ?v)"
    by (simp add: assms(7) split: option.split)
  have "indexed_items t rs (q_select q) = Some (Inr (map (rows_column t rs) (concat (map (item_columns t) (q_select q)))))"
    using assms(2,6,7) bound by (intro indexed_items_rows) (auto simp: point_query_def dest: in_set_takeD)
  moreover have "Option.bind (q_where q) (extract_eq_predicate hash) = Some (col, ?v)"
    using assms(6) by (auto simp: point_query_def extract_eq_predicate_def)
  ultimately show ?thesis
    using assms(1,4,5,6) rs by (cases "q_limit q") (simp_all add: try_indexed_lookup_def found fresh_index_def point_query_def Let_def)
qed

section \<open>Two indexes on one column\<close>

text \<open>Dropping the first of two indexes on the same column removes the second, whose name stays registered.\<close>

lemma drop_removes_other_index:
  assumes "a \<noteq> b"
  shows "let m = create_named (create_named im_new a t c Hash k) b t c Hash k; (found, m') = drop_by_name m a
    in found \<and> \<not> has_index m' t c \<and> im_by_name m' b = Some (t, c)"
  using assms by (simp add: create_named_def drop_by_name_def im_new_def has_index_def)

end
