(* ===== verification/Temporal.thy ===== *)
theory Temporal
  imports TV_Prelude "HOL-Library.Multiset"
begin

text \<open>
  System-versioned tables of src/src/exec/temporal.rs: the current rows with the time they became valid, and the history of
  the rows that were changed or deleted. Every operation reads the clock once; the reading, in milliseconds, is an argument.
  The predicate of an update or a delete is an argument as in the source. Version counts, which the source collects in a
  hash map, are a function of the key.
\<close>

section \<open>Tables and operations\<close>

record history_row =
  h_values :: "u64 list"
  h_from :: u64
  h_to :: u64

record temporal_table =
  tt_column_names :: "string list"
  tt_current :: "(u64 list \<times> u64) list"
  tt_history :: "history_row list"
  tt_last_modified :: u64

definition tt_new :: "u64 \<Rightarrow> string list \<Rightarrow> temporal_table" where
  "tt_new now names = \<lparr>tt_column_names = names, tt_current = [], tt_history = [], tt_last_modified = now\<rparr>"

definition tt_insert :: "u64 \<Rightarrow> u64 list \<Rightarrow> temporal_table \<Rightarrow> temporal_table" where
  "tt_insert now vs t = t\<lparr>tt_last_modified := now, tt_current := tt_current t @ [(vs, now)]\<rparr>"

text \<open>The loop of \<open>update\<close>, which stops at the first match: the rows afterwards and the row that went to the history.\<close>

primrec tt_update_loop ::
  "u64 \<Rightarrow> (u64 list \<Rightarrow> bool) \<Rightarrow> u64 list \<Rightarrow> (u64 list \<times> u64) list \<Rightarrow> (u64 list \<times> u64) list \<times> history_row option" where
  "tt_update_loop now p new [] = ([], None)"
| "tt_update_loop now p new (r # rs) =
     (if p (fst r) then ((new, now) # rs, Some \<lparr>h_values = fst r, h_from = snd r, h_to = now\<rparr>)
      else let (rs', h) = tt_update_loop now p new rs in (r # rs', h))"

definition tt_update :: "u64 \<Rightarrow> (u64 list \<Rightarrow> bool) \<Rightarrow> u64 list \<Rightarrow> temporal_table \<Rightarrow> temporal_table" where
  "tt_update now p new t =
     (case tt_update_loop now p new (tt_current t) of
        (rs, None) \<Rightarrow> t
      | (rs, Some h) \<Rightarrow> t\<lparr>tt_current := rs, tt_history := tt_history t @ [h], tt_last_modified := now\<rparr>)"

primrec tt_delete_loop ::
  "u64 \<Rightarrow> (u64 list \<Rightarrow> bool) \<Rightarrow> (u64 list \<times> u64) list \<Rightarrow> (u64 list \<times> u64) list \<times> history_row list" where
  "tt_delete_loop now p [] = ([], [])"
| "tt_delete_loop now p (r # rs) =
     (let (rs', hs) = tt_delete_loop now p rs
      in if p (fst r) then (rs', \<lparr>h_values = fst r, h_from = snd r, h_to = now\<rparr> # hs) else (r # rs', hs))"

definition tt_delete :: "u64 \<Rightarrow> (u64 list \<Rightarrow> bool) \<Rightarrow> temporal_table \<Rightarrow> nat \<times> temporal_table" where
  "tt_delete now p t =
     (let (rs, hs) = tt_delete_loop now p (tt_current t)
      in (length hs, t\<lparr>tt_current := rs, tt_history := tt_history t @ hs, tt_last_modified := now\<rparr>))"

section \<open>Queries\<close>

definition query_as_of :: "temporal_table \<Rightarrow> u64 \<Rightarrow> u64 list list" where
  "query_as_of t ts =
     map fst (filter (\<lambda>r. snd r \<le> ts) (tt_current t)) @
     map h_values (filter (\<lambda>h. h_from h \<le> ts \<and> ts < h_to h) (tt_history t))"

definition query_between :: "temporal_table \<Rightarrow> u64 \<Rightarrow> u64 \<Rightarrow> history_row list" where
  "query_between t start stop = filter (\<lambda>h. h_from h \<le> stop \<and> start \<le> h_to h) (tt_history t)"

definition query_all :: "temporal_table \<Rightarrow> history_row list" where
  "query_all t = tt_history t @ map (\<lambda>(row, valid_from). \<lparr>h_values = row, h_from = valid_from, h_to = - 1\<rparr>) (tt_current t)"

definition version_counts :: "temporal_table \<Rightarrow> u64 \<Rightarrow> nat" where
  "version_counts t pk =
     length (filter (\<lambda>h. h_values h \<noteq> [] \<and> hd (h_values h) = pk) (tt_history t)) +
     length (filter (\<lambda>(row, _). row \<noteq> [] \<and> hd row = pk) (tt_current t))"

section \<open>Histories\<close>

datatype temporal_op =
    T_insert u64 "u64 list"
  | T_update u64 "u64 list \<Rightarrow> bool" "u64 list"
  | T_delete u64 "u64 list \<Rightarrow> bool"

primrec op_time :: "temporal_op \<Rightarrow> u64" where
  "op_time (T_insert now vs) = now"
| "op_time (T_update now p new) = now"
| "op_time (T_delete now p) = now"

primrec tt_step :: "temporal_op \<Rightarrow> temporal_table \<Rightarrow> temporal_table" where
  "tt_step (T_insert now vs) t = tt_insert now vs t"
| "tt_step (T_update now p new) t = tt_update now p new t"
| "tt_step (T_delete now p) t = snd (tt_delete now p t)"

text \<open>Times in a table are at most the time of its last operation.\<close>

definition until :: "u64 \<Rightarrow> temporal_table \<Rightarrow> bool" where
  "until m t \<longleftrightarrow> list_all (\<lambda>r. snd r \<le> m) (tt_current t) \<and> list_all (\<lambda>h. h_to h \<le> m) (tt_history t)"

lemma update_loop_until:
  "tt_update_loop now p new rs = (rs', h) \<Longrightarrow> list_all (\<lambda>r. snd r \<le> now) rs \<Longrightarrow>
   list_all (\<lambda>r. snd r \<le> now) rs' \<and> (case h of None \<Rightarrow> rs' = rs | Some h \<Rightarrow> h_to h = now)"
  by (induction rs arbitrary: rs' h) (auto simp: Let_def split: if_splits prod.splits option.splits)

lemma delete_loop_until:
  "tt_delete_loop now p rs = (rs', hs) \<Longrightarrow> list_all (\<lambda>r. snd r \<le> now) rs \<Longrightarrow>
   list_all (\<lambda>r. snd r \<le> now) rs' \<and> list_all (\<lambda>h. h_to h \<le> now) hs"
  by (induction rs arbitrary: rs' hs) (auto simp: Let_def split: if_splits prod.splits)

lemma until_mono: "until m t \<Longrightarrow> m \<le> n \<Longrightarrow> until n t"
  by (fastforce simp: until_def list_all_iff)

lemma until_step: "until m t \<Longrightarrow> m \<le> op_time x \<Longrightarrow> until (op_time x) (tt_step x t)"
proof (cases x)
  case (T_insert now vs)
  assume "until m t" "m \<le> op_time x"
  from until_mono [OF this] T_insert show ?thesis by (simp add: until_def tt_insert_def)
next
  case (T_update now p new)
  assume "until m t" "m \<le> op_time x"
  from until_mono [OF this] T_update show ?thesis
    using update_loop_until [of now p new "tt_current t"] by (auto simp: until_def tt_update_def split: prod.splits option.splits)
next
  case (T_delete now p)
  assume "until m t" "m \<le> op_time x"
  from until_mono [OF this] T_delete show ?thesis
    using delete_loop_until [of now p "tt_current t"]
    by (auto simp: until_def tt_delete_def Let_def split: prod.splits)
qed

lemma as_of_now: "until m t \<Longrightarrow> m \<le> ts \<Longrightarrow> query_as_of t ts = map fst (tt_current t)"
proof -
  assume "until m t" "m \<le> ts"
  then have "filter (\<lambda>r. snd r \<le> ts) (tt_current t) = tt_current t" "filter (\<lambda>h. h_from h \<le> ts \<and> ts < h_to h) (tt_history t) = []"
    by (fastforce simp: until_def list_all_iff filter_id_conv filter_empty_conv)+
  then show ?thesis by (simp add: query_as_of_def)
qed

text \<open>An operation after the time of the question does not change the answer.\<close>

lemma update_loop_later:
  assumes "ts < now" and "tt_update_loop now p new rs = (rs', h)"
  shows "mset (map fst (filter (\<lambda>r. snd r \<le> ts) rs)) =
    mset (map fst (filter (\<lambda>r. snd r \<le> ts) rs')) + (case h of None \<Rightarrow> {#} | Some h \<Rightarrow> if h_from h \<le> ts \<and> ts < h_to h then {#h_values h#} else {#})"
  using assms(2)
proof (induction rs arbitrary: rs' h)
  case (Cons r rs)
  show ?case
  proof (cases "p (fst r)")
    case True
    with Cons.prems assms(1) show ?thesis by auto
  next
    case False
    obtain qs g where q: "tt_update_loop now p new rs = (qs, g)" by (cases "tt_update_loop now p new rs")
    from Cons.IH [OF q] q False Cons.prems show ?thesis by auto
  qed
qed simp

lemma delete_loop_later:
  assumes "ts < now" and "tt_delete_loop now p rs = (rs', hs)"
  shows "mset (map fst (filter (\<lambda>r. snd r \<le> ts) rs)) =
    mset (map fst (filter (\<lambda>r. snd r \<le> ts) rs')) + mset (map h_values (filter (\<lambda>h. h_from h \<le> ts \<and> ts < h_to h) hs))"
  using assms(2)
proof (induction rs arbitrary: rs' hs)
  case (Cons r rs)
  obtain qs gs where q: "tt_delete_loop now p rs = (qs, gs)" by (cases "tt_delete_loop now p rs")
  from Cons.IH [OF q] q assms(1) Cons.prems show ?case by (auto split: if_splits)
qed simp

lemma as_of_later:
  assumes "ts < op_time x"
  shows "mset (query_as_of (tt_step x t) ts) = mset (query_as_of t ts)"
proof (cases x)
  case (T_insert now vs)
  with assms show ?thesis by (simp add: query_as_of_def tt_insert_def)
next
  case (T_update now p new)
  obtain rs h where l: "tt_update_loop now p new (tt_current t) = (rs, h)" by (cases "tt_update_loop now p new (tt_current t)")
  from update_loop_later [OF _ l] assms T_update l show ?thesis
    by (auto simp: query_as_of_def tt_update_def split: option.splits)
next
  case (T_delete now p)
  obtain rs hs where l: "tt_delete_loop now p (tt_current t) = (rs, hs)" by (cases "tt_delete_loop now p (tt_current t)")
  from delete_loop_later [OF _ l] assms T_delete l show ?thesis
    by (simp add: query_as_of_def tt_delete_def)
qed

definition tt_run :: "temporal_op list \<Rightarrow> temporal_table \<Rightarrow> temporal_table" where
  "tt_run xs t = fold tt_step xs t"

lemma as_of_run:
  assumes "sorted (map op_time xs)" and "until m t" and "\<And>x. x \<in> set xs \<Longrightarrow> m \<le> op_time x" and "m \<le> ts"
  shows "mset (query_as_of (tt_run xs t) ts) = mset (map fst (tt_current (tt_run (filter (\<lambda>x. op_time x \<le> ts) xs) t)))"
  using assms
proof (induction xs arbitrary: t m)
  case Nil
  then show ?case by (simp add: tt_run_def as_of_now)
next
  case (Cons x xs)
  show ?case
  proof (cases "op_time x \<le> ts")
    case True
    have "until (op_time x) (tt_step x t)" using until_step Cons.prems by simp
    from Cons.IH [OF _ this] Cons.prems True show ?thesis by (simp add: tt_run_def)
  next
    case False
    then have later: "ts < op_time y" if "y \<in> set (x # xs)" for y
      using that Cons.prems(1) by (auto simp: not_le intro: less_le_trans)
    have same: "mset (query_as_of (tt_run ys u) ts) = mset (query_as_of u ts)" if "set ys \<subseteq> set (x # xs)" for ys u
      using that by (induction ys arbitrary: u) (simp_all add: tt_run_def as_of_later later)
    have none: "filter (\<lambda>x. op_time x \<le> ts) (x # xs) = []" using later by (auto simp: filter_empty_conv not_le)
    show ?thesis unfolding none same [OF subset_refl] as_of_now [OF Cons.prems(2,4)] by (simp add: tt_run_def)
  qed
qed

section \<open>Properties\<close>

text \<open>C30: A query AS OF a time returns exactly the rows, with multiplicities, that the table held after the last operation at or
  before that time, for any sequence of inserts, updates and deletes whose clock readings do not go back; a row that was
  replaced within the same millisecond is not reported.\<close>

theorem temporal_as_of_correct:
  assumes "sorted (map op_time xs)"
  shows "mset (query_as_of (tt_run xs (tt_new start names)) ts) =
    mset (map fst (tt_current (tt_run (filter (\<lambda>x. op_time x \<le> ts) xs) (tt_new start names))))"
  using as_of_run [OF assms, of 0 "tt_new start names" ts] by (simp add: until_def tt_new_def)

theorem temporal_as_of_correct_witness:
  "mset (query_as_of (tt_run [T_insert 3 [1, 100], T_update 5 (\<lambda>r. hd r = 1) [1, 7], T_delete 9 (\<lambda>r. True)] (tt_new 0 [''id'', ''v''])) 5) =
     {#[1, 7]#}"
  using temporal_as_of_correct [of "[T_insert 3 [1, 100], T_update 5 (\<lambda>r. hd r = 1) [1, 7], T_delete 9 (\<lambda>r. True)]" 0 "[''id'', ''v'']" 5]
  by (simp add: tt_run_def tt_insert_def tt_update_def tt_new_def)

end
