(* ===== verification/Dml_Exec.thy ===== *)
theory Dml_Exec
  imports Indexes Temporal
begin

text \<open>
  What DDL and DML statements do to the tables: \<open>execute_ddl\<close>, \<open>execute_alter_table\<close>, \<open>execute_create_index\<close>,
  \<open>execute_drop_index\<close>, \<open>execute_insert\<close>, \<open>execute_update\<close>, \<open>execute_delete\<close> and \<open>eval_simple_where\<close> of
  src/src/engine/mod.rs. The state is the part of the engine they touch: the catalog, the index manager and the temporal
  sidecars. Parameters are the conversion of text to \<open>f64\<close> bits, the xxh3 hash of a text, and the clock, the \<open>n\<close>-th
  reading of a statement being \<open>de_now n\<close>. \<open>None\<close> is a panic; the count of a statement is its number of rows.
\<close>

section \<open>State and values\<close>

record dml_env =
  de_pf :: "string \<Rightarrow> u64 option"
  de_hash :: "string \<Rightarrow> u64"
  de_now :: "nat \<Rightarrow> u64"

record dml_state =
  ds_catalog :: sql_catalog
  ds_indexes :: index_manager
  ds_temporals :: "string \<Rightarrow> temporal_table option"

type_synonym dml_result = "(nat result \<times> dml_state) option"

text \<open>\<open>starts_with\<close> and \<open>ends_with\<close> a quote, and the text between.\<close>

definition is_quoted :: "string \<Rightarrow> bool" where
  "is_quoted s \<longleftrightarrow> 2 \<le> length s \<and> hd s = CHR 0x27 \<and> last s = CHR 0x27"

definition unquoted :: "string \<Rightarrow> string" where
  "unquoted s = butlast (tl s)"

definition extract_string_literal :: "string \<Rightarrow> string option" where
  "extract_string_literal s =
     (let t = str_trim s in if is_quoted t then Some (replace2 (CHR 0x27) (CHR 0x27) [CHR 0x27] (unquoted t)) else None)"

text \<open>\<open>u8::from_str_radix\<close> on two characters, with its optional plus sign.\<close>

definition radix_byte :: "char \<Rightarrow> char \<Rightarrow> u8 option" where
  "radix_byte a b =
     (case hex_value b of
        None \<Rightarrow> None
      | Some l \<Rightarrow>
          if a = CHR ''+'' then Some (of_nat l)
          else map_option (\<lambda>h. of_nat (16 * h + l)) (hex_value a))"

text \<open>The bytes of a hex literal; a single character at the end is a slice out of range.\<close>

fun radix_bytes :: "string \<Rightarrow> bytes option" where
  "radix_bytes [] = Some []"
| "radix_bytes [a] = None"
| "radix_bytes (a # b # s) =
     map_option (\<lambda>bs. case radix_byte a b of None \<Rightarrow> bs | Some x \<Rightarrow> x # bs) (radix_bytes s)"

definition le_cell :: "bytes \<Rightarrow> u64" where
  "le_cell bs = fold (\<lambda>(i, b) acc. acc OR push_bit (8 * i) (ucast b)) (enumerate 0 (take 8 bs)) 0"

definition parse_value_cell :: "dml_env \<Rightarrow> string \<Rightarrow> u64 option" where
  "parse_value_cell env s =
     (let t = str_trim s;
          number = (case str_i64 t of
              Some n \<Rightarrow> word_of_int n
            | None \<Rightarrow> (case parse_u64 t of Some n \<Rightarrow> n | None \<Rightarrow> de_hash env t))
      in if t = ''NULL'' then Some 0
         else if is_quoted t then Some (de_hash env (unquoted t))
         else if starts_with t [CHR ''x'', CHR 0x27] \<and> last t = CHR 0x27 \<and> 3 \<le> length t
           then map_option le_cell (radix_bytes (butlast (drop 2 t)))
         else if CHR ''.'' \<in> set t \<or> CHR ''e'' \<in> set t \<or> CHR ''E'' \<in> set t
           then Some (case de_pf env t of Some f \<Rightarrow> f | None \<Rightarrow> number)
         else Some number)"

definition is_null_text :: "string \<Rightarrow> bool" where
  "is_null_text s \<longleftrightarrow> to_lowercase (str_trim s) = ''null''"

definition default_cell_for_type :: "dml_env \<Rightarrow> column_def \<Rightarrow> u64" where
  "default_cell_for_type env c =
     (let by_type = (if cd_type c \<in> {TInt, TBigInt, TSmallInt, TTinyInt, TBit, TBoolean, TDate, TTimestamp, TUuid, TFloat, TReal} then 0
            else case cd_type c of TDecimal _ _ \<Rightarrow> 0 | TNumeric _ _ \<Rightarrow> 0 | _ \<Rightarrow> de_hash env [])
      in case cd_default c of
           None \<Rightarrow> by_type
         | Some d \<Rightarrow>
             let t = str_trim d
             in if is_quoted t then de_hash env (unquoted t)
                else case str_i64 t of
                       Some n \<Rightarrow> word_of_int n
                     | None \<Rightarrow>
                         (case de_pf env t of
                            Some f \<Rightarrow> f
                          | None \<Rightarrow> if to_lowercase t = ''null'' then 0 else by_type))"

section \<open>Conditions\<close>

record pred =
  p_col :: nat
  p_op :: string
  p_cell :: u64
  p_string :: "string option"

definition WHERE_OPS :: "string list" where
  "WHERE_OPS = [''='', ''!='', ''<>'', ''<'', ''>'', ''<='', ''>='']"

definition has_sidecar :: "sql_table \<Rightarrow> nat \<Rightarrow> bool" where
  "has_sidecar t i \<longleftrightarrow> i < length (string_columns t) \<and> string_columns t ! i \<noteq> None"

text \<open>The value of a comparison: its cell, and its text where the column has a sidecar. The inner option is the error.\<close>

definition where_value :: "dml_env \<Rightarrow> sql_table \<Rightarrow> nat \<Rightarrow> token \<Rightarrow> (u64 \<times> string option) option option" where
  "where_value env t i v =
     (case v of
        String_lit s \<Rightarrow>
          if has_sidecar t i then Some (Some (0, Some s))
          else map_option (\<lambda>c. Some (c, None)) (parse_value_cell env (quoted s))
      | Int_lit n \<Rightarrow> Some (Some (word_of_int n, None))
      | Float_lit f \<Rightarrow> Some (Some (f, None))
      | Hex_lit bs \<Rightarrow> Some (Some (le_cell bs, None))
      | Keyword k \<Rightarrow> Some (if to_lowercase k = ''null'' then Some (0, None) else None)
      | _ \<Rightarrow> Some None)"

definition where_column :: "token \<Rightarrow> string option" where
  "where_column t = (case t of Ident s \<Rightarrow> Some s | Keyword k \<Rightarrow> Some k | _ \<Rightarrow> None)"

text \<open>One comparison at the head of the tokens.\<close>

definition where_pred :: "dml_env \<Rightarrow> sql_table \<Rightarrow> token \<Rightarrow> token \<Rightarrow> token \<Rightarrow> pred result option" where
  "where_pred env t c x v =
     (case where_column c of
        None \<Rightarrow> Some (Inl Other)
      | Some name \<Rightarrow>
          (case x of
             Op y \<Rightarrow>
               if y \<notin> set WHERE_OPS then Some (Inl Other)
               else (case column_idx t name of
                       None \<Rightarrow> Some (Inl NotFound)
                     | Some i \<Rightarrow>
                         (case where_value env t i v of
                            None \<Rightarrow> None
                          | Some None \<Rightarrow> Some (Inl Other)
                          | Some (Some (cell, s)) \<Rightarrow>
                              Some (Inr \<lparr>p_col = i, p_op = (if y = ''<>'' then ''!='' else y), p_cell = cell, p_string = s\<rparr>)))
           | _ \<Rightarrow> Some (Inl Other)))"

text \<open>The loop over the tokens: the comparisons, and for each AND (\<open>True\<close>) and OR (\<open>False\<close>) a connective.\<close>

fun where_preds :: "dml_env \<Rightarrow> sql_table \<Rightarrow> token list \<Rightarrow> (pred list \<times> bool list) result option" where
  "where_preds env t [] = Some (Inr ([], []))"
| "where_preds env t (c # ts) =
     (let connective = (\<lambda>b. map_option (map_sum id (\<lambda>(ps, os). (ps, b # os))) (where_preds env t ts))
      in if c = Keyword ''AND'' then connective True
         else if c = Keyword ''OR'' then connective False
         else if c = LParen then Some (Inl Other)
         else case ts of
                x # v # us \<Rightarrow>
                  (case where_pred env t c x v of
                     None \<Rightarrow> None
                   | Some (Inl e) \<Rightarrow> Some (Inl e)
                   | Some (Inr p) \<Rightarrow> map_option (map_sum id (\<lambda>(ps, os). (p # ps, os))) (where_preds env t us))
              | _ \<Rightarrow> Some (Inl Other))"

text \<open>\<open>str\<close> comparison is bytewise.\<close>

fun str_less :: "string \<Rightarrow> string \<Rightarrow> bool" where
  "str_less _ [] = False"
| "str_less [] _ = True"
| "str_less (a # s) (b # u) =
     ((of_char a :: nat) < of_char b \<or> of_char a = (of_char b :: nat) \<and> str_less s u)"

definition compare_by :: "string \<Rightarrow> ('a \<Rightarrow> 'a \<Rightarrow> bool) \<Rightarrow> 'a \<Rightarrow> 'a \<Rightarrow> bool" where
  "compare_by op lt a b =
     (if op = ''='' then a = b
      else if op = ''!='' then a \<noteq> b
      else if op = ''<'' then lt a b
      else if op = ''>'' then lt b a
      else if op = ''<='' then \<not> lt b a
      else if op = ''>='' then \<not> lt a b
      else False)"

definition pred_mask :: "sql_table \<Rightarrow> pred \<Rightarrow> bool list option" where
  "pred_mask t p =
     (if p_col p < length (columns t) then Some
        (case p_string p of
           Some s \<Rightarrow>
             if has_sidecar t (p_col p)
             then map (\<lambda>i. compare_by (p_op p) str_less (sidecar_get (the (string_columns t ! p_col p)) i) s) [0..<row_count t]
             else map (\<lambda>c. compare_by (p_op p) (<) c (p_cell p)) (columns t ! p_col p)
         | None \<Rightarrow> map (\<lambda>c. compare_by (p_op p) (<) c (p_cell p)) (columns t ! p_col p))
      else None)"

text \<open>The masks are combined from left to right; a missing connective is an AND. Only the first \<open>n\<close> entries are combined.\<close>

definition combine_masks :: "nat \<Rightarrow> bool \<Rightarrow> bool list \<Rightarrow> bool list \<Rightarrow> bool list option" where
  "combine_masks n is_and r m =
     (if n \<le> length r \<and> n \<le> length m
      then Some (map (\<lambda>j. if is_and then r ! j \<and> m ! j else r ! j \<or> m ! j) [0..<n] @ drop n r)
      else None)"

fun fold_masks :: "nat \<Rightarrow> bool list \<Rightarrow> bool list \<Rightarrow> bool list list \<Rightarrow> bool list option" where
  "fold_masks n os r [] = Some r"
| "fold_masks n os r (m # ms) =
     (case combine_masks n (os = [] \<or> hd os) r m of None \<Rightarrow> None | Some r \<Rightarrow> fold_masks n (tl os) r ms)"

definition eval_simple_where :: "dml_env \<Rightarrow> sql_table \<Rightarrow> string \<Rightarrow> bool list result option" where
  "eval_simple_where env t w =
     (if row_count t = 0 then Some (Inr [])
      else case tokenize (de_pf env) w of
             Inl _ \<Rightarrow> Some (Inl Parse)
           | Inr ts \<Rightarrow>
               (let ts = filter (\<lambda>x. x \<noteq> EOF) ts;
                    ts = (if ts \<noteq> [] \<and> hd ts = Keyword ''WHERE'' then tl ts else ts)
                in if ts = [] then Some (Inr (replicate (row_count t) True))
                   else case where_preds env t ts of
                          None \<Rightarrow> None
                        | Some (Inl e) \<Rightarrow> Some (Inl e)
                        | Some (Inr (ps, os)) \<Rightarrow>
                            if ps = [] then Some (Inr (replicate (row_count t) True))
                            else (case collect_some (map (pred_mask t) ps) of
                                    None \<Rightarrow> None
                                  | Some ms \<Rightarrow> map_option Inr (fold_masks (row_count t) os (hd ms) (tl ms)))))"

section \<open>INSERT\<close>

text \<open>The columns that are written.\<close>

definition insert_indices :: "sql_table \<Rightarrow> string list option \<Rightarrow> nat list result" where
  "insert_indices t cols =
     (case cols of
        None \<Rightarrow> Inr [0..<length (columns t)]
      | Some cs \<Rightarrow> (case collect_some (map (column_idx t) cs) of None \<Rightarrow> Inl NotFound | Some is \<Rightarrow> Inr is))"

definition string_col :: "sql_table \<Rightarrow> nat \<Rightarrow> bool" where
  "string_col t i \<longleftrightarrow> i < length (columns t) \<and> (case schema t of None \<Rightarrow> False | Some s \<Rightarrow> is_string s i)"

text \<open>\<open>Vec::resize\<close> with \<open>None\<close>.\<close>

definition resize_none :: "nat \<Rightarrow> 'a option list \<Rightarrow> 'a option list" where
  "resize_none n xs = take n xs @ replicate (n - length xs) None"

text \<open>The NULL bitmap of a column after one value was appended to the column.\<close>

definition push_null_flag :: "nat \<Rightarrow> nat \<Rightarrow> bool \<Rightarrow> sql_table \<Rightarrow> sql_table option" where
  "push_null_flag n i null t =
     (if null then
        (let bms = (if length (null_bitmaps t) \<le> i then resize_none (length (columns t)) (null_bitmaps t) else null_bitmaps t)
         in if i < length bms then
              Some (t\<lparr>null_bitmaps := bms[i := Some (push_null (case bms ! i of None \<Rightarrow> nb_new n | Some bm \<Rightarrow> bm))]\<rparr>)
            else None)
      else Some (if i < length (null_bitmaps t)
                 then t\<lparr>null_bitmaps := (null_bitmaps t)[i := map_option push_non_null (null_bitmaps t ! i)]\<rparr> else t))"

text \<open>The string kept for a value of a string column.\<close>

definition value_text :: "string \<Rightarrow> string" where
  "value_text v =
     (if is_null_text v then [] else case extract_string_literal v of Some s \<Rightarrow> s | None \<Rightarrow> str_trim v)"

text \<open>One value: the cell, the string for the sidecar and the NULL flag. \<open>n\<close> is the row count, which the statement raises
  only at its end; \<open>si\<close> collects the strings of each column.\<close>

type_synonym insert_state = "sql_table \<times> (nat \<Rightarrow> string list)"

definition insert_cell :: "dml_env \<Rightarrow> nat \<Rightarrow> nat \<Rightarrow> string \<Rightarrow> insert_state \<Rightarrow> insert_state option" where
  "insert_cell env n i v st =
     (case st of (t, si) \<Rightarrow>
        if i < length (columns t) then
          (case parse_value_cell env v of
             None \<Rightarrow> None
           | Some cell \<Rightarrow>
               map_option (\<lambda>t'. (t', if string_col t i then si(i := si i @ [value_text v]) else si))
                 (push_null_flag n i (is_null_text v) (t\<lparr>columns := (columns t)[i := columns t ! i @ [cell]]\<rparr>)))
        else None)"

text \<open>One row: a row shorter than the column list is an index panic, values beyond it are ignored.\<close>

fun insert_row :: "dml_env \<Rightarrow> nat \<Rightarrow> nat list \<Rightarrow> string list \<Rightarrow> insert_state \<Rightarrow> insert_state option" where
  "insert_row env n [] vs st = Some st"
| "insert_row env n (i # is) [] st = None"
| "insert_row env n (i # is) (v # vs) st = (case insert_cell env n i v st of None \<Rightarrow> None | Some st \<Rightarrow> insert_row env n is vs st)"

primrec insert_rows :: "dml_env \<Rightarrow> nat \<Rightarrow> nat list \<Rightarrow> string list list \<Rightarrow> insert_state \<Rightarrow> insert_state option" where
  "insert_rows env n is [] st = Some st"
| "insert_rows env n is (r # rs) st = (case insert_row env n is r st of None \<Rightarrow> None | Some st \<Rightarrow> insert_rows env n is rs st)"

text \<open>The sidecar of a column after the statement; \<open>None\<close> is the underflow of the padding length.\<close>

definition merge_strings :: "nat \<Rightarrow> string list \<Rightarrow> string list option \<Rightarrow> string list option" where
  "merge_strings n new old =
     (case old of
        Some ss \<Rightarrow> Some (ss @ new)
      | None \<Rightarrow> if length new \<le> n then Some (replicate (n - length new) [] @ new) else None)"

text \<open>The columns that received strings are independent, so the order of the hash map does not matter.\<close>

primrec merge_sidecars :: "(nat \<Rightarrow> string list) \<Rightarrow> nat list \<Rightarrow> sql_table \<Rightarrow> sql_table option" where
  "merge_sidecars si [] t = Some t"
| "merge_sidecars si (i # is) t =
     (if si i = [] then merge_sidecars si is t
      else let scs = string_columns t @ replicate (i + 1 - length (string_columns t)) None
           in case merge_strings (row_count t) (si i) (scs ! i) of
                None \<Rightarrow> None
              | Some ss \<Rightarrow> merge_sidecars si is (t\<lparr>string_columns := scs[i := Some ss]\<rparr>))"

text \<open>\<open>table.columns[c].get(r).copied().unwrap_or(0)\<close> for every column.\<close>

definition row_values :: "sql_table \<Rightarrow> nat \<Rightarrow> u64 list" where
  "row_values t r = map (\<lambda>c. if r < length c then c ! r else 0) (columns t)"

definition put_table :: "string \<Rightarrow> sql_table \<Rightarrow> dml_state \<Rightarrow> dml_state" where
  "put_table name t st = st\<lparr>ds_catalog := (ds_catalog st)\<lparr>cat_tables := (cat_tables (ds_catalog st))(name \<mapsto> t)\<rparr>\<rparr>"

text \<open>A change of the temporal sidecar of a table, where there is one.\<close>

definition map_temporal :: "string \<Rightarrow> (temporal_table \<Rightarrow> temporal_table) \<Rightarrow> dml_state \<Rightarrow> dml_state" where
  "map_temporal name f st = st\<lparr>ds_temporals := (ds_temporals st)(name := map_option f (ds_temporals st name))\<rparr>"

primrec temporal_inserts :: "(nat \<Rightarrow> u64) \<Rightarrow> nat \<Rightarrow> u64 list list \<Rightarrow> temporal_table \<Rightarrow> temporal_table" where
  "temporal_inserts now k [] tt = tt"
| "temporal_inserts now k (r # rs) tt = temporal_inserts now (k + 1) rs (tt_insert (now k) r tt)"

definition execute_insert :: "dml_env \<Rightarrow> dml_state \<Rightarrow> insert_stmt \<Rightarrow> dml_result" where
  "execute_insert env st ins =
     (case cat_get (ds_catalog st) (ins_table ins) of
        None \<Rightarrow> Some (Inl NotFound, st)
      | Some t \<Rightarrow>
          (case insert_indices t (ins_columns ins) of
             Inl e \<Rightarrow> Some (Inl e, st)
           | Inr is \<Rightarrow>
               if length is \<noteq> (case ins_values ins of [] \<Rightarrow> 0 | r # _ \<Rightarrow> length r) then Some (Inl Other, st)
               else (let k = length (ins_values ins)
                     in case insert_rows env (row_count t) is (ins_values ins) (t, \<lambda>_. []) of
                          None \<Rightarrow> None
                        | Some (t', si) \<Rightarrow>
                            (case merge_sidecars si [0..<length (columns t')] (t'\<lparr>row_count := row_count t + k\<rparr>) of
                               None \<Rightarrow> None
                             | Some t' \<Rightarrow>
                                 Some (Inr k, map_temporal (ins_table ins)
                                   (temporal_inserts (de_now env) 0 (map (row_values t') [row_count t..<row_count t + k]))
                                   (put_table (ins_table ins) t' st))))))"

section \<open>UPDATE\<close>

text \<open>Non-NULL flags for the rows up to \<open>r\<close> that the bitmap does not reach.\<close>

definition pad_bitmap :: "nat \<Rightarrow> null_bitmap \<Rightarrow> null_bitmap" where
  "pad_bitmap r bm = bm\<lparr>nulls := nulls bm @ replicate (r + 1 - length (nulls bm)) False\<rparr>"

definition update_null_flag :: "nat \<Rightarrow> nat \<Rightarrow> bool \<Rightarrow> sql_table \<Rightarrow> sql_table" where
  "update_null_flag r i null t =
     (if i < length (null_bitmaps t) then
        t\<lparr>null_bitmaps := (null_bitmaps t)[i :=
          (if null then Some (set_null (pad_bitmap r (case null_bitmaps t ! i of None \<Rightarrow> nb_new r | Some bm \<Rightarrow> bm)) r)
           else map_option (\<lambda>bm. set_non_null (pad_bitmap r bm) r) (null_bitmaps t ! i))]\<rparr>
      else t)"

type_synonym assignment = "nat \<times> u64 \<times> bool"

primrec update_row :: "assignment list \<Rightarrow> nat \<Rightarrow> sql_table \<Rightarrow> sql_table option" where
  "update_row [] r t = Some t"
| "update_row (a # as) r t =
     (case a of
        (i, v, null) \<Rightarrow>
          if i < length (columns t) \<and> r < length (columns t ! i)
          then update_row as r (update_null_flag r i null (t\<lparr>columns := (columns t)[i := (columns t ! i)[r := v]]\<rparr>))
          else None)"

primrec update_rows :: "assignment list \<Rightarrow> nat \<Rightarrow> bool list \<Rightarrow> sql_table \<Rightarrow> sql_table option" where
  "update_rows as r [] t = Some t"
| "update_rows as r (b # bs) t =
     (case (if b then update_row as r t else Some t) of None \<Rightarrow> None | Some t \<Rightarrow> update_rows as (r + 1) bs t)"

text \<open>The assignments: column, cell and whether it is NULL. The outer option is a panic.\<close>

primrec update_assigns :: "dml_env \<Rightarrow> sql_table \<Rightarrow> (string \<times> string) list \<Rightarrow> assignment list result option" where
  "update_assigns env t [] = Some (Inr [])"
| "update_assigns env t (a # as) =
     (case column_idx t (fst a) of
        None \<Rightarrow> Some (Inl NotFound)
      | Some i \<Rightarrow>
          (case parse_value_cell env (snd a) of
             None \<Rightarrow> None
           | Some cell \<Rightarrow> map_option (map_sum id (\<lambda>rest. (i, cell, is_null_text (snd a)) # rest)) (update_assigns env t as)))"

definition row_mask :: "dml_env \<Rightarrow> sql_table \<Rightarrow> string option \<Rightarrow> bool list result option" where
  "row_mask env t w = (case w of None \<Rightarrow> Some (Inr (replicate (row_count t) True)) | Some w \<Rightarrow> eval_simple_where env t w)"

definition true_rows :: "bool list \<Rightarrow> nat list" where
  "true_rows hits = filter (\<lambda>r. hits ! r) [0..<length hits]"

text \<open>\<open>columns.first()\<close> at row \<open>r\<close>, or 0.\<close>

definition first_cell :: "sql_table \<Rightarrow> nat \<Rightarrow> u64" where
  "first_cell t r = (if columns t \<noteq> [] \<and> r < length (hd (columns t)) then hd (columns t) ! r else 0)"

definition key_matches :: "u64 \<Rightarrow> u64 list \<Rightarrow> bool" where
  "key_matches k row \<longleftrightarrow> row \<noteq> [] \<and> hd row = k"

primrec temporal_updates :: "(nat \<Rightarrow> u64) \<Rightarrow> nat \<Rightarrow> (u64 \<times> u64 list) list \<Rightarrow> temporal_table \<Rightarrow> temporal_table" where
  "temporal_updates now k [] tt = tt"
| "temporal_updates now k (u # us) tt = temporal_updates now (k + 1) us (tt_update (now k) (key_matches (fst u)) (snd u) tt)"

text \<open>A row after the assignments.\<close>

definition assigned :: "assignment list \<Rightarrow> u64 list \<Rightarrow> u64 list" where
  "assigned as row = fold (\<lambda>(i, v, _) row. row[i := v]) as row"

definition execute_update :: "dml_env \<Rightarrow> dml_state \<Rightarrow> update_stmt \<Rightarrow> dml_result" where
  "execute_update env st upd =
     (case cat_get (ds_catalog st) (upd_table upd) of
        None \<Rightarrow> Some (Inl NotFound, st)
      | Some t \<Rightarrow>
          (case update_assigns env t (upd_assignments upd) of
             None \<Rightarrow> None
           | Some (Inl e) \<Rightarrow> Some (Inl e, st)
           | Some (Inr as) \<Rightarrow>
               (case row_mask env t (upd_where upd) of
                  None \<Rightarrow> None
                | Some (Inl e) \<Rightarrow> Some (Inl e, st)
                | Some (Inr hits) \<Rightarrow>
                    (case update_rows as 0 hits
                            (t\<lparr>null_bitmaps := null_bitmaps t @ replicate (length (columns t) - length (null_bitmaps t)) None\<rparr>) of
                       None \<Rightarrow> None
                     | Some t' \<Rightarrow>
                         Some (Inr (length (true_rows hits)), map_temporal (upd_table upd)
                           (temporal_updates (de_now env) 0
                              (map (\<lambda>r. (first_cell t' r, assigned as (row_values t' r))) (true_rows hits)))
                           (put_table (upd_table upd) t' st))))))"

section \<open>DELETE\<close>

text \<open>\<open>usize\<close> subtraction of a release build.\<close>

definition sub_usize :: "nat \<Rightarrow> nat \<Rightarrow> nat" where
  "sub_usize a b = (if b \<le> a then a - b else a + 2 ^ 64 - b)"

definition kept_rows :: "bool list \<Rightarrow> nat list" where
  "kept_rows hits = filter (\<lambda>r. \<not> hits ! r) [0..<length hits]"

definition keep_cells :: "bool list \<Rightarrow> u64 list \<Rightarrow> u64 list option" where
  "keep_cells hits c =
     (if list_all (\<lambda>r. r < length c) (kept_rows hits) then Some (map (\<lambda>r. c ! r) (kept_rows hits)) else None)"

primrec temporal_deletes :: "(nat \<Rightarrow> u64) \<Rightarrow> nat \<Rightarrow> u64 list \<Rightarrow> temporal_table \<Rightarrow> temporal_table" where
  "temporal_deletes now k [] tt = tt"
| "temporal_deletes now k (p # ps) tt = temporal_deletes now (k + 1) ps (snd (tt_delete (now k) (key_matches p) tt))"

definition execute_delete :: "dml_env \<Rightarrow> dml_state \<Rightarrow> delete_stmt \<Rightarrow> dml_result" where
  "execute_delete env st del =
     (case cat_get (ds_catalog st) (del_table del) of
        None \<Rightarrow> Some (Inl NotFound, st)
      | Some t \<Rightarrow>
          (case row_mask env t (del_where del) of
             None \<Rightarrow> None
           | Some (Inl e) \<Rightarrow> Some (Inl e, st)
           | Some (Inr hits) \<Rightarrow>
               (let deleted = length (true_rows hits)
                in if deleted = 0 then Some (Inr 0, st)
                   else case collect_some (map (keep_cells hits) (columns t)) of
                          None \<Rightarrow> None
                        | Some cols \<Rightarrow>
                            Some (Inr deleted, map_temporal (del_table del)
                              (temporal_deletes (de_now env) 0 (map (first_cell t) (true_rows hits)))
                              (put_table (del_table del) (t\<lparr>columns := cols, row_count := sub_usize (row_count t) deleted\<rparr>) st)))))"

definition execute_dml :: "dml_env \<Rightarrow> dml_state \<Rightarrow> dml_statement \<Rightarrow> dml_result" where
  "execute_dml env st s =
     (case s of Insert i \<Rightarrow> execute_insert env st i | Update u \<Rightarrow> execute_update env st u | Delete d \<Rightarrow> execute_delete env st d)"

text \<open>The DML step of \<open>execute\<close>: \<open>None\<close> when the text is no INSERT, UPDATE or DELETE. The entry written to the write-ahead log after
  a success is not part of this state.\<close>

definition execute_dml_text :: "dml_env \<Rightarrow> parse_env \<Rightarrow> dml_state \<Rightarrow> string \<Rightarrow> dml_result option" where
  "execute_dml_text env penv st sql =
     (case parse_dml (de_pf env) penv sql of
        Inl _ \<Rightarrow> Some (Some (Inl Parse, st))
      | Inr None \<Rightarrow> None
      | Inr (Some s) \<Rightarrow> Some (execute_dml env st s))"

section \<open>DDL\<close>

definition table_key :: "string \<Rightarrow> string \<Rightarrow> string" where
  "table_key schm name = (if schm = ''dbo'' then name else schm @ ''.'' @ name)"

definition empty_table :: "string \<Rightarrow> column_def list \<Rightarrow> sql_table" where
  "empty_table name cols =
     \<lparr>tname = name, columns = map (\<lambda>_. []) cols, column_names = map cd_name cols, row_count = 0,
      string_columns = replicate (length cols) None, null_bitmaps = replicate (length cols) None, schema = Some (from_ddl cols)\<rparr>"

text \<open>\<open>Vec::remove\<close>, where the index is in range.\<close>

definition remove_at :: "nat \<Rightarrow> 'a list \<Rightarrow> 'a list" where
  "remove_at i xs = take i xs @ drop (i + 1) xs"

definition add_column :: "dml_env \<Rightarrow> column_def \<Rightarrow> sql_table \<Rightarrow> sql_table" where
  "add_column env c t =
     t\<lparr>columns := columns t @ [replicate (row_count t) (default_cell_for_type env c)], column_names := column_names t @ [cd_name c],
       string_columns := string_columns t @ [None], null_bitmaps := null_bitmaps t @ [None],
       schema := map_option (\<lambda>s. s\<lparr>ts_columns := ts_columns s @ [schema_column c]\<rparr>) (schema t)\<rparr>"

definition drop_column_at :: "nat \<Rightarrow> sql_table \<Rightarrow> sql_table option" where
  "drop_column_at i t =
     (if i < length (columns t) then Some
        (t\<lparr>columns := remove_at i (columns t), column_names := remove_at i (column_names t),
           string_columns := remove_at i (string_columns t), null_bitmaps := remove_at i (null_bitmaps t),
           schema := map_option (\<lambda>s. s\<lparr>ts_columns := remove_at i (ts_columns s)\<rparr>) (schema t)\<rparr>)
      else None)"

definition retype_column :: "nat \<Rightarrow> column_type \<Rightarrow> sql_table \<Rightarrow> sql_table" where
  "retype_column i ty t =
     t\<lparr>schema := map_option (\<lambda>s. if i < length (ts_columns s) then s\<lparr>ts_columns := (ts_columns s)[i := (ts_columns s ! i)\<lparr>sc_type := ty\<rparr>]\<rparr> else s)
        (schema t)\<rparr>"

definition execute_alter_table :: "dml_env \<Rightarrow> dml_state \<Rightarrow> alter_table \<Rightarrow> dml_result" where
  "execute_alter_table env st a =
     (let name = table_key (at_schema a) (at_name a)
      in case cat_get (ds_catalog st) name of
           None \<Rightarrow> Some (Inl NotFound, st)
         | Some t \<Rightarrow>
             (case at_action a of
                Add_column c \<Rightarrow> Some (Inr 0, put_table name (add_column env c t) st)
              | Drop_column col \<Rightarrow>
                  (case column_idx t col of
                     None \<Rightarrow> Some (Inl NotFound, st)
                   | Some i \<Rightarrow>
                       map_option (\<lambda>t. (Inr 0, (put_table name t st)\<lparr>ds_indexes := snd (im_drop (ds_indexes st) name col)\<rparr>)) (drop_column_at i t))
              | Alter_column_type col ty \<Rightarrow>
                  (case column_idx t col of
                     None \<Rightarrow> Some (Inl NotFound, st)
                   | Some i \<Rightarrow> Some (Inr 0, put_table name (retype_column i ty t) st))))"

definition execute_create_index :: "dml_state \<Rightarrow> create_index \<Rightarrow> nat result \<times> dml_state" where
  "execute_create_index st ci =
     (if im_by_name (ds_indexes st) (ci_index_name ci) \<noteq> None then (if ci_if_not_exists ci then Inr 0 else Inl Other, st)
      else case cat_get (ds_catalog st) (ci_table ci) of
             None \<Rightarrow> (Inl NotFound, st)
           | Some t \<Rightarrow>
               (case column_idx t (ci_column ci) of
                  None \<Rightarrow> (Inl NotFound, st)
                | Some i \<Rightarrow>
                    if length (columns t) \<le> i then (Inl Other, st)
                    else (Inr 0, st\<lparr>ds_indexes := build_hash_index
                      (create_named (ds_indexes st) (ci_index_name ci) (ci_table ci) (ci_column ci) Hash (card (set (columns t ! i))))
                      (ci_table ci) (ci_column ci) (columns t ! i)\<rparr>)))"

definition execute_drop_index :: "dml_state \<Rightarrow> drop_index \<Rightarrow> nat result \<times> dml_state" where
  "execute_drop_index st d =
     (let (found, m) = drop_by_name (ds_indexes st) (di_index_name d)
      in if found then (Inr 0, st\<lparr>ds_indexes := m\<rparr>) else (if di_if_exists d then Inr 0 else Inl NotFound, st))"

definition execute_ddl :: "dml_env \<Rightarrow> dml_state \<Rightarrow> ddl_statement \<Rightarrow> dml_result" where
  "execute_ddl env st s =
     (case s of
        Create ct \<Rightarrow>
          (let name = table_key (ct_schema ct) (ct_name ct)
           in Some (if cat_get (ds_catalog st) name \<noteq> None then (if ct_if_not_exists ct then Inr 0 else Inl Other, st)
                    else (Inr 0, st\<lparr>ds_catalog := register (ds_catalog st) (empty_table name (ct_columns ct))\<rparr>)))
      | Drop dt \<Rightarrow>
          (let name = table_key (dt_schema dt) (dt_name dt)
           in Some (if cat_get (ds_catalog st) name = None then (if dt_if_exists dt then Inr 0 else Inl NotFound, st)
                    else (Inr 0, st\<lparr>ds_catalog := snd (cat_drop (ds_catalog st) name)\<rparr>)))
      | Create_schema n \<Rightarrow> Some (Inr 0, st)
      | Alter_table a \<Rightarrow> execute_alter_table env st a
      | Create_index ci \<Rightarrow> Some (execute_create_index st ci)
      | Drop_index di \<Rightarrow> Some (execute_drop_index st di))"

end
