(* ===== verification/Dml_Rows.thy ===== *)
theory Dml_Rows
  imports Dml_Exec
begin

text \<open>
  What the statements of the theory Dml_Exec do to the rows of a table. A table is \<open>tight\<close> when every column has exactly as
  many cells as the table has rows; CREATE TABLE gives a tight table, and the theorems say when INSERT, UPDATE and DELETE keep
  it and which rows they leave. Conditions are read row by row, the connectives from left to right.
\<close>

section \<open>Rows\<close>

definition tight :: "sql_table \<Rightarrow> bool" where
  "tight t \<longleftrightarrow> table_ok t \<and> (\<forall>c\<in>set (columns t). length c = row_count t)"

definition table_row :: "sql_table \<Rightarrow> nat \<Rightarrow> u64 list" where
  "table_row t r = map (\<lambda>c. c ! r) (columns t)"

definition all_rows :: "sql_table \<Rightarrow> u64 list list" where
  "all_rows t = map (table_row t) [0..<row_count t]"

lemma tightD:
  "tight t \<Longrightarrow> table_ok t" "tight t \<Longrightarrow> i < length (columns t) \<Longrightarrow> length (columns t ! i) = row_count t"
  by (simp_all add: tight_def)

lemma tight_row_values: "tight t \<Longrightarrow> r < row_count t \<Longrightarrow> row_values t r = table_row t r"
  by (simp add: row_values_def table_row_def tight_def)

lemma tight_empty: "tight (empty_table name cols)"
  by (simp add: tight_def empty_table_def table_ok_def)

text \<open>A table that differs from another in nothing but its cells, NULL flags, sidecars and row count.\<close>

definition same_shape :: "sql_table \<Rightarrow> sql_table \<Rightarrow> bool" where
  "same_shape t t' \<longleftrightarrow>
     tname t' = tname t \<and> column_names t' = column_names t \<and> schema t' = schema t \<and> length (columns t') = length (columns t) \<and>
     length (string_columns t') = length (string_columns t) \<and> length (null_bitmaps t') = length (null_bitmaps t)"

lemma same_shape_refl [simp]: "same_shape t t"
  by (simp add: same_shape_def)

lemma same_shape_trans: "same_shape t u \<Longrightarrow> same_shape u v \<Longrightarrow> same_shape t v"
  by (simp add: same_shape_def)

lemma tight_shape:
  "table_ok t \<Longrightarrow> same_shape t t' \<Longrightarrow> (\<And>i. i < length (columns t) \<Longrightarrow> length (columns t' ! i) = row_count t') \<Longrightarrow> tight t'"
  by (auto simp: tight_def table_ok_def same_shape_def in_set_conv_nth)

section \<open>The catalog\<close>

definition tables_of :: "dml_state \<Rightarrow> string \<Rightarrow> sql_table option" where
  "tables_of st = cat_tables (ds_catalog st)"

lemma tables_put [simp]: "tables_of (put_table name t st) = (tables_of st)(name \<mapsto> t)"
  by (simp add: tables_of_def put_table_def)

lemma tables_temporal [simp]: "tables_of (map_temporal name f st) = tables_of st"
  by (simp add: tables_of_def map_temporal_def)

lemma indexes_kept [simp]:
  "ds_indexes (put_table name t st) = ds_indexes st" "ds_indexes (map_temporal name f st) = ds_indexes st"
  by (simp_all add: put_table_def map_temporal_def)

lemma cat_get_tables: "cat_get (ds_catalog st) name = tables_of st name"
  by (simp add: cat_get_def tables_of_def)

section \<open>Conditions\<close>

definition pred_holds :: "sql_table \<Rightarrow> nat \<Rightarrow> pred \<Rightarrow> bool" where
  "pred_holds t r p =
     (case p_string p of
        None \<Rightarrow> compare_by (p_op p) (<) (columns t ! p_col p ! r) (p_cell p)
      | Some s \<Rightarrow> compare_by (p_op p) str_less (sidecar_get (the (string_columns t ! p_col p)) r) s)"

text \<open>The truth values of the comparisons joined from left to right.\<close>

fun chain :: "bool list \<Rightarrow> bool \<Rightarrow> bool list \<Rightarrow> bool" where
  "chain os b [] = b"
| "chain os b (c # cs) = chain (tl os) (if os = [] \<or> hd os then b \<and> c else b \<or> c) cs"

definition cond_holds :: "sql_table \<Rightarrow> pred list \<times> bool list \<Rightarrow> nat \<Rightarrow> bool" where
  "cond_holds t c r =
     (case fst c of [] \<Rightarrow> True | p # ps \<Rightarrow> chain (snd c) (pred_holds t r p) (map (pred_holds t r) ps))"

text \<open>A comparison the parser can produce for the table.\<close>

definition wf_pred :: "sql_table \<Rightarrow> pred \<Rightarrow> bool" where
  "wf_pred t p \<longleftrightarrow> p_col p < length (columns t) \<and> (p_string p \<noteq> None \<longrightarrow> has_sidecar t (p_col p))"

lemma where_pred_wf: "table_ok t \<Longrightarrow> where_pred env t c x v = Some (Inr p) \<Longrightarrow> wf_pred t p"
  by (auto simp: where_pred_def where_value_def wf_pred_def dest!: column_idx_less
      split: option.splits token.splits if_splits prod.splits)

lemma map_result_Inr: "map_sum id f x = Inr y \<longleftrightarrow> (\<exists>z. x = Inr z \<and> y = f z)"
  by (cases x) auto

lemma where_preds_wf: "table_ok t \<Longrightarrow> where_preds env t ts = Some (Inr (ps, os)) \<Longrightarrow> list_all (wf_pred t) ps"
proof (induction env t ts arbitrary: ps os rule: where_preds.induct)
  case (2 env t c ts)
  show ?case
  proof (cases "c = Keyword ''AND'' \<or> c = Keyword ''OR''")
    case True
    with "2.prems" obtain os' where "where_preds env t ts = Some (Inr (ps, os'))" by (auto simp: map_result_Inr)
    with True "2.prems"(1) show ?thesis using "2.IH"(1) by blast
  next
    case False
    with "2.prems" obtain x v us p qs where ts: "ts = x # v # us" and p: "where_pred env t c x v = Some (Inr p)" "ps = p # qs"
      and us: "c \<noteq> LParen" "where_preds env t us = Some (Inr (qs, os))"
      by (auto simp: map_result_Inr split: list.splits option.splits sum.splits if_splits)
    have "list_all (wf_pred t) qs" using "2.IH"(2) False us ts p "2.prems"(1) by simp
    with p where_pred_wf [OF "2.prems"(1) p(1)] show ?thesis by simp
  qed
qed simp

lemma pred_mask_holds:
  assumes "tight t" and "wf_pred t p"
  shows "pred_mask t p = Some (map (\<lambda>r. pred_holds t r p) [0..<row_count t])"
proof -
  have "map (\<lambda>c. compare_by (p_op p) (<) c (p_cell p)) (columns t ! p_col p) =
      map (\<lambda>r. compare_by (p_op p) (<) (columns t ! p_col p ! r) (p_cell p)) [0..<row_count t]"
    using assms by (intro nth_equalityI) (simp_all add: wf_pred_def tightD)
  with assms show ?thesis
    by (auto simp: pred_mask_def pred_holds_def wf_pred_def has_sidecar_def split: option.splits)
qed

lemma fold_masks_chain:
  "fold_masks n os (map f [0..<n]) (map (\<lambda>g. map g [0..<n]) gs) = Some (map (\<lambda>r. chain os (f r) (map (\<lambda>g. g r) gs)) [0..<n])"
proof (induction gs arbitrary: os f)
  case (Cons g gs)
  have "combine_masks n b (map f [0..<n]) (map g [0..<n]) = Some (map (\<lambda>r. if b then f r \<and> g r else f r \<or> g r) [0..<n])" for b
    by (simp add: combine_masks_def)
  with Cons show ?case by simp
qed simp

lemma eval_where_holds:
  assumes "tight t" and "tokenize (de_pf env) w = Inr (ws @ [EOF])" and "list_all (\<lambda>x. x \<noteq> EOF) ws" and "ws = [] \<or> hd ws \<noteq> Keyword ''WHERE''"
    and "where_preds env t ws = Some (Inr c)"
  shows "eval_simple_where env t w = Some (Inr (map (cond_holds t c) [0..<row_count t]))"
proof -
  obtain ps os where c: "c = (ps, os)" by (cases c)
  have ws: "filter (\<lambda>x. x \<noteq> EOF) (ws @ [EOF]) = ws" using assms(3) by (simp add: filter_id_conv list_all_iff)
  have wf: "list_all (wf_pred t) ps" using where_preds_wf [OF tightD(1) [OF assms(1)]] assms(5) c by simp
  show ?thesis
  proof (cases "row_count t = 0 \<or> ps = []")
    case True
    moreover have "ps = []" if "ws = []" using that assms(5) c by simp
    ultimately show ?thesis using assms(2,4,5) ws
      by (auto simp: eval_simple_where_def c cond_holds_def [abs_def] map_replicate_const Let_def)
  next
    case False
    then obtain p qs where p: "ps = p # qs" by (cases ps) auto
    have masks: "map (pred_mask t) ps = map (\<lambda>p. Some (map (\<lambda>r. pred_holds t r p) [0..<row_count t])) ps"
      using wf pred_mask_holds [OF assms(1)] by (simp add: list_all_iff)
    have "collect_some (map (pred_mask t) ps) = Some (map (\<lambda>p. map (\<lambda>r. pred_holds t r p) [0..<row_count t]) ps)"
      unfolding masks by (auto simp: collect_some_def)
    moreover have "fold_masks (row_count t) os (map (\<lambda>r. pred_holds t r p) [0..<row_count t]) (map (\<lambda>p. map (\<lambda>r. pred_holds t r p) [0..<row_count t]) qs) =
        Some (map (\<lambda>r. chain os (pred_holds t r p) (map (pred_holds t r) qs)) [0..<row_count t])"
      using fold_masks_chain [of "row_count t" os "\<lambda>r. pred_holds t r p" "map (\<lambda>p r. pred_holds t r p) qs"] by (simp add: comp_def)
    moreover have "ws \<noteq> []" using assms(5) c p by auto
    ultimately show ?thesis using False assms(2,4,5) ws by (simp add: eval_simple_where_def c p cond_holds_def [abs_def] Let_def)
  qed
qed

section \<open>DELETE\<close>

lemma true_rows_map: "true_rows (map P [0..<n]) = filter P [0..<n]"
  by (auto simp: true_rows_def intro!: filter_cong)

lemma kept_rows_map: "kept_rows (map P [0..<n]) = filter (\<lambda>r. \<not> P r) [0..<n]"
  by (auto simp: kept_rows_def intro!: filter_cong)

lemma filter_not_length: "length (filter (\<lambda>r. \<not> P r) xs) = length xs - length (filter P xs)"
  using sum_length_filter_compl [of P xs] by simp

lemma delete_rows:
  assumes "tables_of st (del_table d) = Some t" and "tight t" and "row_mask env t (del_where d) = Some (Inr (map P [0..<row_count t]))"
  obtains st' t' where "execute_delete env st d = Some (Inr (length (filter P [0..<row_count t])), st')"
    and "tables_of st' = (tables_of st)(del_table d \<mapsto> t')" and "tight t'" and "same_shape t t'"
    and "all_rows t' = map (table_row t) (filter (\<lambda>r. \<not> P r) [0..<row_count t])" and "ds_indexes st' = ds_indexes st"
proof -
  let ?hits = "map P [0..<row_count t]" and ?keep = "filter (\<lambda>r. \<not> P r) [0..<row_count t]"
  have keep: "map (keep_cells ?hits) (columns t) = map (\<lambda>c. Some (map (\<lambda>r. c ! r) ?keep)) (columns t)"
    using assms(2) by (auto simp: keep_cells_def kept_rows_map tight_def list_all_iff)
  have cols: "collect_some (map (keep_cells ?hits) (columns t)) = Some (map (\<lambda>c. map (\<lambda>r. c ! r) ?keep) (columns t))"
    unfolding keep by (auto simp: collect_some_def)
  let ?k = "length (filter P [0..<row_count t])"
  have le: "?k \<le> row_count t" using length_filter_le [of P "[0..<row_count t]"] by simp
  show thesis
  proof (cases "?k = 0")
    case True
    then have none: "filter P [0..<row_count t] = []" by simp
    then have "?keep = [0..<row_count t]" by (auto simp: filter_empty_conv filter_id_conv)
    then have "all_rows t = map (table_row t) ?keep" by (simp add: all_rows_def)
    with that [of st t] assms none show thesis
      by (simp add: execute_delete_def cat_get_tables true_rows_map map_upd_triv)
  next
    case False
    let ?t = "t\<lparr>columns := map (\<lambda>c. map (\<lambda>r. c ! r) ?keep) (columns t), row_count := row_count t - ?k\<rparr>"
    have len: "length ?keep = row_count t - ?k" using filter_not_length [of P "[0..<row_count t]"] by simp
    have shape: "same_shape t ?t" by (simp add: same_shape_def)
    then have "tight ?t" using assms(2) len by (auto simp: tight_def table_ok_def)
    moreover have "all_rows ?t = map (table_row t) ?keep"
      by (rule nth_equalityI) (simp_all add: all_rows_def table_row_def len)
    ultimately show thesis
      using that [of _ ?t] shape assms False cols le
      by (simp add: execute_delete_def cat_get_tables true_rows_map Let_def sub_usize_def)
  qed
qed

section \<open>UPDATE\<close>

definition null_at :: "sql_table \<Rightarrow> nat \<Rightarrow> nat \<Rightarrow> bool" where
  "null_at t r i = (case null_bitmaps t ! i of None \<Rightarrow> False | Some bm \<Rightarrow> is_null bm r)"

text \<open>The NULL flags of a row after the assignments.\<close>

definition assigned_nulls :: "assignment list \<Rightarrow> (nat \<Rightarrow> bool) \<Rightarrow> nat \<Rightarrow> bool" where
  "assigned_nulls as f = fold (\<lambda>(i, _, null) f. f(i := null)) as f"

text \<open>\<open>t'\<close> is \<open>t\<close> with the assignments made in the rows that satisfy \<open>P\<close>.\<close>

definition updated :: "assignment list \<Rightarrow> (nat \<Rightarrow> bool) \<Rightarrow> sql_table \<Rightarrow> sql_table \<Rightarrow> bool" where
  "updated as P t t' \<longleftrightarrow>
     same_shape t t' \<and> tight t' \<and> row_count t' = row_count t \<and> string_columns t' = string_columns t \<and>
     (\<forall>r<row_count t.
        table_row t' r = (if P r then assigned as (table_row t r) else table_row t r) \<and>
        (\<forall>i<length (columns t). null_at t' r i = (if P r then assigned_nulls as (null_at t r) i else null_at t r i)))"

lemma updated_none: "tight t \<Longrightarrow> (\<And>r. r < row_count t \<Longrightarrow> \<not> P r) \<Longrightarrow> updated as P t t"
  by (simp add: updated_def)

lemma assigned_nulls_cong:
  "(\<And>i. i < n \<Longrightarrow> f i = g i) \<Longrightarrow> i < n \<Longrightarrow> assigned_nulls as f i = assigned_nulls as g i"
proof (induction as arbitrary: f g)
  case (Cons a as)
  obtain j v b where "a = (j, v, b)" by (cases a)
  moreover have "assigned_nulls as (f(j := b)) i = assigned_nulls as (g(j := b)) i"
    using Cons.prems by (intro Cons.IH) auto
  ultimately show ?case by (simp add: assigned_nulls_def)
qed (simp add: assigned_nulls_def)

lemma is_null_pad: "is_null (pad_bitmap r bm) k = is_null bm k"
  by (auto simp: is_null_def pad_bitmap_def nth_append)

lemma is_null_set:
  "is_null (set_null (pad_bitmap r bm) r) k = (k = r \<or> is_null bm k)"
  "is_null (set_non_null (pad_bitmap r bm) r) k = (k \<noteq> r \<and> is_null bm k)"
  using is_null_pad [of r bm k]
  by (auto simp: is_null_def set_null_def set_non_null_def pad_bitmap_def nth_list_update split: if_splits)

lemma is_null_new: "\<not> is_null (nb_new n) k"
  by (simp add: is_null_def nb_new_def)

lemma update_cell:
  assumes "tight t" and "i < length (columns t)" and "r < row_count t"
  shows "updated [(i, v, null)] (\<lambda>k. k = r) t (update_null_flag r i null (t\<lparr>columns := (columns t)[i := (columns t ! i)[r := v]]\<rparr>))"
    (is "updated _ _ t ?t")
proof -
  have nb: "i < length (null_bitmaps t)" using assms by (simp add: tight_def table_ok_def)
  have cols: "columns ?t = (columns t)[i := (columns t ! i)[r := v]]" "row_count ?t = row_count t" "string_columns ?t = string_columns t"
    by (simp_all add: update_null_flag_def)
  have shape: "same_shape t ?t" by (simp add: same_shape_def update_null_flag_def)
  have "tight ?t"
    by (rule tight_shape [OF tightD(1) [OF assms(1)] shape])
      (use assms tightD(2) [OF assms(1)] in \<open>auto simp: cols nth_list_update\<close>)
  moreover have "table_row ?t k = (if k = r then (table_row t k)[i := v] else table_row t k)" if "k < row_count t" for k
    using that assms tightD(2) [OF assms(1)]
    by (intro nth_equalityI) (auto simp: table_row_def cols nth_list_update)
  moreover have "null_at ?t k j = (if k = r \<and> j = i then null else null_at t k j)" if "j < length (columns t)" for k j
    using nb that by (auto simp: null_at_def update_null_flag_def nth_list_update is_null_set is_null_new split: option.splits)
  ultimately show ?thesis using shape by (auto simp: updated_def cols assigned_def assigned_nulls_def)
qed

lemma updated_seq:
  assumes "updated as P t u" and "updated bs P u v"
  shows "updated (as @ bs) P t v"
proof -
  have "assigned_nulls bs (null_at u r) i = assigned_nulls bs (assigned_nulls as (null_at t r)) i"
    if "P r" "r < row_count t" "i < length (columns t)" for r i
    using that assms(1) by (intro assigned_nulls_cong [of "length (columns t)"]) (auto simp: updated_def)
  with assms show ?thesis
    by (auto simp: updated_def same_shape_def assigned_def assigned_nulls_def)
qed

lemma updated_rows:
  assumes "updated as P t u" and "updated as Q u v" and "\<And>r. r < row_count t \<Longrightarrow> \<not> (P r \<and> Q r)"
  shows "updated as (\<lambda>r. P r \<or> Q r) t v"
proof -
  have "assigned_nulls as (null_at u r) i = assigned_nulls as (null_at t r) i"
    if "\<not> P r" "r < row_count t" "i < length (columns t)" for r i
    using that assms(1) by (intro assigned_nulls_cong [of "length (columns t)"]) (auto simp: updated_def)
  with assms show ?thesis
    by (auto simp: updated_def same_shape_def)
qed

lemma update_row_updated:
  "tight t \<Longrightarrow> list_all (\<lambda>(i, _). i < length (columns t)) as \<Longrightarrow> r < row_count t \<Longrightarrow>
     \<exists>t'. update_row as r t = Some t' \<and> updated as (\<lambda>k. k = r) t t'"
proof (induction as arbitrary: t)
  case Nil
  then show ?case by (simp add: updated_def assigned_def assigned_nulls_def)
next
  case (Cons a as)
  obtain i v null where a: "a = (i, v, null)" by (cases a)
  let ?u = "update_null_flag r i null (t\<lparr>columns := (columns t)[i := (columns t ! i)[r := v]]\<rparr>)"
  have i: "i < length (columns t)" "r < length (columns t ! i)" using Cons.prems a tightD(2) by auto
  have u: "updated [a] (\<lambda>k. k = r) t ?u" using update_cell Cons.prems i a by simp
  then have "tight ?u" "list_all (\<lambda>(i, _). i < length (columns ?u)) as" "r < row_count ?u"
    using Cons.prems by (simp_all add: updated_def same_shape_def)
  from Cons.IH [OF this] obtain t' where "update_row as r ?u = Some t'" "updated as (\<lambda>k. k = r) ?u t'" by blast
  with updated_seq [OF u] a i show ?case by auto
qed

lemma update_rows_updated:
  "tight t \<Longrightarrow> list_all (\<lambda>(i, _). i < length (columns t)) as \<Longrightarrow> k + length hits = row_count t \<Longrightarrow>
     \<exists>t'. update_rows as k hits t = Some t' \<and> updated as (\<lambda>r. k \<le> r \<and> hits ! (r - k)) t t'"
proof (induction hits arbitrary: k t)
  case Nil
  then show ?case using updated_none by auto
next
  case (Cons b hits)
  obtain u where u: "(if b then update_row as k t else Some t) = Some u" "updated as (\<lambda>r. b \<and> r = k) t u"
    using update_row_updated [OF Cons.prems(1,2), of k] updated_none [OF Cons.prems(1), of "\<lambda>_. False"] Cons.prems(3) by (cases b) auto
  then have "tight u" "list_all (\<lambda>(i, _). i < length (columns u)) as" "k + 1 + length hits = row_count u"
    using Cons.prems by (auto simp: updated_def same_shape_def)
  from Cons.IH [OF this] obtain v where v: "update_rows as (k + 1) hits u = Some v" "updated as (\<lambda>r. k + 1 \<le> r \<and> hits ! (r - (k + 1))) u v"
    by blast
  have "updated as (\<lambda>r. (b \<and> r = k) \<or> (k + 1 \<le> r \<and> hits ! (r - (k + 1)))) t v"
    using updated_rows [OF u(2) v(2)] by auto
  moreover have "(\<lambda>r. (b \<and> r = k) \<or> (k + 1 \<le> r \<and> hits ! (r - (k + 1)))) = (\<lambda>r. k \<le> r \<and> (b # hits) ! (r - k))"
    by (rule ext) (auto simp: nth_Cons' Suc_le_eq dest: le_neq_implies_less)
  ultimately show ?case using u(1) v(1) by auto
qed

lemma update_assigns_bound:
  "table_ok t \<Longrightarrow> update_assigns env t xs = Some (Inr as) \<Longrightarrow> list_all (\<lambda>(i, _). i < length (columns t)) as"
  by (induction xs arbitrary: as) (auto simp: map_result_Inr dest: column_idx_less split: option.splits)

lemma update_statement_rows:
  assumes "tables_of st (upd_table u) = Some t" and "tight t" and "update_assigns env t (upd_assignments u) = Some (Inr as)"
    and "row_mask env t (upd_where u) = Some (Inr (map P [0..<row_count t]))"
  obtains st' t' where "execute_update env st u = Some (Inr (length (filter P [0..<row_count t])), st')"
    and "tables_of st' = (tables_of st)(upd_table u \<mapsto> t')" and "updated as P t t'" and "ds_indexes st' = ds_indexes st"
proof -
  have len: "length (null_bitmaps t) = length (columns t)" using assms(2) by (simp add: tight_def table_ok_def)
  obtain t' where t': "update_rows as 0 (map P [0..<row_count t]) t = Some t'" "updated as (\<lambda>r. map P [0..<row_count t] ! r) t t'"
    using update_rows_updated [OF assms(2) update_assigns_bound [OF tightD(1) [OF assms(2)] assms(3)], of 0 "map P [0..<row_count t]"] by auto
  have "updated as P t t'" using t'(2) by (simp add: updated_def)
  then show thesis using that assms t'(1) len by (simp add: execute_update_def cat_get_tables true_rows_map)
qed

section \<open>INSERT\<close>

text \<open>NULL bitmaps and string sidecars that have one entry per row.\<close>

definition aligned :: "sql_table \<Rightarrow> bool" where
  "aligned t \<longleftrightarrow>
     (\<forall>i<length (columns t).
        (case null_bitmaps t ! i of None \<Rightarrow> True | Some bm \<Rightarrow> length (nulls bm) = row_count t) \<and>
        (case string_columns t ! i of None \<Rightarrow> True | Some ss \<Rightarrow> string_col t i \<longrightarrow> length ss = row_count t))"

definition text_at :: "sql_table \<Rightarrow> nat \<Rightarrow> nat \<Rightarrow> string" where
  "text_at t r i = (case string_columns t ! i of None \<Rightarrow> [] | Some ss \<Rightarrow> sidecar_get ss r)"

lemma aligned_empty: "aligned (empty_table name cols)"
  by (simp add: aligned_def empty_table_def)

subsection \<open>What a statement does to one column\<close>

type_synonym column_view = "u64 list \<times> null_bitmap option \<times> string list"

definition view :: "insert_state \<Rightarrow> nat \<Rightarrow> column_view" where
  "view st i = (columns (fst st) ! i, null_bitmaps (fst st) ! i, snd st i)"

definition push_flag :: "nat \<Rightarrow> bool \<Rightarrow> null_bitmap option \<Rightarrow> null_bitmap option" where
  "push_flag n null b =
     (if null then Some (push_null (case b of None \<Rightarrow> nb_new n | Some bm \<Rightarrow> bm)) else map_option push_non_null b)"

definition push_value :: "dml_env \<Rightarrow> nat \<Rightarrow> bool \<Rightarrow> string \<Rightarrow> column_view \<Rightarrow> column_view" where
  "push_value env n str v cv =
     (case cv of (c, b, ss) \<Rightarrow>
        (c @ [the (parse_value_cell env v)], push_flag n (is_null_text v) b, if str then ss @ [value_text v] else ss))"

lemma push_value_apply [simp]:
  "push_value env n str v (c, b, ss) =
     (c @ [the (parse_value_cell env v)], push_flag n (is_null_text v) b, if str then ss @ [value_text v] else ss)"
  by (simp add: push_value_def)

text \<open>What inserting never changes.\<close>

definition kept :: "insert_state \<Rightarrow> insert_state \<Rightarrow> bool" where
  "kept st st' \<longleftrightarrow>
     same_shape (fst st) (fst st') \<and> row_count (fst st') = row_count (fst st) \<and> string_columns (fst st') = string_columns (fst st)"

lemma kept_refl [simp]: "kept st st"
  by (simp add: kept_def)

lemma kept_trans: "kept st su \<Longrightarrow> kept su sv \<Longrightarrow> kept st sv"
  by (auto simp: kept_def elim: same_shape_trans)

lemma kept_string_col: "kept st st' \<Longrightarrow> string_col (fst st') i = string_col (fst st) i"
  by (simp add: kept_def same_shape_def string_col_def)

definition balanced :: "insert_state \<Rightarrow> bool" where
  "balanced st \<longleftrightarrow> length (null_bitmaps (fst st)) = length (columns (fst st))"

lemma kept_balanced: "kept st st' \<Longrightarrow> balanced st' = balanced st \<and> length (columns (fst st')) = length (columns (fst st))"
  by (simp add: kept_def balanced_def same_shape_def)

lemma insert_cell_view:
  assumes "balanced st" and "i < length (columns (fst st))" and "parse_value_cell env v \<noteq> None"
  obtains st' where "insert_cell env n i v st = Some st'" and "kept st st'"
    and "view st' i = push_value env n (string_col (fst st) i) v (view st i)" and "\<And>k. k \<noteq> i \<Longrightarrow> view st' k = view st k"
proof -
  obtain t si where st: "st = (t, si)" by (cases st)
  obtain cell where cell: "parse_value_cell env v = Some cell" using assms(3) by auto
  let ?null = "is_null_text v"
  let ?t = "t\<lparr>columns := (columns t)[i := columns t ! i @ [cell]], null_bitmaps := (null_bitmaps t)[i := push_flag n ?null (null_bitmaps t ! i)]\<rparr>"
  let ?st = "(?t, if string_col t i then si(i := si i @ [value_text v]) else si)"
  have "insert_cell env n i v st = Some ?st"
    using assms cell by (auto simp: st insert_cell_def push_null_flag_def push_flag_def balanced_def Let_def)
  then show thesis
    by (rule that) (use assms cell in \<open>auto simp: st kept_def same_shape_def view_def push_value_def balanced_def\<close>)
qed

lemma insert_row_view:
  "balanced st \<Longrightarrow> distinct is \<Longrightarrow> (\<And>i. i \<in> set is \<Longrightarrow> i < length (columns (fst st))) \<Longrightarrow> length is \<le> length vs \<Longrightarrow>
   list_all (\<lambda>v. parse_value_cell env v \<noteq> None) vs \<Longrightarrow>
     \<exists>st'. insert_row env n is vs st = Some st' \<and> kept st st' \<and>
       (\<forall>j<length is. view st' (is ! j) = push_value env n (string_col (fst st) (is ! j)) (vs ! j) (view st (is ! j))) \<and>
       (\<forall>k. k \<notin> set is \<longrightarrow> view st' k = view st k)"
proof (induction env n "is" vs st rule: insert_row.induct)
  case (3 env n i "is" v vs st)
  obtain su where su: "insert_cell env n i v st = Some su" "kept st su"
      "view su i = push_value env n (string_col (fst st) i) v (view st i)" "\<And>k. k \<noteq> i \<Longrightarrow> view su k = view st k"
    using insert_cell_view [of st i env v n] "3.prems" by auto
  have "balanced su" "\<And>k. k \<in> set is \<Longrightarrow> k < length (columns (fst su))"
    using kept_balanced [OF su(2)] "3.prems" by auto
  with "3.IH" [OF su(1)] "3.prems" obtain st' where st': "insert_row env n is vs su = Some st'" "kept su st'"
      "\<And>j. j < length is \<Longrightarrow> view st' (is ! j) = push_value env n (string_col (fst su) (is ! j)) (vs ! j) (view su (is ! j))"
      "\<And>k. k \<notin> set is \<Longrightarrow> view st' k = view su k" by auto
  have other: "view su (is ! j) = view st (is ! j)" if "j < length is" for j
    using that "3.prems"(2) by (intro su(4)) (auto simp: in_set_conv_nth)
  have "view st' ((i # is) ! j) = push_value env n (string_col (fst st) ((i # is) ! j)) ((v # vs) ! j) (view st ((i # is) ! j))"
    if "j < length (i # is)" for j
    using that "3.prems"(2) su st' other kept_string_col [OF su(2)] by (cases j) auto
  moreover have "view st' k = view st k" if "k \<notin> set (i # is)" for k using that su st' by auto
  ultimately show ?case using su(1) st'(1) kept_trans [OF su(2) st'(2)] by (intro exI [of _ st']) simp
qed simp_all

lemma insert_rows_view:
  "balanced st \<Longrightarrow> distinct is \<Longrightarrow> (\<And>i. i \<in> set is \<Longrightarrow> i < length (columns (fst st))) \<Longrightarrow>
   list_all (\<lambda>vs. length is \<le> length vs \<and> list_all (\<lambda>v. parse_value_cell env v \<noteq> None) vs) rows \<Longrightarrow>
     \<exists>st'. insert_rows env n is rows st = Some st' \<and> kept st st' \<and>
       (\<forall>j<length is. view st' (is ! j) = fold (push_value env n (string_col (fst st) (is ! j))) (map (\<lambda>vs. vs ! j) rows) (view st (is ! j))) \<and>
       (\<forall>k. k \<notin> set is \<longrightarrow> view st' k = view st k)"
proof (induction rows arbitrary: st)
  case (Cons vs rows)
  then obtain su where su: "insert_row env n is vs st = Some su" "kept st su"
      "\<And>j. j < length is \<Longrightarrow> view su (is ! j) = push_value env n (string_col (fst st) (is ! j)) (vs ! j) (view st (is ! j))"
      "\<And>k. k \<notin> set is \<Longrightarrow> view su k = view st k"
    using insert_row_view [of st "is" vs env n] by auto
  have "balanced su" "\<And>k. k \<in> set is \<Longrightarrow> k < length (columns (fst su))"
    using kept_balanced [OF su(2)] Cons.prems by auto
  with Cons.IH [of su] Cons.prems obtain st' where st': "insert_rows env n is rows su = Some st'" "kept su st'"
      "\<And>j. j < length is \<Longrightarrow> view st' (is ! j) = fold (push_value env n (string_col (fst su) (is ! j))) (map (\<lambda>vs. vs ! j) rows) (view su (is ! j))"
      "\<And>k. k \<notin> set is \<Longrightarrow> view st' k = view su k" by auto
  then show ?case using su kept_trans [OF su(2) st'(2)] kept_string_col [OF su(2)] by (intro exI [of _ st']) simp
qed simp

subsection \<open>The values of a column\<close>

lemma push_values_cells:
  "fst (fold (push_value env n str) vs (c, b, ss)) = c @ map (\<lambda>v. the (parse_value_cell env v)) vs"
  by (cases str; induction vs arbitrary: c b ss) simp_all

lemma push_values_texts:
  "snd (snd (fold (push_value env n str) vs (c, b, ss))) = (if str then ss @ map value_text vs else ss)"
  by (cases str; induction vs arbitrary: c b ss) simp_all

lemma push_values_flags:
  "fst (snd (fold (push_value env n str) vs (c, Some bm, ss))) = Some \<lparr>nulls = nulls bm @ map is_null_text vs\<rparr>"
proof (induction vs arbitrary: c bm ss)
  case (Cons v vs)
  then show ?case by (cases str) (simp_all add: push_flag_def push_null_def push_non_null_def)
next
  case Nil
  then show ?case by (cases bm) simp
qed

lemma push_values_no_flags:
  "list_all (\<lambda>v. \<not> is_null_text v) vs \<Longrightarrow> fst (snd (fold (push_value env n str) vs (c, None, ss))) = None"
  by (cases str; induction vs arbitrary: c ss) (simp_all add: push_flag_def)

lemma push_values_first_flag:
  "is_null_text v \<Longrightarrow> fst (snd (fold (push_value env n str) (v # vs) (c, None, ss))) = Some \<lparr>nulls = replicate n False @ map is_null_text (v # vs)\<rparr>"
  using push_values_flags [of env n str "v # vs" c "nb_new n" ss] by (cases str) (simp_all add: push_flag_def nb_new_def)

text \<open>A column without a NULL bitmap can only receive its first NULL in the first row of the statement.\<close>

definition flags_ready :: "null_bitmap option \<Rightarrow> string list \<Rightarrow> bool" where
  "flags_ready b vs \<longleftrightarrow> b \<noteq> None \<or> list_all (\<lambda>v. \<not> is_null_text v) vs \<or> (vs \<noteq> [] \<and> is_null_text (hd vs))"

definition flag_at :: "null_bitmap option \<Rightarrow> nat \<Rightarrow> bool" where
  "flag_at b r = (case b of None \<Rightarrow> False | Some bm \<Rightarrow> is_null bm r)"

lemma push_values_flag_at:
  assumes "flags_ready b vs" and "case b of None \<Rightarrow> True | Some bm \<Rightarrow> length (nulls bm) = n"
    and "b' = fst (snd (fold (push_value env n str) vs (c, b, ss)))"
  shows "case b' of None \<Rightarrow> True | Some bm \<Rightarrow> length (nulls bm) = n + length vs"
    and "r < n \<Longrightarrow> flag_at b' r = flag_at b r" and "k < length vs \<Longrightarrow> flag_at b' (n + k) = is_null_text (vs ! k)"
proof -
  have *: "(case b' of None \<Rightarrow> True | Some bm \<Rightarrow> length (nulls bm) = n + length vs) \<and>
    (r < n \<longrightarrow> flag_at b' r = flag_at b r) \<and> (k < length vs \<longrightarrow> flag_at b' (n + k) = is_null_text (vs ! k))"
  proof (cases b)
    case (Some bm)
    then show ?thesis using assms(2,3) by (simp add: push_values_flags flag_at_def is_null_def nth_append)
  next
    case None
    show ?thesis
    proof (cases "list_all (\<lambda>v. \<not> is_null_text v) vs")
      case True
      then show ?thesis using assms(3) None by (simp add: push_values_no_flags flag_at_def list_all_length)
    next
      case False
      with assms(1) None obtain v us where vs: "vs = v # us" "is_null_text v" by (cases vs) (auto simp: flags_ready_def)
      have "b' = Some \<lparr>nulls = replicate n False @ map is_null_text vs\<rparr>"
        using push_values_first_flag [OF vs(2)] assms(3) None vs(1) by simp
      then show ?thesis using None by (simp add: flag_at_def is_null_def nth_append)
    qed
  qed
  then show "case b' of None \<Rightarrow> True | Some bm \<Rightarrow> length (nulls bm) = n + length vs"
    and "r < n \<Longrightarrow> flag_at b' r = flag_at b r" and "k < length vs \<Longrightarrow> flag_at b' (n + k) = is_null_text (vs ! k)" by auto
qed

subsection \<open>The sidecars\<close>

lemma merge_sidecars_columns:
  "distinct is \<Longrightarrow> (\<And>i. i \<in> set is \<Longrightarrow> i < length (string_columns t) \<and> length (si i) \<le> row_count t) \<Longrightarrow>
     \<exists>scs. merge_sidecars si is t = Some (t\<lparr>string_columns := scs\<rparr>) \<and> length scs = length (string_columns t) \<and>
       (\<forall>i. scs ! i = (if i \<in> set is \<and> si i \<noteq> [] then merge_strings (row_count t) (si i) (string_columns t ! i) else string_columns t ! i))"
proof (induction "is" arbitrary: t)
  case Nil
  then show ?case by (intro exI [of _ "string_columns t"]) simp
next
  case (Cons i "is")
  show ?case
  proof (cases "si i = []")
    case True
    with Cons.IH [of t] Cons.prems obtain scs where "merge_sidecars si is t = Some (t\<lparr>string_columns := scs\<rparr>)"
      "length scs = length (string_columns t)"
      "\<And>k. scs ! k = (if k \<in> set is \<and> si k \<noteq> [] then merge_strings (row_count t) (si k) (string_columns t ! k) else string_columns t ! k)" by auto
    with True show ?thesis by (intro exI [of _ scs]) auto
  next
    case False
    have i: "i < length (string_columns t)" "length (si i) \<le> row_count t" using Cons.prems by auto
    obtain ss where ss: "merge_strings (row_count t) (si i) (string_columns t ! i) = Some ss"
      using i(2) by (cases "string_columns t ! i") (auto simp: merge_strings_def)
    let ?u = "t\<lparr>string_columns := (string_columns t)[i := Some ss]\<rparr>"
    from Cons.IH [of ?u] Cons.prems obtain scs where scs: "merge_sidecars si is ?u = Some (?u\<lparr>string_columns := scs\<rparr>)"
      "length scs = length (string_columns t)"
      "\<And>k. scs ! k = (if k \<in> set is \<and> si k \<noteq> [] then merge_strings (row_count t) (si k) ((string_columns t)[i := Some ss] ! k)
         else (string_columns t)[i := Some ss] ! k)" by auto
    have "scs ! k = (if k \<in> set (i # is) \<and> si k \<noteq> [] then merge_strings (row_count t) (si k) (string_columns t ! k) else string_columns t ! k)" for k
      using scs(3) [of k] ss i(1) False Cons.prems(1) by (cases "k = i") auto
    moreover have "merge_sidecars si (i # is) t = Some (t\<lparr>string_columns := scs\<rparr>)" using False i ss scs(1) by simp
    ultimately show ?thesis using scs(2) by blast
  qed
qed

definition side_text :: "string list option \<Rightarrow> nat \<Rightarrow> string" where
  "side_text b r = (case b of None \<Rightarrow> [] | Some ss \<Rightarrow> sidecar_get ss r)"

lemma merge_strings_text:
  assumes "case b of None \<Rightarrow> True | Some ss \<Rightarrow> length ss = n" and "b' = merge_strings (n + length new) new b"
  shows "case b' of None \<Rightarrow> True | Some ss \<Rightarrow> length ss = n + length new"
    and "r < n \<Longrightarrow> side_text b' r = side_text b r" and "k < length new \<Longrightarrow> side_text b' (n + k) = new ! k"
  using assms by (auto simp: merge_strings_def side_text_def sidecar_get_def nth_append split: option.splits)

subsection \<open>The statement\<close>

lemma null_at_flag: "null_at t r i = flag_at (null_bitmaps t ! i) r"
  by (simp add: null_at_def flag_at_def)

lemma text_at_side: "text_at t r i = side_text (string_columns t ! i) r"
  by (simp add: text_at_def side_text_def)

text \<open>\<open>t'\<close> is \<open>t\<close> with the rows appended: the old rows keep their cells, flags and strings, and the value at position \<open>j\<close> of a new
  row is in the column \<open>is ! j\<close>.\<close>

definition inserted :: "dml_env \<Rightarrow> nat list \<Rightarrow> string list list \<Rightarrow> sql_table \<Rightarrow> sql_table \<Rightarrow> bool" where
  "inserted env is rows t t' \<longleftrightarrow>
     same_shape t t' \<and> tight t' \<and> aligned t' \<and> row_count t' = row_count t + length rows \<and>
     (\<forall>r<row_count t. table_row t' r = table_row t r \<and>
        (\<forall>i<length (columns t). null_at t' r i = null_at t r i \<and> text_at t' r i = text_at t r i)) \<and>
     (\<forall>k<length rows. \<forall>j<length is.
        Some (table_row t' (row_count t + k) ! (is ! j)) = parse_value_cell env (rows ! k ! j) \<and>
        null_at t' (row_count t + k) (is ! j) = is_null_text (rows ! k ! j) \<and>
        (string_col t (is ! j) \<longrightarrow> text_at t' (row_count t + k) (is ! j) = value_text (rows ! k ! j)))"

lemma inserted_columns:
  assumes "tight t" and "aligned t" and "set is = {..<length (columns t)}"
    and "list_all (\<lambda>vs. length is \<le> length vs \<and> list_all (\<lambda>v. parse_value_cell env v \<noteq> None) vs) rows"
    and "\<And>j. j < length is \<Longrightarrow> flags_ready (null_bitmaps t ! (is ! j)) (map (\<lambda>vs. vs ! j) rows)"
    and "same_shape t t'" and "row_count t' = row_count t + length rows"
    and cols: "\<And>j. j < length is \<Longrightarrow> columns t' ! (is ! j) = columns t ! (is ! j) @ map (\<lambda>v. the (parse_value_cell env v)) (map (\<lambda>vs. vs ! j) rows)"
    and flags: "\<And>j. j < length is \<Longrightarrow> null_bitmaps t' ! (is ! j) =
      fst (snd (fold (push_value env (row_count t) (string_col t (is ! j))) (map (\<lambda>vs. vs ! j) rows) (columns t ! (is ! j), null_bitmaps t ! (is ! j), [])))"
    and texts: "\<And>j. j < length is \<Longrightarrow> string_columns t' ! (is ! j) =
      (if string_col t (is ! j) \<and> rows \<noteq> [] then merge_strings (row_count t + length rows) (map value_text (map (\<lambda>vs. vs ! j) rows)) (string_columns t ! (is ! j))
       else string_columns t ! (is ! j))"
  shows "inserted env is rows t t'"
proof -
  let ?n = "row_count t" and ?k = "length rows" and ?vs = "\<lambda>j. map (\<lambda>vs. vs ! j) rows"
  have len: "length (columns t') = length (columns t)" using assms(6) by (simp add: same_shape_def)
  have pos: "\<exists>j<length is. i = is ! j" if "i < length (columns t)" for i
    using that assms(3) by (metis in_set_conv_nth lessThan_iff)
  have bound: "is ! j < length (columns t)" if "j < length is" for j using that assms(3) nth_mem by blast
  have col_len: "length (columns t ! (is ! j)) = ?n" if "j < length is" for j using bound [OF that] tightD(2) [OF assms(1)] by simp
  have tight: "tight t'"
  proof (rule tight_shape [OF tightD(1) [OF assms(1)] assms(6)])
    fix i assume "i < length (columns t)"
    from pos [OF this] show "length (columns t' ! i) = row_count t'" using cols col_len assms(7) by auto
  qed
  have al: "case null_bitmaps t ! (is ! j) of None \<Rightarrow> True | Some bm \<Rightarrow> length (nulls bm) = ?n"
      "string_col t (is ! j) \<Longrightarrow> case string_columns t ! (is ! j) of None \<Rightarrow> True | Some ss \<Rightarrow> length ss = ?n" if "j < length is" for j
    using assms(2) bound [OF that] by (auto simp: aligned_def split: option.splits)
  note flag = push_values_flag_at [OF assms(5) al(1) flags]
  have str: "string_col t' i = string_col t i" for i using assms(6) by (simp add: string_col_def same_shape_def)
  have side: "case string_columns t' ! (is ! j) of None \<Rightarrow> True | Some ss \<Rightarrow> string_col t (is ! j) \<longrightarrow> length ss = ?n + ?k"
      "r < ?n \<Longrightarrow> side_text (string_columns t' ! (is ! j)) r = side_text (string_columns t ! (is ! j)) r"
      "k < ?k \<Longrightarrow> string_col t (is ! j) \<Longrightarrow> side_text (string_columns t' ! (is ! j)) (?n + k) = value_text (rows ! k ! j)"
    if "j < length is" for j r k
    using merge_strings_text [OF al(2) [OF that], of "string_columns t' ! (is ! j)" "map value_text (?vs j)"] texts [OF that] al(2) [OF that]
    by (auto split: option.splits if_splits)
  have "aligned t'"
    unfolding aligned_def len str assms(7)
  proof (intro allI impI)
    fix i assume "i < length (columns t)"
    with pos obtain j where "j < length is" "i = is ! j" by blast
    then show "(case null_bitmaps t' ! i of None \<Rightarrow> True | Some bm \<Rightarrow> length (nulls bm) = ?n + ?k) \<and>
      (case string_columns t' ! i of None \<Rightarrow> True | Some ss \<Rightarrow> string_col t i \<longrightarrow> length ss = ?n + ?k)"
      using flag(1) [of j] side(1) [of j] by (auto split: option.splits)
  qed
  moreover have "table_row t' r = table_row t r" if "r < ?n" for r
  proof (rule nth_equalityI)
    fix i assume "i < length (table_row t' r)"
    then have i: "i < length (columns t)" by (simp add: table_row_def len)
    with pos obtain j where "j < length is" "i = is ! j" by blast
    then show "table_row t' r ! i = table_row t r ! i" using i that cols [of j] col_len [of j] by (simp add: table_row_def len nth_append)
  qed (simp add: table_row_def len)
  moreover have "null_at t' r i = null_at t r i \<and> text_at t' r i = text_at t r i" if "r < ?n" "i < length (columns t)" for r i
    using pos [OF that(2)] flag(2) that(1) side(2) by (auto simp: null_at_flag text_at_side)
  moreover have "Some (table_row t' (?n + k) ! (is ! j)) = parse_value_cell env (rows ! k ! j)" if "k < ?k" "j < length is" for k j
  proof -
    have "j < length (rows ! k)" "list_all (\<lambda>v. parse_value_cell env v \<noteq> None) (rows ! k)" using assms(4) that by (auto simp: list_all_length)
    then have "parse_value_cell env (rows ! k ! j) \<noteq> None" by (auto simp: list_all_length)
    then show ?thesis using bound [OF that(2)] cols [OF that(2)] col_len [OF that(2)] that(1) by (simp add: table_row_def len nth_append)
  qed
  moreover have "null_at t' (?n + k) (is ! j) = is_null_text (rows ! k ! j)" if "k < ?k" "j < length is" for k j
    using flag(3) [OF that(2) that(2) that(2), of k] that(1) by (simp add: null_at_flag)
  ultimately show ?thesis using assms(6,7) tight side(3) by (auto simp: inserted_def text_at_side)
qed

lemma insert_table:
  assumes "tight t" and "aligned t" and "distinct is" and "set is = {..<length (columns t)}"
    and "list_all (\<lambda>vs. length is \<le> length vs \<and> list_all (\<lambda>v. parse_value_cell env v \<noteq> None) vs) rows"
    and "\<And>j. j < length is \<Longrightarrow> flags_ready (null_bitmaps t ! (is ! j)) (map (\<lambda>vs. vs ! j) rows)"
  obtains u si t' where "insert_rows env (row_count t) is rows (t, \<lambda>_. []) = Some (u, si)"
    and "merge_sidecars si [0..<length (columns u)] (u\<lparr>row_count := row_count t + length rows\<rparr>) = Some t'"
    and "inserted env is rows t t'"
proof -
  let ?n = "row_count t" and ?k = "length rows" and ?vs = "\<lambda>j. map (\<lambda>vs. vs ! j) rows"
  have ok: "table_ok t" using assms(1) by (rule tightD)
  then have bal: "balanced (t, \<lambda>_. [])" by (simp add: balanced_def table_ok_def)
  have idx: "\<And>i. i \<in> set is \<Longrightarrow> i < length (columns (fst (t, \<lambda>_. [])))" using assms(4) by simp
  from insert_rows_view [OF bal assms(3) idx assms(5), of ?n] obtain u si where
      u: "insert_rows env ?n is rows (t, \<lambda>_. []) = Some (u, si)" and kept: "kept (t, \<lambda>_. []) (u, si)"
      and view: "\<And>j. j < length is \<Longrightarrow> view (u, si) (is ! j) =
        fold (push_value env ?n (string_col t (is ! j))) (?vs j) (columns t ! (is ! j), null_bitmaps t ! (is ! j), [])"
    by (auto simp: view_def)
  have u_cols: "columns u ! (is ! j) = columns t ! (is ! j) @ map (\<lambda>v. the (parse_value_cell env v)) (?vs j)"
    and u_flags: "null_bitmaps u ! (is ! j) = fst (snd (fold (push_value env ?n (string_col t (is ! j))) (?vs j) (columns t ! (is ! j), null_bitmaps t ! (is ! j), [])))"
    and u_si: "si (is ! j) = (if string_col t (is ! j) then map value_text (?vs j) else [])" if "j < length is" for j
    using view [OF that] push_values_cells [of env ?n "string_col t (is ! j)" "?vs j" "columns t ! (is ! j)" "null_bitmaps t ! (is ! j)" "[]"]
      push_values_texts [of env ?n "string_col t (is ! j)" "?vs j" "columns t ! (is ! j)" "null_bitmaps t ! (is ! j)" "[]"]
    by (auto simp: view_def dest: sym)
  have shape: "same_shape t u" "row_count u = ?n" "string_columns u = string_columns t" using kept by (simp_all add: kept_def)
  then have len: "length (columns u) = length (columns t)" by (simp add: same_shape_def)
  have pos: "\<exists>j<length is. i = is ! j" if "i < length (columns t)" for i
    using that assms(4) by (metis in_set_conv_nth lessThan_iff)
  let ?u = "u\<lparr>row_count := ?n + ?k\<rparr>"
  have "length (si i) \<le> ?n + ?k" if "i < length (columns t)" for i using pos [OF that] u_si by auto
  with merge_sidecars_columns [of "[0..<length (columns u)]" ?u si] obtain scs where
      scs: "merge_sidecars si [0..<length (columns u)] ?u = Some (?u\<lparr>string_columns := scs\<rparr>)" "length scs = length (string_columns t)"
      "\<And>i. scs ! i = (if i < length (columns t) \<and> si i \<noteq> [] then merge_strings (?n + ?k) (si i) (string_columns t ! i) else string_columns t ! i)"
    using ok by (auto simp: shape len table_ok_def)
  have "is ! j < length (columns t)" if "j < length is" for j using that assms(4) nth_mem by blast
  then have "inserted env is rows t (?u\<lparr>string_columns := scs\<rparr>)"
    by (intro inserted_columns assms)
      (use shape(1) scs(2) ok u_cols u_flags u_si in \<open>auto simp: scs(3) same_shape_def table_ok_def\<close>)
  with that u scs(1) show thesis by blast
qed

end
