(* ===== verification/Dml_Statements.thy ===== *)
theory Dml_Statements
  imports Dml_Rows
begin

text \<open>
  INSERT, UPDATE and DELETE from their SQL text to the rows of the table, and CREATE INDEX up to the lookups that use the index.
  The statements are written with the printer of the theory Sql_Dml; the condition is stored as text by the parser and read
  again by the engine, which needs strings without quotes (\<open>survives\<close>). The last section shows with small tables where the
  code leaves NULL flags, string sidecars, indexes and histories behind.
\<close>

subsection \<open>A small table\<close>

definition demo_hash :: "string \<Rightarrow> u64" where
  "demo_hash s = fold (\<lambda>c h. 31 * h + of_char c) s 7"

definition demo_dml :: dml_env where
  "demo_dml = \<lparr>de_pf = whole_pf, de_hash = demo_hash, de_now = (\<lambda>k. 100 + of_nat k)\<rparr>"

definition demo_users :: sql_table where
  "demo_users = \<lparr>tname = ''users'', columns = [[1, 2, 3], [10, 0, 30]], column_names = [''id'', ''score''], row_count = 3,
     string_columns = [None, None], null_bitmaps = [None, Some \<lparr>nulls = [False, True, False]\<rparr>], schema = None\<rparr>"

definition demo_state :: dml_state where
  "demo_state = \<lparr>ds_catalog = \<lparr>cat_tables = [''users'' \<mapsto> demo_users]\<rparr>, ds_indexes = im_new, ds_temporals = Map.empty\<rparr>"

lemma demo_dml_pf: "de_pf demo_dml = whole_pf"
  by (simp add: demo_dml_def)

lemma demo_users_ok: "tables_of demo_state ''users'' = Some demo_users" "tight demo_users" "aligned demo_users"
  by (simp add: demo_state_def tables_of_def, code_simp, simp add: aligned_def demo_users_def less_Suc_eq)

lemmas demo_float = whole.float_text_axioms [folded demo_dml_pf]

section \<open>From text to rows\<close>

text \<open>The comparisons that the engine reads from the condition of a statement.\<close>

definition reads_condition :: "dml_env \<Rightarrow> parse_env \<Rightarrow> (u64 \<Rightarrow> string) \<Rightarrow> sql_table \<Rightarrow> token list option \<Rightarrow> pred list \<times> bool list \<Rightarrow> bool" where
  "reads_condition env penv sf t w c \<longleftrightarrow>
     (case w of
        None \<Rightarrow> c = ([], [])
      | Some ws \<Rightarrow>
          list_all (survives penv sf) ws \<and> (ws = [] \<or> hd ws \<noteq> Keyword ''WHERE'') \<and> where_preds env t ws = Some (Inr c))"

lemma survives_no_EOF: "list_all (survives penv sf) ws \<Longrightarrow> list_all (\<lambda>x. x \<noteq> EOF) ws"
  by (auto simp: list_all_iff survives_def)

lemma row_mask_condition:
  assumes "float_text (de_pf env) sf" and "tight t" and "reads_condition env penv sf t w c"
    and "case w of None \<Rightarrow> True | Some ws \<Rightarrow> list_all (valid_token (de_pf env)) ws"
  shows "row_mask env t (map_option (words_text penv) w) = Some (Inr (map (cond_holds t c) [0..<row_count t]))"
proof (cases w)
  case None
  with assms(3) show ?thesis by (simp add: row_mask_def reads_condition_def cond_holds_def [abs_def] map_replicate_const)
next
  case (Some ws)
  with assms have "tokenize (de_pf env) (words_text penv ws) = Inr (ws @ [EOF])"
    using words_text_read by (auto simp: reads_condition_def)
  with Some assms(2,3) survives_no_EOF show ?thesis
    by (auto simp: row_mask_def reads_condition_def intro!: eval_where_holds)
qed

lemma execute_dml_printed:
  assumes "float_text (de_pf env) sf" and "list_all (valid_token (de_pf env)) (print_dml src)" and "wf_dml src"
  shows "execute_dml_text env penv st (print_tokens sf (print_dml src)) = Some (execute_dml env st (dml_of penv src))"
proof -
  have "tokenize (de_pf env) (print_tokens sf (print_dml src)) = Inr (print_dml src @ [EOF])"
    using float_text.tokenize_print [OF assms(1,2)] .
  from parse_dml_tokens [OF this assms(3)] show ?thesis by (simp add: execute_dml_text_def)
qed

lemma printed_condition_valid:
  "list_all P (print_dml src) \<Longrightarrow> case dml_condition src of None \<Rightarrow> True | Some ws \<Rightarrow> list_all P ws"
  using condition_valid by (auto split: option.splits)


definition demo_delete :: dml_source where
  "demo_delete = Delete_src (None, ''users'') (Some [Ident ''id'', Op ''='', Int_lit 1, Keyword ''OR'', Ident ''score'', Op ''>'', Int_lit 20])"

definition demo_delete_cond :: "pred list \<times> bool list" where
  "demo_delete_cond = ([\<lparr>p_col = 0, p_op = ''='', p_cell = 1, p_string = None\<rparr>, \<lparr>p_col = 1, p_op = ''>'', p_cell = 20, p_string = None\<rparr>], [False])"


text \<open>C10: An UPDATE statement executed from its text makes its assignments, cell and NULL flag, in exactly the rows that satisfy
  its condition, reports their number, and changes no other row, no number of rows and no other table.\<close>

theorem update_statement_correct:
  assumes "float_text (de_pf env) sf" and "list_all (valid_token (de_pf env)) (print_dml (Update_src n xs w))" and "wf_dml (Update_src n xs w)"
    and "tables_of st (full_name n) = Some t" and "tight t" and "reads_condition env penv sf t w c"
    and "update_assigns env t (map (\<lambda>(c, e). (c, words_text penv e)) xs) = Some (Inr as)"
  shows "\<exists>st' t'. execute_dml_text env penv st (print_tokens sf (print_dml (Update_src n xs w))) =
      Some (Some (Inr (length (filter (cond_holds t c) [0..<row_count t])), st')) \<and>
    tables_of st' = (tables_of st)(full_name n \<mapsto> t') \<and> updated as (cond_holds t c) t t'"
proof -
  let ?u = "\<lparr>upd_table = full_name n, upd_assignments = map (\<lambda>(c, e). (c, words_text penv e)) xs, upd_where = map_option (words_text penv) w\<rparr>"
  have "row_mask env t (upd_where ?u) = Some (Inr (map (cond_holds t c) [0..<row_count t]))"
    using row_mask_condition [OF assms(1,5,6)] printed_condition_valid [OF assms(2)] by simp
  from update_statement_rows [of st ?u t env as "cond_holds t c"] this assms(4,5,7) show ?thesis
    using execute_dml_printed [OF assms(1-3), of penv st] by (force simp: execute_dml_def)
qed

definition demo_set :: dml_source where
  "demo_set = Update_src (None, ''users'') [(''score'', [Int_lit 7])] (Some [Ident ''id'', Op ''>='', Int_lit 2])"

theorem update_statement_correct_witness:
  "\<exists>st' t'. execute_dml_text demo_dml demo_env demo_state (print_tokens whole_sf (print_dml demo_set)) = Some (Some (Inr 2, st')) \<and>
     tables_of st' = (tables_of demo_state)(''users'' \<mapsto> t') \<and> table_row t' 0 = [1, 10] \<and> table_row t' 1 = [2, 7] \<and> \<not> null_at t' 1 1"
proof -
  let ?c = "([\<lparr>p_col = 0, p_op = ''>='', p_cell = 2, p_string = None\<rparr>], [])" and ?as = "[(1, 7, False)]"
  have eq: "print_dml demo_set = [Keyword ''UPDATE'', Ident ''users'', Keyword ''SET'', Ident ''score'', Op ''='', Int_lit 7, Keyword ''WHERE'',
      Ident ''id'', Op ''>='', Int_lit 2]" by code_simp
  have valid: "list_all (valid_token (de_pf demo_dml)) (print_dml demo_set)"
    unfolding demo_dml_pf by (simp only: eq list.pred_inject valid_token.simps simp_thms) code_simp
  have wf: "wf_dml demo_set" by (simp add: demo_set_def is_expr_token_def)
  have "where_preds demo_dml demo_users [Ident ''id'', Op ''>='', Int_lit 2] = Some (Inr ?c)" by code_simp
  then have reads: "reads_condition demo_dml demo_env whole_sf demo_users (Some [Ident ''id'', Op ''>='', Int_lit 2]) ?c"
    by (simp add: reads_condition_def survives_def)
  have as: "update_assigns demo_dml demo_users (map (\<lambda>(c, e). (c, words_text demo_env e)) [(''score'', [Int_lit 7])]) = Some (Inr ?as)" by code_simp
  have rows: "row_count demo_users = 3" "length (columns demo_users) = 2" "filter (cond_holds demo_users ?c) [0..<3] = [1, 2]"
    "\<not> cond_holds demo_users ?c 0" "cond_holds demo_users ?c 1"
    "table_row demo_users 0 = [1, 10]" "assigned ?as (table_row demo_users 1) = [2, 7]" "\<not> assigned_nulls ?as (null_at demo_users 1) 1"
    by code_simp+
  obtain st' t' where "execute_dml_text demo_dml demo_env demo_state (print_tokens whole_sf (print_dml demo_set)) = Some (Some (Inr 2, st'))"
      "tables_of st' = (tables_of demo_state)(''users'' \<mapsto> t')" and t': "updated ?as (cond_holds demo_users ?c) demo_users t'"
    using update_statement_correct [OF demo_float valid [unfolded demo_set_def] wf [unfolded demo_set_def] _ demo_users_ok(2) reads as, of demo_state]
      demo_users_ok(1) rows(1,3) by (auto simp: demo_set_def full_name_def)
  moreover have "table_row t' 0 = [1, 10]" "table_row t' 1 = [2, 7]" "\<not> null_at t' 1 1"
    using t' rows unfolding updated_def by auto
  ultimately show ?thesis by blast
qed

text \<open>C9: An INSERT statement that gives a value for every column appends its rows: each value is in the column it was written for, with
  its NULL flag and, for a string column, its string, and the rows that were there keep their cells, flags and strings. The
  table stays tight and its sidecars aligned. A column whose first NULL comes in a later row of the statement is excluded.\<close>

theorem insert_statement_correct:
  assumes "float_text (de_pf env) sf" and "list_all (valid_token (de_pf env)) (print_dml (Insert_src n cols rows))" and "wf_dml (Insert_src n cols rows)"
    and "tables_of st (full_name n) = Some t" and "tight t" and "aligned t"
    and "insert_indices t cols = Inr is" and "distinct is" and "set is = {..<length (columns t)}"
    and "vals = map (map (token_word penv)) rows" and "list_all (\<lambda>vs. length vs = length is \<and> list_all (\<lambda>v. parse_value_cell env v \<noteq> None) vs) vals"
    and "\<forall>j<length is. flags_ready (null_bitmaps t ! (is ! j)) (map (\<lambda>vs. vs ! j) vals)"
  shows "\<exists>st' t'. execute_dml_text env penv st (print_tokens sf (print_dml (Insert_src n cols rows))) = Some (Some (Inr (length rows), st')) \<and>
    tables_of st' = (tables_of st)(full_name n \<mapsto> t') \<and> inserted env is vals t t'"
proof -
  have rows: "vals \<noteq> []" "length vals = length rows" using assms(3,10) by auto
  have head: "length is = (case vals of [] \<Rightarrow> 0 | r # _ \<Rightarrow> length r)" using rows(1) assms(11) by (cases vals) simp_all
  have "list_all (\<lambda>vs. length is \<le> length vs \<and> list_all (\<lambda>v. parse_value_cell env v \<noteq> None) vs) vals"
    using assms(11) by (auto simp: list_all_iff)
  from insert_table [OF assms(5,6,8,9) this] assms(12) obtain u si t' where
      "insert_rows env (row_count t) is vals (t, \<lambda>_. []) = Some (u, si)"
      "merge_sidecars si [0..<length (columns u)] (u\<lparr>row_count := row_count t + length vals\<rparr>) = Some t'" "inserted env is vals t t'" by blast
  with assms(4,7,10) head rows(2) show ?thesis
    using execute_dml_printed [OF assms(1-3), of penv st] by (auto simp: execute_dml_def execute_insert_def cat_get_tables Let_def)
qed

definition demo_insert :: dml_source where
  "demo_insert = Insert_src (None, ''users'') (Some [''score'', ''id'']) [[Keyword ''NULL'', Int_lit 4], [Int_lit 50, Int_lit 5]]"

theorem insert_statement_correct_witness:
  "\<exists>st' t'. execute_dml_text demo_dml demo_env demo_state (print_tokens whole_sf (print_dml demo_insert)) = Some (Some (Inr 2, st')) \<and>
     tables_of st' = (tables_of demo_state)(''users'' \<mapsto> t') \<and> table_row t' 4 ! 0 = 5 \<and> table_row t' 4 ! 1 = 50 \<and> null_at t' 3 1 \<and> null_at t' 1 1"
proof -
  let ?rows = "[[Keyword ''NULL'', Int_lit 4], [Int_lit 50, Int_lit 5]]" and ?vals = "[[''NULL'', ''4''], [''50'', ''5'']]"
  have eq: "print_dml demo_insert = [Keyword ''INSERT'', Keyword ''INTO'', Ident ''users'', LParen, Ident ''score'', Comma, Ident ''id'', RParen,
      Keyword ''VALUES'', LParen, Keyword ''NULL'', Comma, Int_lit 4, RParen, Comma, LParen, Int_lit 50, Comma, Int_lit 5, RParen]" by code_simp
  have valid: "list_all (valid_token (de_pf demo_dml)) (print_dml demo_insert)"
    unfolding demo_dml_pf by (simp only: eq list.pred_inject valid_token.simps simp_thms) code_simp
  have wf: "wf_dml demo_insert" by code_simp
  have idx: "insert_indices demo_users (Some [''score'', ''id'']) = Inr [1, 0]" by code_simp
  have len: "row_count demo_users = 3" "length (columns demo_users) = 2" "null_at demo_users 1 1" by code_simp+
  have set: "set [1, 0::nat] = {..<length (columns demo_users)}" using len(2) by auto
  have vals: "?vals = map (map (token_word demo_env)) ?rows" by code_simp
  have cells: "list_all (\<lambda>vs. length vs = length [1, 0::nat] \<and> list_all (\<lambda>v. parse_value_cell demo_dml v \<noteq> None) vs) ?vals"
    "parse_value_cell demo_dml ''50'' = Some 50" "parse_value_cell demo_dml ''5'' = Some 5" "is_null_text ''NULL''" by code_simp+
  have ready: "\<forall>j<length [1, 0::nat]. flags_ready (null_bitmaps demo_users ! ([1, 0] ! j)) (map (\<lambda>vs. vs ! j) ?vals)" by code_simp
  obtain st' t' where "execute_dml_text demo_dml demo_env demo_state (print_tokens whole_sf (print_dml demo_insert)) = Some (Some (Inr 2, st'))"
      "tables_of st' = (tables_of demo_state)(''users'' \<mapsto> t')" and t': "inserted demo_dml [1, 0] ?vals demo_users t'"
    using insert_statement_correct [OF demo_float valid [unfolded demo_insert_def] wf [unfolded demo_insert_def] _ demo_users_ok(2,3) idx _ set vals cells(1) ready, of demo_state]
      demo_users_ok(1) by (auto simp: demo_insert_def full_name_def)
  have new: "k < 2 \<Longrightarrow> j < 2 \<Longrightarrow> Some (table_row t' (3 + k) ! ([1, 0] ! j)) = parse_value_cell demo_dml (?vals ! k ! j) \<and>
      null_at t' (3 + k) ([1, 0] ! j) = is_null_text (?vals ! k ! j)" for k j
    using t' len by (simp add: inserted_def)
  have "table_row t' 4 ! 0 = 5" "table_row t' 4 ! 1 = 50" "null_at t' 3 1" "null_at t' 1 1"
    using new [of 1 1] new [of 1 0] new [of 0 0] cells t' len by (simp_all add: inserted_def)
  with \<open>tables_of st' = _\<close> \<open>execute_dml_text _ _ _ _ = _\<close> show ?thesis by blast
qed

section \<open>Indexes\<close>

text \<open>C29: After CREATE INDEX on a column of a table, the index answers every point query on the column: the lookup returns the
  columns of the SELECT list for exactly the rows whose cell is the cell of the literal, in the order of the table and up to
  the LIMIT.\<close>

theorem create_index_lookup:
  assumes "tables_of st (ci_table ci) = Some t" and "tight t" and "im_by_name (ds_indexes st) (ci_index_name ci) = None"
    and "column_idx t (ci_column ci) = Some i" and "q_from q = ci_table ci" and "point_query t q (ci_column ci) lit"
  shows "\<exists>st'. execute_ddl env st (Create_index ci) = Some (Inr 0, st') \<and> ds_catalog st' = ds_catalog st \<and>
    (let rs = take (case q_limit q of None \<Rightarrow> row_count t | Some n \<Rightarrow> n) (rows_with (columns t ! i) (literal_to_cell hash lit))
     in try_indexed_lookup hash (ds_catalog st') (ds_indexes st') q =
          Some (Some (Inr (map (rows_column t rs) (concat (map (item_columns t) (q_select q))), length rs))))"
proof -
  have i: "i < length (columns t)" using column_idx_less [OF tightD(1) [OF assms(2)] assms(4)] by simp
  let ?m = "build_hash_index (create_named (ds_indexes st) (ci_index_name ci) (ci_table ci) (ci_column ci) Hash (card (set (columns t ! i))))
      (ci_table ci) (ci_column ci) (columns t ! i)"
  have "execute_ddl env st (Create_index ci) = Some (Inr 0, st\<lparr>ds_indexes := ?m\<rparr>)"
    using assms(1,3,4) i by (simp add: execute_ddl_def execute_create_index_def cat_get_tables)
  moreover have "fresh_index ?m t (q_from q) (ci_column ci)"
    using assms(4,5) by (simp add: fresh_index_def build_hash_index_def create_named_def has_index_def)
  ultimately show ?thesis
    using indexed_lookup_fresh [of "ds_catalog st" q t ?m "ci_column ci" i lit _ hash] assms
    by (auto simp: Let_def cat_get_tables tight_def)
qed

definition demo_ci :: create_index where
  "demo_ci = \<lparr>ci_index_name = ''ix'', ci_table = ''users'', ci_column = ''id'', ci_if_not_exists = False\<rparr>"

definition demo_point :: "sql_value \<Rightarrow> select_query" where
  "demo_point v = \<lparr>q_select = [Item_column ''score''], q_from = ''users'', q_joins = [], q_where = Some (Binary (Column ''id'') ''='' (Literal v)),
     q_group_by = [], q_having = None, q_order_by = [], q_limit = None, q_distinct = False\<rparr>"

theorem create_index_lookup_witness:
  "\<exists>st'. execute_ddl demo_dml demo_state (Create_index demo_ci) = Some (Inr 0, st') \<and>
     try_indexed_lookup demo_hash (ds_catalog st') (ds_indexes st') (demo_point (VInt 3)) =
       Some (Some (Inr ([\<lparr>rc_name = ''score'', rc_values = [30], rc_strings = None, rc_nulls = Some [False]\<rparr>], 1)))"
proof -
  have ci: "ci_table demo_ci = ''users''" "ci_index_name demo_ci = ''ix''" "ci_column demo_ci = ''id''" by (simp_all add: demo_ci_def)
  have free: "im_by_name (ds_indexes demo_state) (ci_index_name demo_ci) = None" by (simp add: demo_state_def im_new_def)
  have col: "column_idx demo_users (ci_column demo_ci) = Some 0" by code_simp
  have q: "q_from (demo_point (VInt 3)) = ci_table demo_ci" "point_query demo_users (demo_point (VInt 3)) (ci_column demo_ci) (VInt 3)" by code_simp+
  have tab: "tables_of demo_state (ci_table demo_ci) = Some demo_users" using demo_users_ok(1) ci by simp
  have rs: "take (case q_limit (demo_point (VInt 3)) of None \<Rightarrow> row_count demo_users | Some n \<Rightarrow> n)
      (rows_with (columns demo_users ! 0) (literal_to_cell demo_hash (VInt 3))) = [2]" by code_simp
  have out: "map (rows_column demo_users [2]) (concat (map (item_columns demo_users) (q_select (demo_point (VInt 3))))) =
      [\<lparr>rc_name = ''score'', rc_values = [30], rc_strings = None, rc_nulls = Some [False]\<rparr>]" by code_simp
  show ?thesis
    using create_index_lookup [OF tab demo_users_ok(2) free col q, of demo_dml demo_hash] unfolding Let_def rs out by auto
qed

section \<open>What the statements leave behind\<close>

text \<open>The table \<open>users\<close> after a statement; \<open>None\<close> when the statement panics.\<close>

definition after :: "dml_state \<Rightarrow> dml_statement \<Rightarrow> sql_table option" where
  "after st s = (case execute_dml demo_dml st s of None \<Rightarrow> None | Some (_, st') \<Rightarrow> tables_of st' ''users'')"

definition insert_users :: "string list option \<Rightarrow> string list list \<Rightarrow> dml_statement" where
  "insert_users cols rows = Insert \<lparr>ins_table = ''users'', ins_columns = cols, ins_values = rows\<rparr>"

definition delete_users :: "string \<Rightarrow> dml_statement" where
  "delete_users w = Delete \<lparr>del_table = ''users'', del_where = Some w\<rparr>"

definition update_users :: "(string \<times> string) list \<Rightarrow> string \<Rightarrow> dml_statement" where
  "update_users as w = Update \<lparr>upd_table = ''users'', upd_assignments = as, upd_where = Some w\<rparr>"

text \<open>A column that the statement does not name receives no value for the new row, not even a default.\<close>

lemma insert_subset_short:
  "map_option (\<lambda>t. (columns t, row_count t)) (after demo_state (insert_users (Some [''id'']) [[''4'']])) = Some ([[1, 2, 3, 4], [10, 0, 30]], 4)"
  by code_simp

text \<open>The first NULL of a column, in the second row of a statement, is recorded for the first row.\<close>

lemma late_null_misplaced:
  "map_option (\<lambda>t. (columns t ! 0, null_at t 3 0, null_at t 4 0)) (after demo_state (insert_users None [[''4'', ''40''], [''NULL'', ''50'']])) =
     Some ([1, 2, 3, 4, 0], True, False)"
  by code_simp

text \<open>Only the length of the first row is compared with the columns: a shorter row after it is an index panic.\<close>

lemma short_row_panics: "after demo_state (insert_users None [[''4'', ''40''], [''5'']]) = None"
  by code_simp

text \<open>DELETE compacts the cells and not the NULL bitmaps: the NULL of the row with id 2 moves to the row with id 3.\<close>

lemma delete_shifts_nulls:
  "map_option (\<lambda>t. (all_rows t, null_at t 0 1, null_at t 1 1)) (after demo_state (delete_users ''id = 1'')) = Some ([[2, 0], [3, 30]], False, True)"
  by code_simp

definition demo_named :: dml_state where
  "demo_named = \<lparr>ds_catalog = \<lparr>cat_tables = [''users'' \<mapsto> \<lparr>tname = ''users'', columns = [[1, 2], [demo_hash ''ann'', demo_hash ''bob'']],
     column_names = [''id'', ''name''], row_count = 2, string_columns = [None, Some [''ann'', ''bob'']], null_bitmaps = [None, None], schema = None\<rparr>]\<rparr>,
     ds_indexes = im_new, ds_temporals = [''users'' \<mapsto> tt_insert 60 [2, demo_hash ''bob''] (tt_insert 50 [1, demo_hash ''ann''] (tt_new 40 [''id'', ''name'']))]\<rparr>"

text \<open>Nor the string sidecars: the row with id 2 now reads as the deleted row's name.\<close>

lemma delete_shifts_strings:
  "map_option (\<lambda>t. (columns t ! 0, text_at t 0 1)) (after demo_named (delete_users ''id = 1'')) = Some ([2], ''ann'')"
  by code_simp

text \<open>UPDATE writes the hash of a new string into the cell and leaves the old string in the sidecar.\<close>

lemma update_keeps_string:
  "map_option (\<lambda>t. (columns t ! 1 ! 0 = demo_hash ''eve'', text_at t 0 1)) (after demo_named (update_users [(''name'', quoted ''eve'')] ''id = 1'')) = Some (True, ''ann'')"
  by code_simp

text \<open>Conditions ignore the NULL flags: a NULL, whose cell is 0, satisfies \<open>score < 5\<close>.\<close>

lemma null_satisfies_condition:
  "map_option (\<lambda>t. columns t ! 0) (after demo_state (delete_users ''score < 5'')) = Some [1, 3]"
  by code_simp

text \<open>Cells are compared as unsigned numbers: -1 is not below 5.\<close>

lemma negative_cell_large: "\<not> compare_by ''<'' (<) (word_of_int (- 1) :: u64) 5"
  by (simp add: compare_by_def)

text \<open>The parser has removed the escapes of a literal when the engine replaces doubled quotes once more: the string kept for
  \<open>a''b\<close> has a single quote, while the cell is the hash of the string with both.\<close>

lemma quotes_unescaped_twice:
  "value_text (token_word demo_env (String_lit [CHR ''a'', CHR 0x27, CHR 0x27, CHR ''b''])) = [CHR ''a'', CHR 0x27, CHR ''b'']"
  "parse_value_cell demo_dml (token_word demo_env (String_lit [CHR ''a'', CHR 0x27, CHR 0x27, CHR ''b''])) =
     Some (demo_hash [CHR ''a'', CHR 0x27, CHR 0x27, CHR ''b''])"
  by code_simp+

text \<open>DML does not maintain the indexes: a row inserted after CREATE INDEX is not found through the index.\<close>

lemma index_misses_inserted:
  "case execute_ddl demo_dml demo_state (Create_index demo_ci) of
     Some (Inr _, st) \<Rightarrow>
       (case execute_dml demo_dml st (insert_users None [[''4'', ''40'']]) of
          Some (Inr _, st') \<Rightarrow>
            map_option (\<lambda>t. rows_with (columns t ! 0) 4) (tables_of st' ''users'') = Some [3] \<and>
            map_option (map_option (map_sum id snd)) (try_indexed_lookup demo_hash (ds_catalog st') (ds_indexes st') (demo_point (VInt 4))) = Some (Some (Inr 0))
        | _ \<Rightarrow> False)
   | _ \<Rightarrow> False"
  by code_simp

text \<open>The history is updated with the key that the row has after the UPDATE: a statement that changes the key leaves the old version
  of the row current.\<close>

lemma history_misses_key_change:
  "case execute_dml demo_dml demo_named (update_users [(''id'', ''9'')] ''id = 1'') of
     Some (Inr _, st) \<Rightarrow>
       map_option (\<lambda>t. columns t ! 0) (tables_of st ''users'') = Some [9, 2] \<and>
       map_option (\<lambda>tt. (map (hd \<circ> fst) (tt_current tt), tt_history tt)) (ds_temporals st ''users'') = Some ([1, 2], [])
   | _ \<Rightarrow> False"
  by code_simp

end
