(* ===== verification/Spec2Isabelle.thy ===== *)
theory Spec2Isabelle
  imports Sstable Coordinator Bitmap_Kernels Leapfrog Datetime Engine Sql_Print Exec_Join Bit_Sliced Zone_Map Morsel_Exec Dml_Statements
begin

text \<open>
  A verification development for TensorVault, the analytical SQL engine under src/ (paths below are relative to
  src/src/).

  \<^bold>\<open>The program.\<close> A SQL text is tokenized (sql/lexer.rs) and parsed (sql/parser.rs); the engine (engine/mod.rs) routes
  the statement, runs it against its catalog of in-memory column tables (datasource/table.rs, catalog/mod.rs) or, inside
  a transaction (txn/), against a snapshot, and appends it to a statement log (storage/recovery.rs) from which the
  catalog is rebuilt when the engine is opened. SELECT goes through the join phase (engine/executor.rs, exec/join.rs) or
  the interpreter (engine/tpch.rs), whose hash joins use exec/join_hash_table.rs and exec/bloom_filter.rs; filters work
  on row bitmaps (exec/bitmap.rs), zone maps (exec/zone_map.rs) and a bit-sliced index (index/bsi.rs). Below are the
  storage formats (storage/page.rs, sstable.rs, buffer_pool.rs, wal.rs), the commit protocol with its hybrid clock
  (protocol/), and a kernel layer (kernel/, memory/, executor/) that picks a scan kernel by CPU and memory tier and runs
  it on regions and morsels.

  \<^bold>\<open>Conventions.\<close> Structs are records, enums are datatypes, methods are functions that take the receiver and return it
  updated. Machine integers are words and wrap as in a release build; lengths and indices that the code cannot overflow
  are natural numbers. \<open>None\<close> is a panic, an error of the source is the left side of a sum. Third-party code and the
  operating system (bytemuck, xxh3, the time, base64 and JSON crates, wall clocks, file system calls, CPU detection, the
  iteration order of hash maps) are arguments; what the source relies on is a locale with the documented laws, and
  the theorems that need it are also instantiated on a concrete function. An \<open>f64\<close> is its bit pattern, an \<open>AVX\<close>
  register a list of lanes.

  \<^bold>\<open>Theories, in the order of the layers.\<close>

  \<^item> TV_Prelude, Text: words, byte encodings, list windows, the error type; the string functions of the standard library.
  \<^item> Crc32c, Crc32c_Order, Page (storage/page.rs): the two CRC paths agree; the shift register has a period longer than a
    page has bits, so a single flipped bit is always found and repaired, two are always reported, and every answer
    of \<open>verify_and_correct\<close> means what it says on an arbitrary page. The header cast is the locale \<open>pod_codec\<close>.
  \<^item> Sstable (storage/sstable.rs): writer and reader round trip, binary search for the floor page.
  \<^item> Buffer_Pool (storage/buffer_pool.rs): the pool refines a page store through evictions; flushing persists it; the
    clock sweep finds a victim within two turns or panics because all frames are pinned.
  \<^item> Tier, Wal (memory/tier.rs, storage/wal.rs): every crash image at or after the last fsync reads back as a prefix of the
    appended records that contains all synced ones; zone bookkeeping.
  \<^item> Hlc_Clock, Coordinator (protocol/): happens-before implies smaller timestamps; commit timestamps increase and
    committed records survive crashes. The contract of both coordinators is the locale \<open>commit_clock\<close>.
  \<^item> Tables, Txn (types/null_bitmap.rs, datasource/table.rs, catalog/mod.rs, txn/): table invariants, snapshot visibility
    and atomicity of the multi-version manager.
  \<^item> Recovery, Engine (storage/recovery.rs, engine/mod.rs): the statement log round trips on any text; at every reachable
    state reopening restores exactly the committed catalog; redo of physical page changes is idempotent.
  \<^item> Lexer, Sql_Parser, Sql_Print (sql/lexer.rs, sql/parser.rs): the tokenizer and the parser read printed tokens and
    queries back, and the parser returns on every token list.
  \<^item> Sql_Dml, Sql_Ddl (sql/dml.rs, sql/ddl.rs): INSERT, UPDATE, DELETE, CREATE, DROP and ALTER statements written as text are
    parsed back. A condition is stored as text; \<open>survives\<close> names the tokens for which reading it again gives the same.
  \<^item> Temporal (exec/temporal.rs): a query AS OF a time returns the rows that the operations up to that time had left.
  \<^item> Indexes (schema/table_schema.rs, index/manager.rs, \<open>try_indexed_lookup\<close> of engine/mod.rs): column types, the hash index
    manager and the indexed fast path of SELECT, which on a fresh index returns what a scan returns.
  \<^item> Dml_Exec, Dml_Rows, Dml_Statements (\<open>execute_ddl\<close>, \<open>execute_dml\<close> and their helpers in engine/mod.rs): Dml_Exec translates the
    execution of DDL and DML on the catalog, the indexes and the temporal tables; Dml_Rows shows what each operation does to
    the rows of a table whose columns all have \<open>row_count\<close> cells (\<open>tight\<close>), with the condition read row by row;
    Dml_Statements joins this with the parser into theorems from SQL text to rows, and evaluates on small tables the cases
    in which NULL flags, sidecars, indexes and histories are left behind.
  \<^item> Hash_Join, Join_Table, Exec_Join (exec/join.rs, engine/executor.rs, exec/join_hash_table.rs, exec/bloom_filter.rs,
    engine/tpch.rs): the hash joins equal nested-loop joins; the hash table is a multimap. The contract between the
    table and the join is a locale.
  \<^item> Bitmap, Bitmap_Kernels, Zone_Map, Bit_Sliced (exec/bitmap.rs, exec/zone_map.rs, index/bsi.rs): filters and
    combinators compute the row-wise operation on the vector and on the scalar path, and the two indexes return exactly
    the rows of a range or a value.
  \<^item> Leapfrog (kernel/leapfrog.rs): the join over any iterator with the contract of the trait returns and gives the
    intersection.
  \<^item> Civil_Year, Datetime (types/datetime.rs): the fast-path year is the Gregorian year for every i32 day, dates and
    intervals; the time crate is the locale \<open>calendar\<close>.
  \<^item> Kernels, Regions, Morsel_Exec (kernel/mod.rs, scan.rs, similarity.rs, cpu.rs, aggregate.rs, memory/region.rs,
    manager.rs, executor/): every kernel that selection can return counts the same cells, the LRU manager keeps its
    lists, the scheduler counts the cells of a region, and the round-robin dispatcher serves every worker.

  \<^bold>\<open>Bounds and fuel.\<close> Loops whose end is not structural carry a termination proof. The SQL parser takes fuel: nested
  expressions use one unit each and every loop turn consumes a token, so the length of the token list is enough, which
  is proved. The leapfrog loop is a partial function and is proved to return. EXEC of a stored procedure recurses with
  fuel in Engine because a procedure can call itself without end. Hypotheses such as fewer than \<open>2 ^ 64\<close> clock events or
  capacities below \<open>2 ^ 32\<close> exclude counter overflows that no run reaches.

  \<^bold>\<open>Not modelled.\<close> The planner (planner/), the sketches (sketch/), tensor-train compression (compress/), schema inference
  (the rest of schema/), adaptive routing (executor/adaptive.rs, eddy.rs) and the float aggregates work on \<open>f64\<close> costs, estimates
  and sums, for which there is no IEEE arithmetic to evaluate in. The server (server/) is socket I/O and third-party
  cryptography; memory/numa.rs and memory/bandwidth.rs query the operating system. The executors for single clauses
  (window frames, PIVOT, MERGE, procedures, JSON, LIKE), EXPLAIN text and view storage are not modelled. The theory Engine, which
  is about logging and recovery, takes the effect of one statement as a parameter. Most of engine/tpch.rs
  beyond its join layer is expression evaluation and aggregation on floats and strings. Benches, examples and tests are
  not part of the program.
\<close>

end
